(* ===== verification/Prelude.thy ===== *)
theory Prelude
  imports Main "HOL-Library.Word" "HOL-Library.AList" "HOL-Library.Multiset"
    "HOL-Library.Monad_Syntax"
begin

text \<open>
  What the components share: Go maps as association lists with distinct keys, head and last
  element of a list as an optional value, the sentinel errors, and the values a cache stores.

  A Go map is a list of bindings whose keys are distinct. The language leaves the order of a
  \<open>range\<close> over a map open; the model visits the bindings in the order of the list, and a lemma
  that holds for every such list holds for every order of visit. \<open>len(m)\<close> is the length of the
  list. A nil dereference, an index out of range or an explicit \<open>panic\<close> of the source is the
  value \<open>None\<close> of the option type of the operation.
\<close>

named_theorems gomap_simps
named_theorems gomap_intros

section \<open>Go maps\<close>

type_synonym ('k, 'v) gomap = "('k \<times> 'v) list"

definition gm_wf :: "('k, 'v) gomap \<Rightarrow> bool" where
  "gm_wf m \<longleftrightarrow> distinct (map fst m)"

definition gm_set :: "'k \<Rightarrow> 'v \<Rightarrow> ('k, 'v) gomap \<Rightarrow> ('k, 'v) gomap" where
  "gm_set k v m = AList.update k v m"

definition gm_del :: "'k \<Rightarrow> ('k, 'v) gomap \<Rightarrow> ('k, 'v) gomap" where
  "gm_del k m = AList.delete k m"

lemma gm_wf_Nil [simp, gomap_intros]: "gm_wf []"
  by (simp add: gm_wf_def)

lemma gm_wf_Cons [simp]: "gm_wf ((k, v) # m) \<longleftrightarrow> k \<notin> fst ` set m \<and> gm_wf m"
  by (auto simp: gm_wf_def)

lemma gm_set_Nil [simp]: "gm_set k v [] = [(k, v)]"
  by (simp add: gm_set_def)

lemma gm_set_Cons [simp]:
  "gm_set k v ((k', v') # m) = (if k' = k then (k, v) # m else (k', v') # gm_set k v m)"
  by (simp add: gm_set_def)

lemma gm_del_Nil [simp]: "gm_del k [] = []"
  by (simp add: gm_del_def)

lemma gm_del_Cons [simp]:
  "gm_del k ((k', v') # m) = (if k = k' then gm_del k m else (k', v') # gm_del k m)"
  by (simp add: gm_del_def)

lemma gm_wf_set [simp, gomap_intros]: "gm_wf m \<Longrightarrow> gm_wf (gm_set k v m)"
  by (simp add: gm_wf_def gm_set_def distinct_update)

lemma gm_wf_del [simp, gomap_intros]: "gm_wf m \<Longrightarrow> gm_wf (gm_del k m)"
  by (simp add: gm_wf_def gm_del_def distinct_delete)

lemma gm_get_set [gomap_simps]: "map_of (gm_set k v m) = (map_of m)(k \<mapsto> v)"
  by (simp add: gm_set_def update_conv')

lemma gm_get_del [gomap_simps]: "map_of (gm_del k m) = (map_of m)(k := None)"
  by (simp add: gm_del_def delete_conv')

lemma gm_keys_set [gomap_simps]: "fst ` set (gm_set k v m) = insert k (fst ` set m)"
  by (metis dom_fun_upd dom_map_of_conv_image_fst gm_get_set option.distinct(1))

lemma gm_keys_del [gomap_simps]: "fst ` set (gm_del k m) = fst ` set m - {k}"
  by (metis dom_fun_upd dom_map_of_conv_image_fst gm_get_del)

lemma gm_length_set [gomap_simps]:
  "length (gm_set k v m) = (if map_of m k = None then Suc (length m) else length m)"
  by (induction m) auto

lemma gm_del_absent: "map_of m k = None \<Longrightarrow> gm_del k m = m"
  by (induction m) (auto split: if_splits)

lemma gm_length_del [gomap_simps]:
  "gm_wf m \<Longrightarrow> length (gm_del k m) = (if map_of m k = None then length m else length m - 1)"
proof (induction m)
  case (Cons b m)
  obtain k' v' where b: "b = (k', v')" by (cases b)
  show ?case
  proof (cases "k = k'")
    case True
    with Cons.prems b have "map_of m k = None" by (simp add: map_of_eq_None_iff)
    with True b show ?thesis by (simp add: gm_del_absent)
  next
    case False
    have "map_of m k \<noteq> None \<Longrightarrow> 0 < length m" by (cases m) auto
    with False b Cons show ?thesis by auto
  qed
qed simp

lemma gm_length_card: "gm_wf m \<Longrightarrow> length m = card (dom (map_of m))"
  by (metis gm_wf_def distinct_card dom_map_of_conv_image_fst length_map set_map)

lemma gm_in_set_iff: "gm_wf m \<Longrightarrow> (k, v) \<in> set m \<longleftrightarrow> map_of m k = Some v"
  by (simp add: gm_wf_def)

lemma set_gm_del: "set (gm_del k m) = {b \<in> set m. fst b \<noteq> k}"
  by (auto simp: gm_del_def AList.delete_eq)

lemma set_gm_set_new: "map_of m k = None \<Longrightarrow> set (gm_set k v m) = insert (k, v) (set m)"
  by (induction m) (auto split: if_splits)

section \<open>Lists\<close>

definition hd_or :: "'a list \<Rightarrow> 'a option \<Rightarrow> 'a option" where
  "hd_or xs d = (case xs of [] \<Rightarrow> d | x # _ \<Rightarrow> Some x)"

definition last_or :: "'a list \<Rightarrow> 'a option \<Rightarrow> 'a option" where
  "last_or xs d = (if xs = [] then d else Some (last xs))"

lemma hd_or_simps [simp]: "hd_or [] d = d" "hd_or (x # xs) d = Some x"
  by (simp_all add: hd_or_def)

lemma last_or_simps [simp]:
  "last_or [] d = d" "last_or (x # xs) d = last_or xs (Some x)" "last_or (xs @ [x]) d = Some x"
  by (simp_all add: last_or_def)

lemma hd_or_append: "hd_or (xs @ ys) d = hd_or xs (hd_or ys d)"
  by (cases xs) simp_all

lemma last_or_append: "last_or (xs @ ys) d = last_or ys (last_or xs d)"
  by (simp add: last_or_def)

lemma hd_or_None_iff [simp]: "hd_or xs None = None \<longleftrightarrow> xs = []"
  by (cases xs) simp_all

lemma last_or_None_iff [simp]: "last_or xs None = None \<longleftrightarrow> xs = []"
  by (simp add: last_or_def)

lemma hd_or_Some_iff: "hd_or xs None = Some a \<longleftrightarrow> (\<exists>ys. xs = a # ys)"
  by (cases xs) auto

lemma last_or_Some_iff: "last_or xs None = Some a \<longleftrightarrow> (\<exists>ys. xs = ys @ [a])"
  by (auto simp: last_or_def) (metis append_butlast_last_id)

lemma last_or_notin [simp]: "a \<notin> set xs \<Longrightarrow> d \<noteq> Some a \<Longrightarrow> last_or xs d \<noteq> Some a"
  "a \<notin> set xs \<Longrightarrow> d \<noteq> Some a \<Longrightarrow> Some a \<noteq> last_or xs d"
  by (auto simp: last_or_def)

lemma last_or_Some_neq_None [simp]: "last_or xs (Some a) \<noteq> None" "None \<noteq> last_or xs (Some a)"
  by (auto simp: last_or_def)

lemma hd_or_notin [simp]: "a \<notin> set xs \<Longrightarrow> d \<noteq> Some a \<Longrightarrow> hd_or xs d \<noteq> Some a"
  "a \<notin> set xs \<Longrightarrow> d \<noteq> Some a \<Longrightarrow> Some a \<noteq> hd_or xs d"
  by (auto simp: hd_or_def split: list.splits)

section \<open>Errors and values\<close>

text \<open>The sentinel errors of \<open>internal/sentinel\<close>. \<open>ewrap.Wrap\<close> and \<open>ewrap.Wrapf\<close> add a message to
  a sentinel and keep it recognisable by \<open>errors.Is\<close>; the model keeps the sentinel. \<open>ErrText\<close> is any
  other error: one made by \<open>ewrap.New\<close> or \<open>ewrap.Newf\<close>, or one that third-party code returned.\<close>

datatype sentinel =
    ErrInvalidBackendType | ErrInvalidKey | ErrKeyNotFound | ErrNilValue | ErrNilClient
  | ErrKeyExpired | ErrInvalidExpiration | ErrInvalidCapacity | ErrAlgorithmNotFound
  | ErrStatsCollectorNotFound | ErrParamCannotBeEmpty | ErrSerializerNotFound | ErrInvalidSize
  | ErrInvalidMaxCacheSize | ErrCacheFull | ErrBackendNotFound | ErrTimeoutOrCanceled
  | ErrUnauthorized | ErrInsecureAuthConfig | ErrDraining | ErrTypeMismatch | ErrNotOwner
  | ErrQuorumFailed | ErrText string

text \<open>
  A value of type \<open>any\<close>, by what the type switches of the code ask about it: nil, a byte slice, a
  string, a \<open>BinaryMarshaler\<close> (the length of what \<open>MarshalBinary\<close> returns, or its failure), a
  \<open>Sizer\<close> (what \<open>SizeBytes\<close> returns), or any other value, told apart by a number.
\<close>

datatype gval = GNil | GBytes "8 word list" | GString string | GMarshaler "nat option"
  | GSizer int | GOther nat

type_synonym addr = nat

section \<open>Checked conversions\<close>

text \<open>The documented behaviour of \<open>converters.ToUint32\<close>: an error exactly out of range.\<close>

definition toU32_ok :: "(int \<Rightarrow> 32 word option) \<Rightarrow> bool" where
  "toU32_ok toU32 \<longleftrightarrow> (\<forall>n. toU32 n = (if 0 \<le> n \<and> n < 2 ^ 32 then Some (word_of_int n) else None))"

definition checkedU32 :: "int \<Rightarrow> 32 word option" where
  "checkedU32 n = (if 0 \<le> n \<and> n < 2 ^ 32 then Some (word_of_int n) else None)"

lemma checkedU32_ok: "toU32_ok checkedU32"
  by (simp add: toU32_ok_def checkedU32_def)

end
