(* ===== verification/DLL.thy ===== *)
theory DLL
  imports Prelude
begin

text \<open>
  Doubly linked lists in a store of nodes. \<open>pkg/eviction\<close> links its entries with \<open>prev\<close> and \<open>next\<close>
  pointers in three hand-written copies (\<open>lru.go\<close>, \<open>cawolfu.go\<close>, \<open>arc.go\<close>); each copy extends the
  record \<open>links\<close> by its own fields, so the store operations and the representation predicate
  below serve all of them. A pointer is \<open>None\<close> for nil or \<open>Some a\<close> for the address \<open>a\<close>; a read or
  write through nil is \<open>None\<close>, the panic of the source.
\<close>

section \<open>The store\<close>

record links =
  prevp :: "addr option"
  nextp :: "addr option"

type_synonym 'a mem = "addr \<rightharpoonup> 'a links_scheme"

text \<open>A list object: the store, the head pointer and the tail pointer.\<close>

type_synonym 'a dl = "'a mem \<times> addr option \<times> addr option"

definition set_next :: "'a mem \<Rightarrow> addr option \<Rightarrow> addr option \<Rightarrow> 'a mem option" where
  "set_next m p q =
     (case p of None \<Rightarrow> None
      | Some a \<Rightarrow> (case m a of None \<Rightarrow> None | Some n \<Rightarrow> Some (m(a \<mapsto> n\<lparr>nextp := q\<rparr>))))"

definition set_prev :: "'a mem \<Rightarrow> addr option \<Rightarrow> addr option \<Rightarrow> 'a mem option" where
  "set_prev m p q =
     (case p of None \<Rightarrow> None
      | Some a \<Rightarrow> (case m a of None \<Rightarrow> None | Some n \<Rightarrow> Some (m(a \<mapsto> n\<lparr>prevp := q\<rparr>))))"

text \<open>The link part of a store, and that two stores differ in their links only.\<close>

definition lnk :: "'a mem \<Rightarrow> addr \<Rightarrow> (addr option \<times> addr option) option" where
  "lnk m a = map_option (\<lambda>n. (prevp n, nextp n)) (m a)"

definition same_payload :: "'a mem \<Rightarrow> 'a mem \<Rightarrow> bool" where
  "same_payload m m' \<longleftrightarrow> (\<forall>a. map_option links.more (m' a) = map_option links.more (m a))"

lemma lnk_upd [simp]: "lnk (m(a \<mapsto> n)) = (lnk m)(a \<mapsto> (prevp n, nextp n))"
  by (auto simp: lnk_def fun_eq_iff)

lemma lnk_Some: "lnk m a = Some (p, q) \<Longrightarrow> \<exists>n. m a = Some n \<and> prevp n = p \<and> nextp n = q"
  by (auto simp: lnk_def)

lemma lnk_eq_Some: "m a = Some n \<Longrightarrow> lnk m a = Some (prevp n, nextp n)"
  by (simp add: lnk_def)

lemma same_payload_refl [simp]: "same_payload m m"
  by (simp add: same_payload_def)

lemma same_payload_trans [trans]:
  "same_payload m m' \<Longrightarrow> same_payload m' m'' \<Longrightarrow> same_payload m m''"
  by (simp add: same_payload_def)

lemma same_payload_upd [intro]:
  "same_payload m m' \<Longrightarrow> m a = Some n \<Longrightarrow> links.more n' = links.more n \<Longrightarrow> same_payload m (m'(a \<mapsto> n'))"
  by (simp add: same_payload_def)

lemma same_payloadD:
  "same_payload m m' \<Longrightarrow> m a = Some n \<Longrightarrow> \<exists>n'. m' a = Some n' \<and> links.more n' = links.more n"
  by (metis same_payload_def map_option_eq_Some)

section \<open>Linked segments and lists\<close>

fun linked :: "(addr \<Rightarrow> (addr option \<times> addr option) option) \<Rightarrow> addr option \<Rightarrow> addr list
    \<Rightarrow> addr option \<Rightarrow> bool" where
  "linked L pre [] post = True"
| "linked L pre (a # as) post = (L a = Some (pre, hd_or as post) \<and> linked L (Some a) as post)"

definition dll_rep :: "'a dl \<Rightarrow> addr list \<Rightarrow> bool" where
  "dll_rep d ps \<longleftrightarrow> (case d of (m, h, t) \<Rightarrow>
     distinct ps \<and> h = hd_or ps None \<and> t = last_or ps None \<and> linked (lnk m) None ps None)"

lemma linked_append:
  "linked L pre (xs @ ys) post \<longleftrightarrow>
     linked L pre xs (hd_or ys post) \<and> linked L (last_or xs pre) ys post"
  by (induction xs arbitrary: pre) (auto simp: hd_or_append)

lemma linked_cong:
  "(\<And>a. a \<in> set ps \<Longrightarrow> L' a = L a) \<Longrightarrow> linked L' pre ps post = linked L pre ps post"
  by (induction ps arbitrary: pre) auto

lemma linked_upd_other [simp]:
  "a \<notin> set ps \<Longrightarrow> linked (L(a := x)) pre ps post = linked L pre ps post"
  by (rule linked_cong) auto

lemma linked_dom: "linked L pre ps post \<Longrightarrow> a \<in> set ps \<Longrightarrow> \<exists>p q. L a = Some (p, q)"
  by (induction ps arbitrary: pre) auto

lemma linked_mid:
  "linked L pre (xs @ a # ys) post \<Longrightarrow> L a = Some (last_or xs pre, hd_or ys post)"
  by (simp add: linked_append)

lemma dll_repD:
  assumes "dll_rep (m, h, t) ps"
  shows "distinct ps" "h = hd_or ps None" "t = last_or ps None" "linked (lnk m) None ps None"
  using assms by (simp_all add: dll_rep_def)

lemma dll_rep_node: "dll_rep (m, h, t) ps \<Longrightarrow> a \<in> set ps \<Longrightarrow> \<exists>n. m a = Some n"
  using linked_dom lnk_Some by (fastforce simp: dll_rep_def)

lemma dll_rep_Nil [simp]: "dll_rep (m, h, t) [] \<longleftrightarrow> h = None \<and> t = None"
  by (simp add: dll_rep_def)

lemma dll_rep_lnk: "lnk m' = lnk m \<Longrightarrow> dll_rep (m', h, t) ps = dll_rep (m, h, t) ps"
  by (simp add: dll_rep_def)

lemma dll_rep_frame:
  "(\<And>a. a \<in> set ps \<Longrightarrow> lnk m' a = lnk m a) \<Longrightarrow> dll_rep (m', h, t) ps = dll_rep (m, h, t) ps"
  by (simp add: dll_rep_def cong: linked_cong)

lemma dll_rep_upd_other [simp]:
  "a \<notin> set ps \<Longrightarrow> dll_rep (m(a \<mapsto> n), h, t) ps = dll_rep (m, h, t) ps"
  by (simp add: dll_rep_def)

lemma lnk_upd_same:
  "m a = Some n \<Longrightarrow> prevp n' = prevp n \<Longrightarrow> nextp n' = nextp n \<Longrightarrow> lnk (m(a \<mapsto> n')) = lnk m"
  by (auto simp: lnk_def fun_eq_iff)

lemma dll_rep_nil_iff: "dll_rep (m, h, t) ps \<Longrightarrow> (h = None \<longleftrightarrow> ps = []) \<and> (t = None \<longleftrightarrow> ps = [])"
  by (auto simp: dll_rep_def)

text \<open>
  Unlinking the element \<open>a\<close> of \<open>xs @ a # ys\<close>: its left neighbour's next pointer and its right
  neighbour's prev pointer are redirected around it, and nothing else of the links changes
  except at \<open>a\<close> itself. Every copy of the removal code ends in a store whose link part is of
  this form.
\<close>

lemma linked_unlink:
  assumes "linked L None (xs @ a # ys) None" "distinct (xs @ a # ys)"
    and "\<And>b. b \<in> set (butlast xs) \<union> set (tl ys) \<Longrightarrow> L' b = L b"
    and "\<And>b zs. xs = zs @ [b] \<Longrightarrow> L' b = Some (last_or zs None, hd_or ys None)"
    and "\<And>c zs. ys = c # zs \<Longrightarrow> L' c = Some (last_or xs None, hd_or zs None)"
  shows "linked L' None (xs @ ys) None"
proof -
  have "linked L' None xs (hd_or ys None)"
  proof (cases xs rule: rev_cases)
    case (snoc zs b)
    have "linked L' None zs (Some b) = linked L None zs (Some b)"
      by (rule linked_cong) (use assms(2,3) snoc in auto)
    with assms(1,4) snoc show ?thesis by (simp add: linked_append)
  qed simp
  moreover have "linked L' (last_or xs None) ys None"
  proof (cases ys)
    case (Cons c zs)
    have "linked L' (Some c) zs None = linked L (Some c) zs None"
      by (rule linked_cong) (use assms(2,3) Cons in auto)
    with assms(1,5) Cons show ?thesis by (simp add: linked_append)
  qed simp
  ultimately show ?thesis by (simp add: linked_append)
qed

end
