(* ===== verification/EvictionSpec.thy ===== *)
theory EvictionSpec
  imports Prelude
begin

text \<open>
  The contract of \<open>eviction.IAlgorithm\<close> (\<open>pkg/eviction/eviction.go\<close>) and an abstract cache that
  orders its bindings by recency. An algorithm is a state with the four operations of the
  interface; \<open>content\<close> is the map of the keys it tracks. Every operation returns an option, whose
  \<open>None\<close> is a panic; the laws say that under the invariant there is none. \<open>Get\<close> returns
  \<open>(value, true)\<close> or \<open>(nil, false)\<close> and \<open>Evict\<close> returns \<open>(key, true)\<close> or \<open>("", false)\<close>: both are
  options here.
\<close>

section \<open>Runs of operations\<close>

datatype alg_op = OpSet string gval | OpGet string | OpEvict | OpDelete string

datatype alg_res = RUnit | RGet "gval option" | REvict "string option"

fun alg_step :: "('s \<Rightarrow> string \<Rightarrow> gval \<Rightarrow> 's option) \<Rightarrow> ('s \<Rightarrow> string \<Rightarrow> ('s \<times> gval option) option)
    \<Rightarrow> ('s \<Rightarrow> ('s \<times> string option) option) \<Rightarrow> ('s \<Rightarrow> string \<Rightarrow> 's option)
    \<Rightarrow> 's \<Rightarrow> alg_op \<Rightarrow> ('s \<times> alg_res) option" where
  "alg_step st gt ev de s (OpSet k v) = map_option (\<lambda>s'. (s', RUnit)) (st s k v)"
| "alg_step st gt ev de s (OpGet k) = map_option (\<lambda>(s', r). (s', RGet r)) (gt s k)"
| "alg_step st gt ev de s OpEvict = map_option (\<lambda>(s', r). (s', REvict r)) (ev s)"
| "alg_step st gt ev de s (OpDelete k) = map_option (\<lambda>s'. (s', RUnit)) (de s k)"

fun run_ops :: "('s \<Rightarrow> alg_op \<Rightarrow> ('s \<times> alg_res) option) \<Rightarrow> 's \<Rightarrow> alg_op list
    \<Rightarrow> ('s \<times> alg_res list) option" where
  "run_ops step s [] = Some (s, [])"
| "run_ops step s (x # xs) = (case step s x of None \<Rightarrow> None
     | Some (s', r) \<Rightarrow> map_option (\<lambda>(s'', rs). (s'', r # rs)) (run_ops step s' xs))"

section \<open>The interface\<close>

locale eviction_algorithm =
  fixes inv :: "'s \<Rightarrow> bool"
    and cap :: "'s \<Rightarrow> nat"
    and content :: "'s \<Rightarrow> string \<Rightarrow> gval option"
    and set_op :: "'s \<Rightarrow> string \<Rightarrow> gval \<Rightarrow> 's option"
    and get_op :: "'s \<Rightarrow> string \<Rightarrow> ('s \<times> gval option) option"
    and evict_op :: "'s \<Rightarrow> ('s \<times> string option) option"
    and delete_op :: "'s \<Rightarrow> string \<Rightarrow> 's option"
  assumes bounded: "inv s \<Longrightarrow> finite (dom (content s)) \<and> card (dom (content s)) \<le> cap s"
    and set_law: "inv s \<Longrightarrow> \<exists>s'. set_op s k v = Some s' \<and> inv s' \<and> cap s' = cap s \<and>
      (\<forall>k' w. content s' k' = Some w \<longrightarrow> (if k' = k then w = v else content s k' = Some w))"
    and get_law: "inv s \<Longrightarrow> \<exists>s'. get_op s k = Some (s', content s k) \<and> inv s' \<and> cap s' = cap s \<and>
      content s' = content s"
    and evict_law: "inv s \<Longrightarrow> \<exists>s' r. evict_op s = Some (s', r) \<and> inv s' \<and> cap s' = cap s \<and>
      (case r of None \<Rightarrow> content s' = content s
       | Some k \<Rightarrow> k \<in> dom (content s) \<and> content s' = (content s)(k := None))"
    and delete_law: "inv s \<Longrightarrow> \<exists>s'. delete_op s k = Some s' \<and> inv s' \<and> cap s' = cap s \<and>
      content s' = (content s)(k := None)"
begin

lemma set_dom:
  assumes "inv s" "set_op s k v = Some s'"
  shows "inv s'" "cap s' = cap s" "dom (content s') \<subseteq> insert k (dom (content s))"
  using set_law [OF assms(1), of k v] assms(2) by (auto split: if_splits)

lemma evict_SomeD:
  assumes "inv s" "evict_op s = Some (s', Some k)"
  shows "inv s'" "cap s' = cap s" "k \<in> dom (content s)" "content s' = (content s)(k := None)"
  using evict_law [OF assms(1)] assms(2) by auto

lemma evict_NoneD:
  assumes "inv s" "evict_op s = Some (s', None)"
  shows "inv s'" "cap s' = cap s" "content s' = content s"
  using evict_law [OF assms(1)] assms(2) by auto

lemma evict_shrinks:
  assumes "inv s" "evict_op s = Some (s', Some k)"
  shows "card (dom (content s')) < card (dom (content s))"
  using evict_SomeD [OF assms] bounded [OF assms(1)]
  by (metis card_Diff1_less dom_fun_upd)

lemma delete_SomeD:
  assumes "inv s" "delete_op s k = Some s'"
  shows "inv s'" "cap s' = cap s" "content s' = (content s)(k := None)"
  using delete_law [OF assms(1), of k] assms(2) by auto

lemma step_ok:
  assumes "inv s"
  shows "\<exists>s' r. alg_step set_op get_op evict_op delete_op s op = Some (s', r) \<and> inv s' \<and> cap s' = cap s"
  using set_law [OF assms] get_law [OF assms] evict_law [OF assms] delete_law [OF assms]
  by (cases op) fastforce+

lemma run_ok:
  assumes "inv s"
  shows "\<exists>s' rs. run_ops (alg_step set_op get_op evict_op delete_op) s ops = Some (s', rs) \<and> inv s' \<and> cap s' = cap s"
  using assms
proof (induction ops arbitrary: s)
  case (Cons op ops)
  obtain s1 r where 1: "alg_step set_op get_op evict_op delete_op s op = Some (s1, r)" "inv s1" "cap s1 = cap s"
    using step_ok [OF Cons.prems] by blast
  with Cons.IH [OF 1(2)] show ?case by force
qed simp

end

text \<open>
  The stronger contract the callers count on: a \<open>Set\<close> is tracked as long as there is any capacity,
  and \<open>Evict\<close> finds a victim as long as anything is tracked.
\<close>

locale tracking_algorithm = eviction_algorithm +
  assumes set_tracks: "inv s \<Longrightarrow> 0 < cap s \<Longrightarrow> set_op s k v = Some s' \<Longrightarrow> content s' k = Some v"
    and evict_progress:
      "inv s \<Longrightarrow> content s \<noteq> Map.empty \<Longrightarrow> evict_op s = Some (s', r) \<Longrightarrow> r \<noteq> None"
begin

lemma set_then_evict:
  assumes "inv s" "0 < cap s"
  shows "\<exists>s1 s2 j. set_op s k v = Some s1 \<and> evict_op s1 = Some (s2, Some j) \<and>
    j \<in> insert k (dom (content s)) \<and> inv s2"
proof -
  obtain s1 where s1: "set_op s k v = Some s1" "inv s1"
    and sub: "\<forall>k' w. content s1 k' = Some w \<longrightarrow> (if k' = k then w = v else content s k' = Some w)"
    using set_law [OF assms(1), of k v] by blast
  have "content s1 k = Some v" using set_tracks [OF assms s1(1)] .
  then have ne: "content s1 \<noteq> Map.empty" by auto
  obtain s2 r where s2: "evict_op s1 = Some (s2, r)" "inv s2"
    using evict_law [OF s1(2)] by blast
  with evict_progress [OF s1(2) ne s2(1)] obtain j where j: "r = Some j" by blast
  have "j \<in> dom (content s1)" using evict_SomeD(3) [OF s1(2)] s2(1) j by simp
  then have "j \<in> insert k (dom (content s))" using sub by (auto split: if_splits)
  with s1 s2 j show ?thesis by blast
qed

end

section \<open>Simulation\<close>

text \<open>A simulation of one step machine by another that never fails carries over to runs.\<close>

lemma run_ops_simulation:
  assumes "\<And>s x op. R s x \<Longrightarrow> \<exists>s' x' r. step s op = Some (s', r) \<and> stepA x op = Some (x', r) \<and> R s' x'"
    and "R s x"
  shows "\<exists>s' x' rs. run_ops step s ops = Some (s', rs) \<and> run_ops stepA x ops = Some (x', rs) \<and> R s' x'"
  using assms(2)
proof (induction ops arbitrary: s x)
  case (Cons op ops)
  obtain s1 x1 r where 1: "step s op = Some (s1, r)" "stepA x op = Some (x1, r)" "R s1 x1"
    using assms(1) [OF Cons.prems] by blast
  with Cons.IH [OF 1(3)] show ?case by fastforce
qed simp

section \<open>The recency list\<close>

text \<open>
  The abstract cache: the bindings, most recently used first. \<open>LRU\<close> promises this behaviour;
  \<open>recency_run\<close> is its run.
\<close>

type_synonym rlist = "(string \<times> gval) list"

definition without :: "string \<Rightarrow> rlist \<Rightarrow> rlist" where
  "without k xs = filter (\<lambda>p. fst p \<noteq> k) xs"

definition r_set :: "nat \<Rightarrow> rlist \<Rightarrow> string \<Rightarrow> gval \<Rightarrow> rlist option" where
  "r_set c xs k v =
     Some (if c = 0 then xs
           else if k \<in> fst ` set xs then (k, v) # without k xs
           else (k, v) # (if length xs = c then butlast xs else xs))"

definition r_get :: "rlist \<Rightarrow> string \<Rightarrow> (rlist \<times> gval option) option" where
  "r_get xs k =
     Some (case map_of xs k of None \<Rightarrow> (xs, None) | Some v \<Rightarrow> ((k, v) # without k xs, Some v))"

definition r_evict :: "rlist \<Rightarrow> (rlist \<times> string option) option" where
  "r_evict xs = Some (if xs = [] then (xs, None) else (butlast xs, Some (fst (last xs))))"

definition r_delete :: "rlist \<Rightarrow> string \<Rightarrow> rlist option" where
  "r_delete xs k = Some (without k xs)"

definition r_inv :: "nat \<Rightarrow> rlist \<Rightarrow> bool" where
  "r_inv c xs \<longleftrightarrow> distinct (map fst xs) \<and> length xs \<le> c"

abbreviation r_step :: "nat \<Rightarrow> rlist \<Rightarrow> alg_op \<Rightarrow> (rlist \<times> alg_res) option" where
  "r_step c \<equiv> alg_step (r_set c) r_get r_evict r_delete"

lemmas r_ops = r_set_def r_get_def r_evict_def r_delete_def

lemma set_without [simp]: "fst ` set (without k xs) = fst ` set xs - {k}"
  by (auto simp: without_def)

lemma distinct_without: "distinct (map fst xs) \<Longrightarrow> distinct (map fst (without k xs))"
  by (simp add: without_def distinct_map_filter)

lemma without_absent: "k \<notin> fst ` set xs \<Longrightarrow> without k xs = xs"
  unfolding without_def by (rule filter_True) force

lemma length_without_le: "length (without k xs) \<le> length xs"
  by (simp add: without_def)

lemma length_without_less: "k \<in> fst ` set xs \<Longrightarrow> length (without k xs) < length xs"
proof -
  assume "k \<in> fst ` set xs"
  then obtain v where "(k, v) \<in> set xs" by auto
  then show ?thesis unfolding without_def by (rule length_filter_less) simp
qed

lemma map_of_without: "map_of (without k xs) = (map_of xs)(k := None)"
  by (induction xs) (auto simp: without_def)

lemma map_of_SomeD_fst: "map_of xs k = Some v \<Longrightarrow> k \<in> fst ` set xs"
  by (metis dom_map_of_conv_image_fst domI)

lemma map_of_butlast:
  assumes "distinct (map fst xs)" "xs \<noteq> []"
  shows "map_of (butlast xs) = (map_of xs)(fst (last xs) := None)"
proof (cases xs rule: rev_cases)
  case (snoc ys x)
  obtain k v where x: "x = (k, v)" by (cases x)
  with assms snoc have "map_of ys k = None"
    by (simp add: map_of_eq_None_iff)
  with snoc x show ?thesis by (auto simp: fun_eq_iff map_add_def split: option.split)
qed (use assms in simp)

lemma r_inv_without: "r_inv c xs \<Longrightarrow> r_inv c (without k xs)"
  using length_without_le [of k xs] by (auto simp: r_inv_def distinct_without)

lemma r_inv_front: "r_inv c xs \<Longrightarrow> k \<in> fst ` set xs \<Longrightarrow> r_inv c ((k, v) # without k xs)"
  using length_without_less [of k xs] by (simp add: r_inv_def distinct_without)

lemma r_inv_butlast: "r_inv c xs \<Longrightarrow> r_inv c (butlast xs)"
  by (auto simp: r_inv_def map_butlast distinct_butlast)

lemma r_inv_new:
  "r_inv c xs \<Longrightarrow> c \<noteq> 0 \<Longrightarrow> k \<notin> fst ` set xs \<Longrightarrow>
   r_inv c ((k, v) # (if length xs = c then butlast xs else xs))"
  by (auto simp: r_inv_def map_butlast distinct_butlast dest: in_set_butlastD)

lemma r_set_inv: "r_inv c xs \<Longrightarrow> \<exists>xs'. r_set c xs k v = Some xs' \<and> r_inv c xs'"
  using r_inv_front [of c xs k v] r_inv_new [of c xs k v] by (cases "c = 0") (simp_all add: r_set_def)

lemma r_get_inv: "r_inv c xs \<Longrightarrow> \<exists>xs'. r_get xs k = Some (xs', map_of xs k) \<and> r_inv c xs'"
  using r_inv_front [OF _ map_of_SomeD_fst] by (auto simp: r_get_def split: option.split)

lemma r_set_content:
  assumes "distinct (map fst xs)" "r_set c xs k v = Some xs'" "map_of xs' k' = Some w"
  shows "if k' = k then c \<noteq> 0 \<longrightarrow> w = v else map_of xs k' = Some w"
proof (cases "k \<in> fst ` set xs \<or> c = 0 \<or> xs = []")
  case True
  with assms show ?thesis by (auto simp: r_set_def map_of_without split: if_splits)
next
  case False
  with assms show ?thesis by (auto simp: r_set_def map_of_butlast split: if_splits)
qed

interpretation recency: tracking_algorithm "r_inv c" "\<lambda>_. c" map_of "r_set c" r_get r_evict r_delete
  for c
proof (unfold_locales, goal_cases)
  case (1 s)
  then show ?case
    by (metis (no_types, lifting) card_length dom_map_of_conv_image_fst finite_dom_map_of
        le_trans length_map r_inv_def set_map)
next
  case (2 s k v)
  obtain s' where s': "r_set c s k v = Some s'" "r_inv c s'"
    using r_set_inv [OF 2] by blast
  have "if k' = k then w = v else map_of s k' = Some w" if "map_of s' k' = Some w" for k' w
    using r_set_content [OF _ s'(1) that] 2 s'(1) that by (auto simp: r_inv_def r_set_def split: if_splits)
  with s' show ?case by blast
next
  case (3 s k)
  then obtain s' where "r_get s k = Some (s', map_of s k)" "r_inv c s'"
    using r_get_inv by blast
  moreover from this have "map_of s' = map_of s"
    by (auto simp: r_get_def map_of_without split: option.splits)
  ultimately show ?case by blast
next
  case (4 s)
  then show ?case
    using r_inv_butlast [OF 4]
    by (auto simp: r_evict_def map_of_butlast r_inv_def dom_map_of_conv_image_fst)
next
  case (5 s k)
  then show ?case by (simp add: r_delete_def r_inv_without map_of_without)
next
  case (6 s k v s')
  then show ?case by (auto simp: r_set_def split: if_splits)
next
  case (7 s s' r)
  then show ?case by (auto simp: r_evict_def split: if_splits)
qed

section \<open>Recency as a property of the history\<close>

text \<open>
  \<open>touches e j\<close>: the event \<open>e\<close> of a history (an operation and its result) uses the key \<open>j\<close>, that is,
  sets it or hits it. \<open>last_use h j\<close> is the position (from 1) of the last event of \<open>h\<close> that does,
  and 0 when there is none.
\<close>

fun touches :: "alg_op \<times> alg_res \<Rightarrow> string \<Rightarrow> bool" where
  "touches (OpSet k v, r) j = (j = k)"
| "touches (OpGet k, RGet (Some v)) j = (j = k)"
| "touches e j = False"

fun last_use_rev :: "(alg_op \<times> alg_res) list \<Rightarrow> string \<Rightarrow> nat" where
  "last_use_rev [] j = 0"
| "last_use_rev (e # es) j = (if touches e j then Suc (length es) else last_use_rev es j)"

definition last_use :: "(alg_op \<times> alg_res) list \<Rightarrow> string \<Rightarrow> nat" where
  "last_use h j = last_use_rev (rev h) j"

lemma last_use_snoc:
  "last_use (h @ [e]) j = (if touches e j then Suc (length h) else last_use h j)"
  by (simp add: last_use_def)

lemma last_use_le: "last_use h j \<le> length h"
  by (induction h rule: rev_induct) (auto simp: last_use_snoc last_use_def)

definition by_recency :: "(alg_op \<times> alg_res) list \<Rightarrow> rlist \<Rightarrow> bool" where
  "by_recency h xs \<longleftrightarrow> sorted_wrt (\<lambda>a b. last_use h b < last_use h a) (map fst xs)"

lemma by_recency_filter: "by_recency h xs \<Longrightarrow> by_recency h (without k xs)"
  by (simp add: by_recency_def without_def sorted_wrt_map sorted_wrt_filter)

lemma by_recency_butlast: "by_recency h xs \<Longrightarrow> by_recency h (butlast xs)"
  by (cases xs rule: rev_cases) (simp_all add: by_recency_def sorted_wrt_append)

lemma by_recency_front:
  assumes "by_recency h xs" "k \<notin> fst ` set xs" "touches e k" "\<And>j. touches e j \<Longrightarrow> j = k"
  shows "by_recency (h @ [e]) ((k, v) # xs)"
proof -
  have old: "last_use (h @ [e]) j = last_use h j" if "j \<in> fst ` set xs" for j
    using that assms(2,4) by (auto simp: last_use_snoc)
  have new: "last_use h j < Suc (length h)" for j
    using last_use_le [of h j] by simp
  from old have "sorted_wrt (\<lambda>a b. last_use (h @ [e]) b < last_use (h @ [e]) a) (map fst xs)"
    using assms(1) unfolding by_recency_def
    by (elim sorted_wrt_mono_rel [rotated]) simp
  then show ?thesis using old new assms(3) by (simp add: by_recency_def last_use_snoc)
qed

lemma by_recency_untouched:
  assumes "by_recency h xs" "\<And>j. \<not> touches e j"
  shows "by_recency (h @ [e]) xs"
  using assms by (simp add: by_recency_def last_use_snoc)

lemma r_step_by_recency:
  assumes "r_inv c xs" "by_recency h xs" "r_step c xs op = Some (xs', r)"
  shows "by_recency (h @ [(op, r)]) xs'"
proof (cases op)
  case (OpSet k v)
  have new: "by_recency (h @ [(op, r)]) ((k, v) # ys)"
    if "by_recency h ys" "k \<notin> fst ` set ys" for ys
    using that by (rule by_recency_front) (simp_all add: OpSet)
  consider "c = 0" | "c \<noteq> 0" "k \<in> fst ` set xs" | "c \<noteq> 0" "k \<notin> fst ` set xs" by blast
  then show ?thesis
  proof cases
    case 1
    with assms OpSet show ?thesis by (simp add: r_set_def r_inv_def by_recency_def)
  next
    case 2
    with assms OpSet have "xs' = (k, v) # without k xs" by (auto simp: r_set_def)
    then show ?thesis using new [OF by_recency_filter [OF assms(2), of k]] by simp
  next
    case 3
    let ?ys = "if length xs = c then butlast xs else xs"
    have "by_recency h ?ys" "k \<notin> fst ` set ?ys"
      using 3 assms(2) by (auto intro: by_recency_butlast dest: in_set_butlastD)
    moreover from 3 assms OpSet have "xs' = (k, v) # ?ys" by (auto simp: r_set_def)
    ultimately show ?thesis using new [of ?ys] by simp
  qed
next
  case (OpGet k)
  show ?thesis
  proof (cases "map_of xs k")
    case None
    with assms OpGet show ?thesis by (auto simp: r_get_def intro!: by_recency_untouched)
  next
    case (Some v)
    with assms OpGet have eq: "xs' = (k, v) # without k xs" "r = RGet (Some v)"
      by (simp_all add: r_get_def)
    show ?thesis unfolding eq OpGet
      by (rule by_recency_front) (simp_all add: by_recency_filter [OF assms(2)])
  qed
next
  case OpEvict
  with assms show ?thesis
    by (auto simp: r_evict_def split: if_splits intro!: by_recency_untouched by_recency_butlast)
next
  case (OpDelete k)
  with assms show ?thesis
    by (auto simp: r_delete_def intro!: by_recency_untouched by_recency_filter)
qed

lemma run_ops_append:
  "run_ops step s (xs @ ys) =
     (case run_ops step s xs of None \<Rightarrow> None
      | Some (s', rs) \<Rightarrow> map_option (\<lambda>(s'', rs'). (s'', rs @ rs')) (run_ops step s' ys))"
  by (induction xs arbitrary: s)
     (auto simp: map_option_case case_prod_unfold split: option.splits)

lemma run_ops_length: "run_ops step s ops = Some (s', rs) \<Longrightarrow> length rs = length ops"
  by (induction ops arbitrary: s s' rs) (auto split: option.splits)

lemma r_step_total:
  assumes "r_inv c xs"
  shows "\<exists>xs' r. r_step c xs op = Some (xs', r) \<and> r_inv c xs'"
  using r_set_inv [OF assms] r_get_inv [OF assms] r_inv_butlast [OF assms] assms
  by (cases op) (fastforce simp: r_evict_def r_delete_def r_inv_without)+

text \<open>In a run from the empty cache the list is always ordered by the last use of its keys.\<close>

lemma r_run_by_recency:
  "\<exists>xs rs. run_ops (r_step c) [] ops = Some (xs, rs) \<and> r_inv c xs \<and> by_recency (zip ops rs) xs"
proof (induction ops rule: rev_induct)
  case Nil
  then show ?case by (simp add: r_inv_def by_recency_def)
next
  case (snoc op ops)
  then obtain xs rs where 1: "run_ops (r_step c) [] ops = Some (xs, rs)" "r_inv c xs"
      "by_recency (zip ops rs) xs" by blast
  obtain xs' r where 2: "r_step c xs op = Some (xs', r)" "r_inv c xs'"
    using r_step_total [OF 1(2)] by blast
  have "by_recency (zip (ops @ [op]) (rs @ [r])) xs'"
    using r_step_by_recency [OF 1(2,3) 2(1)] run_ops_length [OF 1(1)] by simp
  with 1 2 show ?case by (auto simp: run_ops_append)
qed

lemma by_recency_last:
  assumes "by_recency h xs" "xs \<noteq> []" "j \<in> fst ` set xs" "j \<noteq> fst (last xs)"
  shows "last_use h (fst (last xs)) < last_use h j"
proof (cases xs rule: rev_cases)
  case (snoc ys x)
  with assms show ?thesis by (auto simp: by_recency_def sorted_wrt_append)
qed (use assms in simp)

section \<open>Implementations of the recency list\<close>

text \<open>
  An implementation related to the recency list by a simulation: every operation returns, returns
  what the abstract operation returns, and keeps the relation.
\<close>

locale recency_impl =
  fixes rel :: "nat \<Rightarrow> 's \<Rightarrow> rlist \<Rightarrow> bool"
    and cap :: "'s \<Rightarrow> nat"
    and content :: "'s \<Rightarrow> string \<Rightarrow> gval option"
    and set_op :: "'s \<Rightarrow> string \<Rightarrow> gval \<Rightarrow> 's option"
    and get_op :: "'s \<Rightarrow> string \<Rightarrow> ('s \<times> gval option) option"
    and evict_op :: "'s \<Rightarrow> ('s \<times> string option) option"
    and delete_op :: "'s \<Rightarrow> string \<Rightarrow> 's option"
  assumes rel_inv: "rel c s xs \<Longrightarrow> r_inv c xs \<and> cap s = c \<and> content s = map_of xs"
    and set_refines: "rel c s xs \<Longrightarrow>
      \<exists>s' xs'. set_op s k v = Some s' \<and> r_set c xs k v = Some xs' \<and> rel c s' xs'"
    and get_refines: "rel c s xs \<Longrightarrow>
      \<exists>s' xs' r. get_op s k = Some (s', r) \<and> r_get xs k = Some (xs', r) \<and> rel c s' xs'"
    and evict_refines: "rel c s xs \<Longrightarrow>
      \<exists>s' xs' r. evict_op s = Some (s', r) \<and> r_evict xs = Some (xs', r) \<and> rel c s' xs'"
    and delete_refines: "rel c s xs \<Longrightarrow>
      \<exists>s' xs'. delete_op s k = Some s' \<and> r_delete xs k = Some xs' \<and> rel c s' xs'"
begin

lemma step_refines:
  assumes "rel c s xs"
  shows "\<exists>s' xs' r. alg_step set_op get_op evict_op delete_op s op = Some (s', r) \<and>
    r_step c xs op = Some (xs', r) \<and> rel c s' xs'"
  using set_refines [OF assms] get_refines [OF assms] evict_refines [OF assms] delete_refines [OF assms]
  by (cases op) fastforce+

lemma run_refines:
  assumes "rel c s xs"
  shows "\<exists>s' xs' rs. run_ops (alg_step set_op get_op evict_op delete_op) s ops = Some (s', rs) \<and>
    run_ops (r_step c) xs ops = Some (xs', rs) \<and> rel c s' xs'"
  by (rule run_ops_simulation [where R = "rel c", OF step_refines assms])

text \<open>The victim of an eviction is the tracked key whose last use is the furthest in the past.\<close>

lemma victim_least_recent:
  assumes "rel c s0 []" "run_ops (alg_step set_op get_op evict_op delete_op) s0 ops = Some (s, rs)"
    "evict_op s = Some (s', Some k)"
  shows "content s k \<noteq> None \<and> content s' = (content s)(k := None) \<and>
    (\<forall>j. content s j \<noteq> None \<longrightarrow> j \<noteq> k \<longrightarrow> last_use (zip ops rs) k < last_use (zip ops rs) j)"
proof -
  obtain xs where xs: "run_ops (r_step c) [] ops = Some (xs, rs)" "rel c s xs"
    using run_refines [OF assms(1), of ops] assms(2) by auto
  have inv: "r_inv c xs" and con: "content s = map_of xs" using rel_inv [OF xs(2)] by simp_all
  have rec: "by_recency (zip ops rs) xs" using r_run_by_recency [of c ops] xs(1) by auto
  obtain xs' where xs': "r_evict xs = Some (xs', Some k)" "rel c s' xs'"
    using evict_refines [OF xs(2)] assms(3) by auto
  then have ne: "xs \<noteq> []" "k = fst (last xs)" "xs' = butlast xs"
    by (auto simp: r_evict_def split: if_splits)
  have "content s' = (map_of xs)(k := None)"
    using rel_inv [OF xs'(2)] ne inv by (simp add: map_of_butlast r_inv_def)
  moreover have "map_of xs k \<noteq> None" using ne by (simp add: map_of_eq_None_iff)
  moreover have "last_use (zip ops rs) k < last_use (zip ops rs) j" if "map_of xs j \<noteq> None" "j \<noteq> k" for j
    using by_recency_last [OF rec ne(1), of j] that ne(2) by (metis map_of_eq_None_iff)
  ultimately show ?thesis using con by auto
qed

end

sublocale recency_impl \<subseteq> tracking_algorithm "\<lambda>s. \<exists>c xs. rel c s xs" cap content set_op get_op evict_op delete_op
proof (unfold_locales, goal_cases)
  case (1 s)
  then obtain c xs where r: "rel c s xs" by blast
  show ?case using recency.bounded [of c xs] rel_inv [OF r] by simp
next
  case (2 s k v)
  then obtain c xs where r: "rel c s xs" by blast
  obtain s' xs' where s': "set_op s k v = Some s'" "r_set c xs k v = Some xs'" "rel c s' xs'"
    using set_refines [OF r] by blast
  show ?case using recency.set_law [of c xs k v] s' rel_inv [OF r] rel_inv [OF s'(3)] by auto
next
  case (3 s k)
  then obtain c xs where r: "rel c s xs" by blast
  obtain s' xs' q where s': "get_op s k = Some (s', q)" "r_get xs k = Some (xs', q)" "rel c s' xs'"
    using get_refines [OF r] by blast
  show ?case using recency.get_law [of c xs k] s' rel_inv [OF r] rel_inv [OF s'(3)] by auto
next
  case (4 s)
  then obtain c xs where r: "rel c s xs" by blast
  obtain s' xs' q where s': "evict_op s = Some (s', q)" "r_evict xs = Some (xs', q)" "rel c s' xs'"
    using evict_refines [OF r] by blast
  show ?case using recency.evict_law [of c xs] s' rel_inv [OF r] rel_inv [OF s'(3)]
    by (auto split: option.splits)
next
  case (5 s k)
  then obtain c xs where r: "rel c s xs" by blast
  obtain s' xs' where s': "delete_op s k = Some s'" "r_delete xs k = Some xs'" "rel c s' xs'"
    using delete_refines [OF r] by blast
  show ?case using recency.delete_law [of c xs k] s' rel_inv [OF r] rel_inv [OF s'(3)] by auto
next
  case (6 s k v s')
  then obtain c xs where r: "rel c s xs" by blast
  obtain xs' where s': "r_set c xs k v = Some xs'" "rel c s' xs'"
    using set_refines [OF r, of k v] 6 by auto
  show ?case using recency.set_tracks [of c xs k v xs'] 6 s' rel_inv [OF r] rel_inv [OF s'(2)] by auto
next
  case (7 s s' q)
  then obtain c xs where r: "rel c s xs" by blast
  obtain xs' where s': "r_evict xs = Some (xs', q)" "rel c s' xs'"
    using evict_refines [OF r] 7 by auto
  show ?case using recency.evict_progress [of c xs xs' q] 7 s' rel_inv [OF r] by auto
qed

end
