(* ===== verification/IndexedList.thy ===== *)
theory IndexedList
  imports DLL EvictionSpec
begin

text \<open>
  A Go map from keys to the nodes of a doubly linked list, the structure \<open>lru.go\<close> and
  \<open>cawolfu.go\<close> share. \<open>indexed ent items m ps xs\<close> says that the nodes \<open>ps\<close> of the store \<open>m\<close>
  carry the bindings \<open>xs\<close> and that \<open>items\<close> sends each key to its node; \<open>ent\<close> reads the binding
  off a node. The lemmas describe a lookup, a removal, a move to the front and an insertion.
\<close>

section \<open>The index\<close>

definition indexed :: "('n \<Rightarrow> string \<times> gval) \<Rightarrow> (string, addr) gomap \<Rightarrow> (addr \<rightharpoonup> 'n)
    \<Rightarrow> addr list \<Rightarrow> rlist \<Rightarrow> bool" where
  "indexed ent items m ps xs \<longleftrightarrow>
     gm_wf items \<and> distinct (map fst xs) \<and>
     list_all2 (\<lambda>p b. map_option ent (m p) = Some b) ps xs \<and>
     set items = set (zip (map fst xs) ps)"

lemma indexed_length:
  "indexed ent items m ps xs \<Longrightarrow> length ps = length xs \<and> length items = length xs"
proof -
  assume a: "indexed ent items m ps xs"
  then have l: "length ps = length xs" by (auto simp: indexed_def dest: list_all2_lengthD)
  have "length items = card (fst ` set items)"
    using a by (metis indexed_def distinct_card gm_wf_def length_map set_map)
  also have "fst ` set items = set (map fst (zip (map fst xs) ps))"
    using a by (simp add: indexed_def)
  also have "\<dots> = set (map fst xs)" using l by (simp add: map_fst_zip)
  also have "card \<dots> = length xs" using a by (metis indexed_def distinct_card length_map)
  finally show ?thesis using l by simp
qed

lemma indexed_keys: "indexed ent items m ps xs \<Longrightarrow> fst ` set items = fst ` set xs"
proof -
  assume a: "indexed ent items m ps xs"
  then have "fst ` set items = set (map fst (zip (map fst xs) ps))" by (simp add: indexed_def)
  also have "\<dots> = set (map fst xs)" using indexed_length [OF a] by (simp add: map_fst_zip)
  finally show ?thesis by simp
qed

lemma indexed_None:
  "indexed ent items m ps xs \<Longrightarrow> map_of items k = None \<longleftrightarrow> k \<notin> fst ` set xs"
  by (simp add: map_of_eq_None_iff indexed_keys)

lemma list_all2_split_zip:
  assumes "list_all2 P ps xs" "(k, p) \<in> set (zip (map fst xs) ps)"
  shows "\<exists>ps1 ps2 xs1 v xs2. ps = ps1 @ p # ps2 \<and> xs = xs1 @ (k, v) # xs2 \<and>
    length ps1 = length xs1"
  using assms
proof (induction rule: list_all2_induct)
  case (Cons p' ps b xs)
  show ?case
  proof (cases "(k, p) = (fst b, p')")
    case True
    then show ?thesis by (metis append_Nil list.size(3) prod.collapse prod.inject)
  next
    case False
    with Cons.prems have "(k, p) \<in> set (zip (map fst xs) ps)" by auto
    from Cons.IH [OF this] obtain ps1 ps2 xs1 v xs2
      where "ps = ps1 @ p # ps2" "xs = xs1 @ (k, v) # xs2" "length ps1 = length xs1" by blast
    then have "p' # ps = (p' # ps1) @ p # ps2" "b # xs = (b # xs1) @ (k, v) # xs2"
      "length (p' # ps1) = length (b # xs1)" by auto
    then show ?thesis by blast
  qed
qed simp

lemma indexed_Some:
  assumes "indexed ent items m ps xs" "map_of items k = Some p"
  obtains ps1 ps2 xs1 v xs2 where "ps = ps1 @ p # ps2" "xs = xs1 @ (k, v) # xs2"
    "length ps1 = length xs1"
proof -
  have "(k, p) \<in> set (zip (map fst xs) ps)"
    using assms by (metis gm_in_set_iff indexed_def)
  moreover have "list_all2 (\<lambda>p b. map_option ent (m p) = Some b) ps xs"
    using assms(1) by (simp only: indexed_def)
  ultimately show thesis using list_all2_split_zip [of _ ps xs k p] that by blast
qed

lemma indexed_ent:
  assumes "indexed ent items m (ps1 @ p # ps2) (xs1 @ (k, v) # xs2)" "length ps1 = length xs1"
  shows "\<exists>n. m p = Some n \<and> ent n = (k, v)"
  using assms by (simp add: indexed_def list_all2_append)

lemma indexed_key:
  assumes "indexed ent items m (ps1 @ p # ps2) (xs1 @ (k, v) # xs2)" "length ps1 = length xs1"
  shows "map_of items k = Some p" "map_of (xs1 @ (k, v) # xs2) k = Some v"
    "without k (xs1 @ (k, v) # xs2) = xs1 @ xs2"
proof -
  have "(k, p) \<in> set items" using assms by (simp add: indexed_def)
  then show "map_of items k = Some p" using assms(1) by (metis gm_in_set_iff indexed_def)
  have d: "distinct (map fst (xs1 @ (k, v) # xs2))" using assms(1) by (simp add: indexed_def)
  then show "map_of (xs1 @ (k, v) # xs2) k = Some v"
    by (rule map_of_is_SomeI) simp
  show "without k (xs1 @ (k, v) # xs2) = xs1 @ xs2"
    using d without_absent [of k xs1] without_absent [of k xs2] by (simp add: without_def)
qed

lemma indexed_remove:
  assumes "indexed ent items m (ps1 @ p # ps2) (xs1 @ (k, v) # xs2)" "length ps1 = length xs1"
  shows "indexed ent (gm_del k items) m (ps1 @ ps2) (xs1 @ xs2)"
proof -
  have "k \<notin> fst ` set xs1" "k \<notin> fst ` set xs2" using assms(1) by (auto simp: indexed_def)
  then have "(k, q) \<notin> set (zip (map fst xs1) ps1)" "(k, q) \<notin> set (zip (map fst xs2) ps2)" for q
    by (auto dest: set_zip_leftD)
  then have "{b \<in> set (zip (map fst xs1) ps1) \<union> set (zip (map fst xs2) ps2). fst b \<noteq> k} =
      set (zip (map fst xs1) ps1) \<union> set (zip (map fst xs2) ps2)" by force
  then have "set (gm_del k items) = set (zip (map fst (xs1 @ xs2)) (ps1 @ ps2))"
    using assms unfolding set_gm_del by (auto simp: indexed_def)
  with assms show ?thesis by (simp add: indexed_def list_all2_append)
qed

lemma indexed_front:
  assumes "indexed ent items m (ps1 @ p # ps2) (xs1 @ (k, v) # xs2)" "length ps1 = length xs1"
  shows "indexed ent items m (p # ps1 @ ps2) ((k, v) # xs1 @ xs2)"
  using assms unfolding indexed_def list_all2_append [OF assms(2)] list_all2_Cons
  by (simp add: insert_commute list_all2_append)

lemma indexed_cong:
  assumes "indexed ent items m ps xs" "\<And>p. p \<in> set ps \<Longrightarrow> map_option ent (m' p) = map_option ent (m p)"
  shows "indexed ent items m' ps xs"
proof -
  have "list_all2 (\<lambda>p b. map_option ent (m' p) = Some b) ps xs"
    using assms(1) unfolding indexed_def
    by (elim conjE list.rel_mono_strong) (simp only: assms(2))
  with assms(1) show ?thesis by (simp add: indexed_def)
qed

lemma indexed_add:
  assumes "indexed ent items m ps xs" "m p = Some n" "ent n = (k, v)" "k \<notin> fst ` set xs"
  shows "indexed ent (gm_set k p items) m (p # ps) ((k, v) # xs)"
proof -
  have "map_of items k = None" using indexed_None [OF assms(1)] assms(4) by simp
  then show ?thesis using assms by (simp add: indexed_def set_gm_set_new)
qed

lemma indexed_value:
  assumes "indexed ent items m (ps1 @ p # ps2) (xs1 @ (k, v) # xs2)" "length ps1 = length xs1"
    "ent n = (k, w)" "p \<notin> set (ps1 @ ps2)"
  shows "indexed ent items (m(p \<mapsto> n)) (ps1 @ p # ps2) (xs1 @ (k, w) # xs2)"
proof -
  have "list_all2 (\<lambda>q b. map_option ent ((m(p \<mapsto> n)) q) = Some b) qs ys =
        list_all2 (\<lambda>q b. map_option ent (m q) = Some b) qs ys" if "p \<notin> set qs" for qs ys
    by (rule list.rel_cong) (use that in auto)
  with assms show ?thesis by (simp add: indexed_def list_all2_append)
qed

lemma indexed_Nil: "indexed ent [] m [] []"
  by (simp add: indexed_def)

lemma indexed_content:
  assumes "indexed ent items m ps xs"
  shows "map_of xs k = (case map_of items k of None \<Rightarrow> None | Some p \<Rightarrow> map_option (snd \<circ> ent) (m p))"
proof (cases "map_of items k")
  case None
  then have "k \<notin> fst ` set xs" using indexed_None [OF assms] by simp
  then have "map_of xs k = None" by (simp add: map_of_eq_None_iff)
  with None show ?thesis by simp
next
  case (Some p)
  obtain ps1 ps2 xs1 v xs2 where s: "ps = ps1 @ p # ps2" "xs = xs1 @ (k, v) # xs2"
    "length ps1 = length xs1" using indexed_Some [OF assms Some] by blast
  with indexed_ent [of ent items m ps1 p ps2 xs1 k v xs2] assms
  have "\<exists>n. m p = Some n \<and> ent n = (k, v)" by simp
  moreover have "map_of xs k = Some v"
    using indexed_key(2) [of ent items m ps1 p ps2 xs1 k v xs2] assms s by simp
  ultimately show ?thesis using Some by auto
qed

section \<open>The index, the list and the pool together\<close>

text \<open>
  \<open>pool_ok m ps pool fresh\<close>: the objects in the \<open>sync.Pool\<close> are allocated, are in the pool once and
  are not nodes of the list, and every address from \<open>fresh\<close> on is unused.
\<close>

definition pool_ok :: "(addr \<rightharpoonup> 'n) \<Rightarrow> addr list \<Rightarrow> addr list \<Rightarrow> addr \<Rightarrow> bool" where
  "pool_ok m ps pool fresh \<longleftrightarrow>
     distinct pool \<and> set pool \<inter> set ps = {} \<and> set pool \<subseteq> dom m \<and> (\<forall>a \<in> dom m. a < fresh)"

definition index_state :: "('a links_scheme \<Rightarrow> string \<times> gval) \<Rightarrow> (string, addr) gomap \<Rightarrow> 'a dl
    \<Rightarrow> addr list \<Rightarrow> addr \<Rightarrow> rlist \<Rightarrow> bool" where
  "index_state ent items d pool fresh xs \<longleftrightarrow>
     (\<exists>ps. dll_rep d ps \<and> indexed ent items (fst d) ps xs \<and> pool_ok (fst d) ps pool fresh)"

lemma index_stateI:
  "dll_rep (m, h, t) ps \<Longrightarrow> indexed ent items m ps xs \<Longrightarrow> pool_ok m ps pool fresh \<Longrightarrow>
   index_state ent items (m, h, t) pool fresh xs"
  by (auto simp: index_state_def)

lemma index_stateE:
  assumes "index_state ent items (m, h, t) pool fresh xs"
  obtains ps where "dll_rep (m, h, t) ps" "indexed ent items m ps xs" "pool_ok m ps pool fresh"
  using assms by (auto simp: index_state_def)

lemma index_state_length:
  "index_state ent items d pool fresh xs \<Longrightarrow> length items = length xs"
  by (auto simp: index_state_def dest: indexed_length)

lemma index_state_distinct:
  "index_state ent items d pool fresh xs \<Longrightarrow> distinct (map fst xs)"
  by (auto simp: index_state_def indexed_def)

lemma index_state_None:
  "index_state ent items d pool fresh xs \<Longrightarrow> map_of items k = None \<longleftrightarrow> k \<notin> fst ` set xs"
  by (auto simp only: index_state_def indexed_None)

lemma index_state_empty: "index_state ent [] (Map.empty, None, None) [] fresh []"
  by (auto simp: index_state_def indexed_Nil pool_ok_def intro!: exI [of _ "[]"])

lemma index_state_content:
  assumes "index_state ent items (m, h, t) pool fresh xs"
  shows "map_of xs k = (case map_of items k of None \<Rightarrow> None | Some p \<Rightarrow> map_option (snd \<circ> ent) (m p))"
  using assms by (elim index_stateE) (rule indexed_content)

text \<open>The tail pointer is the node of the last binding.\<close>

lemma index_state_tail:
  assumes "index_state ent items (m, h, t) pool fresh xs"
  shows "xs = [] \<longleftrightarrow> t = None"
    and "t = Some p \<Longrightarrow> map_of items (fst (last xs)) = Some p"
proof -
  obtain ps where ps: "dll_rep (m, h, t) ps" "indexed ent items m ps xs"
    using assms by (rule index_stateE)
  have l: "length ps = length xs" using indexed_length [OF ps(2)] by simp
  then show "xs = [] \<longleftrightarrow> t = None" using dll_rep_nil_iff [OF ps(1)] by auto
  assume "t = Some p"
  then obtain qs where q: "ps = qs @ [p]" using dll_repD(3) [OF ps(1)] last_or_Some_iff by metis
  with l obtain ys b where x: "xs = ys @ [b]" "length qs = length ys"
    by (cases xs rule: rev_cases) auto
  show "map_of items (fst (last xs)) = Some p"
    using indexed_key(1) [of ent items m qs p "[]" ys "fst b" "snd b" "[]"] ps(2) q x by simp
qed

lemma without_last:
  assumes "distinct (map fst xs)" "xs \<noteq> []"
  shows "without (fst (last xs)) xs = butlast xs"
proof (cases xs rule: rev_cases)
  case (snoc ys b)
  with assms show ?thesis using without_absent [of "fst b" ys] by (simp add: without_def)
qed (use assms in simp)

lemma index_state_value:
  assumes "index_state ent items (m, h, t) pool fresh xs" "map_of items k = Some p" "m p = Some n"
    and "prevp n' = prevp n" "nextp n' = nextp n" "ent n' = (k, w)"
  shows "\<exists>xs'. index_state ent items (m(p \<mapsto> n'), h, t) pool fresh xs' \<and> map_of xs' k = Some w \<and>
    without k xs' = without k xs"
proof -
  obtain ps where ps: "dll_rep (m, h, t) ps" "indexed ent items m ps xs" "pool_ok m ps pool fresh"
    using assms(1) by (rule index_stateE)
  obtain ps1 ps2 xs1 v xs2 where s: "ps = ps1 @ p # ps2" "xs = xs1 @ (k, v) # xs2"
    and l: "length ps1 = length xs1" using indexed_Some [OF ps(2) assms(2)] by blast
  have d: "p \<notin> set (ps1 @ ps2)" using dll_repD(1) [OF ps(1)] s by auto
  let ?m = "m(p \<mapsto> n')" and ?xs = "xs1 @ (k, w) # xs2"
  have i: "indexed ent items ?m (ps1 @ p # ps2) ?xs"
    by (rule indexed_value [of _ _ _ _ _ _ _ _ v]) (use ps(2) s l assms(6) d in simp_all)
  have "lnk ?m = lnk m" by (rule lnk_upd_same) (use assms(3-5) in simp_all)
  then have "dll_rep (?m, h, t) ps" using ps(1) by (simp add: dll_rep_def)
  moreover have "pool_ok ?m ps pool fresh" using ps(3) assms(3) by (auto simp: pool_ok_def)
  ultimately have "index_state ent items (?m, h, t) pool fresh ?xs"
    using i s(1) by (auto intro: index_stateI)
  moreover have "without k ?xs = without k xs"
    using indexed_key(3) [OF i l] indexed_key(3) [of ent items m ps1 p ps2 xs1 k v xs2] ps(2) s l
    by simp
  ultimately show ?thesis using indexed_key(2) [OF i l] by blast
qed

text \<open>The abstraction function: the bindings met on a walk along the next pointers.\<close>

fun walk :: "('a links_scheme \<Rightarrow> 'b) \<Rightarrow> nat \<Rightarrow> 'a mem \<Rightarrow> addr option \<Rightarrow> 'b list" where
  "walk ent 0 m p = []"
| "walk ent (Suc f) m p = (case p of None \<Rightarrow> []
     | Some a \<Rightarrow> (case m a of None \<Rightarrow> [] | Some n \<Rightarrow> ent n # walk ent f m (nextp n)))"

lemma walk_linked:
  assumes "linked (lnk m) pre ps None" "list_all2 (\<lambda>p b. map_option ent (m p) = Some b) ps xs"
  shows "walk ent (length ps) m (hd_or ps None) = xs"
  using assms(2,1)
proof (induction arbitrary: pre rule: list_all2_induct)
  case (Cons p ps b xs)
  then obtain n where "m p = Some n" "nextp n = hd_or ps None" by (auto dest: lnk_Some)
  with Cons show ?case by auto
qed simp

lemma index_state_walk:
  assumes "index_state ent items (m, h, t) pool fresh xs"
  shows "walk ent (length items) m h = xs"
proof -
  obtain ps where ps: "dll_rep (m, h, t) ps" "indexed ent items m ps xs"
    using assms by (rule index_stateE)
  have "length items = length ps" using indexed_length [OF ps(2)] by simp
  moreover have "list_all2 (\<lambda>p b. map_option ent (m p) = Some b) ps xs"
    using ps(2) by (simp only: indexed_def)
  ultimately show ?thesis using walk_linked [OF dll_repD(4) [OF ps(1)]] dll_repD(2) [OF ps(1)] by simp
qed

section \<open>The contract of the list code\<close>

text \<open>
  What \<open>Get\<close>, \<open>Set\<close>, \<open>Evict\<close> and \<open>Delete\<close> rely on: removing a node, pushing an unlinked node to the
  front and moving a node to the front do to the represented sequence what their names say, and
  leave keys and values alone. Each copy of the list code is an instance.
\<close>

locale front_list =
  fixes remove :: "'a dl \<Rightarrow> addr \<Rightarrow> 'a dl option"
    and add :: "'a dl \<Rightarrow> addr \<Rightarrow> 'a dl option"
    and move :: "'a dl \<Rightarrow> addr \<Rightarrow> 'a dl option"
    and ent :: "'a links_scheme \<Rightarrow> string \<times> gval"
  assumes ent_payload: "links.more n = links.more n' \<Longrightarrow> ent n = ent n'"
    and remove_rep: "dll_rep (m, h, t) (xs @ a # ys) \<Longrightarrow>
      \<exists>m' h' t'. remove (m, h, t) a = Some (m', h', t') \<and> dll_rep (m', h', t') (xs @ ys) \<and>
        same_payload m m'"
    and add_rep: "dll_rep (m, h, t) xs \<Longrightarrow> a \<notin> set xs \<Longrightarrow> lnk m a = Some (None, None) \<Longrightarrow>
      \<exists>m' h' t'. add (m, h, t) a = Some (m', h', t') \<and> dll_rep (m', h', t') (a # xs) \<and>
        same_payload m m'"
    and move_rep: "dll_rep (m, h, t) (xs @ a # ys) \<Longrightarrow>
      \<exists>m' h' t'. move (m, h, t) a = Some (m', h', t') \<and> dll_rep (m', h', t') (a # xs @ ys) \<and>
        same_payload m m'"
begin

lemma same_payload_ent: "same_payload m m' \<Longrightarrow> map_option ent (m' p) = map_option ent (m p)"
  by (cases "m p"; cases "m' p") (auto simp: same_payload_def dest!: spec [of _ p] intro: ent_payload)

lemma same_payload_dom: "same_payload m m' \<Longrightarrow> dom m' = dom m"
  unfolding same_payload_def dom_def by (metis option.map_disc_iff)

lemma indexed_same_payload:
  "same_payload m m' \<Longrightarrow> indexed ent items m ps xs \<Longrightarrow> indexed ent items m' ps xs"
  by (rule indexed_cong) (simp_all only: same_payload_ent)

lemma pool_ok_same_payload: "same_payload m m' \<Longrightarrow> pool_ok m ps pool fresh \<Longrightarrow> pool_ok m' ps pool fresh"
  unfolding pool_ok_def by (simp add: same_payload_dom)

lemma remove_index:
  assumes "index_state ent items (m, h, t) pool fresh xs" "map_of items k = Some p"
  shows "\<exists>m' h' t' n v. remove (m, h, t) p = Some (m', h', t') \<and> m p = Some n \<and> ent n = (k, v) \<and>
    p \<in> dom m' \<and> map_of xs k = Some v \<and> same_payload m m' \<and>
    (\<forall>z. index_state ent (gm_del k items) (m'(p \<mapsto> z), h', t') (p # pool) fresh (without k xs))"
proof -
  obtain ps where ps: "dll_rep (m, h, t) ps" "indexed ent items m ps xs" "pool_ok m ps pool fresh"
    using assms(1) by (rule index_stateE)
  obtain ps1 ps2 xs1 v xs2 where s: "ps = ps1 @ p # ps2" "xs = xs1 @ (k, v) # xs2"
    and l: "length ps1 = length xs1" using indexed_Some [OF ps(2) assms(2)] by blast
  note ix = ps(2) [unfolded s]
  obtain m' h' t' where r: "remove (m, h, t) p = Some (m', h', t')" "dll_rep (m', h', t') (ps1 @ ps2)"
    and sp: "same_payload m m'" using remove_rep [OF ps(1) [unfolded s]] by blast
  have d: "p \<notin> set (ps1 @ ps2)" using dll_repD(1) [OF ps(1)] s by auto
  obtain n where n: "m p = Some n" "ent n = (k, v)" using indexed_ent [OF ix l] by blast
  have ix': "indexed ent (gm_del k items) m' (ps1 @ ps2) (xs1 @ xs2)"
    by (rule indexed_same_payload [OF sp indexed_remove [OF ix l]])
  have "index_state ent (gm_del k items) (m'(p \<mapsto> z), h', t') (p # pool) fresh (xs1 @ xs2)" for z
  proof (rule index_stateI)
    show "dll_rep (m'(p \<mapsto> z), h', t') (ps1 @ ps2)"
      using r(2) d by simp
    show "indexed ent (gm_del k items) (m'(p \<mapsto> z)) (ps1 @ ps2) (xs1 @ xs2)"
      by (rule indexed_cong [OF ix']) (use d in auto)
    show "pool_ok (m'(p \<mapsto> z)) (ps1 @ ps2) (p # pool) fresh"
      using pool_ok_same_payload [OF sp ps(3)] n(1) same_payload_dom [OF sp] d s(1)
      by (auto simp: pool_ok_def)
  qed
  moreover have "p \<in> dom m'" using n(1) same_payload_dom [OF sp] by auto
  ultimately show ?thesis using r(1) n indexed_key(2,3) [OF ix l] s(2) sp by auto
qed

lemma move_index:
  assumes "index_state ent items (m, h, t) pool fresh xs" "map_of items k = Some p"
  shows "\<exists>m' h' t' n v. move (m, h, t) p = Some (m', h', t') \<and> m' p = Some n \<and> ent n = (k, v) \<and>
    map_of xs k = Some v \<and>
    index_state ent items (m', h', t') pool fresh ((k, v) # without k xs)"
proof -
  obtain ps where ps: "dll_rep (m, h, t) ps" "indexed ent items m ps xs" "pool_ok m ps pool fresh"
    using assms(1) by (rule index_stateE)
  obtain ps1 ps2 xs1 v xs2 where s: "ps = ps1 @ p # ps2" "xs = xs1 @ (k, v) # xs2"
    and l: "length ps1 = length xs1" using indexed_Some [OF ps(2) assms(2)] by blast
  note ix = ps(2) [unfolded s]
  obtain m' h' t' where r: "move (m, h, t) p = Some (m', h', t')" "dll_rep (m', h', t') (p # ps1 @ ps2)"
    and sp: "same_payload m m'" using move_rep [OF ps(1) [unfolded s]] by blast
  have ix': "indexed ent items m' (p # ps1 @ ps2) ((k, v) # xs1 @ xs2)"
    by (rule indexed_same_payload [OF sp indexed_front [OF ix l]])
  have "pool_ok m' (p # ps1 @ ps2) pool fresh"
    using pool_ok_same_payload [OF sp ps(3)] s(1) by (auto simp: pool_ok_def)
  with r(2) ix' have "index_state ent items (m', h', t') pool fresh ((k, v) # xs1 @ xs2)"
    by (rule index_stateI)
  moreover obtain n where "m' p = Some n" "ent n = (k, v)"
    using indexed_ent [of ent items m' "[]" p "ps1 @ ps2" "[]" k v "xs1 @ xs2"] ix' by auto
  ultimately show ?thesis using r(1) indexed_key(2,3) [OF ix l] s(2) by auto
qed

text \<open>Storing into an object that is neither a node nor in the pool, and linking it in.\<close>

lemma add_index:
  assumes "index_state ent items (m, h, t) pool fresh xs" "k \<notin> fst ` set xs"
    and "a \<notin> set pool" "a \<in> dom m" "\<forall>j. map_of items j \<noteq> Some a"
    and "ent n = (k, v)" "prevp n = None" "nextp n = None"
  shows "\<exists>m' h' t'. add (m(a \<mapsto> n), h, t) a = Some (m', h', t') \<and>
    index_state ent (gm_set k a items) (m', h', t') pool fresh ((k, v) # xs)"
proof -
  obtain ps where ps: "dll_rep (m, h, t) ps" "indexed ent items m ps xs" "pool_ok m ps pool fresh"
    using assms(1) by (rule index_stateE)
  have notin: "a \<notin> set ps"
  proof
    assume "a \<in> set ps"
    then obtain j where "(j, a) \<in> set (zip (map fst xs) ps)"
      using indexed_length [OF ps(2)] by (metis in_set_impl_in_set_zip2 length_map)
    then have "map_of items j = Some a" using ps(2) by (metis gm_in_set_iff indexed_def)
    with assms(5) show False by simp
  qed
  let ?m = "m(a \<mapsto> n)"
  have rep: "dll_rep (?m, h, t) ps" using ps(1) notin by simp
  obtain m' h' t' where r: "add (?m, h, t) a = Some (m', h', t')" "dll_rep (m', h', t') (a # ps)"
    and sp: "same_payload ?m m'" using add_rep [OF rep notin] assms(7,8) by auto
  have "indexed ent items ?m ps xs" by (rule indexed_cong [OF ps(2)]) (use notin in auto)
  then have "indexed ent (gm_set k a items) ?m (a # ps) ((k, v) # xs)"
    by (rule indexed_add) (use assms(2,6) in auto)
  then have "indexed ent (gm_set k a items) m' (a # ps) ((k, v) # xs)"
    by (rule indexed_same_payload [OF sp])
  moreover have "pool_ok ?m (a # ps) pool fresh"
    using ps(3) assms(3,4) by (auto simp: pool_ok_def)
  ultimately show ?thesis using r pool_ok_same_payload [OF sp] by (blast intro: index_stateI)
qed

end

text \<open>\<open>sync.Pool.Get\<close> hands out an object that is in neither structure.\<close>

lemma pool_get_fresh:
  assumes "index_state ent items (m, h, t) pool fresh xs"
    and "case pool of a # as \<Rightarrow> (m', pool', fresh', b) = (m, as, fresh, a)
         | [] \<Rightarrow> (m', pool', fresh', b) = (m(fresh \<mapsto> z), [], Suc fresh, fresh)"
  shows "index_state ent items (m', h, t) pool' fresh' xs" "b \<notin> set pool'" "b \<in> dom m'"
    "\<forall>j. map_of items j \<noteq> Some b"
proof -
  obtain ps where ps: "dll_rep (m, h, t) ps" "indexed ent items m ps xs" "pool_ok m ps pool fresh"
    using assms(1) by (rule index_stateE)
  have node: "p \<in> set ps" if "map_of items j = Some p" for j p
    by (rule indexed_Some [OF ps(2) that]) simp
  show "b \<notin> set pool'" "b \<in> dom m'" using assms(2) ps(3)
    by (auto simp: pool_ok_def split: list.splits)
  have new: "fresh \<notin> set ps"
    using dll_rep_node [OF ps(1)] ps(3) unfolding pool_ok_def by (metis domI less_irrefl)
  then have "b \<notin> set ps"
    using assms(2) ps(3) by (auto simp: pool_ok_def split: list.splits)
  then show "\<forall>j. map_of items j \<noteq> Some b" using node by blast
  show "index_state ent items (m', h, t) pool' fresh' xs"
  proof (cases pool)
    case Nil
    then have eq: "m' = m(fresh \<mapsto> z)" "pool' = []" "fresh' = Suc fresh" using assms(2) by auto
    have "dll_rep (m', h, t) ps" using ps(1) new eq by simp
    moreover have "indexed ent items m' ps xs"
      by (rule indexed_cong [OF ps(2)]) (use new eq in auto)
    moreover have "pool_ok m' ps pool' fresh'" using ps(3) eq by (simp add: pool_ok_def less_Suc_eq)
    ultimately show ?thesis by (rule index_stateI)
  next
    case (Cons a as)
    then show ?thesis using ps assms(2) by (intro index_stateI [of _ _ _ ps]) (auto simp: pool_ok_def)
  qed
qed

end
