(* ===== verification/LRU.thy ===== *)
theory LRU
  imports IndexedList
begin

text \<open>
  \<open>pkg/eviction/lru.go\<close>: a map from keys to list nodes, a doubly linked list with the most
  recently used node at its head, and a pool of node objects for reuse. The mutex makes each
  method one step, so a method is a function on the state \<open>LRU\<close>. \<open>lru_mem\<close> is the store of the
  node objects, \<open>lru_pool\<close> the \<open>sync.Pool\<close> (the addresses of the objects put back) and
  \<open>lru_fresh\<close> the next address an allocation returns.
\<close>

section \<open>State and operations\<close>

record lruCacheItem = links +
  lKey :: string
  lValue :: gval

record LRU =
  lru_capacity :: int
  lru_items :: "(string, addr) gomap"
  lru_head :: "addr option"
  lru_tail :: "addr option"
  lru_pool :: "addr list"
  lru_mem :: "addr \<rightharpoonup> lruCacheItem"
  lru_fresh :: addr

definition zero_lruCacheItem :: lruCacheItem where
  "zero_lruCacheItem = \<lparr>prevp = None, nextp = None, lKey = [], lValue = GNil\<rparr>"

definition NewLRUAlgorithm :: "int \<Rightarrow> sentinel + LRU" where
  "NewLRUAlgorithm capacity =
     (if capacity < 0 then Inl ErrInvalidCapacity
      else Inr \<lparr>lru_capacity = capacity, lru_items = [], lru_head = None, lru_tail = None,
                lru_pool = [], lru_mem = Map.empty, lru_fresh = 0\<rparr>)"

definition lru_removeFromList :: "'a dl \<Rightarrow> addr \<Rightarrow> 'a dl option" where
  "lru_removeFromList d item = (case d of (m, h, t) \<Rightarrow> do {
     n \<leftarrow> m item;
     (m1, h1) \<leftarrow> (if Some item = h then Some (m, nextp n)
                   else if prevp n \<noteq> None
                   then map_option (\<lambda>m'. (m', h)) (set_next m (prevp n) (nextp n))
                   else Some (m, h));
     n1 \<leftarrow> m1 item;
     (m2, t2) \<leftarrow> (if Some item = t then Some (m1, prevp n1)
                   else if nextp n1 \<noteq> None
                   then map_option (\<lambda>m'. (m', t)) (set_prev m1 (nextp n1) (prevp n1))
                   else Some (m1, t));
     m3 \<leftarrow> set_prev m2 (Some item) None;
     m4 \<leftarrow> set_next m3 (Some item) None;
     Some (m4, h1, t2)
   })"

definition lru_addToFront :: "'a dl \<Rightarrow> addr \<Rightarrow> 'a dl option" where
  "lru_addToFront d item = (case d of (m, h, t) \<Rightarrow>
     if h = None then Some (m, Some item, Some item)
     else do {
       m1 \<leftarrow> set_next m (Some item) h;
       m2 \<leftarrow> set_prev m1 h (Some item);
       Some (m2, Some item, t)
     })"

definition lru_moveToFront :: "'a dl \<Rightarrow> addr \<Rightarrow> 'a dl option" where
  "lru_moveToFront d item = (case d of (m, h, t) \<Rightarrow>
     if Some item = h then Some (m, h, t)
     else do { d1 \<leftarrow> lru_removeFromList d item; lru_addToFront d1 item })"

definition resetLRUItem :: "(addr \<rightharpoonup> lruCacheItem) \<Rightarrow> addr \<Rightarrow> (addr \<rightharpoonup> lruCacheItem)" where
  "resetLRUItem m item = m(item \<mapsto> zero_lruCacheItem)"

abbreviation lru_dl :: "LRU \<Rightarrow> (addr \<rightharpoonup> lruCacheItem) \<times> addr option \<times> addr option" where
  "lru_dl s \<equiv> (lru_mem s, lru_head s, lru_tail s)"

definition lru_put_dl :: "LRU \<Rightarrow> (addr \<rightharpoonup> lruCacheItem) \<times> addr option \<times> addr option \<Rightarrow> LRU" where
  "lru_put_dl s d = (case d of (m, h, t) \<Rightarrow> s\<lparr>lru_mem := m, lru_head := h, lru_tail := t\<rparr>)"

text \<open>\<open>itemPool.Put\<close> and \<open>itemPool.Get\<close>: an object put back earlier, or a new zeroed one.\<close>

definition lru_poolPut :: "LRU \<Rightarrow> addr \<Rightarrow> LRU" where
  "lru_poolPut s item = s\<lparr>lru_pool := item # lru_pool s\<rparr>"

definition lru_poolGet :: "LRU \<Rightarrow> LRU \<times> addr" where
  "lru_poolGet s = (case lru_pool s of
       a # as \<Rightarrow> (s\<lparr>lru_pool := as\<rparr>, a)
     | [] \<Rightarrow> (s\<lparr>lru_mem := (lru_mem s)(lru_fresh s \<mapsto> zero_lruCacheItem),
                lru_fresh := Suc (lru_fresh s)\<rparr>, lru_fresh s))"

definition LRU_Get :: "LRU \<Rightarrow> string \<Rightarrow> (LRU \<times> gval option) option" where
  "LRU_Get s key = (case map_of (lru_items s) key of
       None \<Rightarrow> Some (s, None)
     | Some item \<Rightarrow> do {
         d \<leftarrow> lru_moveToFront (lru_dl s) item;
         let s' = lru_put_dl s d;
         n \<leftarrow> lru_mem s' item;
         Some (s', Some (lValue n))
       })"

text \<open>The eviction inside \<open>Set\<close>: the tail leaves the map and the list and goes to the pool.\<close>

definition lru_evictTail :: "LRU \<Rightarrow> LRU option" where
  "lru_evictTail s = (case lru_tail s of
       None \<Rightarrow> Some s
     | Some tailItem \<Rightarrow> do {
         n \<leftarrow> lru_mem s tailItem;
         let s1 = s\<lparr>lru_items := gm_del (lKey n) (lru_items s)\<rparr>;
         d \<leftarrow> lru_removeFromList (lru_dl s1) tailItem;
         let s2 = lru_put_dl s1 d;
         let s3 = s2\<lparr>lru_mem := resetLRUItem (lru_mem s2) tailItem\<rparr>;
         Some (lru_poolPut s3 tailItem)
       })"

text \<open>The insertion of a new key inside \<open>Set\<close>: an object from the pool, filled and linked in.\<close>

definition lru_insert :: "LRU \<Rightarrow> string \<Rightarrow> gval \<Rightarrow> LRU option" where
  "lru_insert s1 key value = do {
     let (s2, item) = lru_poolGet s1;
     n \<leftarrow> lru_mem s2 item;
     let s3 = s2\<lparr>lru_mem := (lru_mem s2)(item \<mapsto>
            n\<lparr>lKey := key, lValue := value, prevp := None, nextp := None\<rparr>)\<rparr>;
     let s4 = s3\<lparr>lru_items := gm_set key item (lru_items s3)\<rparr>;
     d \<leftarrow> lru_addToFront (lru_dl s4) item;
     Some (lru_put_dl s4 d)
   }"

definition LRU_Set :: "LRU \<Rightarrow> string \<Rightarrow> gval \<Rightarrow> LRU option" where
  "LRU_Set s key value =
     (if lru_capacity s = 0 then Some s
      else case map_of (lru_items s) key of
        Some item \<Rightarrow> do {
          n \<leftarrow> lru_mem s item;
          let s1 = s\<lparr>lru_mem := (lru_mem s)(item \<mapsto> n\<lparr>lValue := value\<rparr>)\<rparr>;
          d \<leftarrow> lru_moveToFront (lru_dl s1) item;
          Some (lru_put_dl s1 d)
        }
      | None \<Rightarrow> do {
          s1 \<leftarrow> (if int (length (lru_items s)) = lru_capacity s then lru_evictTail s else Some s);
          lru_insert s1 key value
        })"

definition LRU_Evict :: "LRU \<Rightarrow> (LRU \<times> string option) option" where
  "LRU_Evict s =
     (if lru_capacity s = 0 then Some (s, None)
      else case lru_tail s of
        None \<Rightarrow> Some (s, None)
      | Some tailItem \<Rightarrow> do {
          n \<leftarrow> lru_mem s tailItem;
          let key = lKey n;
          d \<leftarrow> lru_removeFromList (lru_dl s) tailItem;
          let s1 = lru_put_dl s d;
          let s2 = s1\<lparr>lru_items := gm_del key (lru_items s1)\<rparr>;
          let s3 = s2\<lparr>lru_mem := resetLRUItem (lru_mem s2) tailItem\<rparr>;
          Some (lru_poolPut s3 tailItem, Some key)
        })"

definition LRU_Delete :: "LRU \<Rightarrow> string \<Rightarrow> LRU option" where
  "LRU_Delete s key = (case map_of (lru_items s) key of
       None \<Rightarrow> Some s
     | Some item \<Rightarrow> do {
         d \<leftarrow> lru_removeFromList (lru_dl s) item;
         let s1 = lru_put_dl s d;
         let s2 = s1\<lparr>lru_items := gm_del key (lru_items s1)\<rparr>;
         let s3 = s2\<lparr>lru_mem := resetLRUItem (lru_mem s2) item\<rparr>;
         Some (lru_poolPut s3 item)
       })"

definition LRU_Len :: "LRU \<Rightarrow> int" where
  "LRU_Len s = int (length (lru_items s))"

section \<open>The list code\<close>

lemma lru_removeFromList_rep:
  assumes "dll_rep (m, h, t) (xs @ a # ys)"
  shows "\<exists>m' h' t'. lru_removeFromList (m, h, t) a = Some (m', h', t') \<and>
    dll_rep (m', h', t') (xs @ ys) \<and> same_payload m m' \<and> lnk m' a = Some (None, None) \<and>
    (\<forall>b. b \<notin> set (xs @ a # ys) \<longrightarrow> m' b = m b)"
proof -
  note rep = dll_repD [OF assms]
  obtain n where n: "m a = Some n" "prevp n = last_or xs None" "nextp n = hd_or ys None"
    using lnk_Some [OF linked_mid [OF rep(4)]] by blast
  note defs = lru_removeFromList_def set_next_def set_prev_def dll_rep_def linked_append
  show ?thesis
  proof (cases xs rule: rev_cases)
    case xs: Nil
    show ?thesis
    proof (cases ys)
      case Nil
      with xs n rep show ?thesis by (auto simp: defs intro!: same_payload_upd)
    next
      case (Cons c zs)
      with rep xs obtain nc where "m c = Some nc" "prevp nc = Some a" "nextp nc = hd_or zs None"
        by (auto dest: lnk_Some)
      with Cons xs n rep show ?thesis by (auto simp: defs intro!: same_payload_upd)
    qed
  next
    case (snoc ws b)
    then obtain nb where nb: "m b = Some nb" "prevp nb = last_or ws None" "nextp nb = Some a"
      using rep by (auto simp: linked_append dest: lnk_Some)
    show ?thesis
    proof (cases ys)
      case Nil
      with snoc n nb rep show ?thesis
        by (auto simp: defs last_or_append hd_or_append intro!: same_payload_upd)
    next
      case (Cons c zs)
      then obtain nc where "m c = Some nc" "prevp nc = Some a" "nextp nc = hd_or zs None"
        using rep by (auto simp: linked_append dest: lnk_Some)
      with Cons snoc n nb rep show ?thesis
        by (auto simp: defs last_or_append hd_or_append intro!: same_payload_upd)
    qed
  qed
qed

lemma lru_addToFront_rep:
  assumes "dll_rep (m, h, t) xs" "a \<notin> set xs" "lnk m a = Some (None, None)"
  shows "\<exists>m' h' t'. lru_addToFront (m, h, t) a = Some (m', h', t') \<and> dll_rep (m', h', t') (a # xs) \<and>
    same_payload m m'"
proof (cases xs)
  case Nil
  with assms show ?thesis by (simp add: lru_addToFront_def dll_rep_def)
next
  case (Cons b ys)
  note rep = dll_repD [OF assms(1)]
  obtain n where n: "m a = Some n" "prevp n = None" using lnk_Some [OF assms(3)] by blast
  obtain nb where "m b = Some nb" "nextp nb = hd_or ys None"
    using rep(4) Cons by (auto dest: lnk_Some)
  with n Cons rep assms(2) show ?thesis
    by (auto simp: lru_addToFront_def set_next_def set_prev_def dll_rep_def intro!: same_payload_upd)
qed

lemma lru_moveToFront_rep:
  assumes "dll_rep (m, h, t) (xs @ a # ys)"
  shows "\<exists>m' h' t'. lru_moveToFront (m, h, t) a = Some (m', h', t') \<and>
    dll_rep (m', h', t') (a # xs @ ys) \<and> same_payload m m'"
proof (cases "Some a = h")
  case True
  with dll_repD [OF assms] have "xs = []" by (cases xs) auto
  with True assms show ?thesis by (simp add: lru_moveToFront_def)
next
  case False
  obtain m1 h1 t1 where r: "lru_removeFromList (m, h, t) a = Some (m1, h1, t1)"
    "dll_rep (m1, h1, t1) (xs @ ys)" "same_payload m m1" "lnk m1 a = Some (None, None)"
    using lru_removeFromList_rep [OF assms] by blast
  have "a \<notin> set (xs @ ys)" using dll_repD(1) [OF assms] by auto
  from lru_addToFront_rep [OF r(2) this r(4)] show ?thesis
    using False r by (auto simp: lru_moveToFront_def intro: same_payload_trans)
qed

definition lru_ent :: "lruCacheItem \<Rightarrow> string \<times> gval" where
  "lru_ent n = (lKey n, lValue n)"

interpretation lru_list: front_list lru_removeFromList lru_addToFront lru_moveToFront lru_ent
proof (unfold_locales, goal_cases)
  case (1 n n')
  then show ?case by (cases n; cases n') (simp add: lru_ent_def)
next
  case 2
  then show ?case using lru_removeFromList_rep by blast
next
  case 3
  then show ?case by (rule lru_addToFront_rep)
next
  case 4
  then show ?case by (rule lru_moveToFront_rep)
qed

section \<open>Refinement of the recency list\<close>

text \<open>
  \<open>lru_rel c s xs\<close>: the pointer structure \<open>s\<close> of capacity \<open>c\<close> holds the bindings \<open>xs\<close>, most recently
  used first.
\<close>

definition lru_rel :: "nat \<Rightarrow> LRU \<Rightarrow> rlist \<Rightarrow> bool" where
  "lru_rel c s xs \<longleftrightarrow> lru_capacity s = int c \<and> length xs \<le> c \<and>
     index_state lru_ent (lru_items s) (lru_dl s) (lru_pool s) (lru_fresh s) xs"

lemma lru_relD:
  assumes "lru_rel c s xs"
  shows "lru_capacity s = int c" "length xs \<le> c"
    "index_state lru_ent (lru_items s) (lru_mem s, lru_head s, lru_tail s) (lru_pool s) (lru_fresh s) xs"
    "r_inv c xs"
  using assms index_state_distinct by (fastforce simp: lru_rel_def r_inv_def)+

lemma lru_rel_new:
  "NewLRUAlgorithm capacity = Inr s \<Longrightarrow> lru_rel (nat capacity) s []"
  by (auto simp: NewLRUAlgorithm_def lru_rel_def index_state_empty split: if_splits)

lemma LRU_Get_refines:
  assumes "lru_rel c s xs"
  shows "\<exists>s' xs' r. LRU_Get s k = Some (s', r) \<and> r_get xs k = Some (xs', r) \<and> lru_rel c s' xs'"
proof (cases "map_of (lru_items s) k")
  case None
  then have "map_of xs k = None"
    using index_state_None [OF lru_relD(3) [OF assms]] by (simp add: map_of_eq_None_iff)
  with None assms show ?thesis by (simp add: LRU_Get_def r_get_def)
next
  case (Some p)
  obtain m h t n v where mv: "lru_moveToFront (lru_dl s) p = Some (m, h, t)" "m p = Some n"
    "lru_ent n = (k, v)" "map_of xs k = Some v"
    "index_state lru_ent (lru_items s) (m, h, t) (lru_pool s) (lru_fresh s) ((k, v) # without k xs)"
    using lru_list.move_index [OF lru_relD(3) [OF assms] Some] by blast
  have "length ((k, v) # without k xs) \<le> c"
    using r_inv_front [OF lru_relD(4) [OF assms] map_of_SomeD_fst [OF mv(4)]] by (simp add: r_inv_def)
  with mv Some lru_relD(1) [OF assms] show ?thesis
    by (simp add: LRU_Get_def r_get_def lru_put_dl_def lru_rel_def lru_ent_def Let_def)
qed

lemma LRU_Delete_refines:
  assumes "lru_rel c s xs"
  shows "\<exists>s' xs'. LRU_Delete s k = Some s' \<and> r_delete xs k = Some xs' \<and> lru_rel c s' xs'"
proof (cases "map_of (lru_items s) k")
  case None
  then have "k \<notin> fst ` set xs" using index_state_None [OF lru_relD(3) [OF assms]] by simp
  with None assms show ?thesis by (simp add: LRU_Delete_def r_delete_def without_absent)
next
  case (Some p)
  obtain m h t where rm: "lru_removeFromList (lru_dl s) p = Some (m, h, t)"
    "\<forall>z. index_state lru_ent (gm_del k (lru_items s)) (m(p \<mapsto> z), h, t) (p # lru_pool s)
       (lru_fresh s) (without k xs)"
    using lru_list.remove_index [OF lru_relD(3) [OF assms] Some] by blast
  have "length (without k xs) \<le> c"
    using r_inv_without [OF lru_relD(4) [OF assms], of k] by (simp add: r_inv_def)
  with rm Some lru_relD(1) [OF assms] show ?thesis
    by (simp add: LRU_Delete_def r_delete_def lru_put_dl_def resetLRUItem_def lru_poolPut_def
        lru_rel_def Let_def)
qed

lemma lru_evict_tail_state:
  assumes "lru_rel c s xs" "lru_tail s = Some p"
  shows "\<exists>m h t n. lru_mem s p = Some n \<and> lKey n = fst (last xs) \<and> xs \<noteq> [] \<and>
    lru_removeFromList (lru_dl s) p = Some (m, h, t) \<and>
    (\<forall>z. index_state lru_ent (gm_del (fst (last xs)) (lru_items s)) (m(p \<mapsto> z), h, t) (p # lru_pool s)
       (lru_fresh s) (butlast xs))"
proof -
  note st = lru_relD(3) [OF assms(1)]
  have ne: "xs \<noteq> []" using index_state_tail(1) [OF st] assms(2) by simp
  have "map_of (lru_items s) (fst (last xs)) = Some p" by (rule index_state_tail(2) [OF st assms(2)])
  from lru_list.remove_index [OF st this]
  show ?thesis using ne without_last [OF index_state_distinct [OF st] ne]
    by (auto simp: lru_ent_def)
qed

lemma LRU_Evict_refines:
  assumes "lru_rel c s xs"
  shows "\<exists>s' xs' r. LRU_Evict s = Some (s', r) \<and> r_evict xs = Some (xs', r) \<and> lru_rel c s' xs'"
proof (cases "lru_tail s")
  case None
  then have "xs = []" using index_state_tail(1) [OF lru_relD(3) [OF assms]] by simp
  with None assms show ?thesis by (simp add: LRU_Evict_def r_evict_def)
next
  case (Some p)
  with lru_evict_tail_state [OF assms Some] lru_relD(1,2) [OF assms] show ?thesis
    by (cases xs rule: rev_cases)
       (auto simp: LRU_Evict_def r_evict_def lru_put_dl_def resetLRUItem_def lru_poolPut_def
          lru_rel_def Let_def)
qed

lemma lru_evictTail_refines:
  assumes "lru_rel c s xs" "xs \<noteq> []"
  shows "\<exists>s'. lru_evictTail s = Some s' \<and> lru_rel c s' (butlast xs)"
proof -
  obtain p where "lru_tail s = Some p"
    using index_state_tail(1) [OF lru_relD(3) [OF assms(1)]] assms(2) by blast
  with lru_evict_tail_state [OF assms(1) this] lru_relD(1,2) [OF assms(1)] show ?thesis
    by (auto simp: lru_evictTail_def lru_put_dl_def resetLRUItem_def lru_poolPut_def
          lru_rel_def Let_def)
qed

lemma lru_insert_refines:
  assumes "lru_rel c s xs" "k \<notin> fst ` set xs" "length xs < c"
  shows "\<exists>s'. lru_insert s k v = Some s' \<and> lru_rel c s' ((k, v) # xs)"
proof -
  obtain s2 a where g: "lru_poolGet s = (s2, a)" by (cases "lru_poolGet s")
  then have eq: "lru_items s2 = lru_items s" "lru_capacity s2 = lru_capacity s"
    "lru_head s2 = lru_head s" "lru_tail s2 = lru_tail s"
    "case lru_pool s of b # as \<Rightarrow>
        (lru_mem s2, lru_pool s2, lru_fresh s2, a) = (lru_mem s, as, lru_fresh s, b)
     | [] \<Rightarrow> (lru_mem s2, lru_pool s2, lru_fresh s2, a) =
         ((lru_mem s)(lru_fresh s \<mapsto> zero_lruCacheItem), [], Suc (lru_fresh s), lru_fresh s)"
    by (auto simp: lru_poolGet_def split: list.splits)
  note fr = pool_get_fresh [OF lru_relD(3) [OF assms(1)] eq(5)]
  obtain n where n: "lru_mem s2 a = Some n" using fr(3) by blast
  let ?n = "n\<lparr>lKey := k, lValue := v, prevp := None, nextp := None\<rparr>"
  obtain m' h' t' where "lru_addToFront ((lru_mem s2)(a \<mapsto> ?n), lru_head s, lru_tail s) a = Some (m', h', t')"
    "index_state lru_ent (gm_set k a (lru_items s)) (m', h', t') (lru_pool s2) (lru_fresh s2) ((k, v) # xs)"
    using lru_list.add_index [OF fr(1) assms(2) fr(2,3,4), of ?n v] by (auto simp: lru_ent_def)
  with g n eq(1-4) assms(3) lru_relD(1) [OF assms(1)] show ?thesis
    by (simp add: lru_insert_def lru_put_dl_def lru_rel_def Let_def)
qed

lemma LRU_Set_refines:
  assumes "lru_rel c s xs"
  shows "\<exists>s' xs'. LRU_Set s k v = Some s' \<and> r_set c xs k v = Some xs' \<and> lru_rel c s' xs'"
proof -
  note st = lru_relD(3) [OF assms] and cap = lru_relD(1) [OF assms]
  consider "c = 0" | p where "c \<noteq> 0" "map_of (lru_items s) k = Some p"
    | "c \<noteq> 0" "map_of (lru_items s) k = None" by fastforce
  then show ?thesis
  proof cases
    case 1
    with assms cap show ?thesis by (simp add: LRU_Set_def r_set_def)
  next
    case (2 p)
    obtain n v0 where n: "lru_mem s p = Some n" "lru_ent n = (k, v0)" "map_of xs k = Some v0"
      using lru_list.remove_index [OF st 2(2)] by blast
    let ?n = "n\<lparr>lValue := v\<rparr>"
    obtain ys where ys: "index_state lru_ent (lru_items s) ((lru_mem s)(p \<mapsto> ?n), lru_head s, lru_tail s)
        (lru_pool s) (lru_fresh s) ys" "map_of ys k = Some v" "without k ys = without k xs"
      using index_state_value [OF st 2(2) n(1), of ?n v] n(2) by (auto simp: lru_ent_def)
    obtain m h t where mv: "lru_moveToFront ((lru_mem s)(p \<mapsto> ?n), lru_head s, lru_tail s) p = Some (m, h, t)"
      "index_state lru_ent (lru_items s) (m, h, t) (lru_pool s) (lru_fresh s) ((k, v) # without k xs)"
      using lru_list.move_index [OF ys(1) 2(2)] ys(2,3) by auto
    have k: "k \<in> fst ` set xs" by (rule map_of_SomeD_fst [OF n(3)])
    have "length ((k, v) # without k xs) \<le> c"
      using r_inv_front [OF lru_relD(4) [OF assms] k] by (simp add: r_inv_def)
    with mv n(1) 2 k cap show ?thesis
      by (simp add: LRU_Set_def r_set_def lru_put_dl_def lru_rel_def Let_def)
  next
    case 3
    have k: "k \<notin> fst ` set xs" using index_state_None [OF st] 3(2) by simp
    have len: "length (lru_items s) = length xs" by (rule index_state_length [OF st])
    let ?ys = "if length xs = c then butlast xs else xs"
    obtain s1 where s1: "(if int (length (lru_items s)) = lru_capacity s then lru_evictTail s else Some s) = Some s1"
      "lru_rel c s1 ?ys"
      using lru_evictTail_refines [OF assms] assms len cap 3(1) by (cases "length xs = c") fastforce+
    have "k \<notin> fst ` set ?ys" "length ?ys < c"
      using k 3(1) lru_relD(2) [OF assms] by (auto dest: in_set_butlastD)
    from lru_insert_refines [OF s1(2) this] show ?thesis
      using s1(1) 3 cap k by (auto simp: r_set_def LRU_Set_def)
  qed
qed

section \<open>Results\<close>

definition LRU_step :: "LRU \<Rightarrow> alg_op \<Rightarrow> (LRU \<times> alg_res) option" where
  "LRU_step = alg_step LRU_Set LRU_Get LRU_Evict LRU_Delete"

definition LRU_content :: "LRU \<Rightarrow> string \<Rightarrow> gval option" where
  "LRU_content s k =
     (case map_of (lru_items s) k of None \<Rightarrow> None | Some p \<Rightarrow> map_option lValue (lru_mem s p))"

definition LRU_bindings :: "LRU \<Rightarrow> rlist" where
  "LRU_bindings s = walk lru_ent (length (lru_items s)) (lru_mem s) (lru_head s)"

definition LRU_cap :: "LRU \<Rightarrow> nat" where
  "LRU_cap s = nat (lru_capacity s)"

lemma LRU_bindings_rel: "lru_rel c s xs \<Longrightarrow> LRU_bindings s = xs"
  using index_state_walk [OF lru_relD(3)] by (simp add: LRU_bindings_def)

lemma LRU_content_rel: "lru_rel c s xs \<Longrightarrow> LRU_content s = map_of xs"
  using index_state_content [OF lru_relD(3)]
  by (auto simp: LRU_content_def fun_eq_iff lru_ent_def comp_def split: option.splits)

interpretation lru: recency_impl lru_rel LRU_cap LRU_content LRU_Set LRU_Get LRU_Evict LRU_Delete
  by unfold_locales
     (use lru_relD LRU_content_rel LRU_Set_refines LRU_Get_refines LRU_Evict_refines
        LRU_Delete_refines in \<open>auto simp: LRU_cap_def\<close>)

text \<open>
  C1. From a new LRU of any capacity, every sequence of \<open>Set\<close>, \<open>Get\<close>, \<open>Evict\<close> and \<open>Delete\<close> runs
  without a nil dereference, returns exactly what the recency list returns, and leaves a pointer
  structure whose list, read from the head, is the abstract list.
\<close>

theorem LRU_refines_recency_list:
  "0 \<le> capacity \<Longrightarrow> \<exists>s0 s rs. NewLRUAlgorithm capacity = Inr s0 \<and> run_ops LRU_step s0 ops = Some (s, rs) \<and>
     run_ops (r_step (nat capacity)) [] ops = Some (LRU_bindings s, rs)"
proof -
  assume "0 \<le> capacity"
  then obtain s0 where s0: "NewLRUAlgorithm capacity = Inr s0" by (simp add: NewLRUAlgorithm_def)
  show ?thesis
    using lru.run_refines [OF lru_rel_new [OF s0], of ops] LRU_bindings_rel s0
    by (fastforce simp: LRU_step_def)
qed

theorem LRU_refines_recency_list_witness:
  "\<exists>s0 s rs. NewLRUAlgorithm 2 = Inr s0 \<and>
     run_ops LRU_step s0 [OpSet ''a'' GNil, OpSet ''b'' GNil, OpGet ''a'', OpEvict] = Some (s, rs) \<and>
     run_ops (r_step (nat 2)) [] [OpSet ''a'' GNil, OpSet ''b'' GNil, OpGet ''a'', OpEvict] =
       Some (LRU_bindings s, rs)"
  by (rule LRU_refines_recency_list) simp

text \<open>
  After any history, the key \<open>Evict\<close> returns was tracked and is the only one to go, and every
  other tracked key was set or hit later in the history than the victim was.
\<close>

lemma LRU_evicts_least_recently_used:
  assumes "NewLRUAlgorithm capacity = Inr s0" "run_ops LRU_step s0 ops = Some (s, rs)"
    and "LRU_Evict s = Some (s', Some k)"
  shows "LRU_content s k \<noteq> None \<and> LRU_content s' = (LRU_content s)(k := None) \<and>
    (\<forall>j. LRU_content s j \<noteq> None \<longrightarrow> j \<noteq> k \<longrightarrow> last_use (zip ops rs) k < last_use (zip ops rs) j)"
  using lru.victim_least_recent [OF lru_rel_new [OF assms(1)]] assms(2,3) by (simp add: LRU_step_def)

lemma LRU_example_run:
  "case NewLRUAlgorithm 2 of Inl _ \<Rightarrow> False | Inr s0 \<Rightarrow>
     (case run_ops LRU_step s0 [OpSet ''a'' GNil, OpSet ''b'' (GOther 1), OpGet ''a''] of None \<Rightarrow> False
      | Some (s, rs) \<Rightarrow> (case LRU_Evict s of None \<Rightarrow> False
         | Some (s', r) \<Rightarrow> r = Some ''b'' \<and> LRU_content s ''a'' \<noteq> None))"
  by code_simp

lemma LRU_evicts_least_recently_used_example:
  "\<exists>s0 s rs s'. let ops = [OpSet ''a'' GNil, OpSet ''b'' (GOther 1), OpGet ''a''] in
     NewLRUAlgorithm 2 = Inr s0 \<and> run_ops LRU_step s0 ops = Some (s, rs) \<and>
     LRU_Evict s = Some (s', Some ''b'') \<and> LRU_content s ''a'' \<noteq> None \<and>
     LRU_content s' = (LRU_content s)(''b'' := None) \<and>
     last_use (zip ops rs) ''b'' < last_use (zip ops rs) ''a''"
proof -
  let ?ops = "[OpSet ''a'' GNil, OpSet ''b'' (GOther 1), OpGet ''a'']"
  obtain s0 s rs s' where 0: "NewLRUAlgorithm 2 = Inr s0"
    and 1: "run_ops LRU_step s0 ?ops = Some (s, rs)" "LRU_Evict s = Some (s', Some ''b'')"
      "LRU_content s ''a'' \<noteq> None"
    using LRU_example_run by (auto split: sum.splits option.splits prod.splits)
  show ?thesis
    using LRU_evicts_least_recently_used [OF 0 1(1,2)] 0 1 unfolding Let_def
    by (intro exI [of _ s0] exI [of _ s] exI [of _ rs] exI [of _ s']) simp
qed

end
