(* ===== verification/CAWOLFU.thy ===== *)
theory CAWOLFU
  imports IndexedList
begin

text \<open>
  \<open>pkg/eviction/cawolfu.go\<close>: the same layout as the LRU (a map into a doubly linked list and a pool
  of nodes) with its own list code, a separate \<open>length\<close> field and an access count per node. The
  results show what the policy amounts to: the count is written and never read, and the
  structure refines the recency list.
\<close>

section \<open>State and operations\<close>

record CAWOLFUNode = links +
  cwKey :: string
  cwValue :: gval
  cwCount :: "64 word"

record CAWOLFU =
  cw_items :: "(string, addr) gomap"
  cw_head :: "addr option"
  cw_tail :: "addr option"
  cw_length :: int
  cw_cap :: int
  cw_nodePool :: "addr list"
  cw_mem :: "addr \<rightharpoonup> CAWOLFUNode"
  cw_fresh :: addr

definition zero_CAWOLFUNode :: CAWOLFUNode where
  "zero_CAWOLFUNode = \<lparr>prevp = None, nextp = None, cwKey = [], cwValue = GNil, cwCount = 0\<rparr>"

definition NewCAWOLFU :: "int \<Rightarrow> sentinel + CAWOLFU" where
  "NewCAWOLFU capacity =
     (if capacity < 0 then Inl ErrInvalidCapacity
      else Inr \<lparr>cw_items = [], cw_head = None, cw_tail = None, cw_length = 0, cw_cap = capacity,
                cw_nodePool = [], cw_mem = Map.empty, cw_fresh = 0\<rparr>)"

definition cw_remove :: "'a dl \<Rightarrow> addr \<Rightarrow> 'a dl option" where
  "cw_remove d node = (case d of (m, h, t) \<Rightarrow> do {
     n \<leftarrow> m node;
     (m1, h1, t1) \<leftarrow>
       (if h = t then Some (m, None, None)
        else if Some node = h
        then map_option (\<lambda>m'. (m', nextp n, t)) (set_prev m (nextp n) None)
        else if Some node = t
        then map_option (\<lambda>m'. (m', h, prevp n)) (set_next m (prevp n) None)
        else do {
          m' \<leftarrow> set_next m (prevp n) (nextp n);
          n' \<leftarrow> m' node;
          m'' \<leftarrow> set_prev m' (nextp n') (prevp n');
          Some (m'', h, t)
        });
     m2 \<leftarrow> set_prev m1 (Some node) None;
     m3 \<leftarrow> set_next m2 (Some node) None;
     Some (m3, h1, t1)
   })"

definition cw_addToFront :: "'a dl \<Rightarrow> addr \<Rightarrow> 'a dl option" where
  "cw_addToFront d node = (case d of (m, h, t) \<Rightarrow> do {
     m1 \<leftarrow> set_prev m (Some node) None;
     m2 \<leftarrow> set_next m1 (Some node) h;
     m3 \<leftarrow> (if h \<noteq> None then set_prev m2 h (Some node) else Some m2);
     Some (m3, Some node, (if t = None then Some node else t))
   })"

definition cw_moveToFront :: "'a dl \<Rightarrow> addr \<Rightarrow> 'a dl option" where
  "cw_moveToFront d node = (case d of (m, h, t) \<Rightarrow>
     if Some node = h then Some (m, h, t)
     else do {
       n \<leftarrow> m node;
       let t1 = (if Some node = t then prevp n else t);
       m1 \<leftarrow> (if prevp n \<noteq> None then set_next m (prevp n) (nextp n) else Some m);
       n1 \<leftarrow> m1 node;
       m2 \<leftarrow> (if nextp n1 \<noteq> None then set_prev m1 (nextp n1) (prevp n1) else Some m1);
       m3 \<leftarrow> set_prev m2 (Some node) None;
       m4 \<leftarrow> set_next m3 (Some node) h;
       m5 \<leftarrow> (if h \<noteq> None then set_prev m4 h (Some node) else Some m4);
       Some (m5, Some node, (if t1 = None then Some node else t1))
     })"

definition resetCAWOLFUNode :: "(addr \<rightharpoonup> CAWOLFUNode) \<Rightarrow> addr \<Rightarrow> (addr \<rightharpoonup> CAWOLFUNode)" where
  "resetCAWOLFUNode m node = m(node \<mapsto> zero_CAWOLFUNode)"

abbreviation cw_dl :: "CAWOLFU \<Rightarrow> (addr \<rightharpoonup> CAWOLFUNode) \<times> addr option \<times> addr option" where
  "cw_dl s \<equiv> (cw_mem s, cw_head s, cw_tail s)"

definition cw_put_dl :: "CAWOLFU \<Rightarrow> (addr \<rightharpoonup> CAWOLFUNode) \<times> addr option \<times> addr option \<Rightarrow> CAWOLFU" where
  "cw_put_dl s d = (case d of (m, h, t) \<Rightarrow> s\<lparr>cw_mem := m, cw_head := h, cw_tail := t\<rparr>)"

definition cw_poolGet :: "CAWOLFU \<Rightarrow> CAWOLFU \<times> addr" where
  "cw_poolGet s = (case cw_nodePool s of
       a # as \<Rightarrow> (s\<lparr>cw_nodePool := as\<rparr>, a)
     | [] \<Rightarrow> (s\<lparr>cw_mem := (cw_mem s)(cw_fresh s \<mapsto> zero_CAWOLFUNode),
                cw_fresh := Suc (cw_fresh s)\<rparr>, cw_fresh s))"

text \<open>
  Removing a node for good, the common part of \<open>Evict\<close>, \<open>Delete\<close> and the eviction inside \<open>Set\<close>:
  unlink, delete the map entry, decrement the length, reset the node and put it in the pool.
  \<open>Evict\<close> and \<open>Set\<close> delete the entry under the key they read off the node.
\<close>

definition cw_drop :: "CAWOLFU \<Rightarrow> addr \<Rightarrow> string \<Rightarrow> CAWOLFU option" where
  "cw_drop s node key = do {
     d \<leftarrow> cw_remove (cw_dl s) node;
     let s1 = cw_put_dl s d;
     let s2 = s1\<lparr>cw_items := gm_del key (cw_items s1), cw_length := cw_length s1 - 1\<rparr>;
     Some (s2\<lparr>cw_mem := resetCAWOLFUNode (cw_mem s2) node, cw_nodePool := node # cw_nodePool s2\<rparr>)
   }"

definition CAWOLFU_Evict :: "CAWOLFU \<Rightarrow> (CAWOLFU \<times> string option) option" where
  "CAWOLFU_Evict s =
     (if cw_cap s = 0 \<or> cw_length s = 0 then Some (s, None)
      else case cw_tail s of
        None \<Rightarrow> Some (s, None)
      | Some node \<Rightarrow> do {
          n \<leftarrow> cw_mem s node;
          s' \<leftarrow> cw_drop s node (cwKey n);
          Some (s', Some (cwKey n))
        })"

text \<open>The part of \<open>Set\<close> from \<open>nodePool.Get\<close> on.\<close>

definition cw_insert :: "CAWOLFU \<Rightarrow> string \<Rightarrow> gval \<Rightarrow> CAWOLFU option" where
  "cw_insert s key value = do {
     let (s2, node) = cw_poolGet s;
     n \<leftarrow> cw_mem s2 node;
     let s3 = s2\<lparr>cw_mem := (cw_mem s2)(node \<mapsto> n\<lparr>cwKey := key, cwValue := value, cwCount := 1\<rparr>),
                 cw_items := gm_set key node (cw_items s2)\<rparr>;
     d \<leftarrow> cw_addToFront (cw_dl s3) node;
     let s4 = cw_put_dl s3 d;
     Some (s4\<lparr>cw_length := cw_length s4 + 1\<rparr>)
   }"

definition CAWOLFU_Set :: "CAWOLFU \<Rightarrow> string \<Rightarrow> gval \<Rightarrow> CAWOLFU option" where
  "CAWOLFU_Set s key value =
     (if cw_cap s = 0 then Some s
      else case map_of (cw_items s) key of
        Some node \<Rightarrow> do {
          n \<leftarrow> cw_mem s node;
          let s1 = s\<lparr>cw_mem := (cw_mem s)(node \<mapsto> n\<lparr>cwValue := value, cwCount := cwCount n + 1\<rparr>)\<rparr>;
          d \<leftarrow> cw_moveToFront (cw_dl s1) node;
          Some (cw_put_dl s1 d)
        }
      | None \<Rightarrow>
          if cw_length s = cw_cap s then
            (case cw_tail s of
               None \<Rightarrow> Some s
             | Some evicted \<Rightarrow> do {
                 n \<leftarrow> cw_mem s evicted;
                 s1 \<leftarrow> cw_drop s evicted (cwKey n);
                 if cwKey n = key then Some s1 else cw_insert s1 key value
               })
          else cw_insert s key value)"

definition CAWOLFU_Get :: "CAWOLFU \<Rightarrow> string \<Rightarrow> (CAWOLFU \<times> gval option) option" where
  "CAWOLFU_Get s key = (case map_of (cw_items s) key of
       None \<Rightarrow> Some (s, None)
     | Some node \<Rightarrow> do {
         n \<leftarrow> cw_mem s node;
         let s1 = s\<lparr>cw_mem := (cw_mem s)(node \<mapsto> n\<lparr>cwCount := cwCount n + 1\<rparr>)\<rparr>;
         d \<leftarrow> cw_moveToFront (cw_dl s1) node;
         let s2 = cw_put_dl s1 d;
         n' \<leftarrow> cw_mem s2 node;
         Some (s2, Some (cwValue n'))
       })"

definition CAWOLFU_Delete :: "CAWOLFU \<Rightarrow> string \<Rightarrow> CAWOLFU option" where
  "CAWOLFU_Delete s key = (case map_of (cw_items s) key of
       None \<Rightarrow> Some s
     | Some node \<Rightarrow> cw_drop s node key)"

section \<open>The list code\<close>

lemma cw_remove_rep:
  assumes "dll_rep (m, h, t) (xs @ a # ys)"
  shows "\<exists>m' h' t'. cw_remove (m, h, t) a = Some (m', h', t') \<and>
    dll_rep (m', h', t') (xs @ ys) \<and> same_payload m m'"
proof -
  note rep = dll_repD [OF assms]
  obtain n where n: "m a = Some n" "prevp n = last_or xs None" "nextp n = hd_or ys None"
    using lnk_Some [OF linked_mid [OF rep(4)]] by blast
  note defs = cw_remove_def set_next_def set_prev_def dll_rep_def linked_append
  show ?thesis
  proof (cases xs rule: rev_cases)
    case xs: Nil
    show ?thesis
    proof (cases ys)
      case Nil
      with xs n rep show ?thesis by (auto simp: defs intro!: same_payload_upd)
    next
      case (Cons c zs)
      with rep xs obtain nc where "m c = Some nc" "prevp nc = Some a" "nextp nc = hd_or zs None"
        by (auto dest: lnk_Some)
      with Cons xs n rep show ?thesis by (auto simp: defs intro!: same_payload_upd)
    qed
  next
    case (snoc ws b)
    then obtain nb where nb: "m b = Some nb" "prevp nb = last_or ws None" "nextp nb = Some a"
      using rep by (auto simp: linked_append dest: lnk_Some)
    show ?thesis
    proof (cases ys)
      case Nil
      with snoc n nb rep show ?thesis
        by (auto simp: defs last_or_append hd_or_append intro!: same_payload_upd)
    next
      case (Cons c zs)
      then obtain nc where "m c = Some nc" "prevp nc = Some a" "nextp nc = hd_or zs None"
        using rep by (auto simp: linked_append dest: lnk_Some)
      moreover have "hd_or ws (Some b) \<noteq> last_or zs (Some c)"
        using rep(1) snoc Cons by (cases ws; cases zs rule: rev_cases) auto
      ultimately show ?thesis using Cons snoc n nb rep
        by (auto simp: defs last_or_append hd_or_append intro!: same_payload_upd)
    qed
  qed
qed

lemma cw_addToFront_rep:
  assumes "dll_rep (m, h, t) xs" "a \<notin> set xs" "m a = Some n"
  shows "\<exists>m' h' t'. cw_addToFront (m, h, t) a = Some (m', h', t') \<and> dll_rep (m', h', t') (a # xs) \<and>
    same_payload m m'"
proof (cases xs)
  case Nil
  with assms show ?thesis
    by (auto simp: cw_addToFront_def set_next_def set_prev_def dll_rep_def intro!: same_payload_upd)
next
  case (Cons b ys)
  note rep = dll_repD [OF assms(1)]
  obtain nb where "m b = Some nb" "nextp nb = hd_or ys None"
    using rep(4) Cons by (auto dest: lnk_Some)
  with assms(2,3) Cons rep show ?thesis
    by (auto simp: cw_addToFront_def set_next_def set_prev_def dll_rep_def intro!: same_payload_upd)
qed

text \<open>\<open>addToFront\<close> overwrites the links the node comes with.\<close>

lemma cw_addToFront_links:
  "cw_addToFront (m(a \<mapsto> n), h, t) a = cw_addToFront (m(a \<mapsto> n\<lparr>prevp := None, nextp := None\<rparr>), h, t) a"
  by (simp add: cw_addToFront_def set_prev_def set_next_def)

text \<open>\<open>moveToFront\<close> inlines the removal and the insertion; it agrees with their composition.\<close>

lemma cw_moveToFront_rep:
  assumes "dll_rep (m, h, t) (xs @ a # ys)"
  shows "\<exists>m' h' t'. cw_moveToFront (m, h, t) a = Some (m', h', t') \<and>
    dll_rep (m', h', t') (a # xs @ ys) \<and> same_payload m m'"
proof -
  note rep = dll_repD [OF assms]
  obtain n where n: "m a = Some n" "prevp n = last_or xs None" "nextp n = hd_or ys None"
    using lnk_Some [OF linked_mid [OF rep(4)]] by blast
  note defs = cw_moveToFront_def set_next_def set_prev_def dll_rep_def linked_append Let_def
  show ?thesis
  proof (cases xs)
    case Nil
    with assms rep show ?thesis by (simp add: cw_moveToFront_def)
  next
    case (Cons x us)
    obtain nx where nx: "m x = Some nx" "prevp nx = None" "nextp nx = hd_or us (Some a)"
      using rep(4) Cons by (auto simp: hd_or_append dest: lnk_Some)
    show ?thesis
    proof (cases us rule: rev_cases)
      case us: Nil
      show ?thesis
      proof (cases ys)
        case Nil
        with us Cons n nx rep show ?thesis by (auto simp: defs intro!: same_payload_upd)
      next
        case ys: (Cons c zs)
        then obtain nc where "m c = Some nc" "prevp nc = Some a" "nextp nc = hd_or zs None"
          using rep by (auto simp: linked_append dest: lnk_Some)
        with ys us Cons n nx rep show ?thesis by (auto simp: defs intro!: same_payload_upd)
      qed
    next
      case (snoc ws b)
      then obtain nb where nb: "m b = Some nb" "prevp nb = last_or ws (Some x)" "nextp nb = Some a"
        using rep Cons by (auto simp: linked_append dest: lnk_Some)
      show ?thesis
      proof (cases ys)
        case Nil
        with snoc Cons n nx nb rep show ?thesis
          by (auto simp: defs last_or_append hd_or_append intro!: same_payload_upd)
      next
        case ys: (Cons c zs)
        then obtain nc where "m c = Some nc" "prevp nc = Some a" "nextp nc = hd_or zs None"
          using rep by (auto simp: linked_append dest: lnk_Some)
        with ys snoc Cons n nx nb rep show ?thesis
          by (auto simp: defs last_or_append hd_or_append intro!: same_payload_upd)
      qed
    qed
  qed
qed

definition cw_ent :: "CAWOLFUNode \<Rightarrow> string \<times> gval" where
  "cw_ent n = (cwKey n, cwValue n)"

interpretation cw_list: front_list cw_remove cw_addToFront cw_moveToFront cw_ent
proof (unfold_locales, goal_cases)
  case (1 n n')
  then show ?case by (cases n; cases n') (simp add: cw_ent_def)
next
  case 2
  then show ?case by (rule cw_remove_rep)
next
  case 3
  then show ?case using lnk_Some cw_addToFront_rep by blast
next
  case 4
  then show ?case by (rule cw_moveToFront_rep)
qed

section \<open>Refinement of the recency list\<close>

definition cw_rel :: "nat \<Rightarrow> CAWOLFU \<Rightarrow> rlist \<Rightarrow> bool" where
  "cw_rel c s xs \<longleftrightarrow> cw_cap s = int c \<and> length xs \<le> c \<and> cw_length s = int (length xs) \<and>
     index_state cw_ent (cw_items s) (cw_dl s) (cw_nodePool s) (cw_fresh s) xs"

lemma cw_relD:
  assumes "cw_rel c s xs"
  shows "cw_cap s = int c" "length xs \<le> c" "cw_length s = int (length xs)"
    "index_state cw_ent (cw_items s) (cw_mem s, cw_head s, cw_tail s) (cw_nodePool s) (cw_fresh s) xs"
    "r_inv c xs"
  using assms index_state_distinct by (fastforce simp: cw_rel_def r_inv_def)+

lemma cw_rel_new: "NewCAWOLFU capacity = Inr s \<Longrightarrow> cw_rel (nat capacity) s []"
  by (auto simp: NewCAWOLFU_def cw_rel_def index_state_empty split: if_splits)

lemma cw_drop_refines:
  assumes "cw_rel c s xs" "map_of (cw_items s) k = Some p"
  shows "\<exists>s'. cw_drop s p k = Some s' \<and> cw_rel c s' (without k xs)"
proof -
  note st = cw_relD(4) [OF assms(1)]
  obtain m h t v where rm: "cw_remove (cw_dl s) p = Some (m, h, t)" "map_of xs k = Some v"
    "\<forall>z. index_state cw_ent (gm_del k (cw_items s)) (m(p \<mapsto> z), h, t) (p # cw_nodePool s)
       (cw_fresh s) (without k xs)"
    using cw_list.remove_index [OF st assms(2)] by blast
  let ?z = zero_CAWOLFUNode
  have len: "length (gm_del k (cw_items s)) = length (without k xs)"
    using index_state_length [OF rm(3) [rule_format, of ?z]] .
  have "gm_wf (cw_items s)" using st by (auto simp: index_state_def indexed_def)
  then have "length (without k xs) = length xs - 1" "0 < length xs"
    using len index_state_length [OF st] assms(2) rm(2) by (auto simp: gomap_simps)
  then have "length (without k xs) \<le> c" "cw_length s - 1 = int (length (without k xs))"
    using cw_relD(2,3) [OF assms(1)] by (cases xs; simp)+
  then show ?thesis using rm(1,3) cw_relD(1) [OF assms(1)]
    by (simp add: cw_drop_def cw_put_dl_def resetCAWOLFUNode_def cw_rel_def Let_def)
qed

lemma CAWOLFU_Delete_refines:
  assumes "cw_rel c s xs"
  shows "\<exists>s' xs'. CAWOLFU_Delete s k = Some s' \<and> r_delete xs k = Some xs' \<and> cw_rel c s' xs'"
proof (cases "map_of (cw_items s) k")
  case None
  then have "k \<notin> fst ` set xs" using index_state_None [OF cw_relD(4) [OF assms]] by simp
  with None assms show ?thesis by (simp add: CAWOLFU_Delete_def r_delete_def without_absent)
next
  case (Some p)
  with cw_drop_refines [OF assms Some] show ?thesis by (simp add: CAWOLFU_Delete_def r_delete_def)
qed

lemma cw_touch_refines:
  assumes "cw_rel c s xs" "map_of (cw_items s) k = Some p" "cw_mem s p = Some n"
    and "prevp n' = prevp n" "nextp n' = nextp n" "cw_ent n' = (k, w)"
  shows "\<exists>d n2. cw_moveToFront ((cw_mem s)(p \<mapsto> n'), cw_head s, cw_tail s) p = Some d \<and>
    fst d p = Some n2 \<and> cwValue n2 = w \<and>
    cw_rel c (cw_put_dl (s\<lparr>cw_mem := (cw_mem s)(p \<mapsto> n')\<rparr>) d) ((k, w) # without k xs)"
proof -
  note st = cw_relD(4) [OF assms(1)]
  obtain ys where ys: "index_state cw_ent (cw_items s) ((cw_mem s)(p \<mapsto> n'), cw_head s, cw_tail s)
      (cw_nodePool s) (cw_fresh s) ys" "map_of ys k = Some w" "without k ys = without k xs"
    using index_state_value [OF st assms(2,3)] assms(4-6) by blast
  obtain m h t n2 where mv: "cw_moveToFront ((cw_mem s)(p \<mapsto> n'), cw_head s, cw_tail s) p = Some (m, h, t)"
    "m p = Some n2" "cw_ent n2 = (k, w)"
    "index_state cw_ent (cw_items s) (m, h, t) (cw_nodePool s) (cw_fresh s) ((k, w) # without k xs)"
    using cw_list.move_index [OF ys(1) assms(2)] ys(2,3) by auto
  have "length ((k, w) # without k xs) = length xs"
    using index_state_length [OF mv(4)] index_state_length [OF st] by simp
  then show ?thesis using mv cw_relD(1-3) [OF assms(1)]
    by (simp add: cw_rel_def cw_put_dl_def cw_ent_def)
qed

lemma cw_lookup:
  assumes "cw_rel c s xs" "map_of (cw_items s) k = Some p"
  obtains n v where "cw_mem s p = Some n" "cwKey n = k" "cwValue n = v" "map_of xs k = Some v"
  using cw_list.remove_index [OF cw_relD(4) [OF assms(1)] assms(2)] by (auto simp: cw_ent_def)

lemma CAWOLFU_Get_refines:
  assumes "cw_rel c s xs"
  shows "\<exists>s' xs' r. CAWOLFU_Get s k = Some (s', r) \<and> r_get xs k = Some (xs', r) \<and> cw_rel c s' xs'"
proof (cases "map_of (cw_items s) k")
  case None
  then have "map_of xs k = None"
    using index_state_None [OF cw_relD(4) [OF assms]] by (simp add: map_of_eq_None_iff)
  with None assms show ?thesis by (simp add: CAWOLFU_Get_def r_get_def)
next
  case (Some p)
  obtain n v where n: "cw_mem s p = Some n" "cwKey n = k" "cwValue n = v" "map_of xs k = Some v"
    using cw_lookup [OF assms Some] .
  let ?n = "n\<lparr>cwCount := cwCount n + 1\<rparr>"
  obtain d n2 where "cw_moveToFront ((cw_mem s)(p \<mapsto> ?n), cw_head s, cw_tail s) p = Some d"
    "fst d p = Some n2" "cwValue n2 = v"
    "cw_rel c (cw_put_dl (s\<lparr>cw_mem := (cw_mem s)(p \<mapsto> ?n)\<rparr>) d) ((k, v) # without k xs)"
    using cw_touch_refines [OF assms Some n(1), of ?n v] n(2,3) by (auto simp: cw_ent_def)
  with Some n show ?thesis
    by (cases d) (simp add: CAWOLFU_Get_def r_get_def Let_def cw_put_dl_def)
qed

lemma cw_tail_lookup:
  assumes "cw_rel c s xs" "cw_tail s = Some p"
  obtains n where "cw_mem s p = Some n" "cwKey n = fst (last xs)" "xs \<noteq> []"
    "map_of (cw_items s) (cwKey n) = Some p" "without (fst (last xs)) xs = butlast xs"
proof -
  note st = cw_relD(4) [OF assms(1)]
  have ne: "xs \<noteq> []" using index_state_tail(1) [OF st] assms(2) by simp
  have p: "map_of (cw_items s) (fst (last xs)) = Some p" by (rule index_state_tail(2) [OF st assms(2)])
  obtain n where n: "cw_mem s p = Some n" "cwKey n = fst (last xs)" using cw_lookup [OF assms(1) p] .
  show thesis by (rule that [OF n ne]) (use p n without_last [OF index_state_distinct [OF st] ne] in simp_all)
qed

lemma CAWOLFU_Evict_refines:
  assumes "cw_rel c s xs"
  shows "\<exists>s' xs' r. CAWOLFU_Evict s = Some (s', r) \<and> r_evict xs = Some (xs', r) \<and> cw_rel c s' xs'"
proof (cases "cw_tail s")
  case None
  then have "xs = []" using index_state_tail(1) [OF cw_relD(4) [OF assms]] by simp
  with None assms show ?thesis by (simp add: CAWOLFU_Evict_def r_evict_def)
next
  case (Some p)
  obtain n where n: "cw_mem s p = Some n" "cwKey n = fst (last xs)" "xs \<noteq> []"
    "map_of (cw_items s) (cwKey n) = Some p" "without (fst (last xs)) xs = butlast xs"
    using cw_tail_lookup [OF assms Some] .
  have "cw_cap s \<noteq> 0" "cw_length s \<noteq> 0" using cw_relD(1-3) [OF assms] n(3) by (cases xs; simp)+
  with cw_drop_refines [OF assms n(4)] Some n show ?thesis
    by (auto simp: CAWOLFU_Evict_def r_evict_def)
qed

lemma cw_insert_refines:
  assumes "cw_rel c s xs" "k \<notin> fst ` set xs" "length xs < c"
  shows "\<exists>s'. cw_insert s k v = Some s' \<and> cw_rel c s' ((k, v) # xs)"
proof -
  obtain s2 a where g: "cw_poolGet s = (s2, a)" by (cases "cw_poolGet s")
  then have eq: "cw_items s2 = cw_items s" "cw_cap s2 = cw_cap s" "cw_length s2 = cw_length s"
    "cw_head s2 = cw_head s" "cw_tail s2 = cw_tail s"
    "case cw_nodePool s of b # as \<Rightarrow>
        (cw_mem s2, cw_nodePool s2, cw_fresh s2, a) = (cw_mem s, as, cw_fresh s, b)
     | [] \<Rightarrow> (cw_mem s2, cw_nodePool s2, cw_fresh s2, a) =
         ((cw_mem s)(cw_fresh s \<mapsto> zero_CAWOLFUNode), [], Suc (cw_fresh s), cw_fresh s)"
    by (auto simp: cw_poolGet_def split: list.splits)
  note fr = pool_get_fresh [OF cw_relD(4) [OF assms(1)] eq(6)]
  obtain n where n: "cw_mem s2 a = Some n" using fr(3) by blast
  let ?n = "n\<lparr>cwKey := k, cwValue := v, cwCount := 1\<rparr>"
  let ?unlinked = "?n\<lparr>prevp := None, nextp := None\<rparr>"
  obtain m' h' t' where ad: "cw_addToFront ((cw_mem s2)(a \<mapsto> ?unlinked), cw_head s, cw_tail s) a = Some (m', h', t')"
    "index_state cw_ent (gm_set k a (cw_items s)) (m', h', t') (cw_nodePool s2) (cw_fresh s2) ((k, v) # xs)"
    using cw_list.add_index [OF fr(1) assms(2) fr(2,3,4), of ?unlinked v] by (auto simp: cw_ent_def)
  have "cw_addToFront ((cw_mem s2)(a \<mapsto> ?n), cw_head s, cw_tail s) a = Some (m', h', t')"
    by (rule trans [OF cw_addToFront_links ad(1)])
  with ad(2) g n eq(1-5) assms(3) cw_relD(1,3) [OF assms(1)] show ?thesis
    by (simp add: cw_insert_def cw_put_dl_def cw_rel_def Let_def)
qed

lemma CAWOLFU_Set_refines:
  assumes "cw_rel c s xs"
  shows "\<exists>s' xs'. CAWOLFU_Set s k v = Some s' \<and> r_set c xs k v = Some xs' \<and> cw_rel c s' xs'"
proof -
  note st = cw_relD(4) [OF assms] and cap = cw_relD(1) [OF assms]
  consider "c = 0" | p where "c \<noteq> 0" "map_of (cw_items s) k = Some p"
    | "c \<noteq> 0" "map_of (cw_items s) k = None" "length xs < c"
    | "c \<noteq> 0" "map_of (cw_items s) k = None" "length xs = c"
    using cw_relD(2) [OF assms] by fastforce
  then show ?thesis
  proof cases
    case 1
    with assms cap show ?thesis by (simp add: CAWOLFU_Set_def r_set_def)
  next
    case (2 p)
    obtain n v0 where n: "cw_mem s p = Some n" "cwKey n = k" "map_of xs k = Some v0"
      using cw_lookup [OF assms 2(2)] .
    have "k \<in> fst ` set xs" by (rule map_of_SomeD_fst [OF n(3)])
    then show ?thesis
      using cw_touch_refines [OF assms 2(2) n(1), of "n\<lparr>cwValue := v, cwCount := cwCount n + 1\<rparr>" v]
        2 n cap
      by (auto simp: CAWOLFU_Set_def r_set_def Let_def cw_ent_def)
  next
    case 3
    have k: "k \<notin> fst ` set xs" using index_state_None [OF st] 3(2) by simp
    with cw_insert_refines [OF assms k 3(3), of v] 3 cap cw_relD(3) [OF assms] show ?thesis
      by (auto simp: CAWOLFU_Set_def r_set_def)
  next
    case 4
    have k: "k \<notin> fst ` set xs" using index_state_None [OF st] 4(2) by simp
    have "xs \<noteq> []" using 4 by auto
    then obtain p where p: "cw_tail s = Some p" using index_state_tail(1) [OF st] by blast
    obtain n where n: "cw_mem s p = Some n" "cwKey n = fst (last xs)" "xs \<noteq> []"
      "map_of (cw_items s) (cwKey n) = Some p" "without (fst (last xs)) xs = butlast xs"
      using cw_tail_lookup [OF assms p] .
    obtain s1 where s1: "cw_drop s p (cwKey n) = Some s1" "cw_rel c s1 (butlast xs)"
      using cw_drop_refines [OF assms n(4)] n(2,5) by auto
    have "cwKey n \<noteq> k" using k n(2,3) by force
    moreover have "k \<notin> fst ` set (butlast xs)" using k by (auto dest: in_set_butlastD)
    moreover have "length (butlast xs) < c" using 4 by simp
    ultimately show ?thesis
      using cw_insert_refines [OF s1(2), of k v] 4 cap cw_relD(3) [OF assms] p n(1) s1(1) k
      by (auto simp: CAWOLFU_Set_def r_set_def)
  qed
qed

section \<open>Results\<close>

definition CAWOLFU_step :: "CAWOLFU \<Rightarrow> alg_op \<Rightarrow> (CAWOLFU \<times> alg_res) option" where
  "CAWOLFU_step = alg_step CAWOLFU_Set CAWOLFU_Get CAWOLFU_Evict CAWOLFU_Delete"

definition CAWOLFU_content :: "CAWOLFU \<Rightarrow> string \<Rightarrow> gval option" where
  "CAWOLFU_content s k =
     (case map_of (cw_items s) k of None \<Rightarrow> None | Some p \<Rightarrow> map_option cwValue (cw_mem s p))"

definition CAWOLFU_cap :: "CAWOLFU \<Rightarrow> nat" where
  "CAWOLFU_cap s = nat (cw_cap s)"

definition CAWOLFU_bindings :: "CAWOLFU \<Rightarrow> rlist" where
  "CAWOLFU_bindings s = walk cw_ent (length (cw_items s)) (cw_mem s) (cw_head s)"

lemma CAWOLFU_bindings_rel: "cw_rel c s xs \<Longrightarrow> CAWOLFU_bindings s = xs"
  using index_state_walk [OF cw_relD(4)] by (simp add: CAWOLFU_bindings_def)

lemma CAWOLFU_content_rel: "cw_rel c s xs \<Longrightarrow> CAWOLFU_content s = map_of xs"
  using index_state_content [OF cw_relD(4)]
  by (auto simp: CAWOLFU_content_def fun_eq_iff cw_ent_def comp_def split: option.splits)

interpretation cawolfu: recency_impl cw_rel CAWOLFU_cap CAWOLFU_content CAWOLFU_Set CAWOLFU_Get
    CAWOLFU_Evict CAWOLFU_Delete
  by unfold_locales
     (use cw_relD CAWOLFU_content_rel CAWOLFU_Set_refines CAWOLFU_Get_refines CAWOLFU_Evict_refines
        CAWOLFU_Delete_refines in \<open>auto simp: CAWOLFU_cap_def\<close>)

end
