(* ===== verification/GoHeap.thy ===== *)
theory GoHeap
  imports Prelude
begin

text \<open>
  \<open>container/heap\<close> of the Go standard library, over an arbitrary \<open>heap.Interface\<close>: \<open>lt\<close> and \<open>sw\<close>
  are the methods \<open>Less\<close> and \<open>Swap\<close> of the client, on the client's state, and may panic. The locale
  \<open>go_heap\<close> states what a client owes (\<open>Less\<close> compares the keys of an array, \<open>Swap\<close> exchanges two
  elements of it) and shows that \<open>Fix\<close>, \<open>Push\<close>, \<open>Pop\<close> and \<open>Remove\<close> keep the heap order and neither
  lose nor invent an element.
\<close>

section \<open>The algorithms\<close>

type_synonym 's less_op = "'s \<Rightarrow> nat \<Rightarrow> nat \<Rightarrow> bool option"
type_synonym 's swap_op = "'s \<Rightarrow> nat \<Rightarrow> nat \<Rightarrow> 's option"

definition parent :: "nat \<Rightarrow> nat" where
  "parent j = (j - 1) div 2"

function heap_up :: "'s less_op \<Rightarrow> 's swap_op \<Rightarrow> 's \<Rightarrow> nat \<Rightarrow> 's option" where
  "heap_up lt sw s j =
     (if parent j = j then Some s
      else case lt s j (parent j) of
        None \<Rightarrow> None
      | Some False \<Rightarrow> Some s
      | Some True \<Rightarrow> (case sw s (parent j) j of
            None \<Rightarrow> None
          | Some s' \<Rightarrow> heap_up lt sw s' (parent j)))"
  by pat_completeness auto
termination
  by (relation "measure (\<lambda>(_, _, _, j). j)") (auto simp: parent_def)

function heap_down :: "'s less_op \<Rightarrow> 's swap_op \<Rightarrow> nat \<Rightarrow> 's \<Rightarrow> nat \<Rightarrow> ('s \<times> nat) option" where
  "heap_down lt sw n s i =
     (let j1 = 2 * i + 1 in
      if j1 \<ge> n then Some (s, i)
      else case (if j1 + 1 < n then lt s (j1 + 1) j1 else Some False) of
        None \<Rightarrow> None
      | Some right \<Rightarrow> (let j = (if right then j1 + 1 else j1) in
          case lt s j i of
            None \<Rightarrow> None
          | Some False \<Rightarrow> Some (s, i)
          | Some True \<Rightarrow> (case sw s i j of
                None \<Rightarrow> None
              | Some s' \<Rightarrow> heap_down lt sw n s' j)))"
  by pat_completeness auto
termination
  by (relation "measure (\<lambda>(_, _, n, _, i). n - i)") (auto split: if_splits)

declare heap_up.simps [simp del] heap_down.simps [simp del]

text \<open>\<open>down\<close> returns whether the element moved; \<open>heap_down\<close> returns where it went.\<close>

definition heap_sift :: "'s less_op \<Rightarrow> 's swap_op \<Rightarrow> nat \<Rightarrow> 's \<Rightarrow> nat \<Rightarrow> 's option" where
  "heap_sift lt sw n s i = (case heap_down lt sw n s i of
       None \<Rightarrow> None
     | Some (s', i') \<Rightarrow> if i < i' then Some s' else heap_up lt sw s' i)"

definition heap_Fix :: "'s less_op \<Rightarrow> 's swap_op \<Rightarrow> ('s \<Rightarrow> nat) \<Rightarrow> 's \<Rightarrow> nat \<Rightarrow> 's option" where
  "heap_Fix lt sw len s i = heap_sift lt sw (len s) s i"

definition heap_Push :: "'s less_op \<Rightarrow> 's swap_op \<Rightarrow> ('s \<Rightarrow> nat) \<Rightarrow> ('s \<Rightarrow> 'x \<Rightarrow> 's option) \<Rightarrow> 's \<Rightarrow> 'x
    \<Rightarrow> 's option" where
  "heap_Push lt sw len push s x = do { s' \<leftarrow> push s x; heap_up lt sw s' (len s' - 1) }"

definition heap_Pop :: "'s less_op \<Rightarrow> 's swap_op \<Rightarrow> ('s \<Rightarrow> nat) \<Rightarrow> ('s \<Rightarrow> ('s \<times> 'x) option) \<Rightarrow> 's
    \<Rightarrow> ('s \<times> 'x) option" where
  "heap_Pop lt sw len pop s = (let n = len s - 1 in do {
     s1 \<leftarrow> sw s 0 n;
     (s2, _) \<leftarrow> heap_down lt sw n s1 0;
     pop s2
   })"

definition heap_Remove :: "'s less_op \<Rightarrow> 's swap_op \<Rightarrow> ('s \<Rightarrow> nat) \<Rightarrow> ('s \<Rightarrow> ('s \<times> 'x) option) \<Rightarrow> 's
    \<Rightarrow> nat \<Rightarrow> ('s \<times> 'x) option" where
  "heap_Remove lt sw len pop s i = (let n = len s - 1 in do {
     s2 \<leftarrow> (if n \<noteq> i then do { s1 \<leftarrow> sw s i n; heap_sift lt sw n s1 i } else Some s);
     pop s2
   })"

section \<open>Heap order\<close>

text \<open>
  \<open>k\<close> gives the key at each position. \<open>heap_but n k i\<close>: among the first \<open>n\<close> positions every edge from a
  parent to its child is in order, except those at \<open>i\<close>, and the children of \<open>i\<close> are in order with its
  parent. \<open>up_inv n k j\<close>: only the edge from the parent of \<open>j\<close> to \<open>j\<close> may be out of order.
\<close>

definition is_heap :: "nat \<Rightarrow> (nat \<Rightarrow> 'k::linorder) \<Rightarrow> bool" where
  "is_heap n k \<longleftrightarrow> (\<forall>c. 0 < c \<longrightarrow> c < n \<longrightarrow> k (parent c) \<le> k c)"

definition across :: "nat \<Rightarrow> (nat \<Rightarrow> 'k::linorder) \<Rightarrow> nat \<Rightarrow> bool" where
  "across n k i \<longleftrightarrow> (\<forall>c. c < n \<longrightarrow> 0 < c \<longrightarrow> parent c = i \<longrightarrow> 0 < i \<longrightarrow> k (parent i) \<le> k c)"

definition heap_but :: "nat \<Rightarrow> (nat \<Rightarrow> 'k::linorder) \<Rightarrow> nat \<Rightarrow> bool" where
  "heap_but n k i \<longleftrightarrow>
     (\<forall>c. 0 < c \<longrightarrow> c < n \<longrightarrow> c \<noteq> i \<longrightarrow> parent c \<noteq> i \<longrightarrow> k (parent c) \<le> k c) \<and> across n k i"

lemma parent_less: "0 < j \<Longrightarrow> parent j < j"
  by (auto simp: parent_def)

lemma parent_fix: "parent j = j \<longleftrightarrow> j = 0"
  by (auto simp: parent_def)

lemma parent_child: "parent c = i \<and> 0 < c \<longleftrightarrow> c = 2 * i + 1 \<or> c = 2 * i + 2"
  by (auto simp: parent_def)

lemma is_heap_root: "is_heap n k \<Longrightarrow> j < n \<Longrightarrow> k 0 \<le> k j"
proof (induction j rule: less_induct)
  case (less j)
  show ?case
  proof (cases "j = 0")
    case False
    then have "parent j < j" by (simp add: parent_less)
    with less have "k 0 \<le> k (parent j)" by simp
    moreover have "k (parent j) \<le> k j" using less.prems False by (simp add: is_heap_def)
    ultimately show ?thesis by simp
  qed simp
qed

lemma is_heap_replace:
  assumes "is_heap n k" "i < n" "\<And>c. c \<noteq> i \<Longrightarrow> c < n \<Longrightarrow> k' c = k c"
  shows "heap_but n k' i"
proof -
  have "across n k' i"
    unfolding across_def
  proof (intro allI impI)
    fix c assume c: "c < n" "0 < c" "parent c = i" "0 < i"
    have "parent i < i" "i < c" using c parent_less by auto
    moreover have "k (parent i) \<le> k i" "k i \<le> k c"
      using assms(1,2) c by (auto simp: is_heap_def)
    ultimately show "k' (parent i) \<le> k' c" using assms(2,3) c by (metis less_irrefl less_trans order_trans)
  qed
  moreover have "k' (parent c) \<le> k' c" if "0 < c" "c < n" "c \<noteq> i" "parent c \<noteq> i" for c
    using assms that parent_less [OF that(1)] by (simp add: is_heap_def)
  ultimately show ?thesis by (simp add: heap_but_def)
qed

lemma is_heap_prefix: "is_heap n k \<Longrightarrow> m \<le> n \<Longrightarrow> is_heap m k"
  by (auto simp: is_heap_def)

definition up_inv :: "nat \<Rightarrow> (nat \<Rightarrow> 'k::linorder) \<Rightarrow> nat \<Rightarrow> bool" where
  "up_inv n k j \<longleftrightarrow> (\<forall>c. 0 < c \<longrightarrow> c < n \<longrightarrow> c \<noteq> j \<longrightarrow> k (parent c) \<le> k c) \<and> across n k j"

lemma up_inv_done: "up_inv n k j \<Longrightarrow> j = 0 \<or> k (parent j) \<le> k j \<Longrightarrow> is_heap n k"
  by (auto simp: up_inv_def is_heap_def)

lemma up_inv_step:
  assumes "up_inv n k j" "0 < j" "j < n" "k j < k (parent j)"
    and k': "k' = k(parent j := k j, j := k (parent j))"
  shows "up_inv n k' (parent j)"
proof -
  let ?p = "parent j"
  have p: "?p < j" using assms(2) by (rule parent_less)
  have edge: "k (parent c) \<le> k c" if "0 < c" "c < n" "c \<noteq> j" for c
    using assms(1) that by (simp add: up_inv_def)
  have low: "k ?p \<le> k c" if "0 < c" "c < n" "parent c = j" for c
    using assms(1,2) that by (simp add: up_inv_def across_def)
  have "k' (parent c) \<le> k' c" if c: "0 < c" "c < n" "c \<noteq> ?p" for c
  proof -
    consider "c = j" | "c \<noteq> j" "parent c = j" | "c \<noteq> j" "parent c = ?p" | "c \<noteq> j" "parent c \<noteq> j" "parent c \<noteq> ?p"
      by blast
    then show ?thesis
    proof cases
      case 1
      with k' p assms(4) show ?thesis by simp
    next
      case 2
      with k' p c low [of c] show ?thesis by simp
    next
      case 3
      with k' p c edge [of c] assms(4) show ?thesis by simp
    next
      case 4
      with k' c edge [of c] show ?thesis by simp
    qed
  qed
  moreover have "across n k' ?p"
    unfolding across_def
  proof (intro allI impI)
    fix c assume c: "c < n" "0 < c" "parent c = ?p" "0 < ?p"
    have "k (parent ?p) \<le> k ?p" using edge [of ?p] p c(4) assms(3) by simp
    moreover have "parent ?p < ?p" by (rule parent_less [OF c(4)])
    moreover have "c \<noteq> j \<Longrightarrow> k ?p \<le> k c" using edge [of c] c by simp
    moreover have "c \<noteq> ?p" using parent_less [OF c(2)] c(3) by simp
    ultimately show "k' (parent ?p) \<le> k' c" using k' p by (cases "c = j") auto
  qed
  ultimately show ?thesis by (simp add: up_inv_def)
qed

lemma heap_but_done:
  "heap_but n k i \<Longrightarrow> (\<And>c. 0 < c \<Longrightarrow> c < n \<Longrightarrow> parent c = i \<Longrightarrow> k i \<le> k c) \<Longrightarrow> up_inv n k i"
  by (auto simp: heap_but_def up_inv_def)

lemma heap_but_step:
  assumes "heap_but n k i" "0 < j" "j < n" "parent j = i" "k j < k i"
    and small: "\<And>c. 0 < c \<Longrightarrow> c < n \<Longrightarrow> parent c = i \<Longrightarrow> k j \<le> k c"
    and k': "k' = k(i := k j, j := k i)"
  shows "heap_but n k' j \<and> k' (parent j) \<le> k' j"
proof -
  have ij: "i < j" using parent_less [OF assms(2)] assms(4) by simp
  have edge: "k (parent c) \<le> k c" if "0 < c" "c < n" "c \<noteq> i" "parent c \<noteq> i" for c
    using assms(1) that by (simp add: heap_but_def)
  have above: "0 < i \<Longrightarrow> k (parent i) \<le> k j"
    using assms(1-4) by (simp add: heap_but_def across_def)
  have "k' (parent c) \<le> k' c" if c: "0 < c" "c < n" "c \<noteq> j" "parent c \<noteq> j" for c
  proof -
    consider "c = i" | "c \<noteq> i" "parent c = i" | "c \<noteq> i" "parent c \<noteq> i" by blast
    then show ?thesis
    proof cases
      case 1
      then have "parent c < i" using parent_less [OF c(1)] by simp
      with k' ij 1 c above show ?thesis by simp
    next
      case 2
      with k' ij c small [of c] show ?thesis by simp
    next
      case 3
      with k' c edge [of c] show ?thesis by simp
    qed
  qed
  moreover have "across n k' j"
    unfolding across_def
  proof (intro allI impI)
    fix c assume c: "c < n" "0 < c" "parent c = j" "0 < j"
    have "j < c" using parent_less [OF c(2)] c(3) by simp
    then show "k' (parent j) \<le> k' c" using k' ij assms(4) edge [of c] c by simp
  qed
  moreover have "k' (parent j) \<le> k' j" using k' ij assms(4,5) by simp
  ultimately show ?thesis by (simp add: heap_but_def)
qed

section \<open>What a client owes, and what it gets\<close>

text \<open>The array of the client's elements, exchanged only within its first \<open>n\<close> positions.\<close>

definition rearranged :: "nat \<Rightarrow> 'e list \<Rightarrow> 'e list \<Rightarrow> bool" where
  "rearranged n a a' \<longleftrightarrow> length a' = length a \<and> mset (take n a') = mset (take n a) \<and> drop n a' = drop n a"

lemma rearranged_refl [simp]: "rearranged n a a"
  by (simp add: rearranged_def)

lemma rearranged_trans: "rearranged n a b \<Longrightarrow> rearranged n b c \<Longrightarrow> rearranged n a c"
  by (simp add: rearranged_def)

lemma rearranged_mset: "rearranged n a a' \<Longrightarrow> mset a' = mset a"
  unfolding rearranged_def by (metis append_take_drop_id mset_append)

lemma rearranged_swap:
  assumes "i < n" "j < n" "n \<le> length a"
  shows "rearranged n a (a[i := a ! j, j := a ! i])"
proof -
  have "take n (a[i := a ! j, j := a ! i]) = (take n a)[i := take n a ! j, j := take n a ! i]"
    using assms by (simp add: take_update_swap)
  moreover have "mset ((take n a)[i := take n a ! j, j := take n a ! i]) = mset (take n a)"
    using assms by (intro mset_swap) auto
  ultimately show ?thesis using assms by (simp add: rearranged_def drop_update_swap)
qed

definition at_key :: "('e \<Rightarrow> 'k) \<Rightarrow> 'e list \<Rightarrow> nat \<Rightarrow> 'k" where
  "at_key key a i = key (a ! i)"

locale go_heap =
  fixes lt :: "'s less_op" and sw :: "'s swap_op"
    and inv :: "'s \<Rightarrow> bool"
    and arr :: "'s \<Rightarrow> 'e list"
    and key :: "'e \<Rightarrow> 'k::linorder"
  assumes lt_ok: "inv s \<Longrightarrow> i < length (arr s) \<Longrightarrow> j < length (arr s) \<Longrightarrow>
      lt s i j = Some (key (arr s ! i) < key (arr s ! j))"
    and sw_ok: "inv s \<Longrightarrow> i < length (arr s) \<Longrightarrow> j < length (arr s) \<Longrightarrow>
      \<exists>s'. sw s i j = Some s' \<and> inv s' \<and> arr s' = (arr s)[i := arr s ! j, j := arr s ! i]"
begin

abbreviation K :: "'s \<Rightarrow> nat \<Rightarrow> 'k" where
  "K s \<equiv> at_key key (arr s)"

lemma K_swap:
  assumes "arr s' = (arr s)[i := arr s ! j, j := arr s ! i]" "i < length (arr s)" "j < length (arr s)" "i \<noteq> j"
  shows "K s' = (K s)(i := K s j, j := K s i)"
  using assms by (auto simp: at_key_def fun_eq_iff nth_list_update)

lemma heap_up_ok:
  assumes "inv s" "n \<le> length (arr s)" "j < n" "up_inv n (K s) j"
  shows "\<exists>s'. heap_up lt sw s j = Some s' \<and> inv s' \<and> rearranged n (arr s) (arr s') \<and> is_heap n (K s')"
  using assms
proof (induction j arbitrary: s rule: less_induct)
  case (less j)
  let ?p = "parent j"
  show ?case
  proof (cases "j = 0 \<or> K s ?p \<le> K s j")
    case True
    then have "heap_up lt sw s j = Some s"
      using less.prems parent_less [of j] lt_ok [OF less.prems(1), of j ?p]
      by (subst heap_up.simps) (auto simp: parent_fix at_key_def dest: leD split: bool.splits)
    then show ?thesis using less.prems(1) up_inv_done [OF less.prems(4) True] by simp
  next
    case False
    then have p: "?p < j" "?p < n" using parent_less [of j] less.prems by auto
    obtain s1 where s1: "sw s ?p j = Some s1" "inv s1" "arr s1 = (arr s)[?p := arr s ! j, j := arr s ! ?p]"
      using sw_ok [OF less.prems(1), of ?p j] less.prems p by auto
    have K1: "K s1 = (K s)(?p := K s j, j := K s ?p)"
      using K_swap [OF s1(3)] less.prems p by simp
    have "up_inv n (K s1) ?p"
      by (rule up_inv_step [OF less.prems(4) _ less.prems(3) _ K1]) (use False in auto)
    then obtain s' where s': "heap_up lt sw s1 ?p = Some s'" "inv s'" "rearranged n (arr s1) (arr s')"
      "is_heap n (K s')"
      using less.IH [OF p(1) s1(2) _ p(2)] less.prems(2) s1(3) by auto
    have "heap_up lt sw s j = heap_up lt sw s1 ?p"
      using False p less.prems lt_ok [OF less.prems(1), of j ?p] s1(1)
      by (subst heap_up.simps) (auto simp: parent_fix at_key_def not_le split: bool.splits)
    moreover have "rearranged n (arr s) (arr s')"
      using rearranged_swap [of ?p n j "arr s"] p less.prems(2,3) s1(3) s'(3) rearranged_trans by metis
    ultimately show ?thesis using s' by auto
  qed
qed

lemma heap_down_ok:
  assumes "inv s" "n \<le> length (arr s)" "heap_but n (K s) i"
  shows "\<exists>s' i'. heap_down lt sw n s i = Some (s', i') \<and> inv s' \<and> rearranged n (arr s) (arr s') \<and>
    i \<le> i' \<and> (i' = i \<longrightarrow> s' = s \<and> up_inv n (K s) i) \<and>
    (i < i' \<or> i = 0 \<or> K s (parent i) \<le> K s i \<longrightarrow> is_heap n (K s'))"
  using assms
proof (induction "n - i" arbitrary: s i rule: less_induct)
  case less
  let ?l = "2 * i + 1"
  have child: "c = ?l \<or> c = ?l + 1" if "0 < c" "parent c = i" for c
    using that parent_child [of c i] by auto
  have stop: ?case if "heap_down lt sw n s i = Some (s, i)"
      "\<And>c. 0 < c \<Longrightarrow> c < n \<Longrightarrow> parent c = i \<Longrightarrow> K s i \<le> K s c"
  proof -
    have "up_inv n (K s) i" by (rule heap_but_done [OF less.prems(3)]) (rule that(2))
    then show ?thesis using that(1) less.prems(1) up_inv_done [of n "K s" i] by auto
  qed
  show ?case
  proof (cases "?l < n")
    case False
    show ?thesis
    proof (rule stop)
      show "heap_down lt sw n s i = Some (s, i)" using False by (subst heap_down.simps) simp
      show "K s i \<le> K s c" if "0 < c" "c < n" "parent c = i" for c
        using child [OF that(1,3)] that(2) False by auto
    qed
  next
    case True
    define j where "j = (if ?l + 1 < n \<and> K s (?l + 1) < K s ?l then ?l + 1 else ?l)"
    have j: "j < n" "0 < j" "parent j = i" "i < j"
      using True by (auto simp: j_def parent_def)
    have small: "K s j \<le> K s c" if "0 < c" "c < n" "parent c = i" for c
      using child [OF that(1,3)] that(2) by (auto simp: j_def)
    have lt: "lt s a b = Some (K s a < K s b)" if "a < n" "b < n" for a b
      using lt_ok [OF less.prems(1)] that less.prems(2) by (simp add: at_key_def)
    have step: "heap_down lt sw n s i = (if K s j < K s i
        then (case sw s i j of None \<Rightarrow> None | Some s' \<Rightarrow> heap_down lt sw n s' j) else Some (s, i))"
      using True j lt by (subst heap_down.simps) (auto simp: j_def Let_def split: option.split)
    show ?thesis
    proof (cases "K s j < K s i")
      case False
      with step small show ?thesis by (intro stop) (auto intro: order_trans simp: not_less)
    next
      case desc: True
      obtain s1 where s1: "sw s i j = Some s1" "inv s1" "arr s1 = (arr s)[i := arr s ! j, j := arr s ! i]"
        using sw_ok [OF less.prems(1), of i j] less.prems(2) j by auto
      have K1: "K s1 = (K s)(i := K s j, j := K s i)"
        using K_swap [OF s1(3)] less.prems(2) j by simp
      have hb: "heap_but n (K s1) j" "K s1 (parent j) \<le> K s1 j"
        using heap_but_step [OF less.prems(3) j(2,1,3) desc _ K1] small by simp_all
      have dec: "n - j < n - i" and len: "n \<le> length (arr s1)" using j less.prems(2) s1(3) by auto
      obtain s' i' where s': "heap_down lt sw n s1 j = Some (s', i')" "inv s'"
        "rearranged n (arr s1) (arr s')" "j \<le> i'" "is_heap n (K s')"
        using less.hyps [OF dec s1(2) len hb(1)] hb(2) by blast
      have "rearranged n (arr s) (arr s')"
        using rearranged_swap [of i n j "arr s"] j less.prems(2) s1(3) s'(3) rearranged_trans
        by (metis less_trans)
      then show ?thesis using step desc s1(1) s' j(4) by auto
    qed
  qed
qed

lemma heap_sift_ok:
  assumes "inv s" "n \<le> length (arr s)" "i < n" "heap_but n (K s) i"
  shows "\<exists>s'. heap_sift lt sw n s i = Some s' \<and> inv s' \<and> rearranged n (arr s) (arr s') \<and> is_heap n (K s')"
proof -
  obtain s1 i1 where d: "heap_down lt sw n s i = Some (s1, i1)" "inv s1" "rearranged n (arr s) (arr s1)"
    "i \<le> i1" "i1 = i \<longrightarrow> s1 = s \<and> up_inv n (K s) i" "i < i1 \<longrightarrow> is_heap n (K s1)"
    using heap_down_ok [OF assms(1,2,4)] by blast
  show ?thesis
  proof (cases "i < i1")
    case True
    with d show ?thesis by (simp add: heap_sift_def)
  next
    case False
    with d(4,5) have "i1 = i" "s1 = s" "up_inv n (K s) i" by auto
    with heap_up_ok [OF assms(1-3)] d(1) show ?thesis by (simp add: heap_sift_def)
  qed
qed

text \<open>The array after \<open>Swap(0, n)\<close> or \<open>Swap(i, n)\<close> with the last position \<open>n\<close>.\<close>

lemma swap_last:
  assumes "inv s" "length (arr s) = Suc n" "i < Suc n" "is_heap (Suc n) (K s)"
  shows "\<exists>s'. sw s i n = Some s' \<and> inv s' \<and> length (arr s') = Suc n \<and> arr s' ! n = arr s ! i \<and>
    mset (arr s') = mset (arr s) \<and> heap_but n (K s') i"
proof -
  obtain s' where s': "sw s i n = Some s'" "inv s'" "arr s' = (arr s)[i := arr s ! n, n := arr s ! i]"
    using sw_ok [OF assms(1), of i n] assms(2,3) by auto
  have "mset (arr s') = mset (arr s)"
    using s'(3) assms(2,3) by (auto intro: mset_swap)
  moreover have "heap_but n (K s') i"
  proof (cases "i < n")
    case True
    show ?thesis
      by (rule is_heap_replace [OF is_heap_prefix [OF assms(4)] True])
         (use s'(3) assms(2) in \<open>auto simp: at_key_def\<close>)
  next
    case False
    then have "i = n" using assms(3) by simp
    then have "arr s' = arr s" using s'(3) by simp
    moreover have "c < n \<Longrightarrow> 0 < c \<Longrightarrow> parent c \<noteq> n" for c using parent_less [of c] by simp
    ultimately show ?thesis using assms(4) \<open>i = n\<close>
      by (auto simp: heap_but_def is_heap_def across_def)
  qed
  ultimately show ?thesis using s' assms(2,3) by auto
qed

lemma heap_Fix_ok:
  assumes "inv s" "i < length (arr s)" "heap_but (length (arr s)) (K s) i" "len s = length (arr s)"
  shows "\<exists>s'. heap_Fix lt sw len s i = Some s' \<and> inv s' \<and> mset (arr s') = mset (arr s) \<and>
    is_heap (length (arr s')) (K s')"
proof -
  obtain s' where s': "heap_sift lt sw (length (arr s)) s i = Some s'" "inv s'"
    "rearranged (length (arr s)) (arr s) (arr s')" "is_heap (length (arr s)) (K s')"
    using heap_sift_ok [OF assms(1) _ assms(2,3)] by auto
  moreover have "length (arr s') = length (arr s)" using s'(3) by (simp add: rearranged_def)
  ultimately show ?thesis using assms(4) rearranged_mset by (auto simp: heap_Fix_def)
qed

lemma heap_Push_ok:
  assumes "push s x = Some s1" "inv s1" "arr s1 = arr s @ [e]" "is_heap (length (arr s)) (K s)"
    "len s1 = length (arr s1)"
  shows "\<exists>s'. heap_Push lt sw len push s x = Some s' \<and> inv s' \<and> mset (arr s') = add_mset e (mset (arr s)) \<and>
    is_heap (length (arr s')) (K s')"
proof -
  let ?n = "length (arr s)"
  have "K s1 (parent c) \<le> K s1 c" if "0 < c" "c < ?n" for c
    using assms(3,4) that parent_less [OF that(1)] by (simp add: is_heap_def at_key_def nth_append)
  moreover have "parent c \<noteq> ?n" if "0 < c" "c < Suc ?n" for c
    using parent_less [OF that(1)] that(2) by simp
  ultimately have "up_inv (Suc ?n) (K s1) ?n"
    by (auto simp: up_inv_def across_def less_Suc_eq)
  with heap_up_ok [OF assms(2), of "Suc ?n" ?n] assms(3)
  obtain s' where s': "heap_up lt sw s1 ?n = Some s'" "inv s'" "rearranged (Suc ?n) (arr s1) (arr s')"
    "is_heap (Suc ?n) (K s')" by auto
  moreover have "length (arr s') = Suc ?n" using s'(3) assms(3) by (simp add: rearranged_def)
  moreover have "mset (arr s') = add_mset e (mset (arr s))"
    using rearranged_mset [OF s'(3)] assms(3) by simp
  ultimately show ?thesis using assms(1,3,5) by (simp add: heap_Push_def)
qed

lemma last_nth: "length a = Suc n \<Longrightarrow> last a = a ! n"
  by (cases a rule: rev_cases) (auto simp: nth_append)

lemma rearranged_last:
  assumes "rearranged n a b" "length a = Suc n"
  shows "b ! n = a ! n"
  using assms unfolding rearranged_def by (metis hd_drop_conv_nth lessI)

lemma popped_heap:
  assumes "is_heap n (at_key key a)" "length a = Suc n"
  shows "is_heap n (at_key key (butlast a))"
  unfolding is_heap_def
proof (intro allI impI)
  fix c assume c: "0 < c" "c < n"
  then have "parent c < n" using parent_less [of c] by simp
  then show "at_key key (butlast a) (parent c) \<le> at_key key (butlast a) c"
    using assms c by (simp add: is_heap_def at_key_def nth_butlast)
qed

lemma heap_Remove_ok:
  assumes "inv s" "i < length (arr s)" "is_heap (length (arr s)) (K s)" "len s = length (arr s)"
  shows "\<exists>s2. heap_Remove lt sw len pop s i = pop s2 \<and> inv s2 \<and>
    length (arr s2) = length (arr s) \<and> last (arr s2) = arr s ! i \<and> mset (arr s2) = mset (arr s) \<and>
    is_heap (length (arr s) - 1) (at_key key (butlast (arr s2)))"
proof -
  obtain n where n: "length (arr s) = Suc n" using assms(2) by (cases "length (arr s)") auto
  show ?thesis
  proof (cases "i = n")
    case True
    have "is_heap n (K s)" using is_heap_prefix [OF assms(3)] n by simp
    from popped_heap [OF this n] True n assms(1,4) show ?thesis
      by (intro exI [of _ s]) (auto simp: heap_Remove_def last_nth)
  next
    case False
    then have i: "i < n" using assms(2) n by simp
    obtain s1 where s1: "sw s i n = Some s1" "inv s1" "length (arr s1) = Suc n" "arr s1 ! n = arr s ! i"
      "mset (arr s1) = mset (arr s)" "heap_but n (K s1) i"
      using swap_last [OF assms(1) n, of i] assms(3) n i by auto
    obtain s2 where s2: "heap_sift lt sw n s1 i = Some s2" "inv s2" "rearranged n (arr s1) (arr s2)"
      "is_heap n (K s2)" using heap_sift_ok [OF s1(2) _ i s1(6)] s1(3) by auto
    have l: "length (arr s2) = Suc n" using s2(3) s1(3) by (simp add: rearranged_def)
    moreover have "last (arr s2) = arr s ! i"
      using rearranged_last [OF s2(3) s1(3)] s1(4) l by (simp add: last_nth)
    ultimately show ?thesis
      using False s1 s2 n assms(4) rearranged_mset [OF s2(3)] popped_heap [OF s2(4) l]
      by (intro exI [of _ s2]) (auto simp: heap_Remove_def)
  qed
qed

lemma heap_Pop_ok:
  assumes "inv s" "arr s \<noteq> []" "is_heap (length (arr s)) (K s)" "len s = length (arr s)"
  shows "\<exists>s2. heap_Pop lt sw len pop s = pop s2 \<and> inv s2 \<and>
    length (arr s2) = length (arr s) \<and> mset (arr s2) = mset (arr s) \<and>
    (\<forall>e \<in> set (arr s). key (last (arr s2)) \<le> key e) \<and>
    is_heap (length (arr s) - 1) (at_key key (butlast (arr s2)))"
proof -
  obtain n where n: "length (arr s) = Suc n" using assms(2) by (cases "arr s") auto
  obtain s1 where s1: "sw s 0 n = Some s1" "inv s1" "length (arr s1) = Suc n" "arr s1 ! n = arr s ! 0"
    "mset (arr s1) = mset (arr s)" "heap_but n (K s1) 0"
    using swap_last [OF assms(1) n, of 0] assms(3) n by auto
  obtain s2 i2 where s2: "heap_down lt sw n s1 0 = Some (s2, i2)" "inv s2" "rearranged n (arr s1) (arr s2)"
    "is_heap n (K s2)" using heap_down_ok [OF s1(2) _ s1(6)] s1(3) by auto
  have l: "length (arr s2) = Suc n" using s2(3) s1(3) by (simp add: rearranged_def)
  have "last (arr s2) = arr s ! 0"
    using rearranged_last [OF s2(3) s1(3)] s1(4) l by (simp add: last_nth)
  moreover have "key (arr s ! 0) \<le> key e" if "e \<in> set (arr s)" for e
    using that is_heap_root [OF assms(3)] by (auto simp: in_set_conv_nth at_key_def)
  ultimately show ?thesis
    using s1 s2 n l assms(4) rearranged_mset [OF s2(3)] popped_heap [OF s2(4) l]
    by (intro exI [of _ s2]) (auto simp: heap_Pop_def)
qed

end

end
