(* ===== verification/LFU.thy ===== *)
theory LFU
  imports GoHeap EvictionSpec "HOL-Library.Product_Lexorder"
begin

text \<open>
  \<open>pkg/eviction/lfu.go\<close>: a map from keys to nodes and a binary heap of the same nodes, kept by
  \<open>container/heap\<close> through the methods of \<open>FrequencyHeap\<close>. A node carries its position in the heap.
  \<open>lfu_mem\<close> is the store of the nodes. The specification \<open>lfu_spec\<close> is a cache of values, hit counts and
  last-use stamps that evicts a minimal entry; the heap version implements it.
\<close>

section \<open>State and operations\<close>

record Node =
  nd_key :: string
  nd_value :: gval
  nd_count :: int
  nd_index :: int
  nd_last :: "64 word"

type_synonym FrequencyHeap = "(addr \<rightharpoonup> Node) \<times> addr list"

record LFUAlgorithm =
  lfu_items :: "(string, addr) gomap"
  lfu_freqs :: "addr list"
  lfu_length :: int
  lfu_cap :: int
  lfu_seq :: "64 word"
  lfu_mem :: "addr \<rightharpoonup> Node"
  lfu_fresh :: addr

definition fh_Len :: "FrequencyHeap \<Rightarrow> nat" where
  "fh_Len h = length (snd h)"

definition fh_node :: "FrequencyHeap \<Rightarrow> nat \<Rightarrow> Node option" where
  "fh_node h i = (case h of (m, fh) \<Rightarrow> if i < length fh then m (fh ! i) else None)"

definition fh_Less :: "FrequencyHeap \<Rightarrow> nat \<Rightarrow> nat \<Rightarrow> bool option" where
  "fh_Less h i j = do {
     a \<leftarrow> fh_node h i;
     b \<leftarrow> fh_node h j;
     Some (if nd_count a = nd_count b then nd_last a < nd_last b else nd_count a < nd_count b)
   }"

definition fh_setIndex :: "FrequencyHeap \<Rightarrow> nat \<Rightarrow> FrequencyHeap option" where
  "fh_setIndex h i = (case h of (m, fh) \<Rightarrow> do {
     n \<leftarrow> fh_node h i;
     Some (m(fh ! i \<mapsto> n\<lparr>nd_index := int i\<rparr>), fh)
   })"

definition fh_Swap :: "FrequencyHeap \<Rightarrow> nat \<Rightarrow> nat \<Rightarrow> FrequencyHeap option" where
  "fh_Swap h i j = (case h of (m, fh) \<Rightarrow>
     if i < length fh \<and> j < length fh
     then do { h1 \<leftarrow> fh_setIndex (m, fh[i := fh ! j, j := fh ! i]) i; fh_setIndex h1 j }
     else None)"

definition fh_Push :: "FrequencyHeap \<Rightarrow> addr \<Rightarrow> FrequencyHeap option" where
  "fh_Push h x = (case h of (m, fh) \<Rightarrow> do {
     n \<leftarrow> m x;
     Some (m(x \<mapsto> n\<lparr>nd_index := int (length fh)\<rparr>), fh @ [x])
   })"

definition fh_Pop :: "FrequencyHeap \<Rightarrow> (FrequencyHeap \<times> addr) option" where
  "fh_Pop h = (case h of (m, fh) \<Rightarrow>
     if fh = [] then None
     else do {
       n \<leftarrow> m (last fh);
       Some ((m(last fh \<mapsto> n\<lparr>nd_index := -1\<rparr>), butlast fh), last fh)
     })"

definition NewLFUAlgorithm :: "int \<Rightarrow> sentinel + LFUAlgorithm" where
  "NewLFUAlgorithm capacity =
     (if capacity < 0 then Inl ErrInvalidCapacity
      else Inr \<lparr>lfu_items = [], lfu_freqs = [], lfu_length = 0, lfu_cap = capacity, lfu_seq = 0,
                lfu_mem = Map.empty, lfu_fresh = 0\<rparr>)"

abbreviation lfu_heap :: "LFUAlgorithm \<Rightarrow> FrequencyHeap" where
  "lfu_heap s \<equiv> (lfu_mem s, lfu_freqs s)"

definition lfu_put :: "LFUAlgorithm \<Rightarrow> FrequencyHeap \<Rightarrow> LFUAlgorithm" where
  "lfu_put s h = s\<lparr>lfu_mem := fst h, lfu_freqs := snd h\<rparr>"

text \<open>\<open>heap.Fix(l.freqs, node.index)\<close>; at the index -1 of a popped node both of its loops stop at
  once.\<close>

definition lfu_Fix :: "FrequencyHeap \<Rightarrow> int \<Rightarrow> FrequencyHeap option" where
  "lfu_Fix h i = (if i < 0 then Some h else heap_Fix fh_Less fh_Swap fh_Len h (nat i))"

definition lfu_Remove :: "FrequencyHeap \<Rightarrow> int \<Rightarrow> (FrequencyHeap \<times> addr) option" where
  "lfu_Remove h i = (if i < 0 then None else heap_Remove fh_Less fh_Swap fh_Len fh_Pop h (nat i))"

definition lfu_internalEvict :: "LFUAlgorithm \<Rightarrow> (LFUAlgorithm \<times> string option) option" where
  "lfu_internalEvict s =
     (if lfu_length s = 0 then Some (s, None)
      else do {
        (h, node) \<leftarrow> heap_Pop fh_Less fh_Swap fh_Len fh_Pop (lfu_heap s);
        n \<leftarrow> fst h node;
        let s1 = lfu_put s h;
        Some (s1\<lparr>lfu_items := gm_del (nd_key n) (lfu_items s1), lfu_length := lfu_length s1 - 1\<rparr>,
              Some (nd_key n))
      })"

definition LFU_Evict :: "LFUAlgorithm \<Rightarrow> (LFUAlgorithm \<times> string option) option" where
  "LFU_Evict s = (if lfu_cap s = 0 then Some (s, None) else lfu_internalEvict s)"

text \<open>The bookkeeping of a hit, shared by \<open>Get\<close> and by \<open>Set\<close> on a present key.\<close>

definition lfu_touch :: "LFUAlgorithm \<Rightarrow> addr \<Rightarrow> Node \<Rightarrow> LFUAlgorithm option" where
  "lfu_touch s a n = do {
     let q = lfu_seq s + 1;
     let m = (lfu_mem s)(a \<mapsto> n\<lparr>nd_count := nd_count n + 1, nd_last := q\<rparr>);
     h \<leftarrow> lfu_Fix (m, lfu_freqs s) (nd_index n);
     Some ((lfu_put s h)\<lparr>lfu_seq := q\<rparr>)
   }"

definition lfu_insert :: "LFUAlgorithm \<Rightarrow> string \<Rightarrow> gval \<Rightarrow> LFUAlgorithm option" where
  "lfu_insert s key value = do {
     let q = lfu_seq s + 1;
     let a = lfu_fresh s;
     let node = \<lparr>nd_key = key, nd_value = value, nd_count = 1, nd_index = 0, nd_last = q\<rparr>;
     h \<leftarrow> heap_Push fh_Less fh_Swap fh_Len fh_Push ((lfu_mem s)(a \<mapsto> node), lfu_freqs s) a;
     Some ((lfu_put s h)\<lparr>lfu_items := gm_set key a (lfu_items s), lfu_length := lfu_length s + 1,
            lfu_seq := q, lfu_fresh := Suc a\<rparr>)
   }"

definition LFU_Set :: "LFUAlgorithm \<Rightarrow> string \<Rightarrow> gval \<Rightarrow> LFUAlgorithm option" where
  "LFU_Set s key value =
     (if lfu_cap s = 0 then Some s
      else case map_of (lfu_items s) key of
        Some a \<Rightarrow> do { n \<leftarrow> lfu_mem s a; lfu_touch s a (n\<lparr>nd_value := value\<rparr>) }
      | None \<Rightarrow> do {
          s1 \<leftarrow> (if lfu_length s = lfu_cap s then map_option fst (lfu_internalEvict s) else Some s);
          lfu_insert s1 key value
        })"

definition LFU_Get :: "LFUAlgorithm \<Rightarrow> string \<Rightarrow> (LFUAlgorithm \<times> gval option) option" where
  "LFU_Get s key = (case map_of (lfu_items s) key of
       None \<Rightarrow> Some (s, None)
     | Some a \<Rightarrow> do {
         n \<leftarrow> lfu_mem s a;
         s1 \<leftarrow> lfu_touch s a n;
         n1 \<leftarrow> lfu_mem s1 a;
         Some (s1, Some (nd_value n1))
       })"

definition LFU_Delete :: "LFUAlgorithm \<Rightarrow> string \<Rightarrow> LFUAlgorithm option" where
  "LFU_Delete s key = (case map_of (lfu_items s) key of
       None \<Rightarrow> Some s
     | Some a \<Rightarrow> do {
         n \<leftarrow> lfu_mem s a;
         (h, _) \<leftarrow> lfu_Remove (lfu_heap s) (nd_index n);
         let s1 = lfu_put s h;
         Some (s1\<lparr>lfu_items := gm_del key (lfu_items s1), lfu_length := lfu_length s1 - 1\<rparr>)
       })"

section \<open>The frequency heap as a client of the heap package\<close>

text \<open>
  An element of the array is the address of a node and the node without its index; \<open>fh_inv m0\<close> says
  that every node of the heap knows its position and that the other nodes are as in \<open>m0\<close>.
\<close>

definition fh_elem :: "(addr \<rightharpoonup> Node) \<Rightarrow> addr \<Rightarrow> addr \<times> Node" where
  "fh_elem m a = (a, (the (m a))\<lparr>nd_index := 0\<rparr>)"

definition fh_arr :: "FrequencyHeap \<Rightarrow> (addr \<times> Node) list" where
  "fh_arr h = map (fh_elem (fst h)) (snd h)"

definition fh_prio :: "addr \<times> Node \<Rightarrow> int \<times> 64 word" where
  "fh_prio e = (nd_count (snd e), nd_last (snd e))"

definition fh_inv :: "(addr \<rightharpoonup> Node) \<Rightarrow> FrequencyHeap \<Rightarrow> bool" where
  "fh_inv m0 h \<longleftrightarrow> distinct (snd h) \<and>
     (\<forall>i < length (snd h). \<exists>n. fst h (snd h ! i) = Some n \<and> nd_index n = int i) \<and>
     (\<forall>a. a \<notin> set (snd h) \<longrightarrow> fst h a = m0 a)"

lemma fh_arr_length [simp]: "length (fh_arr h) = length (snd h)"
  by (simp add: fh_arr_def)

lemma fh_Swap_ok:
  assumes "fh_inv m0 h" "i < length (snd h)" "j < length (snd h)"
  shows "\<exists>h'. fh_Swap h i j = Some h' \<and> fh_inv m0 h' \<and>
    fh_arr h' = (fh_arr h)[i := fh_arr h ! j, j := fh_arr h ! i]"
proof -
  obtain m fh where h: "h = (m, fh)" by (cases h)
  note inv = assms(1) [unfolded fh_inv_def h, simplified]
  obtain ni nj where n: "m (fh ! i) = Some ni" "m (fh ! j) = Some nj" using inv assms(2,3) h by fastforce
  let ?fh = "fh[i := fh ! j, j := fh ! i]"
  let ?m = "m(fh ! j \<mapsto> nj\<lparr>nd_index := int i\<rparr>, fh ! i \<mapsto> ni\<lparr>nd_index := int j\<rparr>)"
  have len: "i < length fh" "j < length fh" using assms(2,3) h by auto
  have nth: "?fh ! c = (if c = j then fh ! i else if c = i then fh ! j else fh ! c)" if "c < length fh" for c
    using that len by (auto simp: nth_list_update)
  have sw: "fh_Swap h i j = Some (?m, ?fh)"
  proof (cases "i = j")
    case True
    with n len h show ?thesis by (simp add: fh_Swap_def fh_setIndex_def fh_node_def)
  next
    case False
    then have "fh ! i \<noteq> fh ! j" using inv len by (simp add: nth_eq_iff_index_eq)
    with False n len h show ?thesis by (simp add: fh_Swap_def fh_setIndex_def fh_node_def nth_list_update)
  qed
  have eq: "fh ! c = fh ! d \<longleftrightarrow> c = d" if "c < length fh" "d < length fh" for c d
    using inv that by (simp add: nth_eq_iff_index_eq)
  have "set ?fh = set fh" using len by (simp add: set_swap)
  moreover have "distinct ?fh" using inv len by (simp add: distinct_swap)
  moreover have "\<exists>n. ?m (?fh ! c) = Some n \<and> nd_index n = int c" if "c < length fh" for c
    using inv that len nth [OF that] by (auto simp: eq)
  ultimately have "fh_inv m0 (?m, ?fh)" using inv len by (auto simp: fh_inv_def)
  moreover have "fh_elem ?m = fh_elem m"
    using n by (auto simp: fun_eq_iff fh_elem_def)
  then have "fh_arr (?m, ?fh) = (fh_arr h)[i := fh_arr h ! j, j := fh_arr h ! i]"
    using h len by (simp add: fh_arr_def map_update)
  ultimately show ?thesis using sw by blast
qed

interpretation fheap: go_heap fh_Less fh_Swap "fh_inv m0" fh_arr fh_prio for m0
proof (unfold_locales, goal_cases)
  case (1 s i j)
  obtain m fh where s: "s = (m, fh)" by (cases s)
  obtain a b where "m (fh ! i) = Some a" "m (fh ! j) = Some b"
    using 1 s by (fastforce simp: fh_inv_def)
  with 1 s show ?case
    by (auto simp: fh_Less_def fh_node_def fh_prio_def fh_arr_def fh_elem_def less_prod_def')
next
  case (2 s i j)
  then show ?case using fh_Swap_ok by simp
qed

section \<open>The invariant\<close>

definition lfu_inv :: "nat \<Rightarrow> LFUAlgorithm \<Rightarrow> bool" where
  "lfu_inv c s \<longleftrightarrow>
     lfu_cap s = int c \<and> length (lfu_freqs s) \<le> c \<and> lfu_length s = int (length (lfu_freqs s)) \<and>
     fh_inv (lfu_mem s) (lfu_heap s) \<and>
     is_heap (length (lfu_freqs s)) (at_key fh_prio (fh_arr (lfu_heap s))) \<and>
     gm_wf (lfu_items s) \<and>
     set (lfu_items s) = (\<lambda>(a, n). (nd_key n, a)) ` set (fh_arr (lfu_heap s)) \<and>
     (\<forall>a \<in> dom (lfu_mem s). a < lfu_fresh s)"

lemma lfu_invD:
  assumes "lfu_inv c s"
  shows "lfu_cap s = int c" "length (lfu_freqs s) \<le> c" "lfu_length s = int (length (lfu_freqs s))"
    "fh_inv (lfu_mem s) (lfu_heap s)"
    "is_heap (length (lfu_freqs s)) (at_key fh_prio (fh_arr (lfu_heap s)))"
    "gm_wf (lfu_items s)"
    "set (lfu_items s) = (\<lambda>(a, n). (nd_key n, a)) ` set (fh_arr (lfu_heap s))"
    "\<forall>a \<in> dom (lfu_mem s). a < lfu_fresh s"
  using assms by (simp_all add: lfu_inv_def)

lemma fh_arr_fst [simp]: "map fst (fh_arr h) = snd h"
  by (simp add: fh_arr_def fh_elem_def comp_def)

lemma fh_arr_mem:
  assumes "fh_inv m0 h" "(a, n) \<in> set (fh_arr h)"
  obtains i n' where "i < length (snd h)" "snd h ! i = a" "fst h a = Some n'" "nd_index n' = int i"
    "n = n'\<lparr>nd_index := 0\<rparr>" "a \<in> set (snd h)"
proof -
  have "a \<in> set (snd h)" "n = (the (fst h a))\<lparr>nd_index := 0\<rparr>"
    using assms(2) by (auto simp: fh_arr_def fh_elem_def)
  moreover from this obtain i where "i < length (snd h)" "snd h ! i = a" by (auto simp: in_set_conv_nth)
  ultimately show thesis using assms(1) that by (auto simp: fh_inv_def)
qed

lemma fh_arr_in:
  "fst h a = Some n \<Longrightarrow> a \<in> set (snd h) \<Longrightarrow> (a, n\<lparr>nd_index := 0\<rparr>) \<in> set (fh_arr h)"
  by (force simp: fh_arr_def fh_elem_def)

lemma fh_dom:
  assumes "fh_inv m0 h" "\<forall>a \<in> dom m0. a < f" "\<forall>a \<in> set (snd h). a < f"
  shows "\<forall>a \<in> dom (fst h). a < f"
  using assms by (auto simp: fh_inv_def domIff)

lemma lfu_lookup:
  assumes "lfu_inv c s" "map_of (lfu_items s) k = Some a"
  obtains n where "lfu_mem s a = Some n" "nd_key n = k" "0 \<le> nd_index n"
    "nat (nd_index n) < length (lfu_freqs s)" "lfu_freqs s ! nat (nd_index n) = a"
    "(a, n\<lparr>nd_index := 0\<rparr>) \<in> set (fh_arr (lfu_heap s))"
proof -
  have "(k, a) \<in> set (lfu_items s)" using assms lfu_invD(6) gm_in_set_iff by metis
  then obtain n where "(a, n) \<in> set (fh_arr (lfu_heap s))" "nd_key n = k"
    using lfu_invD(7) [OF assms(1)] by auto
  then show thesis using fh_arr_mem [OF lfu_invD(4) [OF assms(1)]] that
    by (metis (no_types, lifting) Node.select_convs(1) Node.surjective Node.update_convs(4) fst_conv nat_int of_nat_0_le_iff snd_conv)
qed

text \<open>The abstraction: what is stored under a key, with its hit count and stamp.\<close>

definition LFU_entry :: "LFUAlgorithm \<Rightarrow> string \<Rightarrow> (gval \<times> int \<times> 64 word) option" where
  "LFU_entry s k = (case map_of (lfu_items s) k of
       None \<Rightarrow> None
     | Some a \<Rightarrow> map_option (\<lambda>n. (nd_value n, nd_count n, nd_last n)) (lfu_mem s a))"

definition node_entry :: "Node \<Rightarrow> gval \<times> int \<times> 64 word" where
  "node_entry n = (nd_value n, nd_count n, nd_last n)"

lemma LFU_entry_iff:
  assumes "lfu_inv c s"
  shows "LFU_entry s k = Some e \<longleftrightarrow>
    (\<exists>a n. (a, n) \<in> set (fh_arr (lfu_heap s)) \<and> nd_key n = k \<and> e = node_entry n)"
proof
  assume e: "LFU_entry s k = Some e"
  then obtain a where a: "map_of (lfu_items s) k = Some a" by (auto simp: LFU_entry_def split: option.splits)
  obtain n where n: "lfu_mem s a = Some n" "nd_key n = k" "(a, n\<lparr>nd_index := 0\<rparr>) \<in> set (fh_arr (lfu_heap s))"
    using lfu_lookup [OF assms a] .
  then have "nd_key (n\<lparr>nd_index := 0\<rparr>) = k" "e = node_entry (n\<lparr>nd_index := 0\<rparr>)"
    using e a by (auto simp: LFU_entry_def node_entry_def)
  with n(3) show "\<exists>a n. (a, n) \<in> set (fh_arr (lfu_heap s)) \<and> nd_key n = k \<and> e = node_entry n" by blast
next
  assume "\<exists>a n. (a, n) \<in> set (fh_arr (lfu_heap s)) \<and> nd_key n = k \<and> e = node_entry n"
  then obtain a n where an: "(a, n) \<in> set (fh_arr (lfu_heap s))" "nd_key n = k" "e = node_entry n" by blast
  then have "(k, a) \<in> set (lfu_items s)" using lfu_invD(7) [OF assms] by force
  then have "map_of (lfu_items s) k = Some a" using lfu_invD(6) [OF assms] gm_in_set_iff by metis
  moreover obtain n' where "lfu_mem s a = Some n'" "n = n'\<lparr>nd_index := 0\<rparr>"
    using fh_arr_mem [OF lfu_invD(4) [OF assms] an(1)] by (metis fst_conv)
  ultimately show "LFU_entry s k = Some e" using an(3) by (simp add: LFU_entry_def node_entry_def)
qed

lemma fh_arr_iff: "(b, x) \<in> set (fh_arr h) \<longleftrightarrow> b \<in> set (snd h) \<and> fh_elem (fst h) b = (b, x)"
  by (auto simp: fh_arr_def fh_elem_def)

lemma fh_arr_set:
  assumes "set (fh_arr h') \<subseteq> set (fh_arr h)" "b \<in> set (snd h')"
  shows "fh_elem (fst h') b = fh_elem (fst h) b" "b \<in> set (snd h)"
proof -
  have "(b, snd (fh_elem (fst h') b)) \<in> set (fh_arr h')" using assms(2) by (simp add: fh_arr_iff fh_elem_def)
  then have "(b, snd (fh_elem (fst h') b)) \<in> set (fh_arr h)" using assms(1) by blast
  then show "fh_elem (fst h') b = fh_elem (fst h) b" "b \<in> set (snd h)"
    by (simp_all add: fh_arr_iff fh_elem_def)
qed

lemma lfu_entry_elem:
  assumes "fh_inv m0 (lfu_heap s)" "map_of (lfu_items s) k = Some a" "a \<in> set (lfu_freqs s)"
  shows "LFU_entry s k = Some (node_entry (snd (fh_elem (lfu_mem s) a)))"
proof -
  obtain n where "lfu_mem s a = Some n" using assms(1,3) by (auto simp: fh_inv_def in_set_conv_nth)
  with assms(2) show ?thesis by (simp add: LFU_entry_def node_entry_def fh_elem_def)
qed

lemma lfu_items_freqs:
  "lfu_inv c s \<Longrightarrow> map_of (lfu_items s) k = Some a \<Longrightarrow>
   a \<in> set (lfu_freqs s) \<and> nd_key (snd (fh_elem (lfu_mem s) a)) = k"
  by (elim lfu_lookup) (auto simp: fh_elem_def fh_arr_iff)

lemma lfu_freqs_dom: "lfu_inv c s \<Longrightarrow> a \<in> set (lfu_freqs s) \<Longrightarrow> a < lfu_fresh s"
  using lfu_invD(4,8) by (fastforce simp: fh_inv_def in_set_conv_nth dom_def)

lemma lfu_touch_ok:
  assumes "lfu_inv c s" "map_of (lfu_items s) k = Some a" "lfu_mem s a = Some n"
    and n1: "nd_key n1 = nd_key n" "nd_index n1 = nd_index n"
  shows "\<exists>s' n'. lfu_touch s a n1 = Some s' \<and> lfu_inv c s' \<and> lfu_seq s' = lfu_seq s + 1 \<and>
    lfu_mem s' a = Some n' \<and> nd_value n' = nd_value n1 \<and>
    LFU_entry s' = (LFU_entry s)(k \<mapsto> (nd_value n1, nd_count n1 + 1, lfu_seq s + 1))"
proof -
  let ?q = "lfu_seq s + 1" and ?fh = "lfu_freqs s"
  let ?n = "n1\<lparr>nd_count := nd_count n1 + 1, nd_last := ?q\<rparr>"
  let ?m = "(lfu_mem s)(a \<mapsto> ?n)"
  define i where "i = nat (nd_index n)"
  have i: "0 \<le> nd_index n" "i < length ?fh" "?fh ! i = a" and k: "nd_key n = k"
    using lfu_lookup [OF assms(1,2)] assms(3) by (auto simp: i_def)
  note inv = lfu_invD [OF assms(1)]
  have dist: "distinct ?fh" using inv(4) by (simp add: fh_inv_def)
  have inv1: "fh_inv ?m (?m, ?fh)"
    using inv(4) assms(3) n1(2) by (auto simp: fh_inv_def)
  have arr: "fh_arr (?m, ?fh) = (fh_arr (lfu_heap s))[i := (a, ?n\<lparr>nd_index := 0\<rparr>)]"
    using dist i by (intro nth_equalityI) (auto simp: fh_arr_def fh_elem_def nth_list_update nth_eq_iff_index_eq)
  have "heap_but (length (fh_arr (?m, ?fh))) (at_key fh_prio (fh_arr (?m, ?fh))) i"
    by (rule is_heap_replace [of _ "at_key fh_prio (fh_arr (lfu_heap s))"])
       (use inv(5) i arr in \<open>auto simp: at_key_def\<close>)
  then obtain h where h: "heap_Fix fh_Less fh_Swap fh_Len (?m, ?fh) i = Some h" "fh_inv ?m h"
    "mset (fh_arr h) = mset (fh_arr (?m, ?fh))" "is_heap (length (fh_arr h)) (at_key fh_prio (fh_arr h))"
    using fheap.heap_Fix_ok [OF inv1, of i fh_Len] i by (auto simp: fh_Len_def)
  have set: "set (fh_arr h) = set (fh_arr (?m, ?fh))" using h(3) by (metis set_mset_mset)
  have len: "length (snd h) = length ?fh" using h(3) by (metis fh_arr_length size_mset snd_conv)
  have fhs: "set (snd h) = set ?fh"
    using set by (metis fh_arr_fst set_map snd_conv)
  define s' where "s' = (lfu_put s h)\<lparr>lfu_seq := ?q\<rparr>"
  have touch: "lfu_touch s a n1 = Some s'"
    using h(1) i n1 by (simp add: lfu_touch_def lfu_Fix_def i_def s'_def Let_def)
  have img: "(\<lambda>(a, n). (nd_key n, a)) ` set (fh_arr (?m, ?fh)) = (\<lambda>(a, n). (nd_key n, a)) ` set (fh_arr (lfu_heap s))"
    using assms(3) n1(1) by (force simp: fh_arr_def fh_elem_def image_iff)
  have dom: "\<forall>b \<in> dom (fst h). b < lfu_fresh s"
    by (rule fh_dom [OF h(2)]) (use inv(8) assms(3) fhs lfu_freqs_dom [OF assms(1)] in auto)
  have "lfu_inv c s'"
    using h inv len dom set img by (auto simp: lfu_inv_def s'_def lfu_put_def fh_inv_def)
  moreover have "LFU_entry s' k' = ((LFU_entry s)(k \<mapsto> node_entry ?n)) k'" for k'
  proof (cases "map_of (lfu_items s) k'")
    case None
    then show ?thesis using assms(2) by (auto simp: LFU_entry_def s'_def lfu_put_def)
  next
    case (Some b)
    then have b: "b \<in> set ?fh" "nd_key (snd (fh_elem (lfu_mem s) b)) = k'"
      using lfu_items_freqs [OF assms(1)] by auto
    have "LFU_entry s' k' = Some (node_entry (snd (fh_elem (fst h) b)))"
      using lfu_entry_elem [of ?m s' k' b] h(2) Some b fhs by (simp add: s'_def lfu_put_def)
    also have "fh_elem (fst h) b = fh_elem ?m b"
      using fh_arr_set(1) [of h "(?m, ?fh)" b] set b fhs by simp
    finally have e: "LFU_entry s' k' = Some (node_entry (snd (fh_elem ?m b)))" .
    show ?thesis
    proof (cases "k' = k")
      case True
      with Some assms(2) e show ?thesis by (simp add: fh_elem_def node_entry_def)
    next
      case False
      then have "b \<noteq> a" using b(2) assms(3) k by (auto simp: fh_elem_def)
      with e False lfu_entry_elem [OF inv(4) Some] b show ?thesis by (simp add: fh_elem_def)
    qed
  qed
  then have "LFU_entry s' = (LFU_entry s)(k \<mapsto> (nd_value n1, nd_count n1 + 1, ?q))"
    by (simp add: fun_eq_iff node_entry_def)
  moreover from this have "\<exists>n'. lfu_mem s' a = Some n' \<and> nd_value n' = nd_value n1"
    using assms(2) by (auto simp: LFU_entry_def s'_def lfu_put_def fun_eq_iff dest!: spec [of _ k] split: option.splits)
  ultimately show ?thesis using touch by (auto simp: s'_def lfu_put_def)
qed

lemma lfu_insert_ok:
  assumes "lfu_inv c s" "map_of (lfu_items s) k = None" "length (lfu_freqs s) < c"
  shows "\<exists>s'. lfu_insert s k v = Some s' \<and> lfu_inv c s' \<and> lfu_seq s' = lfu_seq s + 1 \<and>
    LFU_entry s' = (LFU_entry s)(k \<mapsto> (v, 1, lfu_seq s + 1))"
proof -
  let ?q = "lfu_seq s + 1" and ?a = "lfu_fresh s" and ?fh = "lfu_freqs s"
  let ?node = "\<lparr>nd_key = k, nd_value = v, nd_count = 1, nd_index = 0, nd_last = ?q\<rparr>"
  let ?base = "(lfu_mem s)(?a \<mapsto> ?node)" and ?m = "(lfu_mem s)(?a \<mapsto> ?node\<lparr>nd_index := int (length ?fh)\<rparr>)"
  note inv = lfu_invD [OF assms(1)]
  have new: "?a \<notin> set ?fh" using lfu_freqs_dom [OF assms(1)] by blast
  have arr0: "fh_arr (?base, ?fh) = fh_arr (lfu_heap s)" using new by (auto simp: fh_arr_def fh_elem_def)
  have arr1: "fh_arr (?m, ?fh @ [?a]) = fh_arr (?base, ?fh) @ [(?a, ?node)]"
    using new by (auto simp: fh_arr_def fh_elem_def)
  have inv1: "fh_inv ?m (?m, ?fh @ [?a])"
    using inv(4) new by (auto simp: fh_inv_def nth_append less_Suc_eq) (metis nth_mem)
  have push: "fh_Push (?base, ?fh) ?a = Some (?m, ?fh @ [?a])" by (simp add: fh_Push_def)
  obtain h where h: "heap_Push fh_Less fh_Swap fh_Len fh_Push (?base, ?fh) ?a = Some h" "fh_inv ?m h"
    "mset (fh_arr h) = add_mset (?a, ?node) (mset (fh_arr (?base, ?fh)))"
    "is_heap (length (fh_arr h)) (at_key fh_prio (fh_arr h))"
    using fheap.heap_Push_ok [where push = fh_Push and len = fh_Len, OF push inv1 arr1] inv(5) arr0 by (auto simp: fh_Len_def)
  have set: "set (fh_arr h) = insert (?a, ?node) (set (fh_arr (lfu_heap s)))"
    using h(3) arr0 by (metis set_mset_add_mset_insert set_mset_mset)
  have len: "length (snd h) = Suc (length ?fh)"
    using arg_cong [OF h(3), of size] by simp
  have fhs: "set (snd h) = insert ?a (set ?fh)"
    using arg_cong [OF set, of "image fst"] by (metis fh_arr_fst fst_conv image_insert set_map snd_conv)
  define s' where "s' = (lfu_put s h)\<lparr>lfu_items := gm_set k ?a (lfu_items s), lfu_length := lfu_length s + 1,
    lfu_seq := ?q, lfu_fresh := Suc ?a\<rparr>"
  have ins: "lfu_insert s k v = Some s'" using h(1) by (simp add: lfu_insert_def s'_def Let_def)
  have dom: "\<forall>b \<in> dom (fst h). b < Suc ?a"
    by (rule fh_dom [OF h(2)]) (use inv(8) fhs lfu_freqs_dom [OF assms(1)] in \<open>auto intro: less_SucI\<close>)
  have items: "set (gm_set k ?a (lfu_items s)) = insert (k, ?a) (set (lfu_items s))"
    using assms(2) by (rule set_gm_set_new)
  have "lfu_inv c s'"
    using h inv len dom set items assms(3) by (auto simp: lfu_inv_def s'_def lfu_put_def fh_inv_def)
  moreover have "LFU_entry s' k' = ((LFU_entry s)(k \<mapsto> (v, 1, ?q))) k'" for k'
  proof (cases "map_of (gm_set k ?a (lfu_items s)) k'")
    case None
    then show ?thesis by (auto simp: LFU_entry_def s'_def lfu_put_def gomap_simps split: if_splits)
  next
    case (Some b)
    then have b: "k' = k \<and> b = ?a \<or> k' \<noteq> k \<and> map_of (lfu_items s) k' = Some b \<and> b \<in> set ?fh"
      using lfu_items_freqs [OF assms(1)] by (auto simp: gomap_simps split: if_splits)
    have e: "LFU_entry s' k' = Some (node_entry (snd (fh_elem (fst h) b)))"
      using lfu_entry_elem [of ?m s' k' b] h(2) Some b fhs by (auto simp: s'_def lfu_put_def)
    have "set (fh_arr h) \<subseteq> set (fh_arr (?m, ?fh @ [?a]))" using set arr1 arr0 by auto
    from fh_arr_set(1) [OF this, of b] have "fh_elem (fst h) b = fh_elem ?base b"
      using b fhs new by (auto simp: fh_elem_def)
    with e have "LFU_entry s' k' = Some (node_entry (snd (fh_elem ?base b)))" by simp
    with b new lfu_entry_elem [OF inv(4), of k' b] show ?thesis
      by (auto simp: fh_elem_def node_entry_def)
  qed
  ultimately show ?thesis using ins by (auto simp: s'_def fun_eq_iff)
qed

text \<open>What \<open>Pop\<close> and \<open>Remove\<close> leave after the sifting: the victim is the last element of the array.\<close>

lemma lfu_drop_ok:
  assumes "lfu_inv c s" "fh_inv (lfu_mem s) h" "mset (fh_arr h) = mset (fh_arr (lfu_heap s))"
    and "lfu_freqs s \<noteq> []" "k = nd_key (snd (last (fh_arr h)))"
    and "is_heap (length (lfu_freqs s) - 1) (at_key fh_prio (butlast (fh_arr h)))"
  shows "\<exists>h' a n. fh_Pop h = Some (h', a) \<and> fst h' a = Some n \<and> nd_key n = k \<and>
    (let s' = (lfu_put s h')\<lparr>lfu_items := gm_del k (lfu_items s), lfu_length := lfu_length s - 1\<rparr> in
     lfu_inv c s' \<and> LFU_entry s' = (LFU_entry s)(k := None))"
proof -
  note inv = lfu_invD [OF assms(1)]
  obtain m fh where hm: "h = (m, fh)" by (cases h)
  have len: "length fh = length (lfu_freqs s)" using arg_cong [OF assms(3), of size] hm by simp
  have ne: "fh \<noteq> []" using len assms(4) by auto
  then obtain ys a where fh: "fh = ys @ [a]" by (metis append_butlast_last_id)
  have dist: "distinct fh" using assms(2) hm by (simp add: fh_inv_def)
  obtain n where n: "m a = Some n" using assms(2) hm fh by (force simp: fh_inv_def nth_append)
  have kn: "nd_key n = k" using assms(5) hm fh n by (simp add: fh_arr_def fh_elem_def)
  let ?m = "m(a \<mapsto> n\<lparr>nd_index := -1\<rparr>)"
  have pop: "fh_Pop h = Some ((?m, ys), a)" using hm fh n by (simp add: fh_Pop_def)
  have set: "set (fh_arr h) = set (fh_arr (lfu_heap s))" using assms(3) by (metis set_mset_mset)
  have fhs: "set fh = set (lfu_freqs s)" using set hm by (metis fh_arr_fst set_map snd_conv)
  have arr: "fh_arr (?m, ys) = butlast (fh_arr h)" using hm fh dist by (auto simp: fh_arr_def fh_elem_def)
  have seta: "set (fh_arr (?m, ys)) = {e \<in> set (fh_arr (lfu_heap s)). fst e \<noteq> a}"
    unfolding set [symmetric] arr using hm fh dist by (auto simp: fh_arr_def fh_elem_def)
  have inv1: "fh_inv ?m (?m, ys)"
    using assms(2) hm fh dist by (auto simp: fh_inv_def nth_append) (metis nth_mem less_SucI)
  define s' where "s' = (lfu_put s (?m, ys))\<lparr>lfu_items := gm_del k (lfu_items s), lfu_length := lfu_length s - 1\<rparr>"
  have ka: "map_of (lfu_items s) k = Some a"
  proof -
    have "(a, n\<lparr>nd_index := 0\<rparr>) \<in> set (fh_arr (lfu_heap s))"
      unfolding set [symmetric] using fh_arr_in [of h a n] hm fh n by simp
    then have "(k, a) \<in> set (lfu_items s)" using inv(7) kn by force
    then show ?thesis using inv(6) gm_in_set_iff by metis
  qed
  have uniq: "k' = k" if "(k', a) \<in> set (lfu_items s)" for k'
    using that lfu_items_freqs [OF assms(1)] ka inv(6) gm_in_set_iff by metis
  have "fst b \<noteq> k \<longleftrightarrow> snd b \<noteq> a" if "b \<in> set (lfu_items s)" for b
    using that uniq ka inv(6) by (metis gm_in_set_iff option.inject prod.collapse)
  then have "{b \<in> set (lfu_items s). fst b \<noteq> k} = {b \<in> set (lfu_items s). snd b \<noteq> a}" by blast
  also have "\<dots> = (\<lambda>(a, n). (nd_key n, a)) ` set (fh_arr (?m, ys))"
    unfolding seta inv(7) by (force simp: image_iff)
  finally have items: "set (gm_del k (lfu_items s)) = (\<lambda>(a, n). (nd_key n, a)) ` set (fh_arr (?m, ys))"
    by (simp only: set_gm_del)
  have "\<forall>b \<in> dom m. b < lfu_fresh s"
    using fh_dom [OF assms(2) inv(8)] fhs lfu_freqs_dom [OF assms(1)] hm by simp
  then have dom: "\<forall>b \<in> dom ?m. b < lfu_fresh s" using n by auto
  have "length (lfu_freqs s) - 1 = length ys" using len fh by simp
  then have "lfu_inv c s'"
    using inv inv1 items dom len fh arr assms(6) by (auto simp: lfu_inv_def s'_def lfu_put_def)
  moreover have "LFU_entry s' k' = ((LFU_entry s)(k := None)) k'" for k'
  proof (cases "k' \<noteq> k \<and> map_of (lfu_items s) k' \<noteq> None")
    case True
    then obtain b where b: "map_of (lfu_items s) k' = Some b" "b \<in> set (lfu_freqs s)" "b \<noteq> a"
      using lfu_items_freqs [OF assms(1)] uniq inv(6) gm_in_set_iff by fastforce
    then have "b \<in> set ys" using fhs fh by auto
    then have "LFU_entry s' k' = Some (node_entry (snd (fh_elem ?m b)))"
      using lfu_entry_elem [of ?m s' k' b] inv1 b(1) True by (simp add: s'_def lfu_put_def gomap_simps)
    also have "fh_elem ?m b = fh_elem (lfu_mem s) b"
      using fh_arr_set(1) [of "(?m, ys)" "lfu_heap s" b] seta \<open>b \<in> set ys\<close> by auto
    finally show ?thesis using lfu_entry_elem [OF inv(4) b(1,2)] True by simp
  next
    case False
    then show ?thesis by (auto simp: LFU_entry_def s'_def lfu_put_def gomap_simps)
  qed
  ultimately show ?thesis using pop kn by (auto simp: s'_def fun_eq_iff Let_def)
qed

section \<open>Refinement of the specification\<close>

text \<open>
  The specification: a partial function from keys to value, hit count and last-use stamp, and the
  stamp counter. An eviction takes an entry with the fewest hits, and among those one with the
  smallest stamp.
\<close>

type_synonym lfu_abs = "(string \<rightharpoonup> gval \<times> int \<times> 64 word) \<times> 64 word"

definition lfu_minimal :: "(string \<rightharpoonup> gval \<times> int \<times> 64 word) \<Rightarrow> string \<Rightarrow> bool" where
  "lfu_minimal E j \<longleftrightarrow> (\<exists>v p. E j = Some (v, p) \<and> (\<forall>j' v' p'. E j' = Some (v', p') \<longrightarrow> p \<le> p'))"

inductive lfu_spec :: "nat \<Rightarrow> lfu_abs \<Rightarrow> alg_op \<Rightarrow> alg_res \<Rightarrow> lfu_abs \<Rightarrow> bool" for c where
  set_off: "c = 0 \<Longrightarrow> lfu_spec c (E, q) (OpSet k v) RUnit (E, q)"
| set_hit: "c \<noteq> 0 \<Longrightarrow> E k = Some (w, n, l) \<Longrightarrow>
    lfu_spec c (E, q) (OpSet k v) RUnit (E(k \<mapsto> (v, n + 1, q + 1)), q + 1)"
| set_new: "c \<noteq> 0 \<Longrightarrow> E k = None \<Longrightarrow> card (dom E) < c \<Longrightarrow>
    lfu_spec c (E, q) (OpSet k v) RUnit (E(k \<mapsto> (v, 1, q + 1)), q + 1)"
| set_full: "c \<noteq> 0 \<Longrightarrow> E k = None \<Longrightarrow> card (dom E) = c \<Longrightarrow> lfu_minimal E j \<Longrightarrow>
    lfu_spec c (E, q) (OpSet k v) RUnit (E(j := None, k \<mapsto> (v, 1, q + 1)), q + 1)"
| get_hit: "E k = Some (v, n, l) \<Longrightarrow>
    lfu_spec c (E, q) (OpGet k) (RGet (Some v)) (E(k \<mapsto> (v, n + 1, q + 1)), q + 1)"
| get_miss: "E k = None \<Longrightarrow> lfu_spec c (E, q) (OpGet k) (RGet None) (E, q)"
| evict: "lfu_minimal E j \<Longrightarrow> lfu_spec c (E, q) OpEvict (REvict (Some j)) (E(j := None), q)"
| evict_empty: "E = Map.empty \<Longrightarrow> lfu_spec c (E, q) OpEvict (REvict None) (E, q)"
| delete: "lfu_spec c (E, q) (OpDelete k) RUnit (E(k := None), q)"

definition LFU_abs :: "LFUAlgorithm \<Rightarrow> lfu_abs" where
  "LFU_abs s = (LFU_entry s, lfu_seq s)"

lemma lfu_inv_new: "NewLFUAlgorithm capacity = Inr s \<Longrightarrow> lfu_inv (nat capacity) s \<and> LFU_abs s = (Map.empty, 0)"
  by (auto simp: NewLFUAlgorithm_def lfu_inv_def fh_inv_def fh_arr_def is_heap_def LFU_abs_def
      LFU_entry_def fun_eq_iff split: if_splits)

lemma LFU_entry_None: "lfu_inv c s \<Longrightarrow> LFU_entry s k = None \<longleftrightarrow> map_of (lfu_items s) k = None"
  by (auto simp: LFU_entry_def split: option.splits elim: lfu_lookup)

lemma LFU_entry_card:
  assumes "lfu_inv c s"
  shows "dom (LFU_entry s) = dom (map_of (lfu_items s))" "card (dom (LFU_entry s)) = length (lfu_freqs s)"
proof -
  show d: "dom (LFU_entry s) = dom (map_of (lfu_items s))"
    using LFU_entry_None [OF assms] by (auto simp: dom_def)
  note inv = lfu_invD [OF assms]
  have dist: "distinct (lfu_freqs s)" using inv(4) by (simp add: fh_inv_def)
  have "length (lfu_items s) = card (set (lfu_items s))"
    using inv(6) by (metis gm_wf_def distinct_card distinct_map)
  also have "\<dots> = card (snd ` set (lfu_items s))"
  proof (rule card_image [symmetric], rule inj_onI)
    fix x y assume xy: "x \<in> set (lfu_items s)" "y \<in> set (lfu_items s)" "snd x = snd y"
    have "map_of (lfu_items s) (fst x) = Some (snd x)" "map_of (lfu_items s) (fst y) = Some (snd x)"
      using xy inv(6) by (metis gm_in_set_iff prod.collapse)+
    then have "fst x = fst y" using lfu_items_freqs [OF assms] by metis
    with xy(3) show "x = y" by (simp add: prod_eq_iff)
  qed
  also have "snd ` set (lfu_items s) = fst ` set (fh_arr (lfu_heap s))"
    unfolding inv(7) by (force simp: image_iff)
  also have "\<dots> = set (lfu_freqs s)" by (metis fh_arr_fst set_map snd_conv)
  also have "card \<dots> = length (lfu_freqs s)" using dist by (rule distinct_card)
  finally show "card (dom (LFU_entry s)) = length (lfu_freqs s)"
    using d gm_length_card [OF inv(6)] by simp
qed

lemma lfu_internalEvict_ok:
  assumes "lfu_inv c s" "lfu_freqs s \<noteq> []"
  shows "\<exists>s' k. lfu_internalEvict s = Some (s', Some k) \<and> lfu_inv c s' \<and> lfu_seq s' = lfu_seq s \<and>
    lfu_minimal (LFU_entry s) k \<and> LFU_entry s' = (LFU_entry s)(k := None)"
proof -
  note inv = lfu_invD [OF assms(1)]
  obtain h where h: "heap_Pop fh_Less fh_Swap fh_Len fh_Pop (lfu_heap s) = fh_Pop h" "fh_inv (lfu_mem s) h"
    "length (snd h) = length (lfu_freqs s)" "mset (fh_arr h) = mset (fh_arr (lfu_heap s))"
    "\<forall>e \<in> set (fh_arr (lfu_heap s)). fh_prio (last (fh_arr h)) \<le> fh_prio e"
    "is_heap (length (lfu_freqs s) - 1) (at_key fh_prio (butlast (fh_arr h)))"
    using fheap.heap_Pop_ok [OF inv(4), where len = fh_Len and pop = fh_Pop] assms(2) inv(5)
    by (auto simp: fh_Len_def fh_arr_def)
  define k where "k = nd_key (snd (last (fh_arr h)))"
  obtain h' a n where p: "fh_Pop h = Some (h', a)" "fst h' a = Some n" "nd_key n = k"
    "let s' = (lfu_put s h')\<lparr>lfu_items := gm_del k (lfu_items s), lfu_length := lfu_length s - 1\<rparr> in
     lfu_inv c s' \<and> LFU_entry s' = (LFU_entry s)(k := None)"
    using lfu_drop_ok [OF assms(1) h(2,4) assms(2) k_def h(6)] by blast
  have ne: "fh_arr h \<noteq> []" using h(3) assms(2) by (metis fh_arr_length length_0_conv)
  have "last (fh_arr h) \<in> set (fh_arr (lfu_heap s))"
    using last_in_set [OF ne] h(4) by (metis set_mset_mset)
  then have "LFU_entry s k = Some (node_entry (snd (last (fh_arr h))))"
    using LFU_entry_iff [OF assms(1)] unfolding k_def by (metis prod.collapse)
  then have "LFU_entry s k = Some (nd_value (snd (last (fh_arr h))), fh_prio (last (fh_arr h)))"
    by (simp add: node_entry_def fh_prio_def)
  moreover have "fh_prio (last (fh_arr h)) \<le> snd e" if "LFU_entry s j = Some e" for j e
    using that h(5) LFU_entry_iff [OF assms(1)] by (fastforce simp: fh_prio_def node_entry_def)
  ultimately have "lfu_minimal (LFU_entry s) k"
    unfolding lfu_minimal_def by (metis snd_conv)
  moreover have "lfu_length s \<noteq> 0" using inv(3) assms(2) by simp
  ultimately show ?thesis
    using h(1) p by (auto simp: lfu_internalEvict_def Let_def lfu_put_def)
qed

lemma LFU_Delete_ok:
  assumes "lfu_inv c s"
  shows "\<exists>s'. LFU_Delete s k = Some s' \<and> lfu_inv c s' \<and> lfu_seq s' = lfu_seq s \<and>
    LFU_entry s' = (LFU_entry s)(k := None)"
proof (cases "map_of (lfu_items s) k")
  case None
  then show ?thesis using assms LFU_entry_None [OF assms, of k]
    by (simp add: LFU_Delete_def fun_upd_idem)
next
  case (Some a)
  note inv = lfu_invD [OF assms]
  obtain n where n: "lfu_mem s a = Some n" "nd_key n = k" "0 \<le> nd_index n"
    "nat (nd_index n) < length (lfu_freqs s)" "lfu_freqs s ! nat (nd_index n) = a"
    using lfu_lookup [OF assms Some] .
  let ?i = "nat (nd_index n)"
  obtain h where h: "heap_Remove fh_Less fh_Swap fh_Len fh_Pop (lfu_heap s) ?i = fh_Pop h"
    "fh_inv (lfu_mem s) h" "last (fh_arr h) = fh_arr (lfu_heap s) ! ?i"
    "mset (fh_arr h) = mset (fh_arr (lfu_heap s))"
    "is_heap (length (lfu_freqs s) - 1) (at_key fh_prio (butlast (fh_arr h)))"
    using fheap.heap_Remove_ok [OF inv(4), where len = fh_Len and pop = fh_Pop and i = ?i] n(4) inv(5)
    by (auto simp: fh_Len_def)
  have k: "k = nd_key (snd (last (fh_arr h)))"
    using h(3) n by (simp add: fh_arr_def fh_elem_def)
  have ne: "lfu_freqs s \<noteq> []" using n(4) by auto
  obtain h' b where p: "fh_Pop h = Some (h', b)"
    "let s' = (lfu_put s h')\<lparr>lfu_items := gm_del k (lfu_items s), lfu_length := lfu_length s - 1\<rparr> in
     lfu_inv c s' \<and> LFU_entry s' = (LFU_entry s)(k := None)"
    using lfu_drop_ok [OF assms h(2,4) ne k h(5)] by blast
  then show ?thesis
    using h(1) n(1,3) Some by (simp add: LFU_Delete_def lfu_Remove_def Let_def lfu_put_def)
qed

definition LFU_step :: "LFUAlgorithm \<Rightarrow> alg_op \<Rightarrow> (LFUAlgorithm \<times> alg_res) option" where
  "LFU_step = alg_step LFU_Set LFU_Get LFU_Evict LFU_Delete"

lemma LFU_Get_step:
  assumes "lfu_inv c s"
  shows "\<exists>s' r. LFU_Get s k = Some (s', r) \<and> lfu_inv c s' \<and> r = map_option fst (LFU_entry s k) \<and>
    lfu_spec c (LFU_abs s) (OpGet k) (RGet r) (LFU_abs s')"
proof (cases "map_of (lfu_items s) k")
  case None
  then have "LFU_entry s k = None" using LFU_entry_None [OF assms] by simp
  with None assms show ?thesis by (auto simp: LFU_Get_def LFU_abs_def intro: lfu_spec.get_miss)
next
  case (Some a)
  obtain n where n: "lfu_mem s a = Some n" using lfu_lookup [OF assms Some] .
  have e: "LFU_entry s k = Some (nd_value n, nd_count n, nd_last n)" using Some n by (simp add: LFU_entry_def)
  obtain s' n' where t: "lfu_touch s a n = Some s'" "lfu_inv c s'" "lfu_seq s' = lfu_seq s + 1"
    "lfu_mem s' a = Some n'" "nd_value n' = nd_value n"
    "LFU_entry s' = (LFU_entry s)(k \<mapsto> (nd_value n, nd_count n + 1, lfu_seq s + 1))"
    using lfu_touch_ok [OF assms Some n, of n] by auto
  have "lfu_spec c (LFU_abs s) (OpGet k) (RGet (Some (nd_value n))) (LFU_abs s')"
    using lfu_spec.get_hit [of "LFU_entry s" k, OF e] t(3,6) by (simp add: LFU_abs_def)
  with t Some n e show ?thesis by (simp add: LFU_Get_def)
qed

lemma LFU_Set_step:
  assumes "lfu_inv c s"
  shows "\<exists>s'. LFU_Set s k v = Some s' \<and> lfu_inv c s' \<and>
    lfu_spec c (LFU_abs s) (OpSet k v) RUnit (LFU_abs s')"
proof -
  note inv = lfu_invD [OF assms]
  consider "c = 0" | a where "c \<noteq> 0" "map_of (lfu_items s) k = Some a"
    | "c \<noteq> 0" "map_of (lfu_items s) k = None" "length (lfu_freqs s) < c"
    | "c \<noteq> 0" "map_of (lfu_items s) k = None" "length (lfu_freqs s) = c"
    using inv(2) by fastforce
  then show ?thesis
  proof cases
    case 1
    with assms inv(1) show ?thesis by (auto simp: LFU_Set_def LFU_abs_def intro: lfu_spec.set_off)
  next
    case (2 a)
    obtain n where n: "lfu_mem s a = Some n" using lfu_lookup [OF assms 2(2)] .
    have e: "LFU_entry s k = Some (nd_value n, nd_count n, nd_last n)" using 2 n by (simp add: LFU_entry_def)
    obtain s' where t: "lfu_touch s a (n\<lparr>nd_value := v\<rparr>) = Some s'" "lfu_inv c s'" "lfu_seq s' = lfu_seq s + 1"
      "LFU_entry s' = (LFU_entry s)(k \<mapsto> (v, nd_count n + 1, lfu_seq s + 1))"
      using lfu_touch_ok [OF assms 2(2) n, of "n\<lparr>nd_value := v\<rparr>"] by auto
    then show ?thesis using lfu_spec.set_hit [of c "LFU_entry s" k, OF 2(1) e] 2 n inv(1)
      by (simp add: LFU_Set_def LFU_abs_def)
  next
    case 3
    then have "LFU_entry s k = None" "card (dom (LFU_entry s)) < c"
      using LFU_entry_None [OF assms] LFU_entry_card(2) [OF assms] by simp_all
    moreover obtain s' where "lfu_insert s k v = Some s'" "lfu_inv c s'" "lfu_seq s' = lfu_seq s + 1"
      "LFU_entry s' = (LFU_entry s)(k \<mapsto> (v, 1, lfu_seq s + 1))"
      using lfu_insert_ok [OF assms 3(2,3)] by blast
    ultimately show ?thesis using lfu_spec.set_new [of c "LFU_entry s" k] 3 inv(1,3)
      by (simp add: LFU_Set_def LFU_abs_def)
  next
    case 4
    then have e: "LFU_entry s k = None" "card (dom (LFU_entry s)) = c"
      using LFU_entry_None [OF assms] LFU_entry_card(2) [OF assms] by simp_all
    have ne: "lfu_freqs s \<noteq> []" using 4 by auto
    obtain s1 j where s1: "lfu_internalEvict s = Some (s1, Some j)" "lfu_inv c s1" "lfu_seq s1 = lfu_seq s"
      "lfu_minimal (LFU_entry s) j" "LFU_entry s1 = (LFU_entry s)(j := None)"
      using lfu_internalEvict_ok [OF assms ne] by blast
    have "LFU_entry s j \<noteq> None" using s1(4) by (auto simp: lfu_minimal_def)
    then have "dom (LFU_entry s1) \<subset> dom (LFU_entry s)" using s1(5) by (auto simp: domIff)
    then have "card (dom (LFU_entry s1)) < c"
      using e(2) LFU_entry_card(1) [OF assms] by (metis finite_dom_map_of psubset_card_mono)
    then have lt: "length (lfu_freqs s1) < c" using LFU_entry_card(2) [OF s1(2)] by simp
    have "LFU_entry s1 k = None" using s1(5) e(1) by simp
    then have none: "map_of (lfu_items s1) k = None" using LFU_entry_None [OF s1(2)] by simp
    obtain s' where "lfu_insert s1 k v = Some s'" "lfu_inv c s'" "lfu_seq s' = lfu_seq s + 1"
      "LFU_entry s' = (LFU_entry s)(j := None, k \<mapsto> (v, 1, lfu_seq s + 1))"
      using lfu_insert_ok [OF s1(2) none lt, of v] s1(3,5) by auto
    then show ?thesis using lfu_spec.set_full [OF 4(1) e s1(4)] s1(1) 4 inv(1,3)
      by (simp add: LFU_Set_def LFU_abs_def)
  qed
qed

lemma LFU_Evict_step:
  assumes "lfu_inv c s"
  shows "\<exists>s' r. LFU_Evict s = Some (s', r) \<and> lfu_inv c s' \<and>
    lfu_spec c (LFU_abs s) OpEvict (REvict r) (LFU_abs s')"
proof (cases "lfu_freqs s = []")
  case True
  then have "LFU_entry s = Map.empty" using LFU_entry_card [OF assms]
    by (metis card_eq_0_iff dom_eq_empty_conv finite_dom_map_of list.size(3))
  moreover have "LFU_Evict s = Some (s, None)"
    using True lfu_invD(3) [OF assms] by (simp add: LFU_Evict_def lfu_internalEvict_def)
  ultimately show ?thesis using assms by (auto simp: LFU_abs_def intro: lfu_spec.evict_empty)
next
  case False
  then have "c \<noteq> 0" using lfu_invD(2) [OF assms] by (cases "lfu_freqs s") auto
  with lfu_internalEvict_ok [OF assms False] lfu_invD(1) [OF assms] show ?thesis
    by (auto simp: LFU_Evict_def LFU_abs_def intro: lfu_spec.evict)
qed

lemma LFU_step_refines:
  assumes "lfu_inv c s"
  shows "\<exists>s' r. LFU_step s op = Some (s', r) \<and> lfu_inv c s' \<and> lfu_spec c (LFU_abs s) op r (LFU_abs s')"
proof (cases op)
  case (OpDelete k)
  then show ?thesis using LFU_Delete_ok [OF assms, of k] lfu_spec.delete [of c "LFU_entry s" "lfu_seq s" k]
    by (auto simp: LFU_step_def LFU_abs_def)
qed (use LFU_Set_step [OF assms] LFU_Get_step [OF assms] LFU_Evict_step [OF assms] in
      \<open>fastforce simp: LFU_step_def\<close>)+

section \<open>Results\<close>

definition LFU_ok :: "LFUAlgorithm \<Rightarrow> bool" where
  "LFU_ok s \<longleftrightarrow> (\<exists>c. lfu_inv c s)"

definition LFU_cap :: "LFUAlgorithm \<Rightarrow> nat" where
  "LFU_cap s = nat (lfu_cap s)"

definition LFU_content :: "LFUAlgorithm \<Rightarrow> string \<Rightarrow> gval option" where
  "LFU_content s k = map_option fst (LFU_entry s k)"

lemma dom_LFU_content: "dom (LFU_content s) = dom (LFU_entry s)"
  by (auto simp: LFU_content_def dom_def)

inductive_cases lfu_spec_setE: "lfu_spec c (E, q) (OpSet k v) r A"
inductive_cases lfu_spec_getE: "lfu_spec c (E, q) (OpGet k) r A"
inductive_cases lfu_spec_evictE: "lfu_spec c (E, q) OpEvict r A"

lemma LFU_cap_inv: "lfu_inv c s \<Longrightarrow> LFU_cap s = c"
  by (simp add: LFU_cap_def lfu_invD(1))

interpretation lfu: tracking_algorithm LFU_ok LFU_cap LFU_content LFU_Set LFU_Get LFU_Evict LFU_Delete
proof (unfold_locales, goal_cases)
  case (1 s)
  then obtain c where c: "lfu_inv c s" by (auto simp: LFU_ok_def)
  then show ?case using LFU_entry_card [OF c] lfu_invD(1,2) [OF c]
    by (simp add: dom_LFU_content LFU_cap_def finite_dom_map_of)
next
  case (2 s k v)
  then obtain c where c: "lfu_inv c s" by (auto simp: LFU_ok_def)
  obtain s' where s': "LFU_Set s k v = Some s'" "lfu_inv c s'"
    "lfu_spec c (LFU_entry s, lfu_seq s) (OpSet k v) RUnit (LFU_entry s', lfu_seq s')"
    using LFU_Set_step [OF c] by (auto simp: LFU_abs_def)
  have "if k' = k then w = v else LFU_content s k' = Some w" if "LFU_content s' k' = Some w" for k' w
    using s'(3) that LFU_entry_card [OF c] lfu_invD(2) [OF c]
    by (elim lfu_spec_setE) (auto simp: LFU_content_def LFU_entry_None [OF c] card_eq_0_iff finite_dom_map_of
        split: if_splits)
  then show ?case using s' LFU_cap_inv c by (auto simp: LFU_ok_def)
next
  case (3 s k)
  then obtain c where c: "lfu_inv c s" by (auto simp: LFU_ok_def)
  obtain s' where s': "LFU_Get s k = Some (s', LFU_content s k)" "lfu_inv c s'"
    "lfu_spec c (LFU_entry s, lfu_seq s) (OpGet k) (RGet (LFU_content s k)) (LFU_entry s', lfu_seq s')"
    using LFU_Get_step [OF c, of k] by (auto simp: LFU_abs_def LFU_content_def)
  have "LFU_content s' = LFU_content s"
    using s'(3) by (elim lfu_spec_getE) (auto simp: LFU_content_def fun_eq_iff)
  then show ?case using s' LFU_cap_inv c by (auto simp: LFU_ok_def)
next
  case (4 s)
  then obtain c where c: "lfu_inv c s" by (auto simp: LFU_ok_def)
  obtain s' r where s': "LFU_Evict s = Some (s', r)" "lfu_inv c s'"
    "lfu_spec c (LFU_entry s, lfu_seq s) OpEvict (REvict r) (LFU_entry s', lfu_seq s')"
    using LFU_Evict_step [OF c] by (auto simp: LFU_abs_def)
  have "case r of None \<Rightarrow> LFU_content s' = LFU_content s
    | Some k \<Rightarrow> k \<in> dom (LFU_content s) \<and> LFU_content s' = (LFU_content s)(k := None)"
    using s'(3) by (elim lfu_spec_evictE) (auto simp: LFU_content_def lfu_minimal_def fun_eq_iff)
  then show ?case using s' LFU_cap_inv c by (auto simp: LFU_ok_def)
next
  case (5 s k)
  then obtain c where c: "lfu_inv c s" by (auto simp: LFU_ok_def)
  then show ?case using LFU_Delete_ok [OF c, of k] LFU_cap_inv
    by (auto simp: LFU_ok_def LFU_content_def fun_eq_iff)
next
  case (6 s k v s')
  then obtain c where c: "lfu_inv c s" by (auto simp: LFU_ok_def)
  have "lfu_spec c (LFU_entry s, lfu_seq s) (OpSet k v) RUnit (LFU_entry s', lfu_seq s')"
    using LFU_Set_step [OF c, of k v] 6 by (auto simp: LFU_abs_def)
  moreover have "c \<noteq> 0" using 6 LFU_cap_inv [OF c] by simp
  ultimately show ?case by (elim lfu_spec_setE) (auto simp: LFU_content_def)
next
  case (7 s s' r)
  then obtain c where c: "lfu_inv c s" by (auto simp: LFU_ok_def)
  have "lfu_spec c (LFU_entry s, lfu_seq s) OpEvict (REvict r) (LFU_entry s', lfu_seq s')"
    using LFU_Evict_step [OF c] 7 by (auto simp: LFU_abs_def)
  moreover have "LFU_entry s \<noteq> Map.empty" using 7(2) by (auto simp: LFU_content_def fun_eq_iff)
  ultimately show ?case by (elim lfu_spec_evictE) auto
qed

inductive lfu_run :: "nat \<Rightarrow> lfu_abs \<Rightarrow> alg_op list \<Rightarrow> alg_res list \<Rightarrow> lfu_abs \<Rightarrow> bool" for c where
  "lfu_run c A [] [] A"
| "lfu_spec c A op r B \<Longrightarrow> lfu_run c B ops rs C \<Longrightarrow> lfu_run c A (op # ops) (r # rs) C"

lemma LFU_run_refines:
  assumes "lfu_inv c s"
  shows "\<exists>s' rs. run_ops LFU_step s ops = Some (s', rs) \<and> lfu_inv c s' \<and> lfu_run c (LFU_abs s) ops rs (LFU_abs s')"
  using assms
proof (induction ops arbitrary: s)
  case Nil
  then show ?case by (auto intro: lfu_run.intros)
next
  case (Cons op ops)
  obtain s1 r where 1: "LFU_step s op = Some (s1, r)" "lfu_inv c s1" "lfu_spec c (LFU_abs s) op r (LFU_abs s1)"
    using LFU_step_refines [OF Cons.prems] by blast
  with Cons.IH [OF 1(2)] show ?case by (force intro: lfu_run.intros)
qed



end
