(* ===== verification/Item.thy ===== *)
theory Item
  imports Prelude
begin

text \<open>
  \<open>pkg/cache/v2/item.go\<close>: the cache item, its validation, expiry and size. A point in time is the
  number of nanoseconds since Go's zero \<open>time.Time\<close>, so the zero value is 0; the current time is an
  argument \<open>now\<close> of every operation that reads the clock. The CBOR encoder is third-party code: the
  parameter \<open>cborLen\<close> gives the length of an encoding, or \<open>None\<close> when encoding fails.
\<close>

record Item =
  Key :: string
  Val :: gval
  LastAccess :: int
  LastUpdated :: int
  Size :: int
  Expiration :: int
  AccessCount :: "32 word"
  Version :: "64 word"
  Origin :: string

definition zero_Item :: Item where
  "zero_Item = \<lparr>Key = [], Val = GNil, LastAccess = 0, LastUpdated = 0, Size = 0, Expiration = 0,
     AccessCount = 0, Version = 0, Origin = []\<rparr>"

text \<open>
  \<open>ItemPoolManager\<close>: \<open>Put\<close> zeroes the object it is given, so \<open>Get\<close> always hands out a zero item. The
  result of \<open>Put\<close> is what every holder of the pointer sees afterwards.
\<close>

definition ItemPoolManager_Get :: Item where
  "ItemPoolManager_Get = zero_Item"

definition ItemPoolManager_Put :: "Item \<Rightarrow> Item" where
  "ItemPoolManager_Put it = zero_Item"

text \<open>\<open>time.Time.Sub\<close>: the difference, saturated to the range of an int64 duration.\<close>

definition maxDuration :: int where
  "maxDuration = 2 ^ 63 - 1"

definition time_Sub :: "int \<Rightarrow> int \<Rightarrow> int" where
  "time_Sub t u = max (- (2 ^ 63)) (min maxDuration (t - u))"

definition Item_Touch :: "int \<Rightarrow> Item \<Rightarrow> Item" where
  "Item_Touch now it = it\<lparr>LastAccess := now, AccessCount := AccessCount it + 1\<rparr>"

text \<open>
  \<open>strings.TrimSpace(s) == ""\<close>: the string is a sequence of white-space runes. The white-space runes
  of \<open>unicode.IsSpace\<close> in UTF-8 are the six ASCII ones, U+0085, U+00A0, U+1680, U+2000 to U+200A,
  U+2028, U+2029, U+202F, U+205F and U+3000.
\<close>

fun blank_bytes :: "nat list \<Rightarrow> bool" where
  "blank_bytes [] = True"
| "blank_bytes (a # bs) =
     (if a \<in> {9, 10, 11, 12, 13, 32} then blank_bytes bs
      else case bs of
        [] \<Rightarrow> False
      | b # cs \<Rightarrow>
          if a = 0xC2 \<and> b \<in> {0x85, 0xA0} then blank_bytes cs
          else (case cs of
              [] \<Rightarrow> False
            | c # ds \<Rightarrow>
                if (a = 0xE1 \<and> b = 0x9A \<and> c = 0x80) \<or>
                   (a = 0xE2 \<and> b = 0x80 \<and> (0x80 \<le> c \<and> c \<le> 0x8A \<or> c \<in> {0xA8, 0xA9, 0xAF})) \<or>
                   (a = 0xE2 \<and> b = 0x81 \<and> c = 0x9F) \<or> (a = 0xE3 \<and> b = 0x80 \<and> c = 0x80)
                then blank_bytes ds else False))"

definition blank :: "string \<Rightarrow> bool" where
  "blank s = blank_bytes (map of_char s)"

text \<open>\<open>Valid\<close> also resets a negative expiration; it returns the item and the error, if any.\<close>

definition Item_Valid :: "Item \<Rightarrow> Item \<times> sentinel option" where
  "Item_Valid it =
     (if blank (Key it) then (it, Some ErrInvalidKey)
      else if Val it = GNil then (it, Some ErrNilValue)
      else if Expiration it < 0 then (it\<lparr>Expiration := 0\<rparr>, Some ErrInvalidExpiration)
      else (it, None))"

definition Item_Expired :: "int \<Rightarrow> Item \<Rightarrow> bool" where
  "Item_Expired now it \<longleftrightarrow> Expiration it > 0 \<and> time_Sub now (LastAccess it) > Expiration it"

definition Item_SetSize :: "(gval \<Rightarrow> nat option) \<Rightarrow> Item \<Rightarrow> sentinel + Item" where
  "Item_SetSize cborLen it = (case Val it of
       GBytes bs \<Rightarrow> Inr (it\<lparr>Size := int (length bs)\<rparr>)
     | GString s \<Rightarrow> Inr (it\<lparr>Size := int (length s)\<rparr>)
     | GMarshaler None \<Rightarrow> Inl ErrInvalidSize
     | GMarshaler (Some n) \<Rightarrow> Inr (it\<lparr>Size := int n\<rparr>)
     | GSizer n \<Rightarrow> Inr (it\<lparr>Size := n\<rparr>)
     | v \<Rightarrow> (case cborLen v of None \<Rightarrow> Inl ErrInvalidSize | Some n \<Rightarrow> Inr (it\<lparr>Size := int n\<rparr>)))"

section \<open>Facts\<close>

lemma Item_Valid_None:
  "snd (Item_Valid it) = None \<longleftrightarrow> \<not> blank (Key it) \<and> Val it \<noteq> GNil \<and> 0 \<le> Expiration it"
  by (auto simp: Item_Valid_def)

lemma Item_Valid_ok: "Item_Valid it = (it', None) \<Longrightarrow> it' = it"
  by (auto simp: Item_Valid_def split: if_splits)

lemma Item_SetSize_fields:
  "Item_SetSize cborLen it = Inr it' \<Longrightarrow> \<exists>n. it' = it\<lparr>Size := n\<rparr>"
  by (auto simp: Item_SetSize_def split: gval.splits option.splits)

text \<open>An item never expires while it is younger than its expiration, whatever the clock reads, and
  does once it is older.\<close>

lemma Item_Expired_iff:
  assumes "0 < Expiration it" "Expiration it < maxDuration"
  shows "Item_Expired now it \<longleftrightarrow> now - LastAccess it > Expiration it"
  using assms by (auto simp: Item_Expired_def time_Sub_def maxDuration_def)

lemma Item_Touch_fresh:
  "0 \<le> Expiration it \<Longrightarrow> \<not> Item_Expired now (Item_Touch now it)"
  by (simp add: Item_Expired_def Item_Touch_def time_Sub_def maxDuration_def)

end
