(* ===== verification/Clock.thy ===== *)
theory Clock
  imports EvictionSpec Item
begin

text \<open>
  \<open>pkg/eviction/clock.go\<close>: a ring of slots, a hand, and a map from keys to slots. A slot holds its
  item by value: the clock is the only holder of the pointers it takes from the item pool, and the
  pool hands out zero items. The results describe one sweep of the hand exactly, show that \<open>Evict\<close>
  succeeds after finitely many calls, and pin down when \<open>Set\<close> drops the new key.
\<close>

section \<open>State and operations\<close>

record ClockAlgorithm =
  clk_items :: "Item option list"
  clk_keys :: "(string, nat) gomap"
  clk_capacity :: nat
  clk_hand :: nat

definition NewClockAlgorithm :: "int \<Rightarrow> sentinel + ClockAlgorithm" where
  "NewClockAlgorithm capacity =
     (if capacity < 0 then Inl ErrInvalidCapacity
      else Inr \<lparr>clk_items = replicate (nat capacity) None, clk_keys = [], clk_capacity = nat capacity,
                clk_hand = 0\<rparr>)"

definition clk_advanceHand :: "ClockAlgorithm \<Rightarrow> ClockAlgorithm" where
  "clk_advanceHand s = s\<lparr>clk_hand := (clk_hand s + 1) mod clk_capacity s\<rparr>"

text \<open>\<open>c.items[i]\<close>: a panic out of range, else the slot.\<close>

definition clk_slot :: "ClockAlgorithm \<Rightarrow> nat \<Rightarrow> Item option option" where
  "clk_slot s i = (if i < length (clk_items s) then Some (clk_items s ! i) else None)"

text \<open>
  The loop \<open>for range c.capacity\<close> that \<open>Evict\<close> and \<open>evictAndInsert\<close> share: pass over empty slots, take
  one off the count of an item with a positive count, stop with the hand at an item whose count is
  zero. The result says whether it stopped at an item.
\<close>

primrec clk_sweep :: "nat \<Rightarrow> ClockAlgorithm \<Rightarrow> (ClockAlgorithm \<times> bool) option" where
  "clk_sweep 0 s = Some (s, False)"
| "clk_sweep (Suc n) s = (case clk_slot s (clk_hand s) of
       None \<Rightarrow> None
     | Some None \<Rightarrow> clk_sweep n (clk_advanceHand s)
     | Some (Some item) \<Rightarrow>
         if AccessCount item > 0
         then clk_sweep n (clk_advanceHand
                (s\<lparr>clk_items := (clk_items s)[clk_hand s := Some (item\<lparr>AccessCount := AccessCount item - 1\<rparr>)]\<rparr>))
         else Some (s, True))"

text \<open>Taking the item under the hand out of the ring and of the map.\<close>

definition clk_drop :: "ClockAlgorithm \<Rightarrow> (ClockAlgorithm \<times> string) option" where
  "clk_drop s = do {
     slot \<leftarrow> clk_slot s (clk_hand s);
     item \<leftarrow> slot;
     Some (s\<lparr>clk_keys := gm_del (Key item) (clk_keys s), clk_items := (clk_items s)[clk_hand s := None]\<rparr>,
           Key item)
   }"

definition Clock_Evict :: "ClockAlgorithm \<Rightarrow> (ClockAlgorithm \<times> string option) option" where
  "Clock_Evict s =
     (if clk_capacity s = 0 then Some (s, None)
      else do {
        (s1, found) \<leftarrow> clk_sweep (clk_capacity s) s;
        if found then do { (s2, k) \<leftarrow> clk_drop s1; Some (s2, Some k) } else Some (s1, None)
      })"

definition clk_updateIfExists :: "ClockAlgorithm \<Rightarrow> string \<Rightarrow> gval \<Rightarrow> (ClockAlgorithm \<times> bool) option" where
  "clk_updateIfExists s key value = (case map_of (clk_keys s) key of
       None \<Rightarrow> Some (s, False)
     | Some idx \<Rightarrow> do {
         slot \<leftarrow> clk_slot s idx;
         item \<leftarrow> slot;
         Some (s\<lparr>clk_items := (clk_items s)[idx :=
                 Some (item\<lparr>Val := value, AccessCount := AccessCount item + 1\<rparr>)]\<rparr>, True)
       })"

text \<open>Filling the slot under the hand with a new item.\<close>

definition clk_fill :: "ClockAlgorithm \<Rightarrow> string \<Rightarrow> gval \<Rightarrow> ClockAlgorithm" where
  "clk_fill s key value =
     s\<lparr>clk_items := (clk_items s)[clk_hand s :=
         Some (ItemPoolManager_Get\<lparr>Key := key, Val := value, AccessCount := 1\<rparr>)],
       clk_keys := gm_set key (clk_hand s) (clk_keys s)\<rparr>"

text \<open>
  The loop of \<open>tryInsertInFreeSlot\<close>. It runs until the hand is back at \<open>start\<close>, which takes at most
  \<open>capacity\<close> turns; \<open>fuel\<close> counts them, and running out of fuel is \<open>None\<close> like a panic.
\<close>

primrec clk_tryFree :: "nat \<Rightarrow> nat \<Rightarrow> ClockAlgorithm \<Rightarrow> string \<Rightarrow> gval \<Rightarrow> (ClockAlgorithm \<times> bool) option" where
  "clk_tryFree 0 start s key value = None"
| "clk_tryFree (Suc fuel) start s key value = (case clk_slot s (clk_hand s) of
       None \<Rightarrow> None
     | Some None \<Rightarrow> Some (clk_fill s key value, True)
     | Some (Some _) \<Rightarrow>
         (let s1 = clk_advanceHand s in
          if clk_hand s1 = start then Some (s1, False) else clk_tryFree fuel start s1 key value))"

definition clk_tryInsertInFreeSlot :: "ClockAlgorithm \<Rightarrow> string \<Rightarrow> gval \<Rightarrow> (ClockAlgorithm \<times> bool) option" where
  "clk_tryInsertInFreeSlot s key value = clk_tryFree (clk_capacity s) (clk_hand s) s key value"

definition clk_evictAndInsert :: "ClockAlgorithm \<Rightarrow> string \<Rightarrow> gval \<Rightarrow> ClockAlgorithm option" where
  "clk_evictAndInsert s key value = do {
     (s1, found) \<leftarrow> clk_sweep (clk_capacity s) s;
     if found then do { (s2, _) \<leftarrow> clk_drop s1; Some (clk_advanceHand (clk_fill s2 key value)) }
     else Some s1
   }"

definition Clock_Set :: "ClockAlgorithm \<Rightarrow> string \<Rightarrow> gval \<Rightarrow> ClockAlgorithm option" where
  "Clock_Set s key value =
     (if clk_capacity s = 0 then Some s
      else do {
        (s1, updated) \<leftarrow> clk_updateIfExists s key value;
        if updated then Some s1
        else do {
          (s2, inserted) \<leftarrow> clk_tryInsertInFreeSlot s1 key value;
          if inserted then Some (clk_advanceHand s2) else clk_evictAndInsert s2 key value
        }
      })"

definition Clock_Get :: "ClockAlgorithm \<Rightarrow> string \<Rightarrow> (ClockAlgorithm \<times> gval option) option" where
  "Clock_Get s key = (case map_of (clk_keys s) key of
       None \<Rightarrow> Some (s, None)
     | Some index \<Rightarrow> do {
         slot \<leftarrow> clk_slot s index;
         item \<leftarrow> slot;
         Some (s\<lparr>clk_items := (clk_items s)[index := Some (item\<lparr>AccessCount := AccessCount item + 1\<rparr>)]\<rparr>,
               Some (Val item))
       })"

definition Clock_Delete :: "ClockAlgorithm \<Rightarrow> string \<Rightarrow> ClockAlgorithm option" where
  "Clock_Delete s key = (case map_of (clk_keys s) key of
       None \<Rightarrow> Some s
     | Some index \<Rightarrow> do {
         slot \<leftarrow> clk_slot s index;
         item \<leftarrow> slot;
         Some (s\<lparr>clk_keys := gm_del key (clk_keys s), clk_items := (clk_items s)[index := None]\<rparr>)
       })"

section \<open>The invariant\<close>

definition clk_inv :: "ClockAlgorithm \<Rightarrow> bool" where
  "clk_inv s \<longleftrightarrow>
     length (clk_items s) = clk_capacity s \<and> (0 < clk_capacity s \<longrightarrow> clk_hand s < clk_capacity s) \<and>
     gm_wf (clk_keys s) \<and>
     (\<forall>k i. map_of (clk_keys s) k = Some i \<longleftrightarrow>
        i < clk_capacity s \<and> (\<exists>it. clk_items s ! i = Some it \<and> Key it = k))"

definition Clock_content :: "ClockAlgorithm \<Rightarrow> string \<Rightarrow> gval option" where
  "Clock_content s k = (case map_of (clk_keys s) k of
       None \<Rightarrow> None
     | Some i \<Rightarrow> if i < length (clk_items s) then map_option Val (clk_items s ! i) else None)"

lemma clk_invD:
  assumes "clk_inv s"
  shows "length (clk_items s) = clk_capacity s" "0 < clk_capacity s \<Longrightarrow> clk_hand s < clk_capacity s"
    "gm_wf (clk_keys s)"
    "map_of (clk_keys s) k = Some i \<longleftrightarrow>
       i < clk_capacity s \<and> (\<exists>it. clk_items s ! i = Some it \<and> Key it = k)"
  using assms by (simp_all add: clk_inv_def)

lemma clk_lookup:
  assumes "clk_inv s" "map_of (clk_keys s) k = Some i"
  obtains it where "i < length (clk_items s)" "i < clk_capacity s" "clk_items s ! i = Some it" "Key it = k"
    "clk_slot s i = Some (Some it)" "Clock_content s k = Some (Val it)"
  using assms clk_invD [OF assms(1)] by (auto simp: clk_slot_def Clock_content_def)

lemma clk_inv_new: "NewClockAlgorithm capacity = Inr s \<Longrightarrow> clk_inv s \<and> Clock_content s = Map.empty"
  by (auto simp: NewClockAlgorithm_def clk_inv_def Clock_content_def split: if_splits)

text \<open>Replacing an item by one with the same key keeps the invariant.\<close>

lemma clk_update_slot:
  assumes "clk_inv s" "clk_items s ! i = Some it" "i < clk_capacity s" "Key it' = Key it"
  shows "clk_inv (s\<lparr>clk_items := (clk_items s)[i := Some it']\<rparr>)"
    "Clock_content (s\<lparr>clk_items := (clk_items s)[i := Some it']\<rparr>) = (Clock_content s)(Key it \<mapsto> Val it')"
proof -
  note inv = clk_invD [OF assms(1)]
  show "clk_inv (s\<lparr>clk_items := (clk_items s)[i := Some it']\<rparr>)"
    using assms inv unfolding clk_inv_def by (auto simp: nth_list_update)
  have k: "map_of (clk_keys s) (Key it) = Some i" using inv(4) assms(2,3) by simp
  have o: "j \<noteq> i" if "map_of (clk_keys s) k' = Some j" "k' \<noteq> Key it" for k' j
    using that inv(4) [of k' j] assms(2) by auto
  show "Clock_content (s\<lparr>clk_items := (clk_items s)[i := Some it']\<rparr>) = (Clock_content s)(Key it \<mapsto> Val it')"
  proof
    fix k'
    show "Clock_content (s\<lparr>clk_items := (clk_items s)[i := Some it']\<rparr>) k' =
      ((Clock_content s)(Key it \<mapsto> Val it')) k'"
      using k o [of k'] assms(3) inv(1)
      by (cases "k' = Key it") (auto simp: Clock_content_def split: option.split)
  qed
qed

lemma clk_advance_inv [simp]:
  "clk_inv s \<Longrightarrow> clk_inv (clk_advanceHand s)" "Clock_content (clk_advanceHand s) = Clock_content s"
  "clk_capacity (clk_advanceHand s) = clk_capacity s" "clk_items (clk_advanceHand s) = clk_items s"
  "clk_keys (clk_advanceHand s) = clk_keys s"
  by (auto simp: clk_advanceHand_def clk_inv_def Clock_content_def fun_eq_iff split: option.split)

section \<open>The sweep\<close>

definition clk_dec :: "Item \<Rightarrow> Item" where
  "clk_dec it = it\<lparr>AccessCount := AccessCount it - 1\<rparr>"

text \<open>The slots the hand visits in \<open>n\<close> turns from \<open>h\<close>.\<close>

definition visited :: "nat \<Rightarrow> nat \<Rightarrow> nat \<Rightarrow> nat \<Rightarrow> bool" where
  "visited c n h i \<longleftrightarrow> (\<exists>j < n. i = (h + j) mod c)"

lemma visited_0 [simp]: "\<not> visited c 0 h i"
  by (simp add: visited_def)

lemma visited_Suc: "h < c \<Longrightarrow> visited c (Suc n) h i \<longleftrightarrow> i = h \<or> visited c n ((h + 1) mod c) i"
  unfolding visited_def less_Suc_eq_0_disj by (auto simp: mod_add_left_eq)

lemma visited_less: "visited c n h i \<Longrightarrow> 0 < c \<Longrightarrow> i < c"
  by (auto simp: visited_def)

lemma mod_add_neq: "h < c \<Longrightarrow> 0 < j \<Longrightarrow> j < c \<Longrightarrow> (h + j) mod c \<noteq> (h::nat)"
proof -
  assume a: "h < c" "0 < j" "j < c"
  show ?thesis
  proof (cases "h + j < c")
    case False
    then have "(h + j) mod c = (h + j - c) mod c" by (simp add: le_mod_geq)
    also have "\<dots> = h + j - c" using a by simp
    finally show ?thesis using a False by linarith
  qed (use a in simp)
qed

lemma visited_not_start: "h < c \<Longrightarrow> n < c \<Longrightarrow> \<not> visited c n ((h + 1) mod c) h"
  unfolding visited_def using mod_add_neq [of h c "Suc j" for j]
  by (auto simp: mod_add_left_eq) (metis Suc_lessI less_trans_Suc order_less_trans)

lemma visited_all: "h < c \<Longrightarrow> i < c \<Longrightarrow> visited c c h i"
  unfolding visited_def
  by (intro exI [of _ "if h \<le> i then i - h else i + c - h"]) (auto simp: mod_if)

text \<open>
  A sweep of \<open>n\<close> turns, exactly. With \<open>True\<close> it stands at an item whose count is zero; with \<open>False\<close> it
  has passed the \<open>n\<close> slots from the hand on, each empty or with a positive count, and has taken one
  off each of those counts.
\<close>

definition swept :: "nat \<Rightarrow> ClockAlgorithm \<Rightarrow> ClockAlgorithm \<Rightarrow> bool" where
  "swept n s s' \<longleftrightarrow> clk_hand s' = (clk_hand s + n) mod clk_capacity s \<and>
     (\<forall>i < clk_capacity s.
        (visited (clk_capacity s) n (clk_hand s) i \<longrightarrow> (\<forall>it. clk_items s ! i = Some it \<longrightarrow> AccessCount it \<noteq> 0)) \<and>
        clk_items s' ! i =
          (if visited (clk_capacity s) n (clk_hand s) i then map_option clk_dec (clk_items s ! i)
           else clk_items s ! i))"

definition stopped :: "nat \<Rightarrow> ClockAlgorithm \<Rightarrow> ClockAlgorithm \<Rightarrow> bool" where
  "stopped n s s' \<longleftrightarrow> visited (clk_capacity s) n (clk_hand s) (clk_hand s') \<and>
     (\<exists>it. clk_items s ! clk_hand s' = Some it \<and> AccessCount it = 0 \<and> clk_items s' ! clk_hand s' = Some it)"

lemma clk_sweep_spec:
  assumes "clk_inv s" "n \<le> clk_capacity s" "0 < clk_capacity s"
  shows "\<exists>s' f. clk_sweep n s = Some (s', f) \<and> clk_inv s' \<and> Clock_content s' = Clock_content s \<and>
    clk_capacity s' = clk_capacity s \<and> clk_keys s' = clk_keys s \<and>
    (if f then stopped n s s' else swept n s s')"
  using assms
proof (induction n arbitrary: s)
  case 0
  then show ?case using clk_invD(2) [OF 0(1)]
    by (intro exI [of _ s] exI [of _ False]) (simp add: swept_def)
next
  case (Suc n)
  let ?c = "clk_capacity s" and ?h = "clk_hand s"
  note inv = clk_invD [OF Suc.prems(1)]
  have h: "?h < ?c" "?h < length (clk_items s)" using inv(1,2) Suc.prems(3) by auto
  show ?case
  proof (cases "\<exists>it. clk_items s ! ?h = Some it \<and> AccessCount it = 0")
    case True
    with h Suc.prems show ?thesis
      by (intro exI [of _ s] exI [of _ True]) (auto simp: clk_slot_def stopped_def visited_Suc)
  next
    case False
    define s1 where "s1 = s\<lparr>clk_items := (clk_items s)[?h := map_option clk_dec (clk_items s ! ?h)]\<rparr>"
    have s1: "clk_inv s1" "Clock_content s1 = Clock_content s" "clk_keys s1 = clk_keys s"
      "clk_capacity s1 = ?c" "clk_hand s1 = ?h"
    proof -
      show "clk_inv s1" "Clock_content s1 = Clock_content s"
      proof (atomize (full), cases "clk_items s ! ?h")
        case None
        then have "s1 = s" by (simp add: s1_def list_update_same_conv h(2))
        with Suc.prems(1) show "clk_inv s1 \<and> Clock_content s1 = Clock_content s" by simp
      next
        case (Some it)
        then have "Clock_content s (Key it) = Some (Val it)"
          using inv(4) [of "Key it" ?h] h by (simp add: Clock_content_def)
        then show "clk_inv s1 \<and> Clock_content s1 = Clock_content s"
          using clk_update_slot [OF Suc.prems(1) Some h(1), of "clk_dec it"] Some
          by (simp add: s1_def clk_dec_def fun_upd_idem)
      qed
    qed (simp_all add: s1_def)
    have sweep: "clk_sweep (Suc n) s = clk_sweep n (clk_advanceHand s1)"
    proof (cases "clk_items s ! ?h")
      case None
      then have "s1 = s" by (simp add: s1_def list_update_same_conv h(2))
      with None h show ?thesis by (simp add: clk_slot_def)
    next
      case (Some it)
      with False have "AccessCount it > 0" by (simp add: word_gt_0)
      with Some h show ?thesis by (simp add: clk_slot_def s1_def clk_dec_def)
    qed
    obtain s' f where IH: "clk_sweep n (clk_advanceHand s1) = Some (s', f)" "clk_inv s'"
      "Clock_content s' = Clock_content s" "clk_capacity s' = ?c" "clk_keys s' = clk_keys s"
      "if f then stopped n (clk_advanceHand s1) s' else swept n (clk_advanceHand s1) s'"
      using Suc.IH [of "clk_advanceHand s1"] s1 Suc.prems by auto
    have nh: "\<not> visited ?c n ((?h + 1) mod ?c) ?h" using visited_not_start [OF h(1)] Suc.prems(2) by simp
    have hand: "clk_hand (clk_advanceHand s1) = (?h + 1) mod ?c" using s1 by (simp add: clk_advanceHand_def)
    have items: "clk_items s1 ! i = (if i = ?h then map_option clk_dec (clk_items s ! i) else clk_items s ! i)"
      if "i < ?c" for i using that inv(1) by (simp add: s1_def nth_list_update)
    have "if f then stopped (Suc n) s s' else swept (Suc n) s s'"
    proof (cases f)
      case True
      then have "visited ?c n ((?h + 1) mod ?c) (clk_hand s')" using IH(6) hand s1 by (simp add: stopped_def)
      moreover from this have "clk_hand s' \<noteq> ?h" "clk_hand s' < ?c" using nh visited_less Suc.prems(3) by auto
      ultimately show ?thesis using True IH(6) items by (simp add: stopped_def visited_Suc [OF h(1)])
    next
      case f: False
      then have sw: "swept n (clk_advanceHand s1) s'" using IH(6) by simp
      have "clk_hand s' = (?h + Suc n) mod ?c"
        using sw hand s1 by (simp add: swept_def mod_add_left_eq)
      moreover have "(\<forall>it. clk_items s ! i = Some it \<longrightarrow> AccessCount it \<noteq> 0)" if "i < ?c" "visited ?c (Suc n) ?h i" for i
        using that sw hand s1 items False nh by (auto simp: swept_def visited_Suc [OF h(1)] split: if_splits)
      moreover have "clk_items s' ! i =
          (if visited ?c (Suc n) ?h i then map_option clk_dec (clk_items s ! i) else clk_items s ! i)" if "i < ?c" for i
        using that sw hand s1 items nh by (auto simp: swept_def visited_Suc [OF h(1)])
      ultimately show ?thesis using f by (simp add: swept_def)
    qed
    then show ?thesis using sweep IH by auto
  qed
qed

lemma clk_full_sweep:
  assumes "clk_inv s" "0 < clk_capacity s"
  shows "\<exists>s' f. clk_sweep (clk_capacity s) s = Some (s', f) \<and> clk_inv s' \<and> Clock_content s' = Clock_content s \<and>
    clk_capacity s' = clk_capacity s \<and> clk_keys s' = clk_keys s \<and>
    (f \<longrightarrow> (\<exists>it. clk_items s' ! clk_hand s' = Some it \<and> AccessCount it = 0 \<and> Some it \<in> set (clk_items s))) \<and>
    (\<not> f \<longrightarrow> clk_hand s' = clk_hand s \<and> clk_items s' = map (map_option clk_dec) (clk_items s) \<and>
       (\<forall>it. Some it \<in> set (clk_items s) \<longrightarrow> AccessCount it \<noteq> 0))"
proof -
  let ?c = "clk_capacity s"
  note inv = clk_invD [OF assms(1)]
  obtain s' f where s': "clk_sweep ?c s = Some (s', f)" "clk_inv s'" "Clock_content s' = Clock_content s"
    "clk_capacity s' = ?c" "clk_keys s' = clk_keys s" "if f then stopped ?c s s' else swept ?c s s'"
    using clk_sweep_spec [OF assms(1) order_refl assms(2)] by blast
  have all: "visited ?c ?c (clk_hand s) i" if "i < ?c" for i using visited_all [OF inv(2) [OF assms(2)] that] .
  have "clk_hand s' < ?c" using clk_invD(2) [OF s'(2)] s'(4) assms(2) by simp
  then have "f \<longrightarrow> (\<exists>it. clk_items s' ! clk_hand s' = Some it \<and> AccessCount it = 0 \<and> Some it \<in> set (clk_items s))"
    using s'(6) inv(1) by (force simp: stopped_def in_set_conv_nth)
  moreover have "\<not> f \<longrightarrow> clk_hand s' = clk_hand s"
    using s'(6) inv(2) [OF assms(2)] by (auto simp: swept_def)
  moreover have "\<not> f \<longrightarrow> clk_items s' = map (map_option clk_dec) (clk_items s)"
    using s'(4,6) clk_invD(1) [OF s'(2)] inv(1) all by (auto simp: swept_def intro!: nth_equalityI)
  moreover have "\<not> f \<longrightarrow> (\<forall>it. Some it \<in> set (clk_items s) \<longrightarrow> AccessCount it \<noteq> 0)"
    using s'(6) inv(1) all by (auto simp: swept_def in_set_conv_nth)
  ultimately show ?thesis using s' by blast
qed

lemma clk_drop_ok:
  assumes "clk_inv s" "clk_items s ! clk_hand s = Some it" "0 < clk_capacity s"
  shows "\<exists>s'. clk_drop s = Some (s', Key it) \<and> clk_inv s' \<and> clk_capacity s' = clk_capacity s \<and>
    clk_hand s' = clk_hand s \<and> clk_items s' ! clk_hand s = None \<and> Clock_content s (Key it) = Some (Val it) \<and>
    Clock_content s' = (Clock_content s)(Key it := None)"
proof -
  note inv = clk_invD [OF assms(1)]
  let ?h = "clk_hand s"
  have h: "?h < clk_capacity s" "?h < length (clk_items s)" using inv(1,2) assms(3) by auto
  have k: "map_of (clk_keys s) (Key it) = Some ?h" using inv(4) assms(2) h by simp
  have o: "i \<noteq> ?h" if "map_of (clk_keys s) k' = Some i" "k' \<noteq> Key it" for k' i
    using that inv(4) [of k' i] assms(2) by auto
  let ?s = "s\<lparr>clk_keys := gm_del (Key it) (clk_keys s), clk_items := (clk_items s)[?h := None]\<rparr>"
  have u: "i = ?h" if "i < clk_capacity s" "clk_items s ! i = Some it'" "Key it' = Key it" for i it'
    using that inv(4) [of "Key it" i] k by auto
  have "clk_inv ?s"
    using inv h assms(2) unfolding clk_inv_def
    by (auto simp: gomap_simps nth_list_update dest: u split: if_splits)
  moreover have "Clock_content ?s k' = ((Clock_content s)(Key it := None)) k'" for k'
    using o [of k'] by (cases "k' = Key it") (auto simp: Clock_content_def gomap_simps split: option.split)
  ultimately show ?thesis using assms(2) h k by (simp add: clk_drop_def clk_slot_def Clock_content_def fun_eq_iff)
qed

lemma clk_fill_ok:
  assumes "clk_inv s" "clk_items s ! clk_hand s = None" "0 < clk_capacity s" "map_of (clk_keys s) k = None"
  shows "clk_inv (clk_fill s k v)" "Clock_content (clk_fill s k v) = (Clock_content s)(k \<mapsto> v)"
    "clk_capacity (clk_fill s k v) = clk_capacity s"
proof -
  note inv = clk_invD [OF assms(1)]
  let ?h = "clk_hand s"
  have h: "?h < clk_capacity s" "?h < length (clk_items s)" using inv(1,2) assms(3) by auto
  have o: "i \<noteq> ?h" if "map_of (clk_keys s) k' = Some i" for k' i
    using that inv(4) [of k' i] assms(2) by auto
  have n: "\<not> (i < clk_capacity s \<and> (\<exists>it. clk_items s ! i = Some it \<and> Key it = k))" for i
    using inv(4) [of k i] assms(4) by simp
  show "clk_inv (clk_fill s k v)"
    using inv h assms n unfolding clk_inv_def clk_fill_def
    by (auto simp: gomap_simps nth_list_update split: if_splits)
  show "Clock_content (clk_fill s k v) = (Clock_content s)(k \<mapsto> v)"
  proof
    fix k'
    show "Clock_content (clk_fill s k v) k' = ((Clock_content s)(k \<mapsto> v)) k'"
      using o [of k'] h by (cases "k' = k") (auto simp: Clock_content_def clk_fill_def gomap_simps split: option.split)
  qed
  show "clk_capacity (clk_fill s k v) = clk_capacity s" by (simp add: clk_fill_def)
qed

lemma clk_tryFree_ok:
  assumes "clk_inv s" "start < clk_capacity s" "0 < fuel" "fuel \<le> clk_capacity s"
    "clk_hand s = (start + (clk_capacity s - fuel)) mod clk_capacity s" "map_of (clk_keys s) k = None"
  shows "\<exists>s' b. clk_tryFree fuel start s k v = Some (s', b) \<and>
    (if b then clk_inv s' \<and> clk_capacity s' = clk_capacity s \<and> Clock_content s' = (Clock_content s)(k \<mapsto> v) \<and>
       (\<exists>i < clk_capacity s. clk_items s ! i = None)
     else s' = s\<lparr>clk_hand := start\<rparr> \<and>
       (\<forall>i. visited (clk_capacity s) fuel (clk_hand s) i \<longrightarrow> clk_items s ! i \<noteq> None))"
  using assms
proof (induction fuel arbitrary: s)
  case (Suc fuel)
  let ?c = "clk_capacity s" and ?h = "clk_hand s"
  note inv = clk_invD [OF Suc.prems(1)]
  have c: "0 < ?c" using Suc.prems(2) by simp
  have h: "?h < ?c" "?h < length (clk_items s)" using inv(1,2) c by auto
  show ?case
  proof (cases "clk_items s ! ?h")
    case None
    then show ?thesis using clk_fill_ok [OF Suc.prems(1) None c Suc.prems(6)] h
      by (intro exI [of _ "clk_fill s k v"] exI [of _ True]) (auto simp: clk_slot_def)
  next
    case (Some it)
    let ?s1 = "clk_advanceHand s"
    have hand: "clk_hand ?s1 = (start + (?c - fuel)) mod ?c"
      using Suc.prems(4,5) by (simp add: clk_advanceHand_def mod_Suc_eq Suc_diff_le flip: Suc_diff_Suc)
    show ?thesis
    proof (cases "fuel = 0")
      case True
      then have "clk_hand ?s1 = start" using hand Suc.prems(2) by simp
      then show ?thesis using Some h True
        by (intro exI [of _ "s\<lparr>clk_hand := start\<rparr>"] exI [of _ False])
           (auto simp: clk_slot_def Let_def visited_Suc clk_advanceHand_def)
    next
      case False
      then have "clk_hand ?s1 \<noteq> start"
        using hand mod_add_neq [OF Suc.prems(2), of "?c - fuel"] Suc.prems(4) by simp
      then have eq: "clk_tryFree (Suc fuel) start s k v = clk_tryFree fuel start ?s1 k v"
        using Some h by (simp add: clk_slot_def Let_def)
      obtain s' b where IH: "clk_tryFree fuel start ?s1 k v = Some (s', b)"
        "if b then clk_inv s' \<and> clk_capacity s' = ?c \<and> Clock_content s' = (Clock_content s)(k \<mapsto> v) \<and>
           (\<exists>i < ?c. clk_items s ! i = None)
         else s' = ?s1\<lparr>clk_hand := start\<rparr> \<and> (\<forall>i. visited ?c fuel (clk_hand ?s1) i \<longrightarrow> clk_items s ! i \<noteq> None)"
        using Suc.IH [of ?s1, unfolded clk_advance_inv] Suc.prems hand False
          clk_advance_inv(1) [OF Suc.prems(1)] by fastforce
      then show ?thesis using eq Some
        by (intro exI [of _ s'] exI [of _ b]) (auto simp: visited_Suc [OF h(1)] clk_advanceHand_def)
    qed
  qed
qed simp

lemma clk_tryInsert_ok:
  assumes "clk_inv s" "0 < clk_capacity s" "map_of (clk_keys s) k = None"
  shows "\<exists>s' b. clk_tryInsertInFreeSlot s k v = Some (s', b) \<and> b = (None \<in> set (clk_items s)) \<and>
    (if b then clk_inv s' \<and> clk_capacity s' = clk_capacity s \<and> Clock_content s' = (Clock_content s)(k \<mapsto> v)
     else s' = s)"
proof -
  note inv = clk_invD [OF assms(1)]
  obtain s' b where b: "clk_tryInsertInFreeSlot s k v = Some (s', b)"
    "if b then clk_inv s' \<and> clk_capacity s' = clk_capacity s \<and> Clock_content s' = (Clock_content s)(k \<mapsto> v) \<and>
       (\<exists>i < clk_capacity s. clk_items s ! i = None)
     else s' = s\<lparr>clk_hand := clk_hand s\<rparr> \<and>
       (\<forall>i. visited (clk_capacity s) (clk_capacity s) (clk_hand s) i \<longrightarrow> clk_items s ! i \<noteq> None)"
    using clk_tryFree_ok [OF assms(1) inv(2) [OF assms(2)], of "clk_capacity s" k v] assms
      inv(2) [OF assms(2)] unfolding clk_tryInsertInFreeSlot_def by auto
  have "b = (None \<in> set (clk_items s))"
    using b(2) visited_all [OF inv(2) [OF assms(2)]] inv(1) by (cases b) (auto simp: in_set_conv_nth)
  with b show ?thesis by (intro exI [of _ s'] exI [of _ b]) (auto split: if_splits)
qed

section \<open>The operations\<close>

definition clk_idle :: "ClockAlgorithm \<Rightarrow> bool" where
  "clk_idle s \<longleftrightarrow> (\<exists>it. Some it \<in> set (clk_items s) \<and> AccessCount it = 0)"

lemma Clock_content_hand [simp]: "Clock_content (s\<lparr>clk_hand := i\<rparr>) = Clock_content s"
  by (rule ext) (simp add: Clock_content_def split: option.split)

lemma clk_inv_hand: "clk_inv s \<Longrightarrow> i < clk_capacity s \<Longrightarrow> clk_inv (s\<lparr>clk_hand := i\<rparr>)"
  by (simp add: clk_inv_def)

lemma Clock_content_None:
  "clk_inv s \<Longrightarrow> Clock_content s k = None \<longleftrightarrow> map_of (clk_keys s) k = None"
  by (auto simp: Clock_content_def split: option.splits elim: clk_lookup)

lemma Clock_content_used:
  assumes "clk_inv s" "Clock_content s \<noteq> Map.empty"
  obtains it where "Some it \<in> set (clk_items s)"
proof -
  obtain k i where "map_of (clk_keys s) k = Some i"
    using assms Clock_content_None by (metis not_None_eq)
  then show thesis using clk_lookup [OF assms(1)] that by (metis nth_mem)
qed

lemma Clock_Evict_ok:
  assumes "clk_inv s"
  shows "\<exists>s' r. Clock_Evict s = Some (s', r) \<and> clk_inv s' \<and> clk_capacity s' = clk_capacity s \<and>
    (case r of
       None \<Rightarrow> Clock_content s' = Clock_content s \<and> clk_items s' = map (map_option clk_dec) (clk_items s) \<and> \<not> clk_idle s
     | Some k \<Rightarrow> clk_idle s \<and> k \<in> dom (Clock_content s) \<and> Clock_content s' = (Clock_content s)(k := None))"
proof (cases "clk_capacity s = 0")
  case True
  with assms clk_invD(1) [OF assms] show ?thesis by (simp add: Clock_Evict_def clk_idle_def)
next
  case False
  obtain s1 f where s1: "clk_sweep (clk_capacity s) s = Some (s1, f)" "clk_inv s1"
    "Clock_content s1 = Clock_content s" "clk_capacity s1 = clk_capacity s"
    "f \<longrightarrow> (\<exists>it. clk_items s1 ! clk_hand s1 = Some it \<and> AccessCount it = 0 \<and> Some it \<in> set (clk_items s))"
    "\<not> f \<longrightarrow> clk_items s1 = map (map_option clk_dec) (clk_items s) \<and>
       (\<forall>it. Some it \<in> set (clk_items s) \<longrightarrow> AccessCount it \<noteq> 0)"
    using clk_full_sweep [OF assms] False by blast
  show ?thesis
  proof (cases f)
    case True
    then obtain it where it: "clk_items s1 ! clk_hand s1 = Some it" "AccessCount it = 0" "Some it \<in> set (clk_items s)"
      using s1(5) by blast
    obtain s2 where "clk_drop s1 = Some (s2, Key it)" "clk_inv s2" "clk_capacity s2 = clk_capacity s"
      "Clock_content s (Key it) = Some (Val it)" "Clock_content s2 = (Clock_content s)(Key it := None)"
      using clk_drop_ok [OF s1(2) it(1)] s1(3,4) False by auto
    with True it s1(1) False show ?thesis
      by (intro exI [of _ s2] exI [of _ "Some (Key it)"]) (auto simp: Clock_Evict_def clk_idle_def)
  next
    case f: False
    with s1 False show ?thesis
      by (intro exI [of _ s1] exI [of _ None]) (auto simp: Clock_Evict_def clk_idle_def)
  qed
qed

lemma Clock_Set_ok:
  assumes "clk_inv s"
  shows "\<exists>s'. Clock_Set s k v = Some s' \<and> clk_inv s' \<and> clk_capacity s' = clk_capacity s \<and>
    (if clk_capacity s = 0 then s' = s
     else if Clock_content s k \<noteq> None \<or> None \<in> set (clk_items s) then Clock_content s' = (Clock_content s)(k \<mapsto> v)
     else if clk_idle s then (\<exists>j. Clock_content s' = (Clock_content s)(j := None, k \<mapsto> v))
     else Clock_content s' = Clock_content s \<and> clk_items s' = map (map_option clk_dec) (clk_items s))"
proof -
  consider "clk_capacity s = 0" | i where "0 < clk_capacity s" "map_of (clk_keys s) k = Some i"
    | "0 < clk_capacity s" "map_of (clk_keys s) k = None" "None \<in> set (clk_items s)"
    | "0 < clk_capacity s" "map_of (clk_keys s) k = None" "None \<notin> set (clk_items s)" by fastforce
  then show ?thesis
  proof cases
    case 1
    with assms show ?thesis by (simp add: Clock_Set_def)
  next
    case (2 i)
    obtain it where it: "i < clk_capacity s" "clk_items s ! i = Some it" "Key it = k"
      "clk_slot s i = Some (Some it)" "Clock_content s k = Some (Val it)"
      using clk_lookup [OF assms 2(2)] .
    with clk_update_slot [OF assms it(2,1), of "it\<lparr>Val := v, AccessCount := AccessCount it + 1\<rparr>"] 2 show ?thesis
      by (simp add: Clock_Set_def clk_updateIfExists_def)
  next
    case 3
    with clk_tryInsert_ok [OF assms 3(1,2), of v] show ?thesis
      by (auto simp: Clock_Set_def clk_updateIfExists_def)
  next
    case 4
    have free: "clk_tryInsertInFreeSlot s k v = Some (s, False)"
      using clk_tryInsert_ok [OF assms 4(1,2), of v] 4(3) by auto
    have none: "Clock_content s k = None" using Clock_content_None [OF assms] 4(2) by simp
    obtain s1 f where s1: "clk_sweep (clk_capacity s) s = Some (s1, f)" "clk_inv s1"
      "Clock_content s1 = Clock_content s" "clk_capacity s1 = clk_capacity s" "clk_keys s1 = clk_keys s"
      "f \<longrightarrow> (\<exists>it. clk_items s1 ! clk_hand s1 = Some it \<and> AccessCount it = 0 \<and> Some it \<in> set (clk_items s))"
      "\<not> f \<longrightarrow> clk_items s1 = map (map_option clk_dec) (clk_items s) \<and>
         (\<forall>it. Some it \<in> set (clk_items s) \<longrightarrow> AccessCount it \<noteq> 0)"
      using clk_full_sweep [OF assms 4(1)] by blast
    show ?thesis
    proof (cases f)
      case True
      then obtain it where it: "clk_items s1 ! clk_hand s1 = Some it" "AccessCount it = 0" "Some it \<in> set (clk_items s)"
        using s1(6) by blast
      obtain s2 where s2: "clk_drop s1 = Some (s2, Key it)" "clk_inv s2" "clk_capacity s2 = clk_capacity s"
        "clk_hand s2 = clk_hand s1" "clk_items s2 ! clk_hand s1 = None"
        "Clock_content s2 = (Clock_content s)(Key it := None)"
        using clk_drop_ok [OF s1(2) it(1)] s1(3,4) 4(1) by auto
      have "map_of (clk_keys s2) k = None"
        using Clock_content_None [OF s2(2), of k] s2(6) none by (simp split: if_splits)
      then have "clk_inv (clk_fill s2 k v)" "clk_capacity (clk_fill s2 k v) = clk_capacity s"
        "Clock_content (clk_fill s2 k v) = (Clock_content s)(Key it := None, k \<mapsto> v)"
        using clk_fill_ok [OF s2(2), of k v] s2 4(1) by auto
      with True it s1(1) s2(1) free 4 none show ?thesis
        by (auto simp: Clock_Set_def clk_updateIfExists_def clk_evictAndInsert_def clk_idle_def)
    next
      case False
      with s1 free 4 none show ?thesis
        by (auto simp: Clock_Set_def clk_updateIfExists_def clk_evictAndInsert_def clk_idle_def)
    qed
  qed
qed

lemma Clock_Get_ok:
  assumes "clk_inv s"
  shows "\<exists>s'. Clock_Get s k = Some (s', Clock_content s k) \<and> clk_inv s' \<and> clk_capacity s' = clk_capacity s \<and>
    Clock_content s' = Clock_content s"
proof (cases "map_of (clk_keys s) k")
  case None
  with assms show ?thesis by (simp add: Clock_Get_def Clock_content_def)
next
  case (Some i)
  obtain it where it: "i < clk_capacity s" "clk_items s ! i = Some it" "Key it = k"
    "clk_slot s i = Some (Some it)" "Clock_content s k = Some (Val it)"
    using clk_lookup [OF assms Some] .
  with clk_update_slot [OF assms it(2,1), of "it\<lparr>AccessCount := AccessCount it + 1\<rparr>"] Some show ?thesis
    by (simp add: Clock_Get_def fun_upd_idem)
qed

lemma Clock_Delete_ok:
  assumes "clk_inv s"
  shows "\<exists>s'. Clock_Delete s k = Some s' \<and> clk_inv s' \<and> clk_capacity s' = clk_capacity s \<and>
    Clock_content s' = (Clock_content s)(k := None)"
proof (cases "map_of (clk_keys s) k")
  case None
  then have "Clock_content s k = None" by (simp add: Clock_content_def)
  with None assms show ?thesis by (simp add: Clock_Delete_def fun_upd_idem)
next
  case (Some i)
  obtain it where it: "i < clk_capacity s" "clk_items s ! i = Some it" "Key it = k" "clk_slot s i = Some (Some it)"
    using clk_lookup [OF assms Some] .
  obtain s' where s': "clk_drop (s\<lparr>clk_hand := i\<rparr>) = Some (s', k)" "clk_inv s'"
    "clk_capacity s' = clk_capacity s" "Clock_content s' = (Clock_content s)(k := None)"
    using clk_drop_ok [of "s\<lparr>clk_hand := i\<rparr>" it] clk_inv_hand [OF assms it(1)] it by auto
  have d: "Clock_Delete s k = Some (s'\<lparr>clk_hand := clk_hand s\<rparr>)"
    using s'(1) it Some clk_invD(1) [OF assms] by (auto simp: Clock_Delete_def clk_drop_def clk_slot_def)
  have "clk_inv (s'\<lparr>clk_hand := clk_hand s\<rparr>)"
    using s'(2,3) clk_invD(2) [OF assms] it(1) by (intro clk_inv_hand) auto
  with d s' show ?thesis by simp
qed

interpretation clock: eviction_algorithm clk_inv clk_capacity Clock_content Clock_Set Clock_Get Clock_Evict
    Clock_Delete
proof (unfold_locales, goal_cases)
  case (1 s)
  have "dom (Clock_content s) = dom (map_of (clk_keys s))" using Clock_content_None [OF 1] by (auto simp: dom_def)
  moreover have "inj_on (\<lambda>k. the (map_of (clk_keys s) k)) (dom (map_of (clk_keys s)))"
  proof (rule inj_onI)
    fix k k' assume a: "k \<in> dom (map_of (clk_keys s))" "k' \<in> dom (map_of (clk_keys s))"
      "the (map_of (clk_keys s) k) = the (map_of (clk_keys s) k')"
    then obtain i where "map_of (clk_keys s) k = Some i" "map_of (clk_keys s) k' = Some i" by auto
    then show "k = k'" using clk_invD(4) [OF 1, of k i] clk_invD(4) [OF 1, of k' i] by auto
  qed
  moreover have "the (map_of (clk_keys s) k) < clk_capacity s" if "k \<in> dom (map_of (clk_keys s))" for k
    using that clk_invD(4) [OF 1, of k "the (map_of (clk_keys s) k)"] by auto
  then have "(\<lambda>k. the (map_of (clk_keys s) k)) ` dom (map_of (clk_keys s)) \<subseteq> {..<clk_capacity s}" by blast
  ultimately show ?case
    by (metis card_image card_lessThan card_mono finite_dom_map_of finite_lessThan)
next
  case (2 s k v)
  obtain s' where s': "Clock_Set s k v = Some s'" "clk_inv s'" "clk_capacity s' = clk_capacity s"
    "if clk_capacity s = 0 then s' = s
     else if Clock_content s k \<noteq> None \<or> None \<in> set (clk_items s) then Clock_content s' = (Clock_content s)(k \<mapsto> v)
     else if clk_idle s then (\<exists>j. Clock_content s' = (Clock_content s)(j := None, k \<mapsto> v))
     else Clock_content s' = Clock_content s \<and> clk_items s' = map (map_option clk_dec) (clk_items s)"
    using Clock_Set_ok [OF 2, of k v] by blast
  have "Clock_content s k = None" if "clk_capacity s = 0"
    using that clk_invD(4) [OF 2] by (auto simp: Clock_content_def split: option.split)
  with s' show ?case by (auto split: if_splits)
next
  case (3 s k)
  then show ?case by (rule Clock_Get_ok)
next
  case (4 s)
  then show ?case using Clock_Evict_ok [OF 4] by (auto split: option.splits)
next
  case (5 s k)
  then show ?case by (rule Clock_Delete_ok)
qed

section \<open>Results\<close>

definition Clock_step :: "ClockAlgorithm \<Rightarrow> alg_op \<Rightarrow> (ClockAlgorithm \<times> alg_res) option" where
  "Clock_step = alg_step Clock_Set Clock_Get Clock_Evict Clock_Delete"

lemmas Clock_run_ok = clock.run_ok [folded Clock_step_def]

lemma Clock_evicts_eventually_inv:
  assumes "clk_inv s" "Some it \<in> set (clk_items s)" "unat (AccessCount it) < n"
  shows "\<exists>s' rs. run_ops Clock_step s (replicate n OpEvict) = Some (s', rs) \<and> (\<exists>k. REvict (Some k) \<in> set rs)"
  using assms
proof (induction n arbitrary: s it)
  case (Suc n)
  obtain s1 r where s1: "Clock_Evict s = Some (s1, r)" "clk_inv s1"
    "r = None \<Longrightarrow> clk_items s1 = map (map_option clk_dec) (clk_items s) \<and> \<not> clk_idle s"
    using Clock_Evict_ok [OF Suc.prems(1)] by (auto split: option.splits)
  have step: "Clock_step s OpEvict = Some (s1, REvict r)" using s1(1) by (simp add: Clock_step_def)
  show ?case
  proof (cases r)
    case None
    with s1(3) have items: "clk_items s1 = map (map_option clk_dec) (clk_items s)" and pos: "AccessCount it \<noteq> 0"
      using Suc.prems(2) by (auto simp: clk_idle_def)
    have "Some (clk_dec it) \<in> set (clk_items s1)" using items Suc.prems(2) by force
    moreover have "unat (AccessCount (clk_dec it)) < n"
      using pos Suc.prems(3) unat_gt_0 [of "AccessCount it"] unat_minus_one [of "AccessCount it"]
      by (simp add: clk_dec_def)
    ultimately show ?thesis using Suc.IH [OF s1(2)] step by fastforce
  next
    case (Some k)
    with step Clock_run_ok [OF s1(2), of "replicate n OpEvict"] show ?thesis by fastforce
  qed
qed simp

text \<open>
  After any history from a new clock of positive capacity, \<open>Set\<close> leaves the new key tracked with
  its value exactly when the key was tracked, or a slot was free, or some item had access count
  zero. Otherwise the call changes no binding: it only takes one off every count, and the key is
  dropped.
\<close>

lemma Clock_Set_tracks_iff:
  assumes "NewClockAlgorithm capacity = Inr s0" "0 < capacity" "run_ops Clock_step s0 ops = Some (s, rs)"
  shows "\<exists>s'. Clock_Set s k v = Some s' \<and>
    (if Clock_content s k \<noteq> None \<or> None \<in> set (clk_items s) \<or> clk_idle s then Clock_content s' k = Some v
     else Clock_content s' = Clock_content s \<and> clk_items s' = map (map_option clk_dec) (clk_items s))"
proof -
  have "clk_inv s" "clk_capacity s = nat capacity"
    using Clock_run_ok [of s0 ops] clk_inv_new [OF assms(1)] assms
    by (auto simp: NewClockAlgorithm_def)
  with Clock_Set_ok [of s k v] assms(2) obtain s' where "Clock_Set s k v = Some s'"
    "if Clock_content s k \<noteq> None \<or> None \<in> set (clk_items s) then Clock_content s' = (Clock_content s)(k \<mapsto> v)
     else if clk_idle s then (\<exists>j. Clock_content s' = (Clock_content s)(j := None, k \<mapsto> v))
     else Clock_content s' = Clock_content s \<and> clk_items s' = map (map_option clk_dec) (clk_items s)"
    by auto
  then show ?thesis by (intro exI [of _ s']) (auto split: if_splits)
qed

lemma Clock_example_run:
  "case NewClockAlgorithm 1 of Inl _ \<Rightarrow> False | Inr s0 \<Rightarrow>
     (case run_ops Clock_step s0 [OpSet ''a'' (GOther 1)] of None \<Rightarrow> False
      | Some (s, rs) \<Rightarrow> Clock_content s ''b'' = None \<and> None \<notin> set (clk_items s) \<and>
          list_all (\<lambda>x. case x of None \<Rightarrow> True | Some it \<Rightarrow> AccessCount it \<noteq> 0) (clk_items s))"
  by code_simp

lemma Clock_Set_tracks_iff_example:
  "\<exists>s0 s rs s'. NewClockAlgorithm 1 = Inr s0 \<and> run_ops Clock_step s0 [OpSet ''a'' (GOther 1)] = Some (s, rs) \<and>
     Clock_Set s ''b'' (GOther 2) = Some s' \<and> Clock_content s' ''b'' = None"
proof -
  obtain s0 s rs where 0: "NewClockAlgorithm 1 = Inr s0"
    and 1: "run_ops Clock_step s0 [OpSet ''a'' (GOther 1)] = Some (s, rs)" "Clock_content s ''b'' = None"
      "None \<notin> set (clk_items s)"
      "list_all (\<lambda>x. case x of None \<Rightarrow> True | Some it \<Rightarrow> AccessCount it \<noteq> 0) (clk_items s)"
    using Clock_example_run by (auto split: sum.splits option.splits prod.splits)
  have "\<not> clk_idle s" using 1(4) by (auto simp: clk_idle_def list_all_iff)
  with Clock_Set_tracks_iff [OF 0 _ 1(1), of "''b''" "GOther 2"] 0 1 show ?thesis by auto
qed

text \<open>
  After any history, if the clock tracks an item whose access count is below \<open>n\<close>, then one of the
  next \<open>n\<close> calls of \<open>Evict\<close> returns a key, whatever the other counts are.
\<close>

lemma Clock_evicts_eventually:
  assumes "NewClockAlgorithm capacity = Inr s0" "run_ops Clock_step s0 ops = Some (s, rs)"
    and "Some it \<in> set (clk_items s)" "unat (AccessCount it) < n"
  shows "\<exists>s' rs'. run_ops Clock_step s (replicate n OpEvict) = Some (s', rs') \<and> (\<exists>k. REvict (Some k) \<in> set rs')"
proof -
  have "clk_inv s" using Clock_run_ok [of s0 ops] clk_inv_new [OF assms(1)] assms(2) by auto
  then show ?thesis using Clock_evicts_eventually_inv assms(3,4) by blast
qed

lemma Clock_example_evict:
  "case NewClockAlgorithm 1 of Inl _ \<Rightarrow> False | Inr s0 \<Rightarrow>
     (case run_ops Clock_step s0 [OpSet ''a'' (GOther 1), OpGet ''a''] of None \<Rightarrow> False
      | Some (s, rs) \<Rightarrow> 
          list_ex (\<lambda>x. case x of None \<Rightarrow> False | Some it \<Rightarrow> unat (AccessCount it) < 3) (clk_items s))"
  by code_simp

lemma Clock_evicts_eventually_example:
  "\<exists>s0 s rs s' rs'. NewClockAlgorithm 1 = Inr s0 \<and>
     run_ops Clock_step s0 [OpSet ''a'' (GOther 1), OpGet ''a''] = Some (s, rs) \<and>
     run_ops Clock_step s (replicate 3 OpEvict) = Some (s', rs') \<and> (\<exists>k. REvict (Some k) \<in> set rs')"
proof -
  obtain s0 s rs it where 0: "NewClockAlgorithm 1 = Inr s0"
    and 1: "run_ops Clock_step s0 [OpSet ''a'' (GOther 1), OpGet ''a''] = Some (s, rs)"
      "Some it \<in> set (clk_items s)" "unat (AccessCount it) < 3"
    using Clock_example_evict
    by (auto simp: list_ex_iff simp del: run_ops.simps split: sum.splits option.splits prod.splits)
  from Clock_evicts_eventually [OF 0 1] 0 1(1) show ?thesis by blast
qed

end
