(* ===== verification/Eviction.thy ===== *)
theory Eviction
  imports LRU CAWOLFU LFU Clock
begin

text \<open>
  \<open>pkg/eviction/eviction.go\<close> and \<open>sharded.go\<close>: the interface value \<open>IAlgorithm\<close> as a sum of the
  registered implementations, the registry of constructors, and the wrapper that spreads keys over
  a power-of-two number of instances. Two things the sources only call are parameters: the key hash
  \<open>hash\<close> (\<open>cachev2.Hash\<close>, built on xxhash) and \<open>toU32\<close> (\<open>converters.ToUint32\<close>, whose documented
  behaviour \<open>toU32_ok\<close> is a range check).
\<close>

section \<open>The interface and the registry\<close>

datatype IAlgorithm = AlgLRU LRU | AlgLFU LFUAlgorithm | AlgClock ClockAlgorithm | AlgCAWOLFU CAWOLFU

fun alg_Set :: "IAlgorithm \<Rightarrow> string \<Rightarrow> gval \<Rightarrow> IAlgorithm option" where
  "alg_Set (AlgLRU s) k v = map_option AlgLRU (LRU_Set s k v)"
| "alg_Set (AlgLFU s) k v = map_option AlgLFU (LFU_Set s k v)"
| "alg_Set (AlgClock s) k v = map_option AlgClock (Clock_Set s k v)"
| "alg_Set (AlgCAWOLFU s) k v = map_option AlgCAWOLFU (CAWOLFU_Set s k v)"

fun alg_Get :: "IAlgorithm \<Rightarrow> string \<Rightarrow> (IAlgorithm \<times> gval option) option" where
  "alg_Get (AlgLRU s) k = map_option (map_prod AlgLRU id) (LRU_Get s k)"
| "alg_Get (AlgLFU s) k = map_option (map_prod AlgLFU id) (LFU_Get s k)"
| "alg_Get (AlgClock s) k = map_option (map_prod AlgClock id) (Clock_Get s k)"
| "alg_Get (AlgCAWOLFU s) k = map_option (map_prod AlgCAWOLFU id) (CAWOLFU_Get s k)"

fun alg_Evict :: "IAlgorithm \<Rightarrow> (IAlgorithm \<times> string option) option" where
  "alg_Evict (AlgLRU s) = map_option (map_prod AlgLRU id) (LRU_Evict s)"
| "alg_Evict (AlgLFU s) = map_option (map_prod AlgLFU id) (LFU_Evict s)"
| "alg_Evict (AlgClock s) = map_option (map_prod AlgClock id) (Clock_Evict s)"
| "alg_Evict (AlgCAWOLFU s) = map_option (map_prod AlgCAWOLFU id) (CAWOLFU_Evict s)"

fun alg_Delete :: "IAlgorithm \<Rightarrow> string \<Rightarrow> IAlgorithm option" where
  "alg_Delete (AlgLRU s) k = map_option AlgLRU (LRU_Delete s k)"
| "alg_Delete (AlgLFU s) k = map_option AlgLFU (LFU_Delete s k)"
| "alg_Delete (AlgClock s) k = map_option AlgClock (Clock_Delete s k)"
| "alg_Delete (AlgCAWOLFU s) k = map_option AlgCAWOLFU (CAWOLFU_Delete s k)"

type_synonym AlgorithmRegistry = "(string, int \<Rightarrow> sentinel + IAlgorithm) gomap"

definition getDefaultAlgorithms :: AlgorithmRegistry where
  "getDefaultAlgorithms =
     [(''lru'', \<lambda>capacity. map_sum id AlgLRU (NewLRUAlgorithm capacity)),
      (''clock'', \<lambda>capacity. map_sum id AlgClock (NewClockAlgorithm capacity)),
      (''lfu'', \<lambda>capacity. map_sum id AlgLFU (NewLFUAlgorithm capacity)),
      (''cawolfu'', \<lambda>capacity. map_sum id AlgCAWOLFU (NewCAWOLFU capacity))]"

definition NewEmptyAlgorithmRegistry :: AlgorithmRegistry where
  "NewEmptyAlgorithmRegistry = []"

definition registry_Register :: "AlgorithmRegistry \<Rightarrow> string \<Rightarrow> (int \<Rightarrow> sentinel + IAlgorithm) \<Rightarrow> AlgorithmRegistry" where
  "registry_Register r name createFunc = gm_set name createFunc r"

definition registry_RegisterMultiple :: "AlgorithmRegistry \<Rightarrow> AlgorithmRegistry \<Rightarrow> AlgorithmRegistry" where
  "registry_RegisterMultiple r algorithms = fold (\<lambda>(k, f) r. gm_set k f r) algorithms r"

definition NewAlgorithmRegistry :: AlgorithmRegistry where
  "NewAlgorithmRegistry = registry_RegisterMultiple [] getDefaultAlgorithms"

definition registry_NewAlgorithm :: "AlgorithmRegistry \<Rightarrow> string \<Rightarrow> int \<Rightarrow> sentinel + IAlgorithm" where
  "registry_NewAlgorithm r algorithmName capacity =
     (if algorithmName = '''' then Inl ErrParamCannotBeEmpty
      else if capacity < 0 then Inl ErrInvalidCapacity
      else case map_of r algorithmName of
        None \<Rightarrow> Inl ErrAlgorithmNotFound
      | Some createFunc \<Rightarrow> createFunc capacity)"

definition NewEvictionAlgorithm :: "string \<Rightarrow> int \<Rightarrow> sentinel + IAlgorithm" where
  "NewEvictionAlgorithm algorithmName capacity =
     registry_NewAlgorithm NewAlgorithmRegistry algorithmName capacity"

section \<open>The sharded wrapper\<close>

record Sharded =
  shards :: "IAlgorithm list"
  shard_mask :: "32 word"
  evictCursor :: "32 word"

primrec newShards :: "nat \<Rightarrow> string \<Rightarrow> int \<Rightarrow> sentinel + IAlgorithm list" where
  "newShards 0 name cap = Inr []"
| "newShards (Suc n) name cap = (case NewEvictionAlgorithm name cap of
       Inl e \<Rightarrow> Inl e
     | Inr a \<Rightarrow> map_sum id (\<lambda>as. a # as) (newShards n name cap))"

text \<open>An error of \<open>toU32\<close> is none of the sentinels.\<close>

definition NewSharded :: "(int \<Rightarrow> 32 word option) \<Rightarrow> string \<Rightarrow> int \<Rightarrow> int \<Rightarrow> sentinel + Sharded" where
  "NewSharded toU32 algorithmName totalCapacity shardCount =
     (if shardCount \<le> 0 \<or> and shardCount (shardCount - 1) \<noteq> 0 then Inl ErrInvalidCapacity
      else if totalCapacity < 0 then Inl ErrInvalidCapacity
      else let perShard = (totalCapacity + shardCount - 1) div shardCount in
        case newShards (nat shardCount) algorithmName perShard of
          Inl e \<Rightarrow> Inl e
        | Inr as \<Rightarrow> (case toU32 (shardCount - 1) of
              None \<Rightarrow> Inl (ErrText ''ToUint32'')
            | Some msk \<Rightarrow> Inr \<lparr>shards = as, shard_mask = msk, evictCursor = 0\<rparr>))"

definition shardFor :: "(string \<Rightarrow> 32 word) \<Rightarrow> Sharded \<Rightarrow> string \<Rightarrow> nat" where
  "shardFor hash s key = unat (and (hash key) (shard_mask s))"

text \<open>Calling a method of the shard at an index; a panic out of range.\<close>

definition on_shard :: "Sharded \<Rightarrow> nat \<Rightarrow> (IAlgorithm \<Rightarrow> (IAlgorithm \<times> 'r) option) \<Rightarrow> (Sharded \<times> 'r) option" where
  "on_shard s i f =
     (if i < length (shards s)
      then map_option (\<lambda>(a, r). (s\<lparr>shards := (shards s)[i := a]\<rparr>, r)) (f (shards s ! i))
      else None)"

definition Sharded_Set :: "(string \<Rightarrow> 32 word) \<Rightarrow> Sharded \<Rightarrow> string \<Rightarrow> gval \<Rightarrow> Sharded option" where
  "Sharded_Set hash s key value =
     map_option fst (on_shard s (shardFor hash s key) (\<lambda>a. map_option (\<lambda>a. (a, ())) (alg_Set a key value)))"

definition Sharded_Get :: "(string \<Rightarrow> 32 word) \<Rightarrow> Sharded \<Rightarrow> string \<Rightarrow> (Sharded \<times> gval option) option" where
  "Sharded_Get hash s key = on_shard s (shardFor hash s key) (\<lambda>a. alg_Get a key)"

definition Sharded_Delete :: "(string \<Rightarrow> 32 word) \<Rightarrow> Sharded \<Rightarrow> string \<Rightarrow> Sharded option" where
  "Sharded_Delete hash s key =
     map_option fst (on_shard s (shardFor hash s key) (\<lambda>a. map_option (\<lambda>a. (a, ())) (alg_Delete a key)))"

text \<open>The loop of \<open>Evict\<close> over \<open>i = n - left, \<dots>, n - 1\<close>.\<close>

primrec sharded_evict_loop :: "nat \<Rightarrow> 32 word \<Rightarrow> Sharded \<Rightarrow> (Sharded \<times> string option) option" where
  "sharded_evict_loop 0 at s = Some (s, None)"
| "sharded_evict_loop (Suc left) at s =
     (case on_shard s (unat (and at (shard_mask s))) alg_Evict of
        None \<Rightarrow> None
      | Some (s', Some key) \<Rightarrow> Some (s', Some key)
      | Some (s', None) \<Rightarrow> sharded_evict_loop left (at + 1) s')"

definition Sharded_Evict :: "(int \<Rightarrow> 32 word option) \<Rightarrow> Sharded \<Rightarrow> (Sharded \<times> string option) option" where
  "Sharded_Evict toU32 s = (case toU32 (int (length (shards s))) of
       None \<Rightarrow> Some (s, None)
     | Some n \<Rightarrow> sharded_evict_loop (unat n) (evictCursor s) (s\<lparr>evictCursor := evictCursor s + 1\<rparr>))"

section \<open>Every algorithm meets the contract\<close>

fun alg_inv :: "IAlgorithm \<Rightarrow> bool" where
  "alg_inv (AlgLRU s) = (\<exists>c xs. lru_rel c s xs)"
| "alg_inv (AlgLFU s) = LFU_ok s"
| "alg_inv (AlgClock s) = clk_inv s"
| "alg_inv (AlgCAWOLFU s) = (\<exists>c xs. cw_rel c s xs)"

fun alg_cap :: "IAlgorithm \<Rightarrow> nat" where
  "alg_cap (AlgLRU s) = LRU_cap s"
| "alg_cap (AlgLFU s) = LFU_cap s"
| "alg_cap (AlgClock s) = clk_capacity s"
| "alg_cap (AlgCAWOLFU s) = CAWOLFU_cap s"

fun alg_content :: "IAlgorithm \<Rightarrow> string \<Rightarrow> gval option" where
  "alg_content (AlgLRU s) = LRU_content s"
| "alg_content (AlgLFU s) = LFU_content s"
| "alg_content (AlgClock s) = Clock_content s"
| "alg_content (AlgCAWOLFU s) = CAWOLFU_content s"

fun alg_tracks :: "IAlgorithm \<Rightarrow> bool" where
  "alg_tracks (AlgClock s) = False"
| "alg_tracks a = True"

interpretation alg: eviction_algorithm alg_inv alg_cap alg_content alg_Set alg_Get alg_Evict alg_Delete
proof (unfold_locales, goal_cases)
  case (1 a)
  then show ?case
    using lru.bounded lfu.bounded clock.bounded cawolfu.bounded by (cases a) auto
next
  case (2 a k v)
  then show ?case
    using lru.set_law [of _ k v] lfu.set_law [of _ k v] clock.set_law [of _ k v] cawolfu.set_law [of _ k v]
    by (cases a) fastforce+
next
  case (3 a k)
  then show ?case
    using lru.get_law [of _ k] lfu.get_law [of _ k] clock.get_law [of _ k] cawolfu.get_law [of _ k]
    by (cases a) fastforce+
next
  case (4 a)
  show ?case
  proof (cases a)
    case (AlgLRU s)
    obtain s' r where "LRU_Evict s = Some (s', r)" using 4 AlgLRU lru.evict_law [of s] by auto
    with 4 AlgLRU lru.evict_law [of s] show ?thesis
      by (intro exI [of _ "AlgLRU s'"] exI [of _ r]) (auto split: option.splits)
  next
    case (AlgLFU s)
    obtain s' r where "LFU_Evict s = Some (s', r)" using 4 AlgLFU lfu.evict_law [of s] by auto
    with 4 AlgLFU lfu.evict_law [of s] show ?thesis
      by (intro exI [of _ "AlgLFU s'"] exI [of _ r]) (auto split: option.splits)
  next
    case (AlgClock s)
    obtain s' r where "Clock_Evict s = Some (s', r)" using 4 AlgClock clock.evict_law [of s] by auto
    with 4 AlgClock clock.evict_law [of s] show ?thesis
      by (intro exI [of _ "AlgClock s'"] exI [of _ r]) (auto split: option.splits)
  next
    case (AlgCAWOLFU s)
    obtain s' r where "CAWOLFU_Evict s = Some (s', r)" using 4 AlgCAWOLFU cawolfu.evict_law [of s] by auto
    with 4 AlgCAWOLFU cawolfu.evict_law [of s] show ?thesis
      by (intro exI [of _ "AlgCAWOLFU s'"] exI [of _ r]) (auto split: option.splits)
  qed
next
  case (5 a k)
  then show ?case
    using lru.delete_law [of _ k] lfu.delete_law [of _ k] clock.delete_law [of _ k] cawolfu.delete_law [of _ k]
    by (cases a) fastforce+
qed

lemma NewEvictionAlgorithm_ok:
  assumes "NewEvictionAlgorithm name capacity = Inr a"
  shows "alg_inv a" "alg_cap a = nat capacity" "alg_content a = Map.empty" "0 \<le> capacity"
    "name \<noteq> ''clock'' \<Longrightarrow> alg_tracks a"
proof -
  note new = assms [unfolded NewEvictionAlgorithm_def registry_NewAlgorithm_def NewAlgorithmRegistry_def
      registry_RegisterMultiple_def getDefaultAlgorithms_def, simplified]
  have c: "0 \<le> capacity" using new by (auto split: if_splits)
  consider s where "NewLRUAlgorithm capacity = Inr s" "a = AlgLRU s"
    | s where "NewClockAlgorithm capacity = Inr s" "a = AlgClock s" "name = ''clock''"
    | s where "NewLFUAlgorithm capacity = Inr s" "a = AlgLFU s"
    | s where "NewCAWOLFU capacity = Inr s" "a = AlgCAWOLFU s"
    using new by (auto simp: map_sum_def split: if_splits sum.splits)
  then have "alg_inv a \<and> alg_cap a = nat capacity \<and> alg_content a = Map.empty \<and>
    (name \<noteq> ''clock'' \<longrightarrow> alg_tracks a)"
  proof cases
    case (1 s)
    then show ?thesis using lru_rel_new [OF 1(1)] lru.rel_inv by fastforce
  next
    case (2 s)
    then show ?thesis using clk_inv_new [OF 2(1)] c by (auto simp: NewClockAlgorithm_def)
  next
    case (3 s)
    then show ?thesis using lfu_inv_new [OF 3(1)] LFU_cap_inv
      by (auto simp: LFU_ok_def LFU_abs_def LFU_content_def fun_eq_iff)
  next
    case (4 s)
    then show ?thesis using cw_rel_new [OF 4(1)] cawolfu.rel_inv by fastforce
  qed
  with c show "alg_inv a" "alg_cap a = nat capacity" "alg_content a = Map.empty" "0 \<le> capacity"
    "name \<noteq> ''clock'' \<Longrightarrow> alg_tracks a" by auto
qed

text \<open>All but the clock also track every \<open>Set\<close> and always find a victim.\<close>

definition alg_tracking_inv :: "IAlgorithm \<Rightarrow> bool" where
  "alg_tracking_inv a \<longleftrightarrow> alg_inv a \<and> alg_tracks a"

lemma alg_tracks_preserved:
  "alg_Set a k v = Some a' \<Longrightarrow> alg_tracks a' = alg_tracks a"
  "alg_Get a k = Some (a', r) \<Longrightarrow> alg_tracks a' = alg_tracks a"
  "alg_Evict a = Some (a', e) \<Longrightarrow> alg_tracks a' = alg_tracks a"
  "alg_Delete a k = Some a' \<Longrightarrow> alg_tracks a' = alg_tracks a"
  by (cases a; auto)+

interpretation alg_tracking: tracking_algorithm alg_tracking_inv alg_cap alg_content alg_Set alg_Get alg_Evict
    alg_Delete
proof (unfold_locales, goal_cases)
  case (1 a)
  then show ?case using alg.bounded by (simp add: alg_tracking_inv_def)
next
  case (2 a k v)
  then show ?case using alg.set_law [of a k v] alg_tracks_preserved(1) by (fastforce simp: alg_tracking_inv_def)
next
  case (3 a k)
  then show ?case using alg.get_law [of a k] alg_tracks_preserved(2) by (fastforce simp: alg_tracking_inv_def)
next
  case (4 a)
  then obtain a' r where "alg_Evict a = Some (a', r)" using alg.evict_law [of a] by (auto simp: alg_tracking_inv_def)
  with 4 alg.evict_law [of a] alg_tracks_preserved(3) [of a a' r] show ?case by (auto simp: alg_tracking_inv_def)
next
  case (5 a k)
  then show ?case using alg.delete_law [of a k] alg_tracks_preserved(4) by (fastforce simp: alg_tracking_inv_def)
next
  case (6 a k v a')
  then show ?case
    using lru.set_tracks [of _ k v] lfu.set_tracks [of _ k v] cawolfu.set_tracks [of _ k v]
    by (cases a) (fastforce simp: alg_tracking_inv_def)+
next
  case (7 a a' r)
  then show ?case
    using lru.evict_progress lfu.evict_progress cawolfu.evict_progress
    by (cases a) (fastforce simp: alg_tracking_inv_def)+
qed

section \<open>The wrapper meets the contract\<close>

lemma mask_index_less: "unat (and w (mask b :: 32 word)) < 2 ^ b"
  by (metis take_bit_eq_mask take_bit_nat_less_exp unsigned_take_bit_eq)

lemma mask_index_mod: "unat (and w (mask b :: 32 word)) = unat w mod 2 ^ b"
  by (metis take_bit_eq_mask take_bit_eq_mod unsigned_take_bit_eq)

definition sharded_ok :: "(string \<Rightarrow> 32 word) \<Rightarrow> Sharded \<Rightarrow> bool" where
  "sharded_ok hash s \<longleftrightarrow>
     (\<exists>b \<le> 32. length (shards s) = 2 ^ b \<and> shard_mask s = mask b) \<and>
     (\<forall>i < length (shards s). alg_inv (shards s ! i) \<and>
        (\<forall>k. alg_content (shards s ! i) k \<noteq> None \<longrightarrow> shardFor hash s k = i))"

definition Sharded_content :: "(string \<Rightarrow> 32 word) \<Rightarrow> Sharded \<Rightarrow> string \<Rightarrow> gval option" where
  "Sharded_content hash s k =
     (if shardFor hash s k < length (shards s) then alg_content (shards s ! shardFor hash s k) k else None)"

definition Sharded_cap :: "Sharded \<Rightarrow> nat" where
  "Sharded_cap s = sum_list (map alg_cap (shards s))"

lemma sharded_index: "sharded_ok hash s \<Longrightarrow> unat (and w (shard_mask s)) < length (shards s)"
  by (auto simp: sharded_ok_def mask_index_less)

lemma sharded_shard:
  "sharded_ok hash s \<Longrightarrow> i < length (shards s) \<Longrightarrow> alg_inv (shards s ! i)"
  "sharded_ok hash s \<Longrightarrow> i < length (shards s) \<Longrightarrow> alg_content (shards s ! i) k = Some v \<Longrightarrow> shardFor hash s k = i"
  by (auto simp: sharded_ok_def)

text \<open>A call on one shard that keeps the shard's invariant and capacity and adds only keys that belong
  there.\<close>

lemma on_shard_ok:
  assumes "sharded_ok hash s" "i < length (shards s)" "f (shards s ! i) = Some (a, r)" "alg_inv a"
    and "alg_cap a = alg_cap (shards s ! i)"
    and "\<And>k. alg_content a k \<noteq> None \<Longrightarrow> alg_content (shards s ! i) k \<noteq> None \<or> shardFor hash s k = i"
  shows "\<exists>s'. on_shard s i f = Some (s', r) \<and> sharded_ok hash s' \<and> Sharded_cap s' = Sharded_cap s \<and>
    s' = s\<lparr>shards := (shards s)[i := a]\<rparr> \<and>
    Sharded_content hash s' = (\<lambda>k. if shardFor hash s k = i then alg_content a k else Sharded_content hash s k)"
proof -
  let ?s = "s\<lparr>shards := (shards s)[i := a]\<rparr>"
  have same: "shardFor hash ?s k = shardFor hash s k" for k by (simp add: shardFor_def)
  have own: "shardFor hash s k = i" if "alg_content a k \<noteq> None" for k
    using assms(6) [OF that] sharded_shard(2) [OF assms(1,2)] by auto
  have "sharded_ok hash ?s"
    using assms(1,2,4) own unfolding sharded_ok_def same by (auto simp: nth_list_update)
  moreover have "map alg_cap ((shards s)[i := a]) = map alg_cap (shards s)"
    using assms(2,5) by (simp add: map_update list_update_same_conv)
  then have "Sharded_cap ?s = Sharded_cap s" by (simp add: Sharded_cap_def)
  moreover have "Sharded_content hash ?s k = (if shardFor hash s k = i then alg_content a k else Sharded_content hash s k)" for k
    using assms(2) unfolding Sharded_content_def same by simp
  ultimately show ?thesis using assms(2,3) by (auto simp: on_shard_def)
qed

lemma sharded_step_contract:
  assumes "sharded_ok hash s"
  shows "\<exists>s'. Sharded_Set hash s k v = Some s' \<and> sharded_ok hash s' \<and> Sharded_cap s' = Sharded_cap s \<and>
      (\<forall>k' w. Sharded_content hash s' k' = Some w \<longrightarrow> (if k' = k then w = v else Sharded_content hash s k' = Some w))"
    and "\<exists>s'. Sharded_Get hash s k = Some (s', Sharded_content hash s k) \<and> sharded_ok hash s' \<and>
      Sharded_cap s' = Sharded_cap s \<and> Sharded_content hash s' = Sharded_content hash s"
    and "\<exists>s'. Sharded_Delete hash s k = Some s' \<and> sharded_ok hash s' \<and> Sharded_cap s' = Sharded_cap s \<and>
      Sharded_content hash s' = (Sharded_content hash s)(k := None)"
proof -
  let ?i = "shardFor hash s k"
  have i: "?i < length (shards s)" using sharded_index [OF assms] by (simp add: shardFor_def)
  note inv = sharded_shard(1) [OF assms i]
  have here: "Sharded_content hash s k' = alg_content (shards s ! ?i) k'" if "shardFor hash s k' = ?i" for k'
    using that i by (simp add: Sharded_content_def)
  obtain a where a: "alg_Set (shards s ! ?i) k v = Some a" "alg_inv a" "alg_cap a = alg_cap (shards s ! ?i)"
    "\<forall>k' w. alg_content a k' = Some w \<longrightarrow> (if k' = k then w = v else alg_content (shards s ! ?i) k' = Some w)"
    using alg.set_law [OF inv, of k v] by blast
  have "\<And>k'. alg_content a k' \<noteq> None \<Longrightarrow> alg_content (shards s ! ?i) k' \<noteq> None \<or> shardFor hash s k' = ?i"
    using a(4) by (metis not_None_eq)
  from on_shard_ok [OF assms i, of "\<lambda>a. map_option (\<lambda>a. (a, ())) (alg_Set a k v)" a "()", OF _ a(2,3) this] a(1)
  show "\<exists>s'. Sharded_Set hash s k v = Some s' \<and> sharded_ok hash s' \<and> Sharded_cap s' = Sharded_cap s \<and>
      (\<forall>k' w. Sharded_content hash s' k' = Some w \<longrightarrow> (if k' = k then w = v else Sharded_content hash s k' = Some w))"
    using a(4) here by (fastforce simp: Sharded_Set_def split: if_splits)
  obtain b where b: "alg_Get (shards s ! ?i) k = Some (b, alg_content (shards s ! ?i) k)" "alg_inv b"
    "alg_cap b = alg_cap (shards s ! ?i)" "alg_content b = alg_content (shards s ! ?i)"
    using alg.get_law [OF inv, of k] by blast
  from on_shard_ok [OF assms i, of "\<lambda>a. alg_Get a k", OF b(1-3)] b(4)
  show "\<exists>s'. Sharded_Get hash s k = Some (s', Sharded_content hash s k) \<and> sharded_ok hash s' \<and>
      Sharded_cap s' = Sharded_cap s \<and> Sharded_content hash s' = Sharded_content hash s"
    using here by (auto simp: Sharded_Get_def fun_eq_iff)
  obtain d where d: "alg_Delete (shards s ! ?i) k = Some d" "alg_inv d" "alg_cap d = alg_cap (shards s ! ?i)"
    "alg_content d = (alg_content (shards s ! ?i))(k := None)"
    using alg.delete_law [OF inv, of k] by blast
  have "\<And>k'. alg_content d k' \<noteq> None \<Longrightarrow> alg_content (shards s ! ?i) k' \<noteq> None \<or> shardFor hash s k' = ?i"
    using d(4) by (auto split: if_splits)
  from on_shard_ok [OF assms i, of "\<lambda>a. map_option (\<lambda>a. (a, ())) (alg_Delete a k)" d "()", OF _ d(2,3) this] d(1)
  show "\<exists>s'. Sharded_Delete hash s k = Some s' \<and> sharded_ok hash s' \<and> Sharded_cap s' = Sharded_cap s \<and>
      Sharded_content hash s' = (Sharded_content hash s)(k := None)"
    using d(4) here by (auto simp: Sharded_Delete_def fun_eq_iff)
qed

lemma sharded_evict_loop_ok:
  assumes "sharded_ok hash s"
  shows "\<exists>s' r. sharded_evict_loop left at s = Some (s', r) \<and> sharded_ok hash s' \<and> Sharded_cap s' = Sharded_cap s \<and>
    (case r of
       Some k \<Rightarrow> k \<in> dom (Sharded_content hash s) \<and> Sharded_content hash s' = (Sharded_content hash s)(k := None)
     | None \<Rightarrow> Sharded_content hash s' = Sharded_content hash s \<and>
         (\<forall>j < left. \<exists>a. alg_content a = alg_content (shards s ! unat (and (at + of_nat j) (shard_mask s))) \<and>
            alg_inv a \<and> alg_tracks a = alg_tracks (shards s ! unat (and (at + of_nat j) (shard_mask s))) \<and>
            (\<exists>a'. alg_Evict a = Some (a', None))))"
  using assms
proof (induction left arbitrary: at s)
  case (Suc left)
  let ?i = "unat (and at (shard_mask s))"
  have i: "?i < length (shards s)" by (rule sharded_index [OF Suc.prems])
  note inv = sharded_shard(1) [OF Suc.prems i]
  obtain a r where a: "alg_Evict (shards s ! ?i) = Some (a, r)" "alg_inv a" "alg_cap a = alg_cap (shards s ! ?i)"
    "case r of None \<Rightarrow> alg_content a = alg_content (shards s ! ?i)
     | Some k \<Rightarrow> k \<in> dom (alg_content (shards s ! ?i)) \<and> alg_content a = (alg_content (shards s ! ?i))(k := None)"
    using alg.evict_law [OF inv] by blast
  have "\<And>k. alg_content a k \<noteq> None \<Longrightarrow> alg_content (shards s ! ?i) k \<noteq> None \<or> shardFor hash s k = ?i"
    using a(4) by (auto split: option.splits if_splits)
  from on_shard_ok [OF Suc.prems i, of alg_Evict, OF a(1-3) this]
  obtain s1 where s1: "on_shard s ?i alg_Evict = Some (s1, r)" "sharded_ok hash s1" "Sharded_cap s1 = Sharded_cap s"
    "s1 = s\<lparr>shards := (shards s)[?i := a]\<rparr>"
    "Sharded_content hash s1 = (\<lambda>k. if shardFor hash s k = ?i then alg_content a k else Sharded_content hash s k)"
    by blast
  have here: "Sharded_content hash s k = alg_content (shards s ! ?i) k" if "shardFor hash s k = ?i" for k
    using that i by (simp add: Sharded_content_def)
  show ?case
  proof (cases r)
    case (Some k)
    then have k: "shardFor hash s k = ?i" using a(4) sharded_shard(2) [OF Suc.prems i] by auto
    then have "k \<in> dom (Sharded_content hash s)" "Sharded_content hash s1 = (Sharded_content hash s)(k := None)"
      using Some a(4) here s1(5) by (auto simp: fun_eq_iff)
    then show ?thesis using Some s1 by (intro exI [of _ s1] exI [of _ r]) auto
  next
    case None
    have c1: "Sharded_content hash s1 = Sharded_content hash s"
      using s1(5) a(4) None here by (auto simp: fun_eq_iff)
    obtain s' r' where IH: "sharded_evict_loop left (at + 1) s1 = Some (s', r')" "sharded_ok hash s'"
      "Sharded_cap s' = Sharded_cap s"
      "case r' of
         Some k \<Rightarrow> k \<in> dom (Sharded_content hash s) \<and> Sharded_content hash s' = (Sharded_content hash s)(k := None)
       | None \<Rightarrow> Sharded_content hash s' = Sharded_content hash s \<and>
           (\<forall>j < left. \<exists>a. alg_content a = alg_content (shards s1 ! unat (and (at + 1 + of_nat j) (shard_mask s1))) \<and>
              alg_inv a \<and> alg_tracks a = alg_tracks (shards s1 ! unat (and (at + 1 + of_nat j) (shard_mask s1))) \<and>
              (\<exists>a'. alg_Evict a = Some (a', None)))"
      using Suc.IH [OF s1(2), of "at + 1", unfolded c1 s1(3)] by blast
    have tr: "alg_tracks a = alg_tracks (shards s ! ?i)" by (rule alg_tracks_preserved(3) [OF a(1)])
    have shard1: "alg_content (shards s1 ! m) = alg_content (shards s ! m) \<and> alg_tracks (shards s1 ! m) = alg_tracks (shards s ! m)" for m
      using s1(4) a(4) None tr i by (cases "m = ?i") auto
    have "sharded_evict_loop (Suc left) at s = Some (s', r')" using s1(1) None IH(1) by simp
    moreover have "\<exists>b. alg_content b = alg_content (shards s ! unat (and (at + of_nat j) (shard_mask s))) \<and>
        alg_inv b \<and> alg_tracks b = alg_tracks (shards s ! unat (and (at + of_nat j) (shard_mask s))) \<and>
        (\<exists>a'. alg_Evict b = Some (a', None))" if "r' = None" "j < Suc left" for j
    proof (cases j)
      case 0
      with a(1) None inv show ?thesis by auto
    next
      case (Suc j')
      with that IH(4) shard1 s1(4) show ?thesis by (auto simp: algebra_simps)
    qed
    ultimately show ?thesis using IH by (intro exI [of _ s'] exI [of _ r']) (auto split: option.splits)
  qed
qed simp

interpretation sharded: eviction_algorithm "sharded_ok hash" Sharded_cap "Sharded_content hash" "Sharded_Set hash"
    "Sharded_Get hash" "Sharded_Evict toU32" "Sharded_Delete hash" for hash toU32
proof (unfold_locales, goal_cases)
  case (1 s)
  have sub: "dom (Sharded_content hash s) \<subseteq> (\<Union>a \<in> set (shards s). dom (alg_content a))"
    by (auto simp: Sharded_content_def split: if_splits) (metis domI nth_mem)
  have each: "finite (dom (alg_content a)) \<and> card (dom (alg_content a)) \<le> alg_cap a" if "a \<in> set (shards s)" for a
    using that alg.bounded sharded_shard(1) [OF 1] by (metis in_set_conv_nth)
  have "finite (\<Union>a \<in> set as. dom (alg_content a)) \<and>
      card (\<Union>a \<in> set as. dom (alg_content a)) \<le> sum_list (map alg_cap as)" if "set as \<subseteq> set (shards s)" for as
    using that
  proof (induction as)
    case (Cons a as)
    then show ?case using each [of a] card_Un_le [of "dom (alg_content a)" "\<Union>a \<in> set as. dom (alg_content a)"] by auto
  qed simp
  from this [of "shards s"] have fin: "finite (\<Union>a \<in> set (shards s). dom (alg_content a))"
    and crd: "card (\<Union>a \<in> set (shards s). dom (alg_content a)) \<le> Sharded_cap s"
    by (auto simp: Sharded_cap_def)
  show ?case using finite_subset [OF sub fin] card_mono [OF fin sub] crd by simp
next
  case (2 s k v)
  then show ?case by (rule sharded_step_contract(1))
next
  case (3 s k)
  then show ?case by (rule sharded_step_contract(2))
next
  case (4 s)
  let ?s = "s\<lparr>evictCursor := evictCursor s + 1\<rparr>"
  have same: "sharded_ok hash ?s" "Sharded_cap ?s = Sharded_cap s" "Sharded_content hash ?s = Sharded_content hash s"
    using 4 by (auto simp: sharded_ok_def Sharded_cap_def Sharded_content_def shardFor_def fun_eq_iff)
  show ?case
  proof (cases "toU32 (int (length (shards s)))")
    case None
    with 4 show ?thesis by (intro exI [of _ s] exI [of _ None]) (simp add: Sharded_Evict_def)
  next
    case (Some n)
    obtain s' r where "sharded_evict_loop (unat n) (evictCursor s) ?s = Some (s', r)" "sharded_ok hash s'"
      "Sharded_cap s' = Sharded_cap s"
      "case r of None \<Rightarrow> Sharded_content hash s' = Sharded_content hash s
       | Some k \<Rightarrow> k \<in> dom (Sharded_content hash s) \<and> Sharded_content hash s' = (Sharded_content hash s)(k := None)"
      using sharded_evict_loop_ok [OF same(1), of "unat n" "evictCursor s"] same(2,3)
      by (auto split: option.splits)
    with Some show ?thesis by (auto simp: Sharded_Evict_def)
  qed
next
  case (5 s k)
  then show ?case by (rule sharded_step_contract(3))
qed

lemma power_of_two:
  assumes "0 < (n::int)" "and n (n - 1) = 0"
  shows "\<exists>b. n = 2 ^ b"
  using assms
proof (induction "nat n" arbitrary: n rule: less_induct)
  case less
  show ?case
  proof (cases "even n")
    case True
    then obtain m where m: "n = 2 * m" by blast
    have "(2 * m - 1) div 2 = m - 1" by presburger
    then have "and n (n - 1) = 2 * and m (m - 1)" using m by (simp add: and_int_rec [of "2 * m"])
    with less.prems m have "0 < m" "and m (m - 1) = 0" by auto
    with less.hyps [of m] m obtain b where "m = 2 ^ b" by auto
    with m have "n = 2 ^ Suc b" by simp
    then show ?thesis by blast
  next
    case False
    then obtain m where m: "n = 1 + 2 * m" by (metis oddE add.commute)
    then have "and n (n - 1) = 2 * m" by (simp add: and_int_rec [of "1 + 2 * m"])
    with less.prems m have "n = 2 ^ 0" by simp
    then show ?thesis by blast
  qed
qed

lemma newShards_ok:
  "newShards n name cap = Inr as \<Longrightarrow> length as = n \<and> (\<forall>a \<in> set as. NewEvictionAlgorithm name cap = Inr a)"
  by (induction n arbitrary: as) (auto simp: map_sum_def split: sum.splits)

lemma NewSharded_ok:
  assumes "NewSharded toU32 name tot cnt = Inr s" "toU32_ok toU32"
  shows "sharded_ok hash s" "Sharded_content hash s = Map.empty" "int (length (shards s)) = cnt" "0 < cnt"
    "int (Sharded_cap s) = (tot + cnt - 1) div cnt * cnt"
    "name \<noteq> ''clock'' \<Longrightarrow> list_all alg_tracks (shards s)" "cnt \<le> 2 ^ 32"
proof -
  let ?per = "(tot + cnt - 1) div cnt"
  obtain as where c: "0 < cnt" "and cnt (cnt - 1) = 0" "0 \<le> tot" "newShards (nat cnt) name ?per = Inr as"
    "toU32 (cnt - 1) = Some (shard_mask s)" "shards s = as"
    using assms(1) by (auto simp: NewSharded_def Let_def split: if_splits sum.splits option.splits)
  have as: "length as = nat cnt" "\<forall>a \<in> set as. NewEvictionAlgorithm name ?per = Inr a"
    using newShards_ok [OF c(4)] by auto
  note new = NewEvictionAlgorithm_ok [of name ?per]
  obtain b where b: "cnt = 2 ^ b" using power_of_two [OF c(1,2)] by blast
  have rng: "cnt - 1 < 2 ^ 32" and m: "shard_mask s = word_of_int (cnt - 1)"
    using c(5) assms(2) by (auto simp: toU32_ok_def split: if_splits)
  then show "cnt \<le> 2 ^ 32" by simp
  then have "(2::int) ^ b \<le> 2 ^ 32" using b by simp
  then have "b \<le> 32" by (metis one_less_numeral_iff power_increasing_iff semiring_norm(76))
  moreover have "shard_mask s = mask b"
    using m b by (simp add: mask_eq_exp_minus_1)
  moreover have "length (shards s) = 2 ^ b" using as(1) c(6) b by (simp add: nat_power_eq)
  ultimately show "sharded_ok hash s"
    using as(2) c(6) new by (auto simp: sharded_ok_def all_set_conv_all_nth)
  show "Sharded_content hash s = Map.empty"
    using as(2) c(6) new(3) by (auto simp: Sharded_content_def fun_eq_iff)
  show "int (length (shards s)) = cnt" "0 < cnt" using as(1) c by simp_all
  have "map alg_cap as = replicate (length as) (nat ?per)"
    using as(2) new(2) by (auto intro!: nth_equalityI)
  then have "Sharded_cap s = nat cnt * nat ?per" using c(6) as(1) by (simp add: Sharded_cap_def sum_list_replicate)
  moreover have "0 \<le> ?per" using c(1,3) by (simp add: pos_imp_zdiv_nonneg_iff)
  ultimately show "int (Sharded_cap s) = ?per * cnt" using c(1) by simp
  show "list_all alg_tracks (shards s)" if "name \<noteq> ''clock''"
    using as(2) c(6) new(5) that by (auto simp: list_all_iff)
qed

section \<open>Progress of the wrapper\<close>

text \<open>What a call never changes of a shard: its capacity, and whether it is a tracking algorithm.\<close>

definition alg_profile :: "IAlgorithm \<Rightarrow> bool \<times> nat" where
  "alg_profile a = (alg_tracks a, alg_cap a)"

lemma alg_profile_preserved:
  assumes "alg_inv a"
  shows "alg_Set a k v = Some a' \<Longrightarrow> alg_profile a' = alg_profile a"
    "alg_Get a k = Some (a', r) \<Longrightarrow> alg_profile a' = alg_profile a"
    "alg_Evict a = Some (a', e) \<Longrightarrow> alg_profile a' = alg_profile a"
    "alg_Delete a k = Some a' \<Longrightarrow> alg_profile a' = alg_profile a"
  using alg_tracks_preserved alg.set_law [OF assms, of k v] alg.get_law [OF assms, of k] alg.evict_law [OF assms]
    alg.delete_law [OF assms, of k] by (auto simp: alg_profile_def)

lemma on_shard_profile:
  assumes "on_shard s i f = Some (s', r)"
    and "\<And>a x. i < length (shards s) \<Longrightarrow> f (shards s ! i) = Some (a, x) \<Longrightarrow> alg_profile a = alg_profile (shards s ! i)"
  shows "map alg_profile (shards s') = map alg_profile (shards s)"
  using assms by (auto simp: on_shard_def map_update list_update_same_conv split: if_splits)

lemma sharded_evict_loop_profile:
  assumes "sharded_ok hash s" "sharded_evict_loop left at s = Some (s', r)"
  shows "map alg_profile (shards s') = map alg_profile (shards s)"
  using assms
proof (induction left arbitrary: at s)
  case (Suc left)
  let ?i = "unat (and at (shard_mask s))"
  obtain s1 r1 where 1: "on_shard s ?i alg_Evict = Some (s1, r1)"
    using Suc.prems(2) by (auto split: option.splits)
  have p: "map alg_profile (shards s1) = map alg_profile (shards s)"
    using on_shard_profile [OF 1] alg_profile_preserved(3) sharded_shard(1) [OF Suc.prems(1)] by blast
  have ok: "sharded_ok hash s1"
    using sharded_evict_loop_ok [OF Suc.prems(1), of 1 at] 1 by (auto split: option.splits)
  show ?case
  proof (cases r1)
    case None
    with Suc.IH [OF ok] Suc.prems(2) 1 p show ?thesis by simp
  qed (use Suc.prems(2) 1 p in simp)
qed simp

lemma sharded_profile:
  assumes "sharded_ok hash s"
  shows "Sharded_Set hash s k v = Some s' \<Longrightarrow> map alg_profile (shards s') = map alg_profile (shards s)"
    "Sharded_Get hash s k = Some (s', q) \<Longrightarrow> map alg_profile (shards s') = map alg_profile (shards s)"
    "Sharded_Evict toU32 s = Some (s', r) \<Longrightarrow> map alg_profile (shards s') = map alg_profile (shards s)"
    "Sharded_Delete hash s k = Some s' \<Longrightarrow> map alg_profile (shards s') = map alg_profile (shards s)"
proof -
  note pres = alg_profile_preserved [OF sharded_shard(1) [OF assms]]
  show "Sharded_Set hash s k v = Some s' \<Longrightarrow> map alg_profile (shards s') = map alg_profile (shards s)"
    unfolding Sharded_Set_def using pres(1) by (auto dest!: on_shard_profile)
  show "Sharded_Delete hash s k = Some s' \<Longrightarrow> map alg_profile (shards s') = map alg_profile (shards s)"
    unfolding Sharded_Delete_def using pres(4) by (auto dest!: on_shard_profile)
  show "Sharded_Get hash s k = Some (s', q) \<Longrightarrow> map alg_profile (shards s') = map alg_profile (shards s)"
    unfolding Sharded_Get_def using pres(2) by (auto dest!: on_shard_profile)
  have "sharded_ok hash (s\<lparr>evictCursor := c\<rparr>)" for c
    using assms by (auto simp: sharded_ok_def shardFor_def)
  then show "Sharded_Evict toU32 s = Some (s', r) \<Longrightarrow> map alg_profile (shards s') = map alg_profile (shards s)"
    using sharded_evict_loop_profile by (fastforce simp: Sharded_Evict_def split: option.splits)
qed

text \<open>The round robin visits every shard.\<close>

lemma round_robin:
  assumes "b \<le> 32" "i < 2 ^ b"
  obtains j where "j < 2 ^ b" "unat (and (at + of_nat j) (mask b :: 32 word)) = i"
proof -
  let ?j = "(i + (2 ^ b - unat at mod 2 ^ b)) mod 2 ^ b"
  have dvd: "(2::nat) ^ b dvd 2 ^ 32" using assms(1) by (rule le_imp_power_dvd)
  have "(2::nat) ^ b \<le> 2 ^ 32" using assms(1) by (intro power_increasing) auto
  moreover have "?j < 2 ^ b" by simp
  ultimately have j: "?j < 2 ^ 32" by linarith
  have "unat (at + of_nat ?j) mod 2 ^ b = ((unat at + ?j) mod 2 ^ 32) mod 2 ^ b"
    using j by (simp add: unat_word_ariths(1) unat_of_nat)
  also have "\<dots> = (unat at + ?j) mod 2 ^ b" by (rule mod_mod_cancel [OF dvd])
  also have "\<dots> = (unat at mod 2 ^ b + (i + (2 ^ b - unat at mod 2 ^ b))) mod 2 ^ b"
    by (simp only: mod_add_left_eq mod_add_right_eq)
  also have "unat at mod 2 ^ b + (i + (2 ^ b - unat at mod 2 ^ b)) = i + 2 ^ b"
  proof -
    have "unat at mod 2 ^ b < 2 ^ b" by simp
    then show ?thesis by linarith
  qed
  also have "(i + 2 ^ b) mod 2 ^ b = i" using assms(2) by simp
  finally show thesis using that [of ?j] by (simp add: mask_index_mod)
qed

definition sharded_tracking :: "(int \<Rightarrow> 32 word option) \<Rightarrow> (string \<Rightarrow> 32 word) \<Rightarrow> Sharded \<Rightarrow> bool" where
  "sharded_tracking toU32 hash s \<longleftrightarrow> sharded_ok hash s \<and> toU32_ok toU32 \<and> length (shards s) < 2 ^ 32 \<and>
     (\<exists>p. \<forall>a \<in> set (shards s). alg_profile a = (True, p))"

lemma sharded_tracking_profile:
  assumes "sharded_tracking toU32 hash s" "sharded_ok hash s'" "map alg_profile (shards s') = map alg_profile (shards s)"
  shows "sharded_tracking toU32 hash s'"
proof -
  have "length (shards s') = length (shards s)" using assms(3) by (metis length_map)
  moreover have "alg_profile ` set (shards s') = alg_profile ` set (shards s)" using assms(3) by (metis set_map)
  ultimately show ?thesis using assms(1,2) unfolding sharded_tracking_def by (metis imageE image_eqI)
qed

lemma Sharded_Evict_progress:
  assumes "sharded_tracking toU32 hash s" "Sharded_Evict toU32 s = Some (s', None)"
  shows "Sharded_content hash s = Map.empty"
proof (rule ccontr)
  assume ne: "Sharded_content hash s \<noteq> Map.empty"
  have ok: "sharded_ok hash s" and len: "length (shards s) < 2 ^ 32"
    and tr: "\<And>i. i < length (shards s) \<Longrightarrow> alg_tracks (shards s ! i)"
    using assms(1) by (force simp: sharded_tracking_def alg_profile_def in_set_conv_nth)+
  obtain b where b: "b \<le> 32" "length (shards s) = 2 ^ b" "shard_mask s = mask b" using ok by (auto simp: sharded_ok_def)
  obtain k v where k: "shardFor hash s k < length (shards s)" "alg_content (shards s ! shardFor hash s k) k = Some v"
    using ne by (auto simp: Sharded_content_def fun_eq_iff split: if_splits)
  let ?s = "s\<lparr>evictCursor := evictCursor s + 1\<rparr>"
  have "toU32 (int (length (shards s))) = Some (of_nat (length (shards s)))"
    using assms(1) len by (simp add: sharded_tracking_def toU32_ok_def)
  then have loop: "sharded_evict_loop (length (shards s)) (evictCursor s) ?s = Some (s', None)"
    using assms(2) len by (simp add: Sharded_Evict_def unat_of_nat)
  obtain j where j: "j < length (shards s)" "unat (and (evictCursor s + of_nat j) (mask b)) = shardFor hash s k"
    using round_robin [OF b(1), of "shardFor hash s k" "evictCursor s"] k(1) b(2) by auto
  have "sharded_ok hash ?s" using ok by (auto simp: sharded_ok_def shardFor_def)
  from sharded_evict_loop_ok [OF this, of "length (shards s)" "evictCursor s"] loop j b(3)
  obtain a a' where a: "alg_content a = alg_content (shards s ! shardFor hash s k)" "alg_inv a"
    "alg_tracks a = alg_tracks (shards s ! shardFor hash s k)" "alg_Evict a = Some (a', None)"
    by auto
  have "alg_tracking_inv a" using a(2,3) tr [OF k(1)] by (simp add: alg_tracking_inv_def)
  moreover have "alg_content a \<noteq> Map.empty" using a(1) k(2) by (metis option.distinct(1))
  ultimately show False using alg_tracking.evict_progress a(4) by blast
qed

interpretation sharded_progress: tracking_algorithm "sharded_tracking toU32 hash" Sharded_cap "Sharded_content hash"
    "Sharded_Set hash" "Sharded_Get hash" "Sharded_Evict toU32" "Sharded_Delete hash" for toU32 hash
proof (unfold_locales, goal_cases)
  case (1 s)
  then show ?case using sharded.bounded [of hash s] by (simp add: sharded_tracking_def)
next
  case (2 s k v)
  then have ok: "sharded_ok hash s" by (simp add: sharded_tracking_def)
  show ?case using sharded.set_law [OF ok, of k v] sharded_profile(1) [OF ok, of k v] sharded_tracking_profile [OF 2]
    by blast
next
  case (3 s k)
  then have ok: "sharded_ok hash s" by (simp add: sharded_tracking_def)
  show ?case using sharded.get_law [OF ok, of k] sharded_profile(2) [OF ok, of k] sharded_tracking_profile [OF 3]
    by blast
next
  case (4 s)
  then have ok: "sharded_ok hash s" by (simp add: sharded_tracking_def)
  obtain s' r where "Sharded_Evict toU32 s = Some (s', r)" "sharded_ok hash s'" "Sharded_cap s' = Sharded_cap s"
    "case r of None \<Rightarrow> Sharded_content hash s' = Sharded_content hash s
     | Some k \<Rightarrow> k \<in> dom (Sharded_content hash s) \<and> Sharded_content hash s' = (Sharded_content hash s)(k := None)"
    using sharded.evict_law [OF ok] by blast
  then show ?case using sharded_tracking_profile [OF 4] sharded_profile(3) [OF ok] by blast
next
  case (5 s k)
  then have ok: "sharded_ok hash s" by (simp add: sharded_tracking_def)
  show ?case using sharded.delete_law [OF ok, of k] sharded_profile(4) [OF ok, of k] sharded_tracking_profile [OF 5]
    by blast
next
  case (6 s k v s')
  then have ok: "sharded_ok hash s" by (simp add: sharded_tracking_def)
  let ?i = "shardFor hash s k"
  have i: "?i < length (shards s)" using sharded_index [OF ok] by (simp add: shardFor_def)
  obtain p where p: "\<forall>a \<in> set (shards s). alg_profile a = (True, p)" using 6(1) by (auto simp: sharded_tracking_def)
  then have "map alg_cap (shards s) = replicate (length (shards s)) p"
    by (auto simp: alg_profile_def intro!: nth_equalityI)
  then have "Sharded_cap s = length (shards s) * p" by (simp add: Sharded_cap_def sum_list_replicate)
  then have pos: "0 < p" using 6(2) by simp
  have a: "alg_tracking_inv (shards s ! ?i)" "alg_cap (shards s ! ?i) = p"
    using p i sharded_shard(1) [OF ok i] by (auto simp: alg_tracking_inv_def alg_profile_def)
  obtain b where b: "alg_Set (shards s ! ?i) k v = Some b" "s' = s\<lparr>shards := (shards s)[?i := b]\<rparr>"
    using 6(3) i by (auto simp: Sharded_Set_def on_shard_def)
  have "alg_content b k = Some v" using alg_tracking.set_tracks [OF a(1) _ b(1)] a(2) pos by simp
  with b(2) i show ?case by (simp add: Sharded_content_def shardFor_def)
next
  case (7 s s' r)
  then show ?case using Sharded_Evict_progress [OF 7(1), of s'] by auto
qed

section \<open>Results\<close>

definition Sharded_step :: "(string \<Rightarrow> 32 word) \<Rightarrow> (int \<Rightarrow> 32 word option) \<Rightarrow> Sharded \<Rightarrow> alg_op
    \<Rightarrow> (Sharded \<times> alg_res) option" where
  "Sharded_step hash toU32 = alg_step (Sharded_Set hash) (Sharded_Get hash) (Sharded_Evict toU32) (Sharded_Delete hash)"

lemma sharded_tracking_new:
  assumes "NewSharded toU32 name tot cnt = Inr s" "toU32_ok toU32" "name \<noteq> ''clock''" "cnt < 2 ^ 32"
  shows "sharded_tracking toU32 hash s"
proof -
  let ?per = "(tot + cnt - 1) div cnt"
  note new = NewSharded_ok [OF assms(1,2)]
  have "\<forall>a \<in> set (shards s). NewEvictionAlgorithm name ?per = Inr a"
    using assms(1) newShards_ok by (fastforce simp: NewSharded_def Let_def split: if_splits sum.splits option.splits)
  then have "\<forall>a \<in> set (shards s). alg_profile a = (True, nat ?per)"
    using NewEvictionAlgorithm_ok assms(3) by (auto simp: alg_profile_def)
  moreover have "int (length (shards s)) < int (2 ^ 32)" using new(3) assms(4) by simp
  then have "length (shards s) < 2 ^ 32" by (simp only: of_nat_less_iff)
  ultimately show ?thesis using new(1) assms(2) by (auto simp: sharded_tracking_def)
qed

text \<open>
  C3. \<open>CAWOLFU\<close> behaves exactly as \<open>LRU\<close>: on every sequence of operations the two algorithms of the
  same capacity return the same results and end with the same bindings in the same order. The
  access counts of \<open>CAWOLFU\<close> have no effect.
\<close>

theorem CAWOLFU_equals_LRU:
  "0 \<le> capacity \<Longrightarrow> \<exists>s0 t0 s t rs. NewLRUAlgorithm capacity = Inr s0 \<and> NewCAWOLFU capacity = Inr t0 \<and>
     run_ops LRU_step s0 ops = Some (s, rs) \<and> run_ops CAWOLFU_step t0 ops = Some (t, rs) \<and>
     CAWOLFU_bindings t = LRU_bindings s"
proof -
  assume "0 \<le> capacity"
  then obtain s0 t0 where new: "NewLRUAlgorithm capacity = Inr s0" "NewCAWOLFU capacity = Inr t0"
    by (simp add: NewLRUAlgorithm_def NewCAWOLFU_def)
  obtain s xs rs where s: "run_ops LRU_step s0 ops = Some (s, rs)" "run_ops (r_step (nat capacity)) [] ops = Some (xs, rs)"
    "lru_rel (nat capacity) s xs"
    using lru.run_refines [OF lru_rel_new [OF new(1)], of ops] by (auto simp: LRU_step_def)
  obtain t ys qs where t: "run_ops CAWOLFU_step t0 ops = Some (t, qs)" "run_ops (r_step (nat capacity)) [] ops = Some (ys, qs)"
    "cw_rel (nat capacity) t ys"
    using cawolfu.run_refines [OF cw_rel_new [OF new(2)], of ops] by (auto simp: CAWOLFU_step_def)
  show ?thesis using new s t LRU_bindings_rel [OF s(3)] CAWOLFU_bindings_rel [OF t(3)] by auto
qed

theorem CAWOLFU_equals_LRU_witness:
  "let ops = [OpSet ''a'' GNil, OpGet ''a'', OpGet ''a'', OpSet ''b'' GNil, OpSet ''c'' GNil, OpEvict] in
   \<exists>s0 t0 s t rs. NewLRUAlgorithm 2 = Inr s0 \<and> NewCAWOLFU 2 = Inr t0 \<and>
     run_ops LRU_step s0 ops = Some (s, rs) \<and> run_ops CAWOLFU_step t0 ops = Some (t, rs) \<and>
     CAWOLFU_bindings t = LRU_bindings s"
  unfolding Let_def by (rule CAWOLFU_equals_LRU) simp

text \<open>
  A sharded LRU, LFU or CAWOLFU with fewer than 2^32 shards, after any history: \<open>Evict\<close> returns no key
  exactly when no key is tracked in any shard, whichever shard the round robin starts from and
  however the hash spreads the keys.
\<close>

lemma Sharded_Evict_finds_victim:
  assumes "NewSharded toU32 name tot cnt = Inr s0" "toU32_ok toU32" "name \<noteq> ''clock''" "cnt < 2 ^ 32"
    and "run_ops (Sharded_step hash toU32) s0 ops = Some (s, rs)"
  shows "\<exists>s' r. Sharded_Evict toU32 s = Some (s', r) \<and> (r = None \<longleftrightarrow> Sharded_content hash s = Map.empty)"
proof -
  have "sharded_tracking toU32 hash s"
    using sharded_progress.run_ok [OF sharded_tracking_new [OF assms(1-4), of hash], where ops = ops] assms(5)
    by (auto simp: Sharded_step_def)
  with sharded_progress.evict_law [of toU32 hash s] sharded_progress.evict_progress [of toU32 hash s]
  show ?thesis by (fastforce split: option.splits)
qed

lemma Sharded_example:
  "case NewSharded checkedU32 ''lfu'' 3 2 of Inl _ \<Rightarrow> False | Inr s0 \<Rightarrow>
     (case run_ops (Sharded_step (\<lambda>k. of_nat (length k)) checkedU32) s0 [OpSet ''a'' GNil, OpSet ''bb'' GNil, OpEvict] of
        None \<Rightarrow> False | Some (s, rs) \<Rightarrow> Sharded_content (\<lambda>k. of_nat (length k)) s ''a'' \<noteq> None)"
  by code_simp

lemma Sharded_Evict_finds_victim_example:
  "\<exists>s0 s rs s' k. NewSharded checkedU32 ''lfu'' 3 2 = Inr s0 \<and>
     run_ops (Sharded_step (\<lambda>k. of_nat (length k)) checkedU32) s0 [OpSet ''a'' GNil, OpSet ''bb'' GNil, OpEvict] = Some (s, rs) \<and>
     Sharded_Evict checkedU32 s = Some (s', Some k)"
proof -
  let ?h = "\<lambda>k. of_nat (length k) :: 32 word" and ?ops = "[OpSet ''a'' GNil, OpSet ''bb'' GNil, OpEvict]"
  obtain s0 s rs where 0: "NewSharded checkedU32 ''lfu'' 3 2 = Inr s0"
    and 1: "run_ops (Sharded_step ?h checkedU32) s0 ?ops = Some (s, rs)" "Sharded_content ?h s ''a'' \<noteq> None"
    using Sharded_example by (auto simp del: run_ops.simps split: sum.splits option.splits prod.splits)
  have "Sharded_content ?h s \<noteq> Map.empty" using 1(2) by metis
  with Sharded_Evict_finds_victim [OF 0 checkedU32_ok _ _ 1(1)] 0 1(1) show ?thesis by auto
qed

text \<open>
  C4. However many keys are set, a sharded algorithm of any kind tracks fewer than
  \<open>totalCapacity + shardCount\<close> keys, because every shard keeps to the ceiling of its share; and it
  never panics, for any hash.
\<close>

theorem Sharded_capacity_bound:
  assumes "NewSharded toU32 name tot cnt = Inr s0" "toU32_ok toU32"
  shows "\<exists>s rs. run_ops (Sharded_step hash toU32) s0 ops = Some (s, rs) \<and>
    finite (dom (Sharded_content hash s)) \<and> int (card (dom (Sharded_content hash s))) < tot + cnt"
proof -
  note new = NewSharded_ok [OF assms]
  obtain s rs where s: "run_ops (Sharded_step hash toU32) s0 ops = Some (s, rs)" "sharded_ok hash s"
    "Sharded_cap s = Sharded_cap s0"
    using sharded.run_ok [OF new(1) [of hash], where ops = ops] unfolding Sharded_step_def by blast
  have "(tot + cnt - 1) div cnt * cnt \<le> tot + cnt - 1"
    using new(4) pos_mod_sign [of cnt "tot + cnt - 1"] minus_mod_eq_div_mult [of "tot + cnt - 1" cnt] by linarith
  then have "int (Sharded_cap s) < tot + cnt" using new(5) s(3) by simp
  with sharded.bounded [OF s(2)] s(1) show ?thesis by auto
qed

theorem Sharded_capacity_bound_witness:
  "\<exists>s0 s rs. NewSharded checkedU32 ''clock'' 5 4 = Inr s0 \<and>
     run_ops (Sharded_step (\<lambda>k. 0) checkedU32) s0 [OpSet ''a'' GNil, OpSet ''b'' GNil] = Some (s, rs) \<and>
     int (card (dom (Sharded_content (\<lambda>k. 0) s))) < 9"
proof -
  have "case NewSharded checkedU32 ''clock'' 5 4 of Inl _ \<Rightarrow> False | Inr _ \<Rightarrow> True" by code_simp
  then obtain s0 where 0: "NewSharded checkedU32 ''clock'' 5 4 = Inr s0" by (auto split: sum.splits)
  from Sharded_capacity_bound [OF 0 checkedU32_ok] 0 show ?thesis by fastforce
qed

text \<open>The clock is the exception: with every count positive, one round over the shards finds no victim
  although a key is tracked.\<close>

theorem Sharded_clock_gives_up:
  "case NewSharded checkedU32 ''clock'' 1 1 of Inl _ \<Rightarrow> False | Inr s0 \<Rightarrow>
     (case run_ops (Sharded_step (\<lambda>k. 0) checkedU32) s0 [OpSet ''a'' GNil, OpEvict] of
        None \<Rightarrow> False | Some (s, rs) \<Rightarrow> rs = [RUnit, REvict None] \<and> Sharded_content (\<lambda>k. 0) s ''a'' \<noteq> None)"
  by code_simp

end
