(* ===== verification/CMap.thy ===== *)
theory CMap
  imports Item
begin

text \<open>
  \<open>pkg/cache/v2/cmap.go\<close> and \<open>hash.go\<close>: the sharded map from keys to items, each shard with its own
  count. A shard's lock makes each method one step on its shard; the model runs the methods one
  after the other. The map stores pointers; the model stores the items, so a lookup shows the item
  as it is at that moment. The key hash is a parameter \<open>hash\<close>; \<open>Hash\<close> is its definition from
  the third-party \<open>xxhash.Sum64String\<close> (\<open>xxh\<close>) and \<open>converters.ToUint32\<close> (\<open>toU32\<close>).
\<close>

section \<open>The hash\<close>

definition Hash :: "(int \<Rightarrow> 32 word option) \<Rightarrow> (string \<Rightarrow> 64 word) \<Rightarrow> string \<Rightarrow> 32 word option" where
  "Hash toU32 xxh key =
     (let h = xxh key; folded = and (xor h (drop_bit 32 h)) 0xFFFFFFFF in toU32 (uint folded))"

section \<open>State and operations\<close>

record ConcurrentMapShard =
  sh_items :: "(string, Item) gomap"
  sh_count :: int

type_synonym ConcurrentMap = "ConcurrentMapShard list"

definition ShardCount :: nat where
  "ShardCount = 32"

definition cm_New :: ConcurrentMap where
  "cm_New = replicate ShardCount \<lparr>sh_items = [], sh_count = 0\<rparr>"

definition getShardIndex :: "(string \<Rightarrow> 32 word) \<Rightarrow> string \<Rightarrow> nat" where
  "getShardIndex hash key = unat (and (hash key) (of_nat ShardCount - 1))"

definition cm_GetShard :: "(string \<Rightarrow> 32 word) \<Rightarrow> ConcurrentMap \<Rightarrow> string \<Rightarrow> ConcurrentMapShard option" where
  "cm_GetShard hash cm key =
     (let i = getShardIndex hash key in if i < length cm then Some (cm ! i) else None)"

definition cm_put :: "(string \<Rightarrow> 32 word) \<Rightarrow> ConcurrentMap \<Rightarrow> string \<Rightarrow> ConcurrentMapShard \<Rightarrow> ConcurrentMap" where
  "cm_put hash cm key shard = cm[getShardIndex hash key := shard]"

definition cm_Set :: "(string \<Rightarrow> 32 word) \<Rightarrow> ConcurrentMap \<Rightarrow> string \<Rightarrow> Item \<Rightarrow> ConcurrentMap option" where
  "cm_Set hash cm key value = do {
     shard \<leftarrow> cm_GetShard hash cm key;
     let shard1 = (if map_of (sh_items shard) key = None
                   then shard\<lparr>sh_count := sh_count shard + 1\<rparr> else shard);
     Some (cm_put hash cm key (shard1\<lparr>sh_items := gm_set key value (sh_items shard1)\<rparr>))
   }"

definition cm_Get :: "(string \<Rightarrow> 32 word) \<Rightarrow> ConcurrentMap \<Rightarrow> string \<Rightarrow> Item option option" where
  "cm_Get hash cm key = do {
     shard \<leftarrow> cm_GetShard hash cm key;
     Some (map_of (sh_items shard) key)
   }"

definition cm_GetCopy :: "(string \<Rightarrow> 32 word) \<Rightarrow> ConcurrentMap \<Rightarrow> string \<Rightarrow> Item option option" where
  "cm_GetCopy hash cm key = do {
     shard \<leftarrow> cm_GetShard hash cm key;
     case map_of (sh_items shard) key of None \<Rightarrow> Some None | Some item \<Rightarrow> Some (Some item)
   }"

definition cm_Touch :: "(string \<Rightarrow> 32 word) \<Rightarrow> int \<Rightarrow> ConcurrentMap \<Rightarrow> string \<Rightarrow> (ConcurrentMap \<times> bool) option" where
  "cm_Touch hash now cm key = do {
     shard \<leftarrow> cm_GetShard hash cm key;
     case map_of (sh_items shard) key of
       None \<Rightarrow> Some (cm, False)
     | Some item \<Rightarrow>
         Some (cm_put hash cm key (shard\<lparr>sh_items := gm_set key
                 (item\<lparr>LastAccess := now, AccessCount := AccessCount item + 1\<rparr>) (sh_items shard)\<rparr>), True)
   }"

definition cm_Has :: "(string \<Rightarrow> 32 word) \<Rightarrow> ConcurrentMap \<Rightarrow> string \<Rightarrow> bool option" where
  "cm_Has hash cm key = do {
     shard \<leftarrow> cm_GetShard hash cm key;
     Some (map_of (sh_items shard) key \<noteq> None)
   }"

definition cm_Pop :: "(string \<Rightarrow> 32 word) \<Rightarrow> ConcurrentMap \<Rightarrow> string \<Rightarrow> (ConcurrentMap \<times> Item option) option" where
  "cm_Pop hash cm key = do {
     shard \<leftarrow> cm_GetShard hash cm key;
     case map_of (sh_items shard) key of
       None \<Rightarrow> Some (cm, None)
     | Some item \<Rightarrow>
         Some (cm_put hash cm key (shard\<lparr>sh_items := gm_del key (sh_items shard),
                 sh_count := sh_count shard - 1\<rparr>), Some item)
   }"

text \<open>
  \<open>All\<close>: \<open>yield\<close> is the body of the caller's loop, a step on the caller's state that says whether to
  go on.
\<close>

primrec yieldShard :: "(string, Item) gomap \<Rightarrow> ('s \<Rightarrow> string \<Rightarrow> Item \<Rightarrow> 's \<times> bool) \<Rightarrow> 's \<Rightarrow> 's \<times> bool" where
  "yieldShard [] yield s = (s, True)"
| "yieldShard (kv # kvs) yield s =
     (case yield s (fst kv) (snd kv) of
        (s', False) \<Rightarrow> (s', False)
      | (s', True) \<Rightarrow> yieldShard kvs yield s')"

primrec cm_walk :: "ConcurrentMapShard list \<Rightarrow> ('s \<Rightarrow> string \<Rightarrow> Item \<Rightarrow> 's \<times> bool) \<Rightarrow> 's \<Rightarrow> 's" where
  "cm_walk [] yield s = s"
| "cm_walk (shard # shards) yield s =
     (case yieldShard (sh_items shard) yield s of
        (s', False) \<Rightarrow> s'
      | (s', True) \<Rightarrow> cm_walk shards yield s')"

definition cm_All :: "ConcurrentMap \<Rightarrow> ('s \<Rightarrow> string \<Rightarrow> Item \<Rightarrow> 's \<times> bool) \<Rightarrow> 's \<Rightarrow> 's option" where
  "cm_All cm yield s = (if length cm = 0 then None else Some (cm_walk cm yield s))"

definition cm_Remove :: "(string \<Rightarrow> 32 word) \<Rightarrow> ConcurrentMap \<Rightarrow> string \<Rightarrow> ConcurrentMap option" where
  "cm_Remove hash cm key = do {
     shard \<leftarrow> cm_GetShard hash cm key;
     Some (if map_of (sh_items shard) key \<noteq> None
           then cm_put hash cm key (shard\<lparr>sh_items := gm_del key (sh_items shard),
                  sh_count := sh_count shard - 1\<rparr>)
           else cm)
   }"

definition cm_Clear :: "ConcurrentMap \<Rightarrow> ConcurrentMap" where
  "cm_Clear cm = map (\<lambda>shard. shard\<lparr>sh_items := [], sh_count := 0\<rparr>) cm"

definition cm_Count :: "ConcurrentMap \<Rightarrow> int" where
  "cm_Count cm = sum_list (map sh_count cm)"

section \<open>The hash never panics\<close>

lemma and_low32: "and (w :: 64 word) 0xFFFFFFFF = take_bit 32 w"
proof -
  have "(0xFFFFFFFF :: 64 word) = mask 32" by (simp add: mask_eq_exp_minus_1)
  then show ?thesis by (simp add: take_bit_eq_mask)
qed

text \<open>
  For every key and every xxhash function, the folded value fits 32 bits, so \<open>Hash\<close> never reaches
  its panic, and the result is the exclusive or of the two halves of the 64-bit hash.
\<close>

lemma Hash_never_panics:
  assumes "toU32_ok toU32"
  shows "Hash toU32 xxh key = Some (xor (ucast (xxh key)) (ucast (drop_bit 32 (xxh key))))"
proof -
  let ?h = "xxh key"
  have "uint (take_bit 32 (xor ?h (drop_bit 32 ?h))) < 2 ^ 32"
    by (metis take_bit_int_less_exp unsigned_take_bit_eq)
  moreover have "word_of_int (uint (take_bit 32 (xor ?h (drop_bit 32 ?h)))) =
      (xor (ucast ?h) (ucast (drop_bit 32 ?h)) :: 32 word)"
    by (rule bit_word_eqI) (simp add: bit_simps)
  ultimately show ?thesis using assms by (simp add: Hash_def and_low32 toU32_ok_def Let_def)
qed

lemma Hash_never_panics_example:
  "Hash checkedU32 (\<lambda>k. 0x123456789ABCDEF0) ''key'' = Some 0x88888888"
proof -
  have "Hash checkedU32 (\<lambda>k. 0x123456789ABCDEF0) ''key'' =
      Some (xor (ucast (0x123456789ABCDEF0 :: 64 word)) (ucast (drop_bit 32 (0x123456789ABCDEF0 :: 64 word))))"
    by (rule Hash_never_panics [OF checkedU32_ok])
  then show ?thesis by simp
qed

section \<open>The contract of an item store\<close>

text \<open>
  What the backends rely on: a store of items by key that looks up what was last set, forgets what
  was removed, counts its keys exactly and enumerates every binding once. \<open>lk\<close> is the map it
  stands for.
\<close>

locale item_store =
  fixes inv :: "'m \<Rightarrow> bool"
    and lk :: "'m \<Rightarrow> string \<Rightarrow> Item option"
    and set_op :: "'m \<Rightarrow> string \<Rightarrow> Item \<Rightarrow> 'm option"
    and get_op :: "'m \<Rightarrow> string \<Rightarrow> Item option option"
    and touch_op :: "int \<Rightarrow> 'm \<Rightarrow> string \<Rightarrow> ('m \<times> bool) option"
    and remove_op :: "'m \<Rightarrow> string \<Rightarrow> 'm option"
    and clear_op :: "'m \<Rightarrow> 'm"
    and count_op :: "'m \<Rightarrow> int"
    and entries :: "'m \<Rightarrow> (string \<times> Item) list"
  assumes set_ok: "inv m \<Longrightarrow> \<exists>m'. set_op m k v = Some m' \<and> inv m' \<and> lk m' = (lk m)(k \<mapsto> v)"
    and get_ok: "inv m \<Longrightarrow> get_op m k = Some (lk m k)"
    and touch_ok: "inv m \<Longrightarrow> \<exists>m'. touch_op now m k = Some (m', lk m k \<noteq> None) \<and> inv m' \<and>
      lk m' = (lk m)(k := map_option (Item_Touch now) (lk m k))"
    and remove_ok: "inv m \<Longrightarrow> \<exists>m'. remove_op m k = Some m' \<and> inv m' \<and> lk m' = (lk m)(k := None)"
    and clear_ok: "inv m \<Longrightarrow> inv (clear_op m) \<and> lk (clear_op m) = Map.empty"
    and count_ok: "inv m \<Longrightarrow> finite (dom (lk m)) \<and> count_op m = int (card (dom (lk m)))"
    and entries_ok: "inv m \<Longrightarrow> distinct (map fst (entries m)) \<and> (\<forall>k v. (k, v) \<in> set (entries m) \<longleftrightarrow> lk m k = Some v)"
begin

lemma remove_many:
  assumes "inv m"
  shows "\<exists>m'. fold (\<lambda>k mo. Option.bind mo (\<lambda>m. remove_op m k)) ks (Some m) = Some m' \<and> inv m' \<and>
    lk m' = (\<lambda>k. if k \<in> set ks then None else lk m k)"
  using assms
proof (induction ks arbitrary: m)
  case (Cons k ks)
  obtain m1 where 1: "remove_op m k = Some m1" "inv m1" "lk m1 = (lk m)(k := None)"
    using remove_ok [OF Cons.prems] by blast
  from Cons.IH [OF 1(2)] 1 show ?case by (auto simp: fun_eq_iff)
qed simp

lemma count_set:
  assumes "inv m" "set_op m k v = Some m'"
  shows "count_op m' = (if lk m k = None then count_op m + 1 else count_op m)"
proof -
  have m': "inv m'" "lk m' = (lk m)(k \<mapsto> v)" using set_ok [OF assms(1), of k v] assms(2) by auto
  show ?thesis using count_ok [OF assms(1)] count_ok [OF m'(1)] m'(2)
    by (cases "lk m k") (auto simp: insert_absorb domIff domI)
qed

end

section \<open>The sharded map is an item store\<close>

definition cm_inv :: "(string \<Rightarrow> 32 word) \<Rightarrow> ConcurrentMap \<Rightarrow> bool" where
  "cm_inv hash cm \<longleftrightarrow> length cm = ShardCount \<and>
     (\<forall>i < ShardCount. gm_wf (sh_items (cm ! i)) \<and> sh_count (cm ! i) = int (length (sh_items (cm ! i))) \<and>
        (\<forall>k \<in> fst ` set (sh_items (cm ! i)). getShardIndex hash k = i))"

definition cm_lookup :: "(string \<Rightarrow> 32 word) \<Rightarrow> ConcurrentMap \<Rightarrow> string \<Rightarrow> Item option" where
  "cm_lookup hash cm k = map_of (sh_items (cm ! getShardIndex hash k)) k"

definition cm_entries :: "ConcurrentMap \<Rightarrow> (string \<times> Item) list" where
  "cm_entries cm = concat (map sh_items cm)"

lemma getShardIndex_less: "getShardIndex hash k < ShardCount"
proof -
  have "(of_nat ShardCount - 1 :: 32 word) = mask 5" by (simp add: ShardCount_def mask_eq_exp_minus_1)
  then have "getShardIndex hash k < 2 ^ 5"
    unfolding getShardIndex_def by (metis take_bit_eq_mask take_bit_nat_less_exp unsigned_take_bit_eq)
  then show ?thesis by (simp add: ShardCount_def)
qed

lemma cm_invD:
  assumes "cm_inv hash cm" "i < ShardCount"
  shows "gm_wf (sh_items (cm ! i))" "sh_count (cm ! i) = int (length (sh_items (cm ! i)))"
    "k \<in> fst ` set (sh_items (cm ! i)) \<Longrightarrow> getShardIndex hash k = i"
  using assms by (auto simp: cm_inv_def)

lemma cm_GetShard_ok: "cm_inv hash cm \<Longrightarrow> cm_GetShard hash cm k = Some (cm ! getShardIndex hash k)"
  using getShardIndex_less [of hash k] by (simp add: cm_GetShard_def cm_inv_def Let_def)

text \<open>Replacing the shard of \<open>k\<close> by one that differs at \<open>k\<close> only.\<close>

lemma cm_put_ok:
  assumes "cm_inv hash cm" "gm_wf (sh_items s)" "sh_count s = int (length (sh_items s))"
    and "map_of (sh_items s) = (map_of (sh_items (cm ! getShardIndex hash k)))(k := v)"
  shows "cm_inv hash (cm_put hash cm k s)" "cm_lookup hash (cm_put hash cm k s) = (cm_lookup hash cm)(k := v)"
proof -
  let ?i = "getShardIndex hash k"
  have i: "?i < length cm" using getShardIndex_less [of hash k] assms(1) by (simp add: cm_inv_def)
  have "getShardIndex hash k' = ?i" if "k' \<in> fst ` set (sh_items s)" for k'
  proof (cases "k' = k")
    case False
    with that have "map_of (sh_items (cm ! ?i)) k' \<noteq> None"
      using assms(4) by (metis dom_map_of_conv_image_fst domIff fun_upd_other)
    then have "k' \<in> fst ` set (sh_items (cm ! ?i))" by (metis dom_map_of_conv_image_fst domI not_None_eq)
    then show ?thesis using cm_invD(3) [OF assms(1) getShardIndex_less] by blast
  qed simp
  then show "cm_inv hash (cm_put hash cm k s)"
    using assms(1-3) i by (auto simp: cm_inv_def cm_put_def nth_list_update)
  show "cm_lookup hash (cm_put hash cm k s) = (cm_lookup hash cm)(k := v)"
  proof
    fix k'
    show "cm_lookup hash (cm_put hash cm k s) k' = ((cm_lookup hash cm)(k := v)) k'"
      using i assms(4) by (cases "getShardIndex hash k' = ?i") (auto simp: cm_lookup_def cm_put_def)
  qed
qed

lemma cm_length_del:
  "gm_wf m \<Longrightarrow> map_of m k \<noteq> None \<Longrightarrow> int (length (gm_del k m)) = int (length m) - 1"
  by (cases m) (auto simp: gomap_simps)

lemma cm_Set_ok:
  assumes "cm_inv hash cm"
  shows "\<exists>cm'. cm_Set hash cm k v = Some cm' \<and> cm_inv hash cm' \<and> cm_lookup hash cm' = (cm_lookup hash cm)(k \<mapsto> v)"
proof -
  let ?s = "cm ! getShardIndex hash k"
  let ?t = "if map_of (sh_items ?s) k = None then ?s\<lparr>sh_count := sh_count ?s + 1\<rparr> else ?s"
  let ?u = "?t\<lparr>sh_items := gm_set k v (sh_items ?t)\<rparr>"
  note inv = cm_invD [OF assms getShardIndex_less]
  have "gm_wf (sh_items ?u)" "sh_count ?u = int (length (sh_items ?u))"
    "map_of (sh_items ?u) = (map_of (sh_items ?s))(k \<mapsto> v)"
    using inv(1,2) by (simp_all add: gomap_simps)
  from cm_put_ok [OF assms this] assms show ?thesis by (simp add: cm_Set_def cm_GetShard_ok Let_def)
qed

lemma cm_Remove_ok:
  assumes "cm_inv hash cm"
  shows "\<exists>cm'. cm_Remove hash cm k = Some cm' \<and> cm_inv hash cm' \<and> cm_lookup hash cm' = (cm_lookup hash cm)(k := None)"
proof (cases "cm_lookup hash cm k")
  case None
  with assms show ?thesis by (simp add: cm_Remove_def cm_GetShard_ok cm_lookup_def fun_upd_idem)
next
  case (Some v)
  let ?s = "cm ! getShardIndex hash k"
  note inv = cm_invD [OF assms getShardIndex_less]
  have "int (length (gm_del k (sh_items ?s))) = int (length (sh_items ?s)) - 1"
    using cm_length_del [OF inv(1)] Some by (simp add: cm_lookup_def)
  with cm_put_ok [OF assms, of "?s\<lparr>sh_items := gm_del k (sh_items ?s), sh_count := sh_count ?s - 1\<rparr>" k None]
    inv(1,2) Some assms
  show ?thesis by (simp add: cm_Remove_def cm_GetShard_ok cm_lookup_def gomap_simps)
qed

lemma cm_Pop_ok:
  assumes "cm_inv hash cm"
  shows "\<exists>cm'. cm_Pop hash cm k = Some (cm', cm_lookup hash cm k) \<and> cm_Remove hash cm k = Some cm'"
  using assms by (auto simp: cm_Pop_def cm_Remove_def cm_GetShard_ok cm_lookup_def split: option.split)

lemma cm_Touch_ok:
  assumes "cm_inv hash cm"
  shows "\<exists>cm'. cm_Touch hash now cm k = Some (cm', cm_lookup hash cm k \<noteq> None) \<and> cm_inv hash cm' \<and>
    cm_lookup hash cm' = (cm_lookup hash cm)(k := map_option (Item_Touch now) (cm_lookup hash cm k))"
proof (cases "cm_lookup hash cm k")
  case None
  with assms show ?thesis by (simp add: cm_Touch_def cm_GetShard_ok cm_lookup_def fun_upd_idem)
next
  case (Some it)
  let ?s = "cm ! getShardIndex hash k"
  note inv = cm_invD [OF assms getShardIndex_less]
  from cm_put_ok [OF assms, of "?s\<lparr>sh_items := gm_set k (Item_Touch now it) (sh_items ?s)\<rparr>" k "Some (Item_Touch now it)"]
    inv(1,2) Some assms
  show ?thesis by (simp add: cm_Touch_def cm_GetShard_ok cm_lookup_def gomap_simps Item_Touch_def)
qed

lemma cm_Clear_ok:
  assumes "cm_inv hash cm"
  shows "cm_inv hash (cm_Clear cm)" "cm_lookup hash (cm_Clear cm) = Map.empty"
  using assms getShardIndex_less [of hash] by (auto simp: cm_inv_def cm_Clear_def cm_lookup_def fun_eq_iff)

lemma cm_entries_iff:
  assumes "cm_inv hash cm"
  shows "(k, v) \<in> set (cm_entries cm) \<longleftrightarrow> cm_lookup hash cm k = Some v"
proof -
  have "(k, v) \<in> set (cm_entries cm) \<longleftrightarrow> (\<exists>i < ShardCount. (k, v) \<in> set (sh_items (cm ! i)))"
    using assms by (fastforce simp: cm_entries_def cm_inv_def in_set_conv_nth)
  also have "\<dots> \<longleftrightarrow> (k, v) \<in> set (sh_items (cm ! getShardIndex hash k))"
    using cm_invD(3) [OF assms] getShardIndex_less [of hash k] by (metis fst_conv image_eqI)
  also have "\<dots> \<longleftrightarrow> cm_lookup hash cm k = Some v"
    using cm_invD(1) [OF assms getShardIndex_less] by (simp add: cm_lookup_def gm_in_set_iff)
  finally show ?thesis .
qed

lemma cm_entries_distinct:
  assumes "cm_inv hash cm"
  shows "distinct (map fst (cm_entries cm))"
proof -
  have "distinct (concat (map (\<lambda>s. map fst (sh_items s)) (take n cm)))" if "n \<le> ShardCount" for n
    using that
  proof (induction n)
    case (Suc n)
    have n: "n < length cm" using Suc.prems assms by (simp add: cm_inv_def)
    have "distinct (map fst (sh_items (cm ! n)))"
      using cm_invD(1) [OF assms, of n] Suc.prems by (simp add: gm_wf_def)
    moreover have "getShardIndex hash k < n" if "k \<in> set (concat (map (\<lambda>s. map fst (sh_items s)) (take n cm)))" for k
    proof -
      from that obtain s where "s \<in> set (take n cm)" "k \<in> fst ` set (sh_items s)" by auto
      moreover from this obtain i where "i < n" "s = cm ! i" using n by (auto simp: in_set_conv_nth)
      ultimately have "i < n" "k \<in> fst ` set (sh_items (cm ! i))" by auto
      then show ?thesis using cm_invD(3) [OF assms, of i k] Suc.prems by simp
    qed
    moreover have "getShardIndex hash k = n" if "k \<in> set (map fst (sh_items (cm ! n)))" for k
      using cm_invD(3) [OF assms, of n k] that Suc.prems by simp
    ultimately show ?case using Suc n by (fastforce simp: take_Suc_conv_app_nth)
  qed simp
  from this [of ShardCount] show ?thesis using assms by (simp add: cm_entries_def cm_inv_def map_concat comp_def)
qed

lemma cm_count_entries:
  assumes "cm_inv hash cm"
  shows "cm_Count cm = int (length (cm_entries cm))"
proof -
  have "map sh_count cm = map (\<lambda>s. int (length (sh_items s))) cm"
    using assms by (auto simp: cm_inv_def in_set_conv_nth)
  then have "cm_Count cm = sum_list (map (\<lambda>s. int (length (sh_items s))) cm)" by (simp only: cm_Count_def)
  also have "\<dots> = int (length (cm_entries cm))"
    by (simp add: cm_entries_def) (induction cm; simp)
  finally show ?thesis .
qed

interpretation cmap: item_store "cm_inv hash" "cm_lookup hash" "cm_Set hash" "cm_GetCopy hash" "cm_Touch hash"
    "cm_Remove hash" cm_Clear cm_Count cm_entries for hash
proof (unfold_locales, goal_cases)
  case (2 m k)
  then show ?case by (simp add: cm_GetCopy_def cm_GetShard_ok cm_lookup_def split: option.split)
next
  case (6 m)
  have "dom (cm_lookup hash m) = fst ` set (cm_entries m)"
    using cm_entries_iff [OF 6] by (force simp: dom_def)
  moreover have "card (fst ` set (cm_entries m)) = length (cm_entries m)"
    using cm_entries_distinct [OF 6] by (metis distinct_card length_map set_map)
  ultimately show ?case using cm_count_entries [OF 6] by simp
next
  case (7 m)
  then show ?case using cm_entries_distinct cm_entries_iff by blast
qed (use cm_Set_ok cm_Touch_ok cm_Remove_ok cm_Clear_ok in blast)+

lemma cm_inv_New: "cm_inv hash cm_New" "cm_lookup hash cm_New = Map.empty"
  using getShardIndex_less [of hash] by (auto simp: cm_inv_def cm_New_def cm_lookup_def fun_eq_iff)

text \<open>A consumer that never stops sees the entries in order.\<close>

lemma yieldShard_all:
  assumes "\<And>s k v. yield s k v = (f s k v, True)"
  shows "yieldShard kvs yield s = (fold (\<lambda>(k, v) s. f s k v) kvs s, True)"
  by (induction kvs arbitrary: s) (auto simp: assms)

lemma cm_walk_all:
  assumes "\<And>s k v. yield s k v = (f s k v, True)"
  shows "cm_walk cm yield s = fold (\<lambda>(k, v) s. f s k v) (cm_entries cm) s"
  by (induction cm arbitrary: s) (auto simp: cm_entries_def yieldShard_all [OF assms])

lemma cm_All_all:
  assumes "cm_inv hash cm" "\<And>s k v. yield s k v = (f s k v, True)"
  shows "cm_All cm yield s = Some (fold (\<lambda>(k, v) s. f s k v) (cm_entries cm) s)"
  using assms cm_walk_all [of yield f] by (auto simp: cm_All_def cm_inv_def ShardCount_def)

section \<open>Runs of the map\<close>

datatype cm_op = CmSet string Item | CmRemove string | CmPop string | CmTouch int string | CmClear

fun cm_exec :: "(string \<Rightarrow> 32 word) \<Rightarrow> ConcurrentMap \<Rightarrow> cm_op \<Rightarrow> ConcurrentMap option" where
  "cm_exec hash cm (CmSet k v) = cm_Set hash cm k v"
| "cm_exec hash cm (CmRemove k) = cm_Remove hash cm k"
| "cm_exec hash cm (CmPop k) = map_option fst (cm_Pop hash cm k)"
| "cm_exec hash cm (CmTouch now k) = map_option fst (cm_Touch hash now cm k)"
| "cm_exec hash cm CmClear = Some (cm_Clear cm)"

fun flat_exec :: "(string \<rightharpoonup> Item) \<Rightarrow> cm_op \<Rightarrow> (string \<rightharpoonup> Item)" where
  "flat_exec m (CmSet k v) = m(k \<mapsto> v)"
| "flat_exec m (CmRemove k) = m(k := None)"
| "flat_exec m (CmPop k) = m(k := None)"
| "flat_exec m (CmTouch now k) = m(k := map_option (Item_Touch now) (m k))"
| "flat_exec m CmClear = Map.empty"

primrec cm_run :: "(string \<Rightarrow> 32 word) \<Rightarrow> ConcurrentMap \<Rightarrow> cm_op list \<Rightarrow> ConcurrentMap option" where
  "cm_run hash cm [] = Some cm"
| "cm_run hash cm (op # ops) = Option.bind (cm_exec hash cm op) (\<lambda>cm'. cm_run hash cm' ops)"

lemma cm_exec_refines:
  assumes "cm_inv hash cm"
  shows "\<exists>cm'. cm_exec hash cm op = Some cm' \<and> cm_inv hash cm' \<and> cm_lookup hash cm' = flat_exec (cm_lookup hash cm) op"
proof (cases op)
  case (CmSet k v)
  then show ?thesis using cm_Set_ok [OF assms] by simp
next
  case (CmRemove k)
  then show ?thesis using cm_Remove_ok [OF assms] by simp
next
  case (CmPop k)
  then show ?thesis using cm_Pop_ok [OF assms, of k] cm_Remove_ok [OF assms, of k] by auto
next
  case (CmTouch now k)
  then show ?thesis using cm_Touch_ok [OF assms, of now k] by auto
next
  case CmClear
  then show ?thesis using cm_Clear_ok [OF assms] by simp
qed

lemma cm_run_refines:
  assumes "cm_inv hash cm"
  shows "\<exists>cm'. cm_run hash cm ops = Some cm' \<and> cm_inv hash cm' \<and>
    cm_lookup hash cm' = fold (\<lambda>op m. flat_exec m op) ops (cm_lookup hash cm)"
  using assms
proof (induction ops arbitrary: cm)
  case (Cons op ops)
  obtain cm1 where 1: "cm_exec hash cm op = Some cm1" "cm_inv hash cm1"
    "cm_lookup hash cm1 = flat_exec (cm_lookup hash cm) op"
    using cm_exec_refines [OF Cons.prems] by blast
  from Cons.IH [OF 1(2)] 1 show ?case by simp
qed simp

text \<open>
  C5. For every hash, a sequence of operations on a new sharded map never panics and leaves a map that
  agrees with one flat map: \<open>Get\<close> and \<open>Has\<close> look keys up in it, \<open>Count\<close> is the number of its keys, and
  \<open>All\<close> yields each of its bindings exactly once.
\<close>

theorem ConcurrentMap_refines_map:
  "\<exists>cm es. cm_run hash cm_New ops = Some cm \<and>
     (let m = fold (\<lambda>op m. flat_exec m op) ops Map.empty in
      (\<forall>k. cm_Get hash cm k = Some (m k) \<and> cm_Has hash cm k = Some (m k \<noteq> None)) \<and>
      cm_Count cm = int (card (dom m)) \<and>
      cm_All cm (\<lambda>acc k v. (acc @ [(k, v)], True)) [] = Some es \<and>
      distinct (map fst es) \<and> (\<forall>k v. (k, v) \<in> set es \<longleftrightarrow> m k = Some v))"
proof -
  obtain cm where cm: "cm_run hash cm_New ops = Some cm" "cm_inv hash cm"
    "cm_lookup hash cm = fold (\<lambda>op m. flat_exec m op) ops Map.empty"
    using cm_run_refines [OF cm_inv_New(1), of hash ops] cm_inv_New(2) [of hash] by auto
  have "fold (\<lambda>(k, v) s. s @ [(k, v)]) es acc = acc @ es" for es :: "(string \<times> Item) list" and acc
    by (induction es arbitrary: acc) auto
  then have all: "cm_All cm (\<lambda>acc k v. (acc @ [(k, v)], True)) [] = Some (cm_entries cm)"
    using cm_All_all [OF cm(2), of _ "\<lambda>acc k v. acc @ [(k, v)]"] by simp
  have "cm_Get hash cm k = Some (cm_lookup hash cm k) \<and> cm_Has hash cm k = Some (cm_lookup hash cm k \<noteq> None)" for k
    using cm(2) by (simp add: cm_Get_def cm_Has_def cm_GetShard_ok cm_lookup_def)
  then show ?thesis
    using cm all cmap.count_ok [OF cm(2)] cmap.entries_ok [OF cm(2)]
    by (intro exI [of _ cm] exI [of _ "cm_entries cm"]) (simp add: Let_def)
qed

end
