(* ===== verification/Filters.thy ===== *)
theory Filters
  imports Item
begin

text \<open>
  \<open>pkg/backend/filters.go\<close>: the sort, order and selection filters of \<open>List\<close>. The order in which
  \<open>slices.SortFunc\<close> leaves elements that compare equal is not specified, so it is a parameter
  \<open>sortFunc\<close> with the documented behaviour \<open>sortFunc_ok\<close>: for a strict weak ordering, an ascending
  permutation.
\<close>

section \<open>Orders\<close>

text \<open>Strings compare by their bytes.\<close>

fun str_less :: "string \<Rightarrow> string \<Rightarrow> bool" where
  "str_less _ [] = False"
| "str_less [] (_ # _) = True"
| "str_less (a # as) (b # bs) =
     ((of_char a :: nat) < of_char b \<or> ((of_char a :: nat) = of_char b \<and> str_less as bs))"

text \<open>\<open>time.Time.UnixNano\<close>: nanoseconds since 1970, wrapped to an int64.\<close>

definition unixEpoch :: int where
  "unixEpoch = 62135596800 * 10 ^ 9"

definition UnixNano :: "int \<Rightarrow> int" where
  "UnixNano t = signed_take_bit 63 (t - unixEpoch)"

definition strict_weak :: "('a \<Rightarrow> 'a \<Rightarrow> int) \<Rightarrow> bool" where
  "strict_weak c \<longleftrightarrow> (\<forall>a. \<not> c a a < 0) \<and> (\<forall>x y z. c x y < 0 \<longrightarrow> c y z < 0 \<longrightarrow> c x z < 0) \<and>
     (\<forall>x y z. \<not> c x y < 0 \<longrightarrow> \<not> c y z < 0 \<longrightarrow> \<not> c x z < 0)"

definition sortFunc_ok :: "(('a \<Rightarrow> 'a \<Rightarrow> int) \<Rightarrow> 'a list \<Rightarrow> 'a list) \<Rightarrow> bool" where
  "sortFunc_ok sortFunc \<longleftrightarrow> (\<forall>c xs. strict_weak c \<longrightarrow>
     mset (sortFunc c xs) = mset xs \<and> sorted_wrt (\<lambda>a b. \<not> c b a < 0) (sortFunc c xs))"

section \<open>The filters\<close>

datatype IFilter = sortByFilter string | SortOrderFilter bool | filterFunc "Item \<Rightarrow> bool"

definition WithSortBy :: "string \<Rightarrow> IFilter" where
  "WithSortBy field = sortByFilter field"

definition WithSortOrderAsc :: "bool \<Rightarrow> IFilter" where
  "WithSortOrderAsc ascending = SortOrderFilter ascending"

definition WithFilterFunc :: "(Item \<Rightarrow> bool) \<Rightarrow> IFilter" where
  "WithFilterFunc fn = filterFunc fn"

definition sorter_less :: "string \<Rightarrow> (Item \<Rightarrow> Item \<Rightarrow> bool) option" where
  "sorter_less field =
     (if field = ''Key'' then Some (\<lambda>i j. str_less (Key i) (Key j))
      else if field = ''LastAccess'' then Some (\<lambda>i j. UnixNano (LastAccess i) < UnixNano (LastAccess j))
      else if field = ''AccessCount'' then Some (\<lambda>i j. AccessCount i < AccessCount j)
      else if field = ''Expiration'' then Some (\<lambda>i j. Expiration i < Expiration j)
      else None)"

definition sorter_cmp :: "(Item \<Rightarrow> Item \<Rightarrow> bool) \<Rightarrow> Item \<Rightarrow> Item \<Rightarrow> int" where
  "sorter_cmp lt a b = (if lt a b then - 1 else if lt b a then 1 else 0)"

definition sortBy_ApplyFilter :: "((Item \<Rightarrow> Item \<Rightarrow> int) \<Rightarrow> Item list \<Rightarrow> Item list) \<Rightarrow> string \<Rightarrow> Item list
    \<Rightarrow> sentinel + Item list" where
  "sortBy_ApplyFilter sortFunc field items = (case sorter_less field of
       None \<Rightarrow> Inl (ErrText (''invalid sort field: '' @ field))
     | Some lt \<Rightarrow> Inr (sortFunc (sorter_cmp lt) items))"

text \<open>The loop of \<open>SortOrderFilter\<close> that swaps from both ends; \<open>i\<close> and \<open>j\<close> are its variables.\<close>

function swap_loop :: "'a list \<Rightarrow> int \<Rightarrow> int \<Rightarrow> 'a list" where
  "swap_loop items i j =
     (if i < j then swap_loop (items[nat i := items ! nat j, nat j := items ! nat i]) (i + 1) (j - 1)
      else items)"
  by pat_completeness auto
termination by (relation "measure (\<lambda>(_, i, j). nat (j - i))") auto

declare swap_loop.simps [simp del]

definition sortOrder_ApplyFilter :: "bool \<Rightarrow> Item list \<Rightarrow> Item list" where
  "sortOrder_ApplyFilter ascending items =
     (if \<not> ascending then swap_loop items 0 (int (length items) - 1) else items)"

definition filterFunc_ApplyFilter :: "(Item \<Rightarrow> bool) \<Rightarrow> Item list \<Rightarrow> Item list" where
  "filterFunc_ApplyFilter fn items = fold (\<lambda>item acc. if fn item then acc @ [item] else acc) items []"

fun ApplyFilter :: "((Item \<Rightarrow> Item \<Rightarrow> int) \<Rightarrow> Item list \<Rightarrow> Item list) \<Rightarrow> IFilter \<Rightarrow> Item list
    \<Rightarrow> sentinel + Item list" where
  "ApplyFilter sortFunc (sortByFilter field) items = sortBy_ApplyFilter sortFunc field items"
| "ApplyFilter sortFunc (SortOrderFilter ascending) items = Inr (sortOrder_ApplyFilter ascending items)"
| "ApplyFilter sortFunc (filterFunc fn) items = Inr (filterFunc_ApplyFilter fn items)"

text \<open>The loop of \<open>List\<close> over the filters.\<close>

primrec applyFilters :: "((Item \<Rightarrow> Item \<Rightarrow> int) \<Rightarrow> Item list \<Rightarrow> Item list) \<Rightarrow> IFilter list \<Rightarrow> Item list
    \<Rightarrow> sentinel + Item list" where
  "applyFilters sortFunc [] items = Inr items"
| "applyFilters sortFunc (f # fs) items = (case ApplyFilter sortFunc f items of
       Inl e \<Rightarrow> Inl e | Inr items' \<Rightarrow> applyFilters sortFunc fs items')"

section \<open>The orders are strict weak orders\<close>

lemma str_less_irrefl: "\<not> str_less a a"
  by (induction a) auto

lemma str_less_trans: "str_less a b \<Longrightarrow> str_less b c \<Longrightarrow> str_less a c"
proof (induction a b arbitrary: c rule: str_less.induct)
  case (2 b bs)
  then show ?case by (cases c) auto
next
  case (3 a as b bs)
  then show ?case by (cases c) auto
qed simp

lemma str_less_total: "str_less a b \<or> a = b \<or> str_less b a"
proof (induction a b rule: str_less.induct)
  case (1 a)
  then show ?case by (cases a) auto
next
  case (3 a as b bs)
  then show ?case by (metis linorder_neqE_nat of_char_eq_iff str_less.simps(3))
qed simp

text \<open>A linear order on the sort field gives a strict weak order on the items.\<close>

lemma strict_weak_cmp:
  assumes "\<And>a. \<not> lt a a" "\<And>a b c. lt a b \<Longrightarrow> lt b c \<Longrightarrow> lt a c" "\<And>a b c. \<not> lt a b \<Longrightarrow> \<not> lt b c \<Longrightarrow> \<not> lt a c"
  shows "strict_weak (sorter_cmp lt)" "sorter_cmp lt a b < 0 \<longleftrightarrow> lt a b"
proof -
  have neg: "sorter_cmp lt a b < 0 \<longleftrightarrow> lt a b" for a b by (simp add: sorter_cmp_def)
  then show "strict_weak (sorter_cmp lt)" unfolding strict_weak_def neg using assms by blast
  show "sorter_cmp lt a b < 0 \<longleftrightarrow> lt a b" by (rule neg)
qed

lemma str_less_neg_trans: "\<not> str_less a b \<Longrightarrow> \<not> str_less b c \<Longrightarrow> \<not> str_less a c"
  using str_less_total [of a b] str_less_total [of b c] str_less_trans str_less_irrefl by metis

lemma sorter_less_cases:
  assumes "sorter_less field = Some lt"
  obtains "lt = (\<lambda>i j. str_less (Key i) (Key j))" | "lt = (\<lambda>i j. UnixNano (LastAccess i) < UnixNano (LastAccess j))"
    | "lt = (\<lambda>i j. AccessCount i < AccessCount j)" | "lt = (\<lambda>i j. Expiration i < Expiration j)"
  using assms unfolding sorter_less_def by (simp split: if_split_asm)

lemma sorter_less_weak:
  assumes "sorter_less field = Some lt"
  shows "strict_weak (sorter_cmp lt)" "sorter_cmp lt a b < 0 \<longleftrightarrow> lt a b"
proof -
  have irr: "\<not> lt a a" for a
    using assms by (cases rule: sorter_less_cases) (simp_all add: str_less_irrefl)
  have tr: "lt a c" if "lt a b" "lt b c" for a b c
    using assms that by (cases rule: sorter_less_cases) (auto intro: str_less_trans)
  have neg: "\<not> lt a c" if "\<not> lt a b" "\<not> lt b c" for a b c
    using assms that by (cases rule: sorter_less_cases) (simp_all add: str_less_neg_trans)
  show "strict_weak (sorter_cmp lt)" "sorter_cmp lt a b < 0 \<longleftrightarrow> lt a b"
    using strict_weak_cmp [of lt, OF irr tr neg] by simp_all
qed

lemma sortBy_ok:
  assumes "sortFunc_ok sortFunc" "sorter_less field = Some lt" "sortBy_ApplyFilter sortFunc field items = Inr items'"
  shows "mset items' = mset items" "sorted_wrt (\<lambda>a b. \<not> lt b a) items'"
  using assms sorter_less_weak [OF assms(2)] by (auto simp: sortBy_ApplyFilter_def sortFunc_ok_def)

section \<open>Reversal and selection\<close>

lemma swap_loop_mid:
  "swap_loop (ps @ xs @ qs) (int (length ps)) (int (length ps + length xs) - 1) = ps @ rev xs @ qs"
proof (induction "length xs" arbitrary: ps xs qs rule: less_induct)
  case less
  show ?case
  proof (cases "length xs < 2")
    case True
    then have "rev xs = xs" by (cases xs) auto
    with True show ?thesis by (subst swap_loop.simps) auto
  next
    case False
    then obtain a xs1 where "xs = a # xs1" "xs1 \<noteq> []" by (cases xs) auto
    then obtain m b where xs: "xs = a # m @ [b]" by (cases xs1 rule: rev_cases) auto
    let ?i = "int (length ps)" and ?j = "int (length ps + length xs) - 1"
    have j: "nat ?j = Suc (length ps + length m)" using xs by simp
    have "(ps @ xs @ qs)[nat ?i := (ps @ xs @ qs) ! nat ?j, nat ?j := (ps @ xs @ qs) ! nat ?i] =
        (ps @ [b]) @ m @ (a # qs)"
      unfolding j using xs by (simp add: nth_append list_update_append)
    then have "swap_loop (ps @ xs @ qs) ?i ?j = swap_loop ((ps @ [b]) @ m @ (a # qs)) (?i + 1) (?j - 1)"
      using xs by (subst swap_loop.simps) simp
    also have "\<dots> = (ps @ [b]) @ rev m @ (a # qs)"
      using less [of m "ps @ [b]" "a # qs"] xs by (simp add: algebra_simps)
    finally show ?thesis using xs by simp
  qed
qed

lemma sortOrder_rev: "sortOrder_ApplyFilter ascending items = (if ascending then items else rev items)"
  using swap_loop_mid [of "[]" items "[]"] by (simp add: sortOrder_ApplyFilter_def)

lemma filterFunc_filter: "filterFunc_ApplyFilter fn items = filter fn items"
proof -
  have "fold (\<lambda>item acc. if fn item then acc @ [item] else acc) items acc = acc @ filter fn items" for acc
    by (induction items arbitrary: acc) auto
  then show ?thesis by (simp add: filterFunc_ApplyFilter_def)
qed

text \<open>An instance of the sort: insertion, which \<open>slices.SortFunc\<close> itself uses on short slices.\<close>

fun insert_by :: "('a \<Rightarrow> 'a \<Rightarrow> int) \<Rightarrow> 'a \<Rightarrow> 'a list \<Rightarrow> 'a list" where
  "insert_by c x [] = [x]"
| "insert_by c x (y # ys) = (if c y x < 0 then y # insert_by c x ys else x # y # ys)"

definition insertion_sort :: "('a \<Rightarrow> 'a \<Rightarrow> int) \<Rightarrow> 'a list \<Rightarrow> 'a list" where
  "insertion_sort c xs = foldr (insert_by c) xs []"

lemma insert_by_ok:
  assumes "strict_weak c" "sorted_wrt (\<lambda>a b. \<not> c b a < 0) ys"
  shows "mset (insert_by c x ys) = add_mset x (mset ys) \<and> sorted_wrt (\<lambda>a b. \<not> c b a < 0) (insert_by c x ys)"
  using assms(2)
proof (induction ys)
  case (Cons y ys)
  note IH = Cons.IH [OF Cons.prems [simplified, THEN conjunct2]]
  show ?case
  proof (cases "c y x < 0")
    case True
    then have "\<not> c x y < 0" using assms(1) unfolding strict_weak_def by blast
    moreover have "set (insert_by c x ys) = insert x (set ys)"
      using IH by (metis set_mset_add_mset_insert set_mset_mset)
    ultimately show ?thesis using True IH Cons.prems by auto
  next
    case False
    have "\<not> c z x < 0" if "z \<in> set ys" for z
      using assms(1) False Cons.prems that unfolding strict_weak_def by (metis sorted_wrt.simps(2))
    with False Cons.prems show ?thesis by auto
  qed
qed simp

lemma insertion_sort_ok: "sortFunc_ok insertion_sort"
proof -
  have "mset (insertion_sort c xs) = mset xs \<and> sorted_wrt (\<lambda>a b. \<not> c b a < 0) (insertion_sort c xs)"
    if "strict_weak c" for c and xs :: "'a list"
    unfolding insertion_sort_def using insert_by_ok [OF that] by (induction xs) auto
  then show ?thesis by (simp add: sortFunc_ok_def)
qed

end
