(* ===== verification/InMemory.thy ===== *)
theory InMemory
  imports CMap Filters
begin

text \<open>
  \<open>pkg/backend/backend.go\<close>, \<open>inmemory.go\<close> and the capacity option of \<open>options.go\<close>: the interface of a
  storage backend and the in-memory backend. A context is a flag that says whether the call's \<open>select\<close>
  takes the branch of \<open>ctx.Done()\<close>; the goroutine of \<open>Remove\<close> or \<open>Clear\<close> finishes its work in either
  case, and the resulting state is the one after it has.
\<close>

section \<open>The interface\<close>

text \<open>
  The methods of \<open>IBackend\<close> as functions on a state \<open>'b\<close>. \<open>Set\<close> also returns the item as the caller
  sees it afterwards, since it may zero the object. \<open>bk_Touch\<close> is the optional interface
  \<open>touchBackend\<close>; \<open>bk_Serializer\<close> is the serializer of the Redis backends (the length of an encoding,
  or its failure), which \<open>setItemSize\<close> asks for by a type switch.
\<close>

record 'b IBackend =
  bk_Get :: "'b \<Rightarrow> string \<Rightarrow> ('b \<times> Item option) option"
  bk_Set :: "'b \<Rightarrow> Item \<Rightarrow> ('b \<times> Item \<times> sentinel option) option"
  bk_Capacity :: "'b \<Rightarrow> int"
  bk_SetCapacity :: "'b \<Rightarrow> int \<Rightarrow> 'b"
  bk_Count :: "'b \<Rightarrow> int"
  bk_Remove :: "bool \<Rightarrow> 'b \<Rightarrow> string list \<Rightarrow> ('b \<times> sentinel option) option"
  bk_List :: "'b \<Rightarrow> IFilter list \<Rightarrow> (sentinel + Item list) option"
  bk_Clear :: "bool \<Rightarrow> 'b \<Rightarrow> ('b \<times> sentinel option) option"
  bk_Touch :: "(int \<Rightarrow> 'b \<Rightarrow> string \<Rightarrow> ('b \<times> bool) option) option"
  bk_Serializer :: "(gval \<Rightarrow> nat option) option"

section \<open>The in-memory backend\<close>

record InMemory =
  im_items :: ConcurrentMap
  im_capacity :: int

definition setBackendCapacity :: "int \<Rightarrow> InMemory \<Rightarrow> InMemory" where
  "setBackendCapacity capacity inm = inm\<lparr>im_capacity := capacity\<rparr>"

definition WithCapacity :: "int \<Rightarrow> InMemory \<Rightarrow> InMemory" where
  "WithCapacity capacity a = setBackendCapacity capacity a"

definition ApplyOptions :: "'a \<Rightarrow> ('a \<Rightarrow> 'a) list \<Rightarrow> 'a" where
  "ApplyOptions b options = fold (\<lambda>option b. option b) options b"

definition NewInMemory :: "(InMemory \<Rightarrow> InMemory) list \<Rightarrow> sentinel + InMemory" where
  "NewInMemory opts =
     (let b = ApplyOptions \<lparr>im_items = cm_New, im_capacity = 0\<rparr> opts in
      if im_capacity b < 0 then Inl ErrInvalidCapacity else Inr b)"

definition InMemory_SetCapacity :: "InMemory \<Rightarrow> int \<Rightarrow> InMemory" where
  "InMemory_SetCapacity b capacity = (if capacity < 0 then b else b\<lparr>im_capacity := capacity\<rparr>)"

definition InMemory_Capacity :: "InMemory \<Rightarrow> int" where
  "InMemory_Capacity b = im_capacity b"

definition InMemory_Count :: "InMemory \<Rightarrow> int" where
  "InMemory_Count b = cm_Count (im_items b)"

definition InMemory_Get :: "(string \<Rightarrow> 32 word) \<Rightarrow> InMemory \<Rightarrow> string \<Rightarrow> (InMemory \<times> Item option) option" where
  "InMemory_Get hash b key = map_option (Pair b) (cm_GetCopy hash (im_items b) key)"

definition InMemory_Touch :: "(string \<Rightarrow> 32 word) \<Rightarrow> int \<Rightarrow> InMemory \<Rightarrow> string \<Rightarrow> (InMemory \<times> bool) option" where
  "InMemory_Touch hash now b key =
     map_option (\<lambda>(m, ok). (b\<lparr>im_items := m\<rparr>, ok)) (cm_Touch hash now (im_items b) key)"

definition InMemory_Set :: "(string \<Rightarrow> 32 word) \<Rightarrow> InMemory \<Rightarrow> Item \<Rightarrow> (InMemory \<times> Item \<times> sentinel option) option" where
  "InMemory_Set hash b item0 = (case Item_Valid item0 of
       (item, Some err) \<Rightarrow> Some (b, ItemPoolManager_Put item, Some err)
     | (item, None) \<Rightarrow> map_option (\<lambda>m. (b\<lparr>im_items := m\<rparr>, item, None)) (cm_Set hash (im_items b) (Key item) item))"

definition InMemory_List :: "((Item \<Rightarrow> Item \<Rightarrow> int) \<Rightarrow> Item list \<Rightarrow> Item list) \<Rightarrow> InMemory \<Rightarrow> IFilter list
    \<Rightarrow> (sentinel + Item list) option" where
  "InMemory_List sortFunc b filters =
     map_option (applyFilters sortFunc filters)
       (cm_All (im_items b) (\<lambda>items _ item. (items @ [item], True)) [])"

primrec removeAll_keys :: "(string \<Rightarrow> 32 word) \<Rightarrow> ConcurrentMap \<Rightarrow> string list \<Rightarrow> ConcurrentMap option" where
  "removeAll_keys hash m [] = Some m"
| "removeAll_keys hash m (key # keys) = Option.bind (cm_Remove hash m key) (\<lambda>m. removeAll_keys hash m keys)"

definition InMemory_Remove :: "(string \<Rightarrow> 32 word) \<Rightarrow> bool \<Rightarrow> InMemory \<Rightarrow> string list
    \<Rightarrow> (InMemory \<times> sentinel option) option" where
  "InMemory_Remove hash cancelled b keys =
     map_option (\<lambda>m. (b\<lparr>im_items := m\<rparr>, if cancelled then Some ErrTimeoutOrCanceled else None))
       (removeAll_keys hash (im_items b) keys)"

definition InMemory_Clear :: "bool \<Rightarrow> InMemory \<Rightarrow> (InMemory \<times> sentinel option) option" where
  "InMemory_Clear cancelled b =
     Some (b\<lparr>im_items := cm_Clear (im_items b)\<rparr>, if cancelled then Some ErrTimeoutOrCanceled else None)"

definition InMemory_backend :: "(string \<Rightarrow> 32 word) \<Rightarrow> ((Item \<Rightarrow> Item \<Rightarrow> int) \<Rightarrow> Item list \<Rightarrow> Item list)
    \<Rightarrow> InMemory IBackend" where
  "InMemory_backend hash sortFunc =
     \<lparr>bk_Get = InMemory_Get hash, bk_Set = InMemory_Set hash, bk_Capacity = InMemory_Capacity,
      bk_SetCapacity = InMemory_SetCapacity, bk_Count = InMemory_Count, bk_Remove = InMemory_Remove hash,
      bk_List = InMemory_List sortFunc, bk_Clear = InMemory_Clear, bk_Touch = Some (InMemory_Touch hash),
      bk_Serializer = None\<rparr>"

section \<open>The contract of a local backend\<close>

text \<open>
  What the cache relies on: the backend is a map of valid items, each under its own key, whose
  operations report panics never, errors only for invalid items and cancelled calls, and which
  counts and lists exactly its items. \<open>lk\<close> is the map.
\<close>

definition lists_map :: "(string \<rightharpoonup> Item) \<Rightarrow> Item list \<Rightarrow> bool" where
  "lists_map m xs \<longleftrightarrow> distinct (map Key xs) \<and> (\<forall>it. it \<in> set xs \<longleftrightarrow> m (Key it) = Some it)"

definition valid_map :: "(string \<rightharpoonup> Item) \<Rightarrow> bool" where
  "valid_map m \<longleftrightarrow> finite (dom m) \<and> (\<forall>k it. m k = Some it \<longrightarrow> Key it = k \<and> Item_Valid it = (it, None))"

locale backend_contract =
  fixes B :: "'b IBackend"
    and inv :: "'b \<Rightarrow> bool"
    and lk :: "'b \<Rightarrow> string \<Rightarrow> Item option"
    and sortFunc :: "(Item \<Rightarrow> Item \<Rightarrow> int) \<Rightarrow> Item list \<Rightarrow> Item list"
  assumes valid_law: "inv b \<Longrightarrow> valid_map (lk b)"
    and get_law: "inv b \<Longrightarrow> bk_Get B b k = Some (b, lk b k)"
    and set_bad_law: "inv b \<Longrightarrow> snd (Item_Valid it) = Some e \<Longrightarrow> bk_Set B b it = Some (b, zero_Item, Some e)"
    and set_law: "inv b \<Longrightarrow> snd (Item_Valid it) = None \<Longrightarrow> \<exists>b'. bk_Set B b it = Some (b', it, None) \<and> inv b' \<and>
      lk b' = (lk b)(Key it \<mapsto> it) \<and> bk_Capacity B b' = bk_Capacity B b"
    and touch_law: "inv b \<Longrightarrow> \<exists>t b'. bk_Touch B = Some t \<and> t now b k = Some (b', lk b k \<noteq> None) \<and> inv b' \<and>
      lk b' = (lk b)(k := map_option (Item_Touch now) (lk b k)) \<and> bk_Capacity B b' = bk_Capacity B b"
    and remove_law: "inv b \<Longrightarrow> \<exists>b'. bk_Remove B c b ks = Some (b', if c then Some ErrTimeoutOrCanceled else None) \<and>
      inv b' \<and> lk b' = (\<lambda>k. if k \<in> set ks then None else lk b k) \<and> bk_Capacity B b' = bk_Capacity B b"
    and clear_law: "inv b \<Longrightarrow> \<exists>b'. bk_Clear B c b = Some (b', if c then Some ErrTimeoutOrCanceled else None) \<and>
      inv b' \<and> lk b' = Map.empty \<and> bk_Capacity B b' = bk_Capacity B b"
    and count_law: "inv b \<Longrightarrow> bk_Count B b = int (card (dom (lk b)))"
    and list_law: "inv b \<Longrightarrow> \<exists>xs. bk_List B b fs = Some (applyFilters sortFunc fs xs) \<and> lists_map (lk b) xs"
    and setcap_law: "inv b \<Longrightarrow> inv (bk_SetCapacity B b n) \<and> lk (bk_SetCapacity B b n) = lk b \<and>
      bk_Capacity B (bk_SetCapacity B b n) = (if n < 0 then bk_Capacity B b else n)"
    and cap_law: "inv b \<Longrightarrow> 0 \<le> bk_Capacity B b"
begin

lemma lk_SomeD: "inv b \<Longrightarrow> lk b k = Some it \<Longrightarrow> Key it = k \<and> 0 \<le> Expiration it \<and> Val it \<noteq> GNil"
  using valid_law [of b] Item_Valid_None [of it] by (auto simp: valid_map_def)

lemma remove1_ok:
  assumes "inv b"
  shows "\<exists>b'. bk_Remove B False b [k] = Some (b', None) \<and> inv b' \<and> lk b' = (lk b)(k := None) \<and>
    bk_Capacity B b' = bk_Capacity B b"
  using remove_law [OF assms, of False "[k]"] by (auto simp: fun_eq_iff)

lemma set_iff:
  assumes "inv b"
  shows "\<exists>b' it' r. bk_Set B b it = Some (b', it', r) \<and> inv b' \<and> bk_Capacity B b' = bk_Capacity B b \<and>
    r = snd (Item_Valid it) \<and> lk b' = (if r = None then (lk b)(Key it \<mapsto> it) else lk b) \<and> (r = None \<longrightarrow> it' = it)"
proof (cases "snd (Item_Valid it)")
  case None
  with set_law [OF assms None] show ?thesis by auto
next
  case (Some e)
  with set_bad_law [OF assms Some] assms show ?thesis by auto
qed

text \<open>Selecting by a sort field and a predicate lists exactly the items that satisfy it.\<close>

lemma list_sorted_selection:
  assumes "inv b" "sortFunc_ok sortFunc" "sorter_less field = Some lt"
  shows "\<exists>ys. bk_List B b [WithSortBy field, WithFilterFunc p] = Some (Inr ys) \<and> distinct (map Key ys) \<and>
    sorted_wrt (\<lambda>a b. \<not> lt b a) ys \<and> (\<forall>it. it \<in> set ys \<longleftrightarrow> lk b (Key it) = Some it \<and> p it)"
proof -
  obtain xs where xs: "bk_List B b [WithSortBy field, WithFilterFunc p] =
      Some (applyFilters sortFunc [WithSortBy field, WithFilterFunc p] xs)" "lists_map (lk b) xs"
    using list_law [OF assms(1)] by blast
  let ?s = "sortFunc (sorter_cmp lt) xs"
  have sb: "sortBy_ApplyFilter sortFunc field xs = Inr ?s"
    by (simp add: sortBy_ApplyFilter_def assms(3))
  note s = sortBy_ok [OF assms(2,3) sb]
  have "mset (map Key ?s) = mset (map Key xs)" using s(1) by simp
  then have "distinct (map Key ?s)" using xs(2) mset_eq_imp_distinct_iff unfolding lists_map_def by blast
  moreover have "set ?s = set xs" using s(1) by (rule mset_eq_setD)
  ultimately show ?thesis using xs sb s(2)
    by (intro exI [of _ "filter p ?s"])
      (auto simp: WithSortBy_def WithFilterFunc_def filterFunc_filter lists_map_def distinct_map_filter sorted_wrt_filter)
qed

end

section \<open>The in-memory backend meets it\<close>

definition im_inv :: "(string \<Rightarrow> 32 word) \<Rightarrow> InMemory \<Rightarrow> bool" where
  "im_inv hash b \<longleftrightarrow> cm_inv hash (im_items b) \<and> valid_map (cm_lookup hash (im_items b)) \<and> 0 \<le> im_capacity b"

definition im_lookup :: "(string \<Rightarrow> 32 word) \<Rightarrow> InMemory \<Rightarrow> string \<Rightarrow> Item option" where
  "im_lookup hash b = cm_lookup hash (im_items b)"

lemma valid_map_upd:
  assumes "valid_map m"
  shows "valid_map (m(k := None))" "snd (Item_Valid it) = None \<Longrightarrow> valid_map (m(Key it \<mapsto> it))"
    "valid_map (m(k := map_option (Item_Touch now) (m k)))"
proof -
  show "valid_map (m(k := None))" using assms by (auto simp: valid_map_def)
  show "valid_map (m(Key it \<mapsto> it))" if "snd (Item_Valid it) = None"
    using assms that Item_Valid_ok [of it] by (cases "Item_Valid it") (auto simp: valid_map_def)
  have "Item_Valid (Item_Touch now it) = (Item_Touch now it, None)" if "Item_Valid it = (it, None)" for it
    using that by (auto simp: Item_Valid_def Item_Touch_def split: if_splits)
  then show "valid_map (m(k := map_option (Item_Touch now) (m k)))"
    using assms by (cases "m k") (auto simp: valid_map_def Item_Touch_def)
qed

lemma removeAll_keys_ok:
  assumes "cm_inv hash m" "valid_map (cm_lookup hash m)"
  shows "\<exists>m'. removeAll_keys hash m ks = Some m' \<and> cm_inv hash m' \<and> valid_map (cm_lookup hash m') \<and>
    cm_lookup hash m' = (\<lambda>k. if k \<in> set ks then None else cm_lookup hash m k)"
  using assms
proof (induction ks arbitrary: m)
  case (Cons k ks)
  obtain m1 where 1: "cm_Remove hash m k = Some m1" "cm_inv hash m1" "cm_lookup hash m1 = (cm_lookup hash m)(k := None)"
    using cmap.remove_ok [OF Cons.prems(1)] by blast
  have "valid_map (cm_lookup hash m1)" unfolding 1(3) by (rule valid_map_upd(1) [OF Cons.prems(2)])
  from Cons.IH [OF 1(2) this] 1 show ?case by (auto simp: fun_eq_iff)
qed simp

lemma InMemory_List_ok:
  assumes "im_inv hash b"
  shows "\<exists>xs. InMemory_List sortFunc b fs = Some (applyFilters sortFunc fs xs) \<and> lists_map (im_lookup hash b) xs"
proof -
  let ?es = "cm_entries (im_items b)"
  have inv: "cm_inv hash (im_items b)" "valid_map (cm_lookup hash (im_items b))"
    using assms by (auto simp: im_inv_def)
  have "fold (\<lambda>(k, v) s. s @ [v]) es acc = acc @ map snd es" for es :: "(string \<times> Item) list" and acc
    by (induction es arbitrary: acc) auto
  then have all: "cm_All (im_items b) (\<lambda>items _ item. (items @ [item], True)) [] = Some (map snd ?es)"
    using cm_All_all [OF inv(1), of _ "\<lambda>acc k v. acc @ [v]"] by simp
  have es: "distinct (map fst ?es)" "\<And>k v. (k, v) \<in> set ?es \<longleftrightarrow> cm_lookup hash (im_items b) k = Some v"
    using cmap.entries_ok [OF inv(1)] by auto
  have keys: "map (Key \<circ> snd) ?es = map fst ?es"
    using es(2) inv(2) by (auto simp: valid_map_def)
  have "(it \<in> snd ` set ?es) \<longleftrightarrow> im_lookup hash b (Key it) = Some it" for it
  proof
    assume "it \<in> snd ` set ?es"
    then obtain k where k: "cm_lookup hash (im_items b) k = Some it" using es(2) by auto
    then have "Key it = k" using inv(2) by (simp add: valid_map_def)
    with k show "im_lookup hash b (Key it) = Some it" by (simp add: im_lookup_def)
  next
    assume "im_lookup hash b (Key it) = Some it"
    then have "(Key it, it) \<in> set ?es" using es(2) by (simp add: im_lookup_def)
    then show "it \<in> snd ` set ?es" by force
  qed
  then have "lists_map (im_lookup hash b) (map snd ?es)"
    unfolding lists_map_def map_map keys set_map using es(1) by simp
  with all show ?thesis by (auto simp: InMemory_List_def)
qed

interpretation inmemory: backend_contract "InMemory_backend hash sortFunc" "im_inv hash" "im_lookup hash" sortFunc
  for hash sortFunc
proof (unfold_locales, goal_cases)
  case (1 b)
  then show ?case by (simp add: im_inv_def im_lookup_def)
next
  case (2 b k)
  then show ?case using cmap.get_ok [of hash "im_items b" k]
    by (simp add: InMemory_backend_def InMemory_Get_def im_inv_def im_lookup_def)
next
  case (3 b it e)
  then show ?case
    by (cases "Item_Valid it") (simp add: InMemory_backend_def InMemory_Set_def ItemPoolManager_Put_def)
next
  case (4 b it)
  then have v: "Item_Valid it = (it, None)" using Item_Valid_ok by (cases "Item_Valid it") auto
  obtain m where m: "cm_Set hash (im_items b) (Key it) it = Some m" "cm_inv hash m"
    "cm_lookup hash m = (cm_lookup hash (im_items b))(Key it \<mapsto> it)"
    using cmap.set_ok 4(1) unfolding im_inv_def by blast
  moreover have "valid_map (cm_lookup hash m)"
    unfolding m(3) using valid_map_upd(2) 4 by (simp add: im_inv_def)
  ultimately show ?case using 4 v
    by (simp add: InMemory_backend_def InMemory_Set_def im_inv_def im_lookup_def InMemory_Capacity_def)
next
  case (5 b now k)
  obtain m where m: "cm_Touch hash now (im_items b) k = Some (m, cm_lookup hash (im_items b) k \<noteq> None)" "cm_inv hash m"
    "cm_lookup hash m = (cm_lookup hash (im_items b))(k := map_option (Item_Touch now) (cm_lookup hash (im_items b) k))"
    using cmap.touch_ok 5 unfolding im_inv_def by blast
  moreover have "valid_map (cm_lookup hash m)"
    unfolding m(3) using valid_map_upd(3) 5 by (simp add: im_inv_def)
  ultimately show ?case using 5
    by (simp add: InMemory_backend_def InMemory_Touch_def im_inv_def im_lookup_def InMemory_Capacity_def)
next
  case (6 b c ks)
  then obtain m where "removeAll_keys hash (im_items b) ks = Some m" "cm_inv hash m" "valid_map (cm_lookup hash m)"
    "cm_lookup hash m = (\<lambda>k. if k \<in> set ks then None else cm_lookup hash (im_items b) k)"
    using removeAll_keys_ok [of hash "im_items b" ks] by (auto simp: im_inv_def)
  with 6 show ?case
    by (simp add: InMemory_backend_def InMemory_Remove_def im_inv_def im_lookup_def InMemory_Capacity_def cong: if_cong)
next
  case (7 b c)
  then show ?case using cmap.clear_ok [of hash "im_items b"]
    by (simp add: InMemory_backend_def InMemory_Clear_def im_inv_def im_lookup_def InMemory_Capacity_def valid_map_def)
next
  case (8 b)
  then show ?case using cmap.count_ok [of hash "im_items b"]
    by (simp add: InMemory_backend_def InMemory_Count_def im_inv_def im_lookup_def)
next
  case (9 b fs)
  then show ?case using InMemory_List_ok by (simp add: InMemory_backend_def)
next
  case (10 b c)
  then show ?case
    by (simp add: InMemory_backend_def InMemory_SetCapacity_def im_inv_def im_lookup_def InMemory_Capacity_def)
next
  case (11 b)
  then show ?case by (simp add: InMemory_backend_def InMemory_Capacity_def im_inv_def)
qed

lemma im_inv_new:
  assumes "NewInMemory [WithCapacity c] = Inr b"
  shows "im_inv hash b" "im_lookup hash b = Map.empty" "im_capacity b = c"
  using assms cm_inv_New [of hash]
  by (auto simp: NewInMemory_def ApplyOptions_def WithCapacity_def setBackendCapacity_def im_inv_def im_lookup_def
      valid_map_def split: if_splits)

text \<open>
  \<open>List\<close> with a sort field, a sort order and a predicate returns exactly the stored items that
  satisfy the predicate, each once, ascending in the field, or descending when the order filter
  asks for it; items with equal fields come in any order. Any correct sort will do.
\<close>

lemma InMemory_List_sorted:
  assumes "sortFunc_ok sortFunc" "im_inv hash b" "sorter_less field = Some lt"
  shows "\<exists>ys. InMemory_List sortFunc b [WithSortBy field, WithSortOrderAsc asc, WithFilterFunc p] = Some (Inr ys) \<and>
    distinct (map Key ys) \<and> sorted_wrt (\<lambda>x y. \<not> (if asc then lt y x else lt x y)) ys \<and>
    (\<forall>it. it \<in> set ys \<longleftrightarrow> im_lookup hash b (Key it) = Some it \<and> p it)"
proof -
  obtain xs where xs: "InMemory_List sortFunc b [WithSortBy field, WithSortOrderAsc asc, WithFilterFunc p] =
      Some (applyFilters sortFunc [WithSortBy field, WithSortOrderAsc asc, WithFilterFunc p] xs)"
    "lists_map (im_lookup hash b) xs"
    using InMemory_List_ok [OF assms(2)] by blast
  let ?s = "sortFunc (sorter_cmp lt) xs"
  let ?ys = "filter p (if asc then ?s else rev ?s)"
  have sb: "sortBy_ApplyFilter sortFunc field xs = Inr ?s"
    by (simp add: sortBy_ApplyFilter_def assms(3))
  note s = sortBy_ok [OF assms(1,3) sb]
  have "mset (map Key ?s) = mset (map Key xs)" using s(1) by simp
  then have "distinct (map Key ?s)" using xs(2) mset_eq_imp_distinct_iff unfolding lists_map_def by blast
  then have "distinct (map Key ?ys)" by (simp add: distinct_map_filter rev_map [symmetric])
  moreover have "set ?s = set xs" using s(1) by (rule mset_eq_setD)
  then have "it \<in> set ?ys \<longleftrightarrow> im_lookup hash b (Key it) = Some it \<and> p it" for it
    using xs(2) by (auto simp: lists_map_def)
  moreover have "sorted_wrt (\<lambda>x y. \<not> (if asc then lt y x else lt x y)) ?ys"
    using s(2) by (auto simp: sorted_wrt_filter sorted_wrt_rev)
  ultimately show ?thesis using xs(1) sb
    by (intro exI [of _ ?ys])
      (simp add: WithSortBy_def WithSortOrderAsc_def WithFilterFunc_def filterFunc_filter sortOrder_rev)
qed

lemma InMemory_example:
  "case InMemory_Set (\<lambda>k. 0) \<lparr>im_items = cm_New, im_capacity = 0\<rparr> (zero_Item\<lparr>Key := ''a'', Val := GOther 7\<rparr>) of
     Some (b, _, None) \<Rightarrow> (case InMemory_Set (\<lambda>k. 0) b (zero_Item\<lparr>Key := ''b'', Val := GOther 2\<rparr>) of
       Some (b, _, None) \<Rightarrow> InMemory_List insertion_sort b
           [WithSortBy ''Key'', WithSortOrderAsc False, WithFilterFunc (\<lambda>_. True)] =
         Some (Inr [zero_Item\<lparr>Key := ''b'', Val := GOther 2\<rparr>, zero_Item\<lparr>Key := ''a'', Val := GOther 7\<rparr>])
     | _ \<Rightarrow> False) | _ \<Rightarrow> False"
  by code_simp

lemma InMemory_List_sorted_example:
  "\<exists>b ys. InMemory_List insertion_sort b [WithSortBy ''Key'', WithSortOrderAsc False, WithFilterFunc (\<lambda>_. True)] =
       Some (Inr ys) \<and> map Key ys = [''b'', ''a''] \<and> sorted_wrt (\<lambda>x y. \<not> str_less (Key x) (Key y)) ys"
proof -
  let ?b = "\<lparr>im_items = cm_New, im_capacity = 0\<rparr>"
  let ?x = "zero_Item\<lparr>Key := ''a'', Val := GOther 7\<rparr>" and ?y = "zero_Item\<lparr>Key := ''b'', Val := GOther 2\<rparr>"
  let ?fs = "[WithSortBy ''Key'', WithSortOrderAsc False, WithFilterFunc (\<lambda>_. True)]"
  have inv: "im_inv (\<lambda>k. 0) ?b"
    using im_inv_new(1) [of 0 ?b "\<lambda>k. 0"]
    by (simp add: NewInMemory_def ApplyOptions_def WithCapacity_def setBackendCapacity_def)
  have ok: "snd (Item_Valid ?x) = None" "snd (Item_Valid ?y) = None" by code_simp+
  obtain b1 where b1: "InMemory_Set (\<lambda>k. 0) ?b ?x = Some (b1, ?x, None)" "im_inv (\<lambda>k. 0) b1"
    using inmemory.set_law [OF inv ok(1), of insertion_sort] by (auto simp: InMemory_backend_def)
  obtain b2 where b2: "InMemory_Set (\<lambda>k. 0) b1 ?y = Some (b2, ?y, None)" "im_inv (\<lambda>k. 0) b2"
    using inmemory.set_law [OF b1(2) ok(2), of insertion_sort] by (auto simp: InMemory_backend_def)
  have run: "InMemory_List insertion_sort b2 ?fs = Some (Inr [?y, ?x])"
    using InMemory_example by (simp add: b1(1) b2(1))
  obtain ys where "InMemory_List insertion_sort b2 ?fs = Some (Inr ys)"
    "sorted_wrt (\<lambda>x y. \<not> (if False then str_less (Key y) (Key x) else str_less (Key x) (Key y))) ys"
    using InMemory_List_sorted [OF insertion_sort_ok b2(2), of "''Key''" "\<lambda>i j. str_less (Key i) (Key j)" False "\<lambda>_. True"]
    by (auto simp: sorter_less_def)
  with run show ?thesis by (intro exI [of _ b2] exI [of _ ys]) simp
qed

end
