(* ===== verification/Stats.thy ===== *)
theory Stats
  imports Complex_Main Prelude
begin

text \<open>
  \<open>pkg/stats\<close>: the registry of collectors and the histogram collector. A counter of type
  \<open>atomic.Int64\<close> that is added to is a 64-bit word; a recorded value is an integer in the range of an
  int64. Floating-point results are the rational numbers they approximate. \<open>record_stat\<close> is one
  call of \<open>record\<close> on its own; \<open>rec_step\<close> interleaves concurrent calls on one shard at the
  granularity of the atomic operations and of the critical section under \<open>samplesMu\<close>.
\<close>

section \<open>State\<close>

definition maxInt64 :: int where "maxInt64 = 2 ^ 63 - 1"
definition minInt64 :: int where "minInt64 = - (2 ^ 63)"

definition wrap64 :: "int \<Rightarrow> int" where
  "wrap64 n = signed_take_bit 63 n"

record statShard =
  st_count :: "64 word"
  st_sum :: "64 word"
  minV :: int
  maxV :: int
  samples :: "int list"
  st_pos :: nat
  written :: nat

record HistogramStatsCollector =
  hs_stats :: "(string, statShard) gomap"
  sampleCap :: nat

record Stat =
  Mean :: rat
  Median :: rat
  Min_v :: int
  Max_v :: int
  Values :: "int list"
  Count_v :: int
  Sum_v :: int
  Variance :: rat

definition DefaultSampleCapacity :: int where
  "DefaultSampleCapacity = 4096"

definition NewHistogramStatsCollectorWithCapacity :: "int \<Rightarrow> HistogramStatsCollector" where
  "NewHistogramStatsCollectorWithCapacity capacity =
     \<lparr>hs_stats = [], sampleCap = nat (if capacity \<le> 0 then DefaultSampleCapacity else capacity)\<rparr>"

definition NewHistogramStatsCollector :: HistogramStatsCollector where
  "NewHistogramStatsCollector = NewHistogramStatsCollectorWithCapacity DefaultSampleCapacity"

definition fresh_shard :: "nat \<Rightarrow> statShard" where
  "fresh_shard cap = \<lparr>st_count = 0, st_sum = 0, minV = maxInt64, maxV = minInt64,
     samples = replicate cap 0, st_pos = 0, written = 0\<rparr>"

definition collector_shard :: "HistogramStatsCollector \<Rightarrow> string \<Rightarrow> HistogramStatsCollector \<times> statShard" where
  "collector_shard c key = (case map_of (hs_stats c) key of
       Some existing \<Rightarrow> (c, existing)
     | None \<Rightarrow> (let fresh = fresh_shard (sampleCap c) in (c\<lparr>hs_stats := gm_set key fresh (hs_stats c)\<rparr>, fresh)))"

section \<open>Recording\<close>

text \<open>The ring write; a panic when the index is out of range or the ring is empty.\<close>

definition write_sample :: "int \<Rightarrow> statShard \<Rightarrow> statShard option" where
  "write_sample value s =
     (if st_pos s < length (samples s) then
        Some (s\<lparr>samples := (samples s)[st_pos s := value],
                st_pos := (st_pos s + 1) mod length (samples s),
                written := (if written s < length (samples s) then written s + 1 else written s)\<rparr>)
      else None)"

definition record_shard :: "bool \<Rightarrow> int \<Rightarrow> statShard \<Rightarrow> statShard option" where
  "record_shard contended value s0 =
     (let s1 = s0\<lparr>st_count := st_count s0 + 1\<rparr>;
          s2 = s1\<lparr>st_sum := st_sum s1 + word_of_int value\<rparr>;
          s3 = (if value \<ge> minV s2 then s2 else s2\<lparr>minV := value\<rparr>);
          s4 = (if value \<le> maxV s3 then s3 else s3\<lparr>maxV := value\<rparr>)
      in if contended then Some s4 else write_sample value s4)"

definition record_stat :: "bool \<Rightarrow> HistogramStatsCollector \<Rightarrow> string \<Rightarrow> int \<Rightarrow> HistogramStatsCollector option" where
  "record_stat contended c0 key value = (case collector_shard c0 key of (c, shard) \<Rightarrow>
     map_option (\<lambda>shard'. c\<lparr>hs_stats := gm_set key shard' (hs_stats c)\<rparr>) (record_shard contended value shard))"

definition stat_Incr :: "bool \<Rightarrow> HistogramStatsCollector \<Rightarrow> string \<Rightarrow> int \<Rightarrow> HistogramStatsCollector option" where
  "stat_Incr contended c stat value = record_stat contended c stat value"

definition stat_Decr :: "bool \<Rightarrow> HistogramStatsCollector \<Rightarrow> string \<Rightarrow> int \<Rightarrow> HistogramStatsCollector option" where
  "stat_Decr contended c stat value = record_stat contended c stat (wrap64 (- value))"

definition stat_Timing :: "bool \<Rightarrow> HistogramStatsCollector \<Rightarrow> string \<Rightarrow> int \<Rightarrow> HistogramStatsCollector option" where
  "stat_Timing contended c stat value = record_stat contended c stat value"

definition stat_Gauge :: "bool \<Rightarrow> HistogramStatsCollector \<Rightarrow> string \<Rightarrow> int \<Rightarrow> HistogramStatsCollector option" where
  "stat_Gauge contended c stat value = record_stat contended c stat value"

definition stat_Histogram :: "bool \<Rightarrow> HistogramStatsCollector \<Rightarrow> string \<Rightarrow> int \<Rightarrow> HistogramStatsCollector option" where
  "stat_Histogram contended c stat value = record_stat contended c stat value"

section \<open>Reading\<close>

definition snapshot_window :: "statShard \<Rightarrow> int list" where
  "snapshot_window s =
     (if written s < length (samples s) then take (written s) (samples s)
      else drop (st_pos s) (samples s) @ take (st_pos s) (samples s))"

definition snapshotSorted :: "statShard \<Rightarrow> int list" where
  "snapshotSorted s = sort (snapshot_window s)"

definition medianOf :: "int list \<Rightarrow> rat" where
  "medianOf xs =
     (let n = length xs in
      if n = 0 then 0
      else if n mod 2 = 1 then of_int (xs ! (n div 2))
      else of_int (wrap64 (xs ! (n div 2 - 1) + xs ! (n div 2))) / 2)"

definition percentileOf :: "int list \<Rightarrow> rat \<Rightarrow> rat" where
  "percentileOf xs percentile =
     (let n = length xs in
      if n = 0 then 0
      else if percentile \<le> 0 then of_int (xs ! 0)
      else if percentile \<ge> 1 then of_int (xs ! (n - 1))
      else let idx = nat \<lfloor>of_nat n * percentile\<rfloor>;
               idx' = (if idx \<ge> n then n - 1 else idx)
           in of_int (xs ! idx'))"

definition varianceOf :: "int list \<Rightarrow> rat \<Rightarrow> rat" where
  "varianceOf values mean =
     (if length values = 0 then 0
      else fold (\<lambda>value acc. let diff = of_int value - mean in acc + diff * diff) values 0 / of_nat (length values))"

definition collector_Mean :: "HistogramStatsCollector \<Rightarrow> string \<Rightarrow> HistogramStatsCollector \<times> rat" where
  "collector_Mean c stat = (case collector_shard c stat of (c', shard) \<Rightarrow>
     (c', if st_count shard = 0 then 0 else of_int (sint (st_sum shard)) / of_int (sint (st_count shard))))"

definition collector_Median :: "HistogramStatsCollector \<Rightarrow> string \<Rightarrow> HistogramStatsCollector \<times> rat" where
  "collector_Median c stat = (case collector_shard c stat of (c', shard) \<Rightarrow> (c', medianOf (snapshotSorted shard)))"

definition collector_Percentile :: "HistogramStatsCollector \<Rightarrow> string \<Rightarrow> rat \<Rightarrow> HistogramStatsCollector \<times> rat" where
  "collector_Percentile c stat percentile =
     (case collector_shard c stat of (c', shard) \<Rightarrow> (c', percentileOf (snapshotSorted shard) percentile))"

definition shard_Stat :: "statShard \<Rightarrow> Stat" where
  "shard_Stat shard =
     (let sum = sint (st_sum shard); xs = snapshotSorted shard;
          mean = of_int sum / of_int (sint (st_count shard))
      in \<lparr>Mean = mean, Median = medianOf xs, Min_v = minV shard, Max_v = maxV shard, Values = xs,
          Count_v = sint (st_count shard), Sum_v = sum, Variance = varianceOf xs mean\<rparr>)"

definition GetStats :: "HistogramStatsCollector \<Rightarrow> (string, Stat) gomap" where
  "GetStats c = fold (\<lambda>(k, shard) out. if st_count shard = 0 then out else gm_set k (shard_Stat shard) out) (hs_stats c) []"

section \<open>The registry\<close>

type_synonym CollectorRegistry = "(string, sentinel + HistogramStatsCollector) gomap"

definition NewEmptyCollectorRegistry :: CollectorRegistry where
  "NewEmptyCollectorRegistry = []"

definition collectors_Register :: "CollectorRegistry \<Rightarrow> string \<Rightarrow> (sentinel + HistogramStatsCollector) \<Rightarrow> CollectorRegistry" where
  "collectors_Register r name create = gm_set name create r"

definition NewCollectorRegistry :: CollectorRegistry where
  "NewCollectorRegistry = collectors_Register [] ''default'' (Inr NewHistogramStatsCollector)"

definition registry_NewCollector :: "CollectorRegistry \<Rightarrow> string \<Rightarrow> sentinel + HistogramStatsCollector" where
  "registry_NewCollector r name =
     (if name = '''' then Inl ErrParamCannotBeEmpty
      else case map_of r name of None \<Rightarrow> Inl ErrStatsCollectorNotFound | Some create \<Rightarrow> create)"

definition NewCollector :: "string \<Rightarrow> sentinel + HistogramStatsCollector" where
  "NewCollector name = registry_NewCollector NewCollectorRegistry name"

section \<open>Concurrent recorders\<close>

datatype rec_pc = RCount | RSum | RMinLoad | RMinCas int | RMaxLoad | RMaxCas int | RTryLock | RSample | RUnlock | RDone

record recorder =
  rc_value :: int
  rc_pc :: rec_pc

definition goto :: "rec_pc \<Rightarrow> recorder \<Rightarrow> recorder" where
  "goto pc t = t\<lparr>rc_pc := pc\<rparr>"

lemma goto_sel [simp]: "rc_value (goto pc t) = rc_value t" "rc_pc (goto pc t) = pc"
  by (simp_all add: goto_def)

text \<open>One atomic step of a recorder on the shard and its mutex; \<open>None\<close> when it has returned.\<close>

fun recorder_step :: "statShard \<Rightarrow> bool \<Rightarrow> recorder \<Rightarrow> rec_pc \<Rightarrow> (statShard \<times> bool \<times> recorder) option" where
  "recorder_step s l t RCount = Some (s\<lparr>st_count := st_count s + 1\<rparr>, l, goto RSum t)"
| "recorder_step s l t RSum = Some (s\<lparr>st_sum := st_sum s + word_of_int (rc_value t)\<rparr>, l, goto RMinLoad t)"
| "recorder_step s l t RMinLoad =
     Some (s, l, goto (if rc_value t \<ge> minV s then RMaxLoad else RMinCas (minV s)) t)"
| "recorder_step s l t (RMinCas cur) =
     (if minV s = cur then Some (s\<lparr>minV := rc_value t\<rparr>, l, goto RMaxLoad t) else Some (s, l, goto RMinLoad t))"
| "recorder_step s l t RMaxLoad =
     Some (s, l, goto (if rc_value t \<le> maxV s then RTryLock else RMaxCas (maxV s)) t)"
| "recorder_step s l t (RMaxCas cur) =
     (if maxV s = cur then Some (s\<lparr>maxV := rc_value t\<rparr>, l, goto RTryLock t) else Some (s, l, goto RMaxLoad t))"
| "recorder_step s l t RTryLock = (if l then Some (s, l, goto RDone t) else Some (s, True, goto RSample t))"
| "recorder_step s l t RSample = map_option (\<lambda>s'. (s', l, goto RUnlock t)) (write_sample (rc_value t) s)"
| "recorder_step s l t RUnlock = Some (s, False, goto RDone t)"
| "recorder_step s l t RDone = None"

inductive rec_step :: "statShard \<times> bool \<times> recorder list \<Rightarrow> statShard \<times> bool \<times> recorder list \<Rightarrow> bool" where
  rec_step: "i < length ts \<Longrightarrow> recorder_step s l (ts ! i) (rc_pc (ts ! i)) = Some (s', l', t') \<Longrightarrow>
    rec_step (s, l, ts) (s', l', ts[i := t'])"

inductive_cases rec_stepE: "rec_step (s, l, ts) c"

definition start_recorder :: "int \<Rightarrow> recorder" where
  "start_recorder v = \<lparr>rc_value = v, rc_pc = RCount\<rparr>"

text \<open>What a recorder has contributed by the time it stands at a program point.\<close>

fun counted :: "rec_pc \<Rightarrow> bool" where
  "counted RCount = False" | "counted _ = True"

fun summed :: "rec_pc \<Rightarrow> bool" where
  "summed RCount = False" | "summed RSum = False" | "summed _ = True"

fun minned :: "rec_pc \<Rightarrow> bool" where
  "minned RMaxLoad = True" | "minned (RMaxCas _) = True" | "minned RTryLock = True" | "minned RSample = True"
| "minned RUnlock = True" | "minned RDone = True" | "minned _ = False"

fun maxed :: "rec_pc \<Rightarrow> bool" where
  "maxed RTryLock = True" | "maxed RSample = True" | "maxed RUnlock = True" | "maxed RDone = True" | "maxed _ = False"

fun in_section :: "rec_pc \<Rightarrow> bool" where
  "in_section RSample = True" | "in_section RUnlock = True" | "in_section _ = False"

fun cas_ok :: "recorder \<Rightarrow> rec_pc \<Rightarrow> bool" where
  "cas_ok t (RMinCas cur) = (rc_value t < cur)"
| "cas_ok t (RMaxCas cur) = (cur < rc_value t)"
| "cas_ok t _ = True"

definition tally :: "(recorder \<Rightarrow> 'a::ab_group_add) \<Rightarrow> (rec_pc \<Rightarrow> bool) \<Rightarrow> recorder list \<Rightarrow> 'a" where
  "tally f p ts = sum_list (map (\<lambda>t. if p (rc_pc t) then f t else 0) ts)"

definition reached :: "(rec_pc \<Rightarrow> bool) \<Rightarrow> recorder list \<Rightarrow> int set" where
  "reached p ts = rc_value ` {t \<in> set ts. p (rc_pc t)}"

definition ring_ok :: "statShard \<Rightarrow> bool" where
  "ring_ok s \<longleftrightarrow> st_pos s < length (samples s) \<and> written s \<le> length (samples s)"

definition rec_inv :: "statShard \<times> bool \<times> recorder list \<Rightarrow> bool" where
  "rec_inv = (\<lambda>(s, l, ts).
     st_count s = tally (\<lambda>_. 1) counted ts \<and> st_sum s = tally (\<lambda>t. word_of_int (rc_value t)) summed ts \<and>
     minV s = Min (insert maxInt64 (reached minned ts)) \<and> maxV s = Max (insert minInt64 (reached maxed ts)) \<and>
     tally (\<lambda>_. 1 :: int) in_section ts = of_bool l \<and> (\<forall>t \<in> set ts. cas_ok t (rc_pc t)) \<and> ring_ok s)"

section \<open>Exactness under interleaving\<close>

lemma tally_simps [simp]:
  "tally f p [] = 0" "tally f p (t # ts) = (if p (rc_pc t) then f t else 0) + tally f p ts"
  "tally f p (ts @ us) = tally f p ts + tally f p us"
  by (simp_all add: tally_def)

lemma reached_simps [simp]:
  "reached p [] = {}" "reached p (t # ts) = (if p (rc_pc t) then insert (rc_value t) (reached p ts) else reached p ts)"
  "reached p (ts @ us) = reached p ts \<union> reached p us"
  by (auto simp: reached_def)

lemma split_at:
  assumes "i < length ts"
  obtains as t bs where "ts = as @ t # bs" "length as = i" "ts ! i = t" "\<And>u. ts[i := u] = as @ u # bs"
proof
  show "ts = take i ts @ ts ! i # drop (Suc i) ts" using assms by (rule id_take_nth_drop)
  show "length (take i ts) = i" using assms by simp
  show "ts[i := u] = take i ts @ u # drop (Suc i) ts" for u using assms by (rule upd_conv_take_nth_drop)
qed simp

lemma tally_goto:
  assumes "i < length ts"
  shows "tally f p (ts[i := goto pc (ts ! i)]) =
    tally f p ts + (if p pc then f (goto pc (ts ! i)) else 0) - (if p (rc_pc (ts ! i)) then f (ts ! i) else 0)"
  by (rule split_at [OF assms]) (simp add: goto_def algebra_simps)

lemma reached_goto:
  assumes "i < length ts" "p (rc_pc (ts ! i)) \<longrightarrow> p pc"
  shows "reached p (ts[i := goto pc (ts ! i)]) = (if p pc then insert (rc_value (ts ! i)) (reached p ts) else reached p ts)"
  by (rule split_at [OF assms(1)]) (use assms(2) in \<open>auto simp: goto_def\<close>)

lemma reached_again: "i < length ts \<Longrightarrow> p (rc_pc (ts ! i)) \<Longrightarrow> insert (rc_value (ts ! i)) (reached p ts) = reached p ts"
  by (rule insert_absorb) (auto simp: reached_def)

lemma finite_reached [simp]: "finite (reached p ts)"
  by (simp add: reached_def)

lemma Min_insert_le: "finite A \<Longrightarrow> (v::int) \<ge> Min (insert x A) \<Longrightarrow> Min (insert x (insert v A)) = Min (insert x A)"
  by (metis Min_insert finite_insert insert_commute insert_not_empty min.absorb2)

lemma Min_insert_less: "finite A \<Longrightarrow> (v::int) < Min (insert x A) \<Longrightarrow> Min (insert x (insert v A)) = v"
  by (metis Min_insert finite_insert insert_commute insert_not_empty less_imp_le min.absorb1)

lemma Max_insert_ge: "finite A \<Longrightarrow> (v::int) \<le> Max (insert x A) \<Longrightarrow> Max (insert x (insert v A)) = Max (insert x A)"
  by (metis Max_insert finite_insert insert_commute insert_not_empty max.absorb2)

lemma Max_insert_greater: "finite A \<Longrightarrow> (v::int) > Max (insert x A) \<Longrightarrow> Max (insert x (insert v A)) = v"
  by (metis Max_insert finite_insert insert_commute insert_not_empty less_imp_le max.absorb1)

lemma tally_in_section_nonneg: "0 \<le> tally (\<lambda>_. 1 :: int) p ts"
  unfolding tally_def by (rule sum_list_nonneg) auto

lemma tally_member:
  assumes "i < length ts" "p (rc_pc (ts ! i))"
  shows "1 \<le> tally (\<lambda>_. 1 :: int) p ts"
  by (rule split_at [OF assms(1)]) (use assms(2) tally_in_section_nonneg in \<open>force simp: add_nonneg_nonneg\<close>)

lemma write_sample_ok:
  assumes "ring_ok s"
  shows "\<exists>s'. write_sample v s = Some s' \<and> ring_ok s' \<and> length (samples s') = length (samples s) \<and>
    st_count s' = st_count s \<and> st_sum s' = st_sum s \<and> minV s' = minV s \<and> maxV s' = maxV s"
proof -
  have "0 < length (samples s)" using assms by (cases "samples s") (auto simp: ring_ok_def)
  then have "Suc (st_pos s) mod length (samples s) < length (samples s)" by simp
  with assms show ?thesis by (auto simp: write_sample_def ring_ok_def)
qed

lemma cas_ok_update:
  assumes "\<forall>t \<in> set ts. cas_ok t (rc_pc t)" "cas_ok t' (rc_pc t')"
  shows "\<forall>t \<in> set (ts[i := t']). cas_ok t (rc_pc t)"
  using assms set_update_subset_insert [of ts i t'] by blast

lemma rec_inv_step:
  assumes "rec_inv (s, l, ts)" "rec_step (s, l, ts) c"
  shows "rec_inv c"
proof -
  obtain i s' l' t' where 1: "c = (s', l', ts[i := t'])" "i < length ts"
    "recorder_step s l (ts ! i) (rc_pc (ts ! i)) = Some (s', l', t')"
    using assms(2) by (cases rule: rec_stepE) blast
  let ?t = "ts ! i"
  have inv: "st_count s = tally (\<lambda>_. 1) counted ts" "st_sum s = tally (\<lambda>t. word_of_int (rc_value t)) summed ts"
    "minV s = Min (insert maxInt64 (reached minned ts))" "maxV s = Max (insert minInt64 (reached maxed ts))"
    "tally (\<lambda>_. 1 :: int) in_section ts = of_bool l" "\<forall>t \<in> set ts. cas_ok t (rc_pc t)" "ring_ok s"
    using assms(1) by (auto simp: rec_inv_def)
  have cas: "cas_ok ?t (rc_pc ?t)" using inv(6) 1(2) by simp
  note step = 1(3)
  obtain sw where sw: "write_sample (rc_value ?t) s = Some sw" "ring_ok sw" "st_count sw = st_count s" "st_sum sw = st_sum s"
    "minV sw = minV s" "maxV sw = maxV s" using write_sample_ok [OF inv(7)] by blast
  have sec: "in_section (rc_pc ?t) \<Longrightarrow> l" using tally_member [OF 1(2), of in_section] inv(5) by (cases l) auto
  obtain pc where pc: "t' = goto pc ?t" using step by (cases "rc_pc ?t") (auto split: if_splits)
  have "cas_ok t' (rc_pc t')" using step cas by (cases "rc_pc ?t") (auto simp: goto_def split: if_splits)
  note c6 = cas_ok_update [OF inv(6) this, of i]
  have c7: "ring_ok s'" using step inv(7) sw(1,2) by (cases "rc_pc ?t") (auto simp: ring_ok_def split: if_splits)
  have c1: "st_count s' = tally (\<lambda>_. 1) counted (ts[i := t'])"
    using step inv(1) sw(1,3) by (cases "rc_pc ?t") (auto simp: tally_goto [OF 1(2)] split: if_splits)
  have c2: "st_sum s' = tally (\<lambda>t. word_of_int (rc_value t)) summed (ts[i := t'])"
    using step inv(2) sw(1,4) by (cases "rc_pc ?t") (auto simp: tally_goto [OF 1(2)] split: if_splits)
  have c5: "tally (\<lambda>_. 1 :: int) in_section (ts[i := t']) = of_bool l'"
    using step inv(5) sw(1) sec by (cases "rc_pc ?t") (auto simp: tally_goto [OF 1(2)] split: if_splits)
  have c3: "minV s' = Min (insert maxInt64 (reached minned (ts[i := t'])))"
    using step inv(3) sw(1,5) cas
    by (cases "rc_pc ?t") (auto simp: reached_goto [OF 1(2)] reached_again [OF 1(2)] Min_insert_le Min_insert_less simp del: Min_insert Min.insert split: if_splits)
  have c4: "maxV s' = Max (insert minInt64 (reached maxed (ts[i := t'])))"
    using step inv(4) sw(1,6) cas
    by (cases "rc_pc ?t") (auto simp: reached_goto [OF 1(2)] reached_again [OF 1(2)] Max_insert_ge Max_insert_greater simp del: Max_insert Max.insert split: if_splits)
  show ?thesis unfolding 1(1) rec_inv_def using c1 c2 c3 c4 c5 c6 c7 by simp
qed

lemma rec_inv_reachable: "rec_step\<^sup>*\<^sup>* c c' \<Longrightarrow> rec_inv c \<Longrightarrow> rec_inv c'"
proof (induction rule: rtranclp_induct)
  case (step d e)
  then show ?case using rec_inv_step by (cases d) auto
qed

lemma tally_start: "\<not> p RCount \<Longrightarrow> tally f p (map start_recorder vs) = 0"
  by (induction vs) (auto simp: start_recorder_def)

lemma rec_inv_start:
  assumes "0 < cap"
  shows "rec_inv (fresh_shard cap, False, map start_recorder vs)"
proof -
  have "reached p (map start_recorder vs) = {}" if "\<not> p RCount" for p
    using that by (auto simp: reached_def start_recorder_def)
  then show ?thesis using assms
    by (auto simp: rec_inv_def fresh_shard_def ring_ok_def tally_start) (simp_all add: start_recorder_def)
qed

lemma rec_step_values: "rec_step\<^sup>*\<^sup>* c c' \<Longrightarrow> map rc_value (snd (snd c')) = map rc_value (snd (snd c))"
proof (induction rule: rtranclp_induct)
  case (step d e)
  obtain s l ts where d: "d = (s, l, ts)" by (cases d)
  obtain i s' l' t' where 1: "e = (s', l', ts[i := t'])" "i < length ts"
    "recorder_step s l (ts ! i) (rc_pc (ts ! i)) = Some (s', l', t')"
    using step(2) unfolding d by (cases rule: rec_stepE) blast
  then have "rc_value t' = rc_value (ts ! i)" by (cases "rc_pc (ts ! i)") (auto split: if_splits)
  with 1 have "map rc_value (snd (snd e)) = map rc_value ts" by (simp add: map_update list_update_same_conv)
  with step(3) d show ?case by simp
qed simp

lemma tally_done:
  "\<forall>t \<in> set ts. rc_pc t = RDone \<Longrightarrow> p RDone \<Longrightarrow> tally f p ts = sum_list (map f ts)"
  by (induction ts) (auto simp: tally_def)

lemma reached_done: "\<forall>t \<in> set ts. rc_pc t = RDone \<Longrightarrow> p RDone \<Longrightarrow> reached p ts = set (map rc_value ts)"
  by (auto simp: reached_def)

text \<open>
  C6. However any number of calls of \<open>record\<close> on one statistic interleave, once all have returned the
  count is the number of calls, the sum is the sum of their values (as an int64), and minimum and
  maximum are those of the values: no update is lost to a race. The mutex is free again, and no
  write left the sample ring.
\<close>

theorem record_concurrent_exact:
  assumes "rec_step\<^sup>*\<^sup>* (fresh_shard cap, False, map start_recorder vs) (s, l, ts)"
    and "\<forall>t \<in> set ts. rc_pc t = RDone" and "0 < cap" and "vs \<noteq> []"
    and "\<forall>v \<in> set vs. minInt64 \<le> v \<and> v \<le> maxInt64"
  shows "st_count s = of_nat (length vs) \<and> st_sum s = word_of_int (sum_list vs) \<and>
    minV s = Min (set vs) \<and> maxV s = Max (set vs) \<and> \<not> l \<and> ring_ok s"
proof -
  have inv: "rec_inv (s, l, ts)" using rec_inv_reachable [OF assms(1) rec_inv_start [OF assms(3)]] .
  have vs: "map rc_value ts = vs" using rec_step_values [OF assms(1)] by (simp add: start_recorder_def comp_def)
  then have len: "length ts = length vs" by (metis length_map)
  have "sum_list (map (\<lambda>t. word_of_int (rc_value t)) ts) = (word_of_int (sum_list (map rc_value ts)) :: 64 word)"
    by (induction ts) auto
  then have sm: "st_sum s = word_of_int (sum_list vs)"
    using inv vs tally_done [OF assms(2), of summed "\<lambda>t. word_of_int (rc_value t) :: 64 word"] by (simp add: rec_inv_def)
  have "sum_list (map (\<lambda>_. 1 :: 64 word) ts) = of_nat (length ts)" by (induction ts) auto
  then have cnt: "st_count s = of_nat (length vs)"
    using inv len tally_done [OF assms(2), of counted "\<lambda>_. 1 :: 64 word"] by (simp add: rec_inv_def)
  have "minV s = Min (insert maxInt64 (set vs))" "maxV s = Max (insert minInt64 (set vs))"
    using inv reached_done [OF assms(2), of minned] reached_done [OF assms(2), of maxed]
    by (simp_all add: rec_inv_def vs [symmetric])
  moreover have "Min (set vs) \<le> maxInt64" "minInt64 \<le> Max (set vs)"
    using assms(5) Min_in [of "set vs"] Max_in [of "set vs"] assms(4) by auto
  ultimately have ext: "minV s = Min (set vs)" "maxV s = Max (set vs)"
    using assms(4) Min_insert [of "set vs" maxInt64] Max_insert [of "set vs" minInt64] by (metis List.finite_set min.absorb2 set_empty, metis List.finite_set max.absorb2 set_empty)
  have "tally (\<lambda>_. 1 :: int) in_section ts = 0" using assms(2) by (induction ts) auto
  then have "\<not> l \<and> ring_ok s" using inv by (auto simp: rec_inv_def)
  with sm cnt ext show ?thesis by blast
qed

text \<open>Executing a schedule, the list of the recorders that move.\<close>

fun run_schedule :: "nat list \<Rightarrow> statShard \<times> bool \<times> recorder list \<Rightarrow> (statShard \<times> bool \<times> recorder list) option" where
  "run_schedule [] c = Some c"
| "run_schedule (i # is) (s, l, ts) =
     (if i < length ts then
        (case recorder_step s l (ts ! i) (rc_pc (ts ! i)) of
           None \<Rightarrow> None
         | Some (s', l', t') \<Rightarrow> run_schedule is (s', l', ts[i := t']))
      else None)"

lemma run_schedule_steps: "run_schedule is c = Some c' \<Longrightarrow> rec_step\<^sup>*\<^sup>* c c'"
proof (induction "is" c rule: run_schedule.induct)
  case (2 i "is" s l ts)
  then obtain s' l' t' where 1: "i < length ts" "recorder_step s l (ts ! i) (rc_pc (ts ! i)) = Some (s', l', t')"
    "run_schedule is (s', l', ts[i := t']) = Some c'" by (auto split: if_splits option.splits)
  from 2(1) [OF 1(1,2) refl refl 1(3)] have "rec_step\<^sup>*\<^sup>* (s', l', ts[i := t']) c'" .
  with rec_step.intros [OF 1(1,2)] show ?case by (rule converse_rtranclp_into_rtranclp)
qed simp

text \<open>Two recorders whose minimum updates race: the second loses its compare-and-swap and retries.\<close>

lemma schedule_example:
  "case run_schedule [0,0,0,1,1,1,1,0,0,0,0,0,0,0,0,1,1,1,1,1] (fresh_shard 2, False, map start_recorder [3, 7]) of
     None \<Rightarrow> False | Some (s, l, ts) \<Rightarrow> (\<forall>t \<in> set ts. rc_pc t = RDone)"
  by code_simp

theorem record_concurrent_exact_witness:
  "\<exists>s l ts. rec_step\<^sup>*\<^sup>* (fresh_shard 2, False, map start_recorder [3, 7]) (s, l, ts) \<and>
     st_count s = 2 \<and> st_sum s = 10 \<and> minV s = 3 \<and> maxV s = 7"
proof -
  obtain s l ts where run: "run_schedule [0,0,0,1,1,1,1,0,0,0,0,0,0,0,0,1,1,1,1,1]
      (fresh_shard 2, False, map start_recorder [3, 7]) = Some (s, l, ts)" and fin: "\<forall>t \<in> set ts. rc_pc t = RDone"
    using schedule_example by (auto simp del: run_schedule.simps split: option.splits prod.splits)
  from record_concurrent_exact [OF run_schedule_steps [OF run] fin] run_schedule_steps [OF run]
  show ?thesis by (intro exI [of _ s] exI [of _ l] exI [of _ ts]) (simp add: minInt64_def maxInt64_def)
qed

section \<open>The sample window\<close>

definition recent :: "nat \<Rightarrow> int list \<Rightarrow> int list" where
  "recent n xs = drop (length xs - n) xs"

text \<open>The ring holds the most recent values, oldest first from the write position.\<close>

definition window_ok :: "nat \<Rightarrow> int list \<Rightarrow> statShard \<Rightarrow> bool" where
  "window_ok cap vs s \<longleftrightarrow> 0 < cap \<and> length (samples s) = cap \<and> written s = min cap (length vs) \<and>
     st_pos s = length vs mod cap \<and> snapshot_window s = recent cap vs"

lemma write_sample_window:
  assumes "window_ok cap vs s"
  shows "\<exists>s'. write_sample v s = Some s' \<and> window_ok cap (vs @ [v]) s'"
proof -
  have cap: "0 < cap" and len: "length (samples s) = cap" and w: "written s = min cap (length vs)"
    and p: "st_pos s = length vs mod cap" and win: "snapshot_window s = recent cap vs"
    using assms by (auto simp: window_ok_def)
  have pos: "st_pos s < cap" using p cap by simp
  let ?s = "s\<lparr>samples := (samples s)[st_pos s := v], st_pos := (st_pos s + 1) mod cap,
    written := (if written s < cap then written s + 1 else written s)\<rparr>"
  have ws: "write_sample v s = Some ?s" using pos len by (simp add: write_sample_def)
  have "snapshot_window ?s = recent cap (vs @ [v])"
  proof (cases "length vs < cap")
    case True
    then have st: "st_pos s = length vs" "take (length vs) (samples s) = vs"
      using p w len win by (auto simp: snapshot_window_def recent_def)
    then have upd: "take (Suc (length vs)) ((samples s)[length vs := v]) = vs @ [v]"
      using True len by (simp add: take_Suc_conv_app_nth)
    show ?thesis
    proof (cases "Suc (length vs) < cap")
      case True
      with upd st w len show ?thesis by (simp add: snapshot_window_def recent_def)
    next
      case False
      with \<open>length vs < cap\<close> have "cap = Suc (length vs)" by simp
      with upd st w len show ?thesis by (simp add: snapshot_window_def recent_def)
    qed
  next
    case False
    then have full: "drop (st_pos s) (samples s) @ take (st_pos s) (samples s) = recent cap vs"
      using win w len by (simp add: snapshot_window_def)
    obtain a x b where split: "samples s = a @ x # b" "length a = st_pos s"
      using pos len id_take_nth_drop [of "st_pos s" "samples s"] by (metis length_take min.absorb4)
    have rot: "recent cap vs = x # b @ a" using full split by simp
    have "recent cap (vs @ [v]) = tl (recent cap vs) @ [v]"
      using False cap by (simp add: recent_def Suc_diff_le tl_drop drop_Suc [symmetric] flip: drop_Suc)
    then have rec: "recent cap (vs @ [v]) = b @ a @ [v]" using rot by simp
    show ?thesis
    proof (cases "Suc (st_pos s) = cap")
      case True
      then have "b = []" using split len by (cases b) simp_all
      with True False rec split(1) w len show ?thesis by (simp add: snapshot_window_def flip: split(2))
    next
      case neq: False
      then have "Suc (st_pos s) < cap" using pos by simp
      with False rec split(1) w len show ?thesis by (simp add: snapshot_window_def flip: split(2))
    qed
  qed
  moreover have "(st_pos s + 1) mod cap = length (vs @ [v]) mod cap" using p by (simp add: mod_Suc_eq)
  moreover have "(if written s < cap then written s + 1 else written s) = min cap (length (vs @ [v]))" using w by auto
  ultimately show ?thesis using ws cap len by (simp add: window_ok_def)
qed

primrec record_all :: "int list \<Rightarrow> statShard \<Rightarrow> statShard option" where
  "record_all [] s = Some s"
| "record_all (v # vs) s = Option.bind (record_shard False v s) (record_all vs)"

lemma window_ok_same:
  "samples s' = samples s \<Longrightarrow> st_pos s' = st_pos s \<Longrightarrow> written s' = written s \<Longrightarrow> window_ok cap vs s \<Longrightarrow> window_ok cap vs s'"
proof -
  assume same: "samples s' = samples s" "st_pos s' = st_pos s" "written s' = written s" and "window_ok cap vs s"
  moreover have "snapshot_window s' = snapshot_window s" by (simp add: snapshot_window_def same)
  ultimately show ?thesis by (simp add: window_ok_def)
qed

lemma record_all_window:
  "window_ok cap us s \<Longrightarrow> \<exists>s'. record_all vs s = Some s' \<and> window_ok cap (us @ vs) s'"
proof (induction vs arbitrary: us s)
  case (Cons v vs)
  let ?s = "s\<lparr>st_count := st_count s + 1, st_sum := st_sum s + word_of_int v,
    minV := (if v \<ge> minV s then minV s else v), maxV := (if v \<le> maxV s then maxV s else v)\<rparr>"
  have "window_ok cap us ?s" by (rule window_ok_same [OF _ _ _ Cons.prems]) simp_all
  then obtain s1 where s1: "write_sample v ?s = Some s1" "window_ok cap (us @ [v]) s1"
    using write_sample_window by blast
  have "record_shard False v s = write_sample v ?s"
    by (auto simp: record_shard_def Let_def)
  with s1 Cons.IH [OF s1(2)] show ?case by simp
qed simp

text \<open>
  The sample ring: after any sequence of uncontended calls of \<open>record\<close> on a new statistic, none of
  which panics, the snapshot is the sorted list of exactly the last \<open>sampleCap\<close> values, and of all
  of them while there are fewer.
\<close>

lemma snapshot_is_recent_window:
  assumes "0 < cap"
  shows "\<exists>s. record_all vs (fresh_shard cap) = Some s \<and> snapshotSorted s = sort (recent cap vs)"
proof -
  have "window_ok cap [] (fresh_shard cap)"
    using assms by (simp add: window_ok_def fresh_shard_def snapshot_window_def recent_def)
  from record_all_window [OF this, of vs] show ?thesis by (auto simp: window_ok_def snapshotSorted_def)
qed

lemma snapshot_is_recent_window_example:
  "\<exists>s. record_all [9, 4, 7, 1] (fresh_shard 3) = Some s \<and> snapshotSorted s = [1, 4, 7]"
  using snapshot_is_recent_window [of 3 "[9, 4, 7, 1]"] by (simp add: recent_def)

text \<open>
  \<open>medianOf\<close> adds the two middle values in int64: for an even number of samples above \<open>2 ^ 62\<close> the sum
  wraps and the reported median is negative, although every sample is positive.
\<close>

lemma medianOf_overflows:
  "medianOf [2 ^ 62, 2 ^ 62] = - (2 ^ 62)"
  by code_simp

end
