(* ===== verification/HyperCache.thy ===== *)
theory HyperCache
  imports InMemory Stats Eviction
begin

text \<open>
  The cache itself: \<open>hypercache.go\<close>, \<open>hypercache_construct.go\<close>, \<open>hypercache_io.go\<close>,
  \<open>hypercache_eviction.go\<close>, \<open>hypercache_expiration.go\<close> and the options of \<open>config.go\<close>, over any backend
  given as a record of operations. A context is the flag whether a \<open>select\<close> takes \<open>ctx.Done()\<close>; a
  function of the iteration for the loops. An operation reads the clock once (\<open>now\<close>). A buffered
  channel of triggers is the number of its elements. \<open>workerPool.Enqueue\<close> appends a job; a worker
  runs one job at a time with \<open>runJob\<close>. Logging has no effect on the state.
\<close>

section \<open>Interfaces and parameters\<close>

text \<open>The value of the interface type \<open>eviction.IAlgorithm\<close>: a single algorithm or a sharded one.\<close>

datatype EvictionAlg = Single IAlgorithm | Multi Sharded

fun ev_Set :: "(string \<Rightarrow> 32 word) \<Rightarrow> EvictionAlg \<Rightarrow> string \<Rightarrow> gval \<Rightarrow> EvictionAlg option" where
  "ev_Set hash (Single a) k v = map_option Single (alg_Set a k v)"
| "ev_Set hash (Multi s) k v = map_option Multi (Sharded_Set hash s k v)"

fun ev_Get :: "(string \<Rightarrow> 32 word) \<Rightarrow> EvictionAlg \<Rightarrow> string \<Rightarrow> (EvictionAlg \<times> gval option) option" where
  "ev_Get hash (Single a) k = map_option (map_prod Single id) (alg_Get a k)"
| "ev_Get hash (Multi s) k = map_option (map_prod Multi id) (Sharded_Get hash s k)"

fun ev_Evict :: "(int \<Rightarrow> 32 word option) \<Rightarrow> EvictionAlg \<Rightarrow> (EvictionAlg \<times> string option) option" where
  "ev_Evict toU32 (Single a) = map_option (map_prod Single id) (alg_Evict a)"
| "ev_Evict toU32 (Multi s) = map_option (map_prod Multi id) (Sharded_Evict toU32 s)"

fun ev_Delete :: "(string \<Rightarrow> 32 word) \<Rightarrow> EvictionAlg \<Rightarrow> string \<Rightarrow> EvictionAlg option" where
  "ev_Delete hash (Single a) k = map_option Single (alg_Delete a k)"
| "ev_Delete hash (Multi s) k = map_option Multi (Sharded_Delete hash s k)"

text \<open>
  What the cache is given: the operations of its backend, and the third-party functions: the key
  hash, the CBOR length and the conversions \<open>ToUint32\<close>, \<open>ToUint\<close>, \<open>ToInt\<close> and \<open>ToInt64\<close> of
  \<open>converters\<close>, which fail exactly out of range.
\<close>

record 'b Env =
  env_backend :: "'b IBackend"
  env_hash :: "string \<Rightarrow> 32 word"
  env_cborLen :: "gval \<Rightarrow> nat option"
  env_toU32 :: "int \<Rightarrow> 32 word option"
  env_toUint :: "int \<Rightarrow> 64 word option"
  env_toInt :: "64 word \<Rightarrow> int option"
  env_toInt64 :: "int \<Rightarrow> int option"

definition conv_ok :: "'b Env \<Rightarrow> bool" where
  "conv_ok E \<longleftrightarrow> toU32_ok (env_toU32 E) \<and>
     (\<forall>n. env_toUint E n = (if 0 \<le> n \<and> n < 2 ^ 64 then Some (word_of_int n) else None)) \<and>
     (\<forall>w. env_toInt E w = (if uint w < 2 ^ 63 then Some (uint w) else None)) \<and>
     (\<forall>n. env_toInt64 E n = (if - (2 ^ 63) \<le> n \<and> n < 2 ^ 63 then Some n else None))"

section \<open>State\<close>

datatype job = EvictionJob | ExpirationJob

record 'b HyperCache =
  hc_backend :: 'b
  stop :: nat
  bgCancel :: bool
  jobs :: "job list"
  poolClosed :: bool
  expirationTriggerCh :: nat
  expirationTriggerCap :: nat
  expirationTriggerBufSize :: int
  expirationSignalPending :: bool
  expirationDebounceInterval :: int
  lastExpirationTrigger :: int
  evictCh :: nat
  evictionAlgorithmName :: string
  evictionAlgorithm :: EvictionAlg
  evictionShardCount :: int
  expirationInterval :: int
  evictionInterval :: int
  shouldEvict :: bool
  maxEvictionCount :: "64 word"
  maxCacheSize :: int
  memoryAllocation :: "64 word"
  statsCollectorName :: string
  StatsCollector :: HistogramStatsCollector

definition addMemory :: "int \<Rightarrow> 'b HyperCache \<Rightarrow> 'b HyperCache" where
  "addMemory n hc = hc\<lparr>memoryAllocation := memoryAllocation hc + word_of_int n\<rparr>"

definition incrStat :: "string \<Rightarrow> int \<Rightarrow> 'b HyperCache \<Rightarrow> 'b HyperCache option" where
  "incrStat name n hc = map_option (\<lambda>c. hc\<lparr>StatsCollector := c\<rparr>) (stat_Incr False (StatsCollector hc) name n)"

definition gaugeStat :: "string \<Rightarrow> int \<Rightarrow> 'b HyperCache \<Rightarrow> 'b HyperCache option" where
  "gaugeStat name n hc = map_option (\<lambda>c. hc\<lparr>StatsCollector := c\<rparr>) (stat_Gauge False (StatsCollector hc) name n)"

definition timingStat :: "string \<Rightarrow> int \<Rightarrow> 'b HyperCache \<Rightarrow> 'b HyperCache option" where
  "timingStat name n hc = map_option (\<lambda>c. hc\<lparr>StatsCollector := c\<rparr>) (stat_Timing False (StatsCollector hc) name n)"

definition hc_Capacity :: "'b Env \<Rightarrow> 'b HyperCache \<Rightarrow> int" where
  "hc_Capacity E hc = bk_Capacity (env_backend E) (hc_backend hc)"

definition hc_Count :: "'b Env \<Rightarrow> 'b HyperCache \<Rightarrow> int" where
  "hc_Count E hc = bk_Count (env_backend E) (hc_backend hc)"

definition Allocation :: "'b HyperCache \<Rightarrow> int" where
  "Allocation hc = sint (memoryAllocation hc)"

section \<open>Removal and eviction of one item\<close>

primrec remove_loop :: "'b Env \<Rightarrow> 'b HyperCache \<Rightarrow> string list \<Rightarrow> 'b HyperCache option" where
  "remove_loop E hc [] = Some hc"
| "remove_loop E hc (key # keys) = do {
     (b, r) \<leftarrow> bk_Get (env_backend E) (hc_backend hc) key;
     let hc1 = hc\<lparr>hc_backend := b\<rparr>;
     hc2 \<leftarrow> (case r of
        None \<Rightarrow> Some hc1
      | Some item \<Rightarrow> map_option (\<lambda>a. (addMemory (- Size item) hc1)\<lparr>evictionAlgorithm := a\<rparr>)
                       (ev_Delete (env_hash E) (evictionAlgorithm hc1) key));
     remove_loop E hc2 keys
   }"

definition hc_Remove :: "'b Env \<Rightarrow> bool \<Rightarrow> 'b HyperCache \<Rightarrow> string list \<Rightarrow> ('b HyperCache \<times> sentinel option) option" where
  "hc_Remove E ctx hc keys = do {
     hc1 \<leftarrow> remove_loop E hc keys;
     (b, err) \<leftarrow> bk_Remove (env_backend E) ctx (hc_backend hc1) keys;
     Some (hc1\<lparr>hc_backend := b\<rparr>, err)
   }"

definition evictItem :: "'b Env \<Rightarrow> bool \<Rightarrow> 'b HyperCache \<Rightarrow> ('b HyperCache \<times> string option) option" where
  "evictItem E ctx hc = do {
     (a, r) \<leftarrow> ev_Evict (env_toU32 E) (evictionAlgorithm hc);
     let hc1 = hc\<lparr>evictionAlgorithm := a\<rparr>;
     case r of
       None \<Rightarrow> Some (hc1, None)
     | Some key \<Rightarrow> do {
         (hc2, err) \<leftarrow> hc_Remove E ctx hc1 [key];
         Some (hc2, if err = None then Some key else None)
       }
   }"

section \<open>Reads\<close>

definition touchItem :: "'b Env \<Rightarrow> int \<Rightarrow> 'b HyperCache \<Rightarrow> string \<Rightarrow> Item \<Rightarrow> ('b HyperCache \<times> Item) option" where
  "touchItem E now hc key item = (case bk_Touch (env_backend E) of
       None \<Rightarrow> Some (hc, Item_Touch now item)
     | Some toucher \<Rightarrow> map_option (\<lambda>(b, _). (hc\<lparr>hc_backend := b\<rparr>, Item_Touch now item)) (toucher now (hc_backend hc) key))"

text \<open>
  The debounce test reads \<open>lastExpirationTrigger\<close> (Unix nanoseconds), the swap of the pending flag
  returns its old value, and the send succeeds while the buffer has room.
\<close>

definition execTriggerExpiration :: "int \<Rightarrow> 'b HyperCache \<Rightarrow> 'b HyperCache option" where
  "execTriggerExpiration now hc =
     (if expirationDebounceInterval hc > 0 \<and>
         time_Sub now (unixEpoch + lastExpirationTrigger hc) < expirationDebounceInterval hc
      then incrStat ''incr'' 1 hc
      else if expirationSignalPending hc then incrStat ''incr'' 1 hc
      else let hc1 = hc\<lparr>expirationSignalPending := True\<rparr> in
        if expirationTriggerCh hc1 < expirationTriggerCap hc1
        then Some (hc1\<lparr>expirationTriggerCh := expirationTriggerCh hc1 + 1, lastExpirationTrigger := UnixNano now\<rparr>)
        else incrStat ''incr'' 1 hc1)"

definition TriggerExpiration :: "int \<Rightarrow> 'b HyperCache \<Rightarrow> 'b HyperCache option" where
  "TriggerExpiration now hc = execTriggerExpiration now hc"

definition GetWithInfo :: "'b Env \<Rightarrow> int \<Rightarrow> 'b HyperCache \<Rightarrow> string \<Rightarrow> ('b HyperCache \<times> Item option) option" where
  "GetWithInfo E now hc key = do {
     (b, r) \<leftarrow> bk_Get (env_backend E) (hc_backend hc) key;
     let hc1 = hc\<lparr>hc_backend := b\<rparr>;
     case r of
       None \<Rightarrow> Some (hc1, None)
     | Some item \<Rightarrow>
         if Item_Expired now item then map_option (\<lambda>hc2. (hc2, None)) (execTriggerExpiration now hc1)
         else map_option (\<lambda>(hc2, item'). (hc2, Some item')) (touchItem E now hc1 key item)
   }"

definition hc_Get :: "'b Env \<Rightarrow> int \<Rightarrow> 'b HyperCache \<Rightarrow> string \<Rightarrow> ('b HyperCache \<times> gval option) option" where
  "hc_Get E now hc key = do {
     (b, r) \<leftarrow> bk_Get (env_backend E) (hc_backend hc) key;
     let hc1 = hc\<lparr>hc_backend := b\<rparr>;
     case r of
       None \<Rightarrow> Some (hc1, None)
     | Some item \<Rightarrow>
         if Item_Expired now item then map_option (\<lambda>hc2. (hc2, None)) (execTriggerExpiration now hc1)
         else map_option (\<lambda>(hc2, item'). (hc2, Some (Val item'))) (touchItem E now hc1 key item)
   }"

primrec getMultiple_loop :: "'b Env \<Rightarrow> int \<Rightarrow> 'b HyperCache \<Rightarrow> string list \<Rightarrow> (string, gval) gomap \<Rightarrow> (string, sentinel) gomap
    \<Rightarrow> ('b HyperCache \<times> (string, gval) gomap \<times> (string, sentinel) gomap) option" where
  "getMultiple_loop E now hc [] result failed = Some (hc, result, failed)"
| "getMultiple_loop E now hc (key # keys) result failed = do {
     (b, r) \<leftarrow> bk_Get (env_backend E) (hc_backend hc) key;
     let hc1 = hc\<lparr>hc_backend := b\<rparr>;
     case r of
       None \<Rightarrow> getMultiple_loop E now hc1 keys result (gm_set key ErrKeyNotFound failed)
     | Some item \<Rightarrow>
         if Item_Expired now item then do {
           hc2 \<leftarrow> execTriggerExpiration now hc1;
           getMultiple_loop E now hc2 keys result (gm_set key ErrKeyNotFound failed)
         } else do {
           (hc2, item') \<leftarrow> touchItem E now hc1 key item;
           getMultiple_loop E now hc2 keys (gm_set key (Val item') result) failed
         }
   }"

definition GetMultiple :: "'b Env \<Rightarrow> int \<Rightarrow> 'b HyperCache \<Rightarrow> string list
    \<Rightarrow> ('b HyperCache \<times> (string, gval) gomap \<times> (string, sentinel) gomap) option" where
  "GetMultiple E now hc keys = getMultiple_loop E now hc keys [] []"

definition hc_List :: "'b Env \<Rightarrow> 'b HyperCache \<Rightarrow> IFilter list \<Rightarrow> (sentinel + Item list) option" where
  "hc_List E hc filters = bk_List (env_backend E) (hc_backend hc) filters"

section \<open>Writes\<close>

definition setItemSize :: "'b Env \<Rightarrow> Item \<Rightarrow> sentinel + Item" where
  "setItemSize E item = (case bk_Serializer (env_backend E) of
       Some serializer \<Rightarrow> (case serializer (Val item) of
           None \<Rightarrow> Inl (ErrText ''Marshal'')
         | Some n \<Rightarrow> Inr (item\<lparr>Size := int n\<rparr>))
     | None \<Rightarrow> Item_SetSize (env_cborLen E) item)"

definition newItem :: "int \<Rightarrow> string \<Rightarrow> gval \<Rightarrow> int \<Rightarrow> Item" where
  "newItem now key value expiration =
     ItemPoolManager_Get\<lparr>Key := key, Val := value, Expiration := expiration, LastAccess := now\<rparr>"

text \<open>
  The part that \<open>Set\<close> and \<open>GetOrSet\<close> share once the item has its size: the accounting, the insertion
  into the backend and the algorithm, and the eviction of one item. A failed insertion subtracts
  the size that the item has after the backend has seen it.
\<close>

definition insertItem :: "'b Env \<Rightarrow> bool \<Rightarrow> 'b HyperCache \<Rightarrow> string \<Rightarrow> Item \<Rightarrow> ('b HyperCache \<times> sentinel option) option" where
  "insertItem E ctx hc key item =
     (let hc1 = addMemory (Size item) hc in
      if maxCacheSize hc1 > 0 \<and> Allocation hc1 > maxCacheSize hc1
      then Some (addMemory (- Size item) hc1, Some ErrCacheFull)
      else do {
        (b, item', err) \<leftarrow> bk_Set (env_backend E) (hc_backend hc1) item;
        let hc2 = hc1\<lparr>hc_backend := b\<rparr>;
        case err of
          Some e \<Rightarrow> Some (addMemory (- Size item') hc2, Some e)
        | None \<Rightarrow> do {
            a \<leftarrow> ev_Set (env_hash E) (evictionAlgorithm hc2) key (Val item');
            let hc3 = hc2\<lparr>evictionAlgorithm := a\<rparr>;
            hc4 \<leftarrow> (if shouldEvict hc3 \<and> hc_Count E hc3 > hc_Capacity E hc3
                    then map_option fst (evictItem E ctx hc3) else Some hc3);
            Some (hc4, None)
          }
      })"

definition hc_Set :: "'b Env \<Rightarrow> bool \<Rightarrow> int \<Rightarrow> 'b HyperCache \<Rightarrow> string \<Rightarrow> gval \<Rightarrow> int
    \<Rightarrow> ('b HyperCache \<times> sentinel option) option" where
  "hc_Set E ctx now hc key value expiration = (case setItemSize E (newItem now key value expiration) of
       Inl err \<Rightarrow> Some (hc, Some err)
     | Inr item \<Rightarrow> insertItem E ctx hc key item)"

definition GetOrSet :: "'b Env \<Rightarrow> bool \<Rightarrow> int \<Rightarrow> 'b HyperCache \<Rightarrow> string \<Rightarrow> gval \<Rightarrow> int
    \<Rightarrow> ('b HyperCache \<times> (sentinel + gval)) option" where
  "GetOrSet E ctx now hc key value expiration = do {
     (b, r) \<leftarrow> bk_Get (env_backend E) (hc_backend hc) key;
     let hc1 = hc\<lparr>hc_backend := b\<rparr>;
     case r of
       Some item \<Rightarrow>
         if Item_Expired now item then map_option (\<lambda>hc2. (hc2, Inl ErrKeyExpired)) (execTriggerExpiration now hc1)
         else map_option (\<lambda>(hc2, item'). (hc2, Inr (Val item'))) (touchItem E now hc1 key item)
     | None \<Rightarrow> (case setItemSize E (newItem now key value expiration) of
           Inl err \<Rightarrow> Some (hc1, Inl err)
         | Inr item \<Rightarrow> map_option (\<lambda>(hc2, err). (hc2, case err of None \<Rightarrow> Inr value | Some e \<Rightarrow> Inl e))
                         (insertItem E ctx hc1 key item))
   }"

primrec delete_all :: "'b Env \<Rightarrow> Item list \<Rightarrow> EvictionAlg \<Rightarrow> EvictionAlg option" where
  "delete_all E [] a = Some a"
| "delete_all E (item # items) a = Option.bind (ev_Delete (env_hash E) a (Key item)) (delete_all E items)"

definition hc_Clear :: "'b Env \<Rightarrow> bool \<Rightarrow> 'b HyperCache \<Rightarrow> ('b HyperCache \<times> sentinel option) option" where
  "hc_Clear E ctx hc = do {
     r \<leftarrow> bk_List (env_backend E) (hc_backend hc) [];
     case r of
       Inl err \<Rightarrow> Some (hc, Some err)
     | Inr items \<Rightarrow> do {
         (b, err) \<leftarrow> bk_Clear (env_backend E) ctx (hc_backend hc);
         let hc1 = hc\<lparr>hc_backend := b\<rparr>;
         case err of
           Some e \<Rightarrow> Some (hc1, Some e)
         | None \<Rightarrow> do {
             a \<leftarrow> delete_all E items (evictionAlgorithm hc1);
             Some (hc1\<lparr>evictionAlgorithm := a, memoryAllocation := 0\<rparr>, None)
           }
       }
   }"

section \<open>Background jobs\<close>

definition enqueue :: "job \<Rightarrow> 'b HyperCache \<Rightarrow> 'b HyperCache" where
  "enqueue j hc = (if poolClosed hc then hc else hc\<lparr>jobs := jobs hc @ [j]\<rparr>)"

definition evictionLoop :: "'b HyperCache \<Rightarrow> 'b HyperCache" where
  "evictionLoop hc = enqueue EvictionJob hc"

definition expirationLoop :: "'b HyperCache \<Rightarrow> 'b HyperCache" where
  "expirationLoop hc = enqueue ExpirationJob hc"

text \<open>
  The loop of the eviction job; \<open>left\<close> is \<open>maxEvictionCount - evictedCount\<close>, so that it is zero exactly
  when the two are equal.
\<close>

primrec evict_loop :: "nat \<Rightarrow> 'b Env \<Rightarrow> (nat \<Rightarrow> bool) \<Rightarrow> 'b HyperCache \<Rightarrow> 64 word
    \<Rightarrow> ('b HyperCache \<times> 64 word \<times> sentinel option) option" where
  "evict_loop 0 E ctx hc evicted = Some (hc, evicted, None)"
| "evict_loop (Suc left) E ctx hc evicted =
     (if \<not> hc_Count E hc > hc_Capacity E hc then Some (hc, evicted, None)
      else do {
        (a, r) \<leftarrow> ev_Evict (env_toU32 E) (evictionAlgorithm hc);
        let hc1 = hc\<lparr>evictionAlgorithm := a\<rparr>;
        case r of
          None \<Rightarrow> Some (hc1, evicted, None)
        | Some key \<Rightarrow> do {
            (hc2, err) \<leftarrow> hc_Remove E (ctx left) hc1 [key];
            case err of
              Some e \<Rightarrow> Some (hc2, evicted, Some e)
            | None \<Rightarrow> do {
                hc3 \<leftarrow> incrStat ''item_evicted_count'' 1 hc2;
                evict_loop left E ctx hc3 (evicted + 1)
              }
          }
      })"

definition evictionJob :: "'b Env \<Rightarrow> (nat \<Rightarrow> bool) \<Rightarrow> int \<Rightarrow> 'b HyperCache \<Rightarrow> ('b HyperCache \<times> sentinel option) option" where
  "evictionJob E ctx now hc = do {
     hc1 \<leftarrow> incrStat ''eviction_loop_count'' 1 hc;
     (hc2, evicted, err) \<leftarrow> evict_loop (unat (maxEvictionCount hc1)) E ctx hc1 0;
     (hc3, err3) \<leftarrow> (case err of
         Some e \<Rightarrow> Some (hc2, Some e)
       | None \<Rightarrow> (case env_toInt64 E (hc_Count E hc2) of
             None \<Rightarrow> Some (hc2, Some (ErrText ''ToInt64''))
           | Some itemCount \<Rightarrow> do {
               hc4 \<leftarrow> gaugeStat ''item_count'' itemCount hc2;
               case env_toInt E evicted of
                 None \<Rightarrow> Some (hc4, Some (ErrText ''ToInt64''))
               | Some n \<Rightarrow> map_option (\<lambda>hc5. (hc5, None)) (gaugeStat ''evicted_item_count'' n hc4)
             }));
     hc6 \<leftarrow> timingStat ''eviction_loop_duration'' (UnixNano now) hc3;
     Some (hc6, err3)
   }"

definition expired_filter :: "int \<Rightarrow> Item \<Rightarrow> bool" where
  "expired_filter now item \<longleftrightarrow> Expiration item > 0 \<and> time_Sub now (LastAccess item) > Expiration item"

primrec expire_loop :: "Item list \<Rightarrow> 'b Env \<Rightarrow> (nat \<Rightarrow> bool) \<Rightarrow> 'b HyperCache \<Rightarrow> int
    \<Rightarrow> ('b HyperCache \<times> int \<times> sentinel option) option" where
  "expire_loop [] E ctx hc expired = Some (hc, expired, None)"
| "expire_loop (item # items) E ctx hc expired = do {
     (hc1, err) \<leftarrow> hc_Remove E (ctx (length items)) hc [Key item];
     case err of
       Some e \<Rightarrow> Some (hc1, expired + 1, Some e)
     | None \<Rightarrow> do {
         hc2 \<leftarrow> incrStat ''item_expired_count'' 1 hc1;
         expire_loop items E ctx hc2 (expired + 1)
       }
   }"

definition expirationJob :: "'b Env \<Rightarrow> (nat \<Rightarrow> bool) \<Rightarrow> int \<Rightarrow> 'b HyperCache \<Rightarrow> ('b HyperCache \<times> sentinel option) option" where
  "expirationJob E ctx now hc = do {
     hc1 \<leftarrow> incrStat ''expiration_loop_count'' 1 hc;
     r \<leftarrow> hc_List E hc1 [WithSortBy ''Expiration'', WithFilterFunc (expired_filter now)];
     (hc2, err) \<leftarrow> (case r of
         Inl e \<Rightarrow> Some (hc1, Some e)
       | Inr items \<Rightarrow> do {
           (hc3, expired, err) \<leftarrow> expire_loop items E ctx hc1 0;
           case err of
             Some e \<Rightarrow> Some (hc3, Some e)
           | None \<Rightarrow> do {
               hc4 \<leftarrow> gaugeStat ''item_count'' (hc_Count E hc3) hc3;
               map_option (\<lambda>hc5. (hc5, None)) (gaugeStat ''expired_item_count'' expired hc4)
             }
         });
     hc6 \<leftarrow> timingStat ''expiration_loop_duration'' (UnixNano now) hc2;
     Some (hc6, err)
   }"

text \<open>A worker takes the oldest job; the job's error goes to the pool and not to the cache.\<close>

definition runJob :: "'b Env \<Rightarrow> (nat \<Rightarrow> bool) \<Rightarrow> int \<Rightarrow> 'b HyperCache \<Rightarrow> 'b HyperCache option" where
  "runJob E ctx now hc = (case jobs hc of
       [] \<Rightarrow> Some hc
     | EvictionJob # js \<Rightarrow> map_option fst (evictionJob E ctx now (hc\<lparr>jobs := js\<rparr>))
     | ExpirationJob # js \<Rightarrow> map_option fst (expirationJob E ctx now (hc\<lparr>jobs := js\<rparr>)))"

definition hc_SetCapacity :: "'b Env \<Rightarrow> 'b HyperCache \<Rightarrow> int \<Rightarrow> 'b HyperCache" where
  "hc_SetCapacity E hc capacity =
     (let hc1 = hc\<lparr>hc_backend := bk_SetCapacity (env_backend E) (hc_backend hc) capacity\<rparr>;
          hc2 = hc1\<lparr>shouldEvict := (evictionInterval hc1 = 0 \<and> hc_Capacity E hc1 > 0)\<rparr>
      in if hc_Count E hc2 > hc_Capacity E hc2 then evictionLoop hc2 else hc2)"

definition TriggerEviction :: "'b HyperCache \<Rightarrow> 'b HyperCache" where
  "TriggerEviction hc = (if evictCh hc < 1 then hc\<lparr>evictCh := evictCh hc + 1\<rparr> else hc)"

text \<open>
  One iteration of the expiration goroutine, by the branch that \<open>select\<close> takes; \<open>None\<close> when that
  branch is not ready. The result says whether the goroutine exits.
\<close>

datatype branch = BTick | BTrigger | BEvict | BDone | BStop

fun handleExpirationSelect :: "bool \<Rightarrow> branch \<Rightarrow> 'b HyperCache \<Rightarrow> ('b HyperCache \<times> bool) option" where
  "handleExpirationSelect done BTick hc =
     (if expirationInterval hc > 0 then Some (expirationLoop hc, False) else None)"
| "handleExpirationSelect done BTrigger hc =
     (if expirationTriggerCh hc > 0 then
        (let hc1 = expirationLoop (hc\<lparr>expirationTriggerCh := expirationTriggerCh hc - 1\<rparr>);
             hc2 = hc1\<lparr>expirationSignalPending := False\<rparr>
         in Some (hc2\<lparr>expirationTriggerCh := 0\<rparr>, False))
      else None)"
| "handleExpirationSelect done BEvict hc =
     (if evictCh hc > 0 then Some (evictionLoop (hc\<lparr>evictCh := evictCh hc - 1\<rparr>), False) else None)"
| "handleExpirationSelect done BDone hc = (if done then Some (hc, True) else None)"
| "handleExpirationSelect done BStop hc =
     (if stop hc > 0 then Some (hc\<lparr>stop := stop hc - 1\<rparr>, True) else None)"

section \<open>Construction\<close>

definition minutes :: "int \<Rightarrow> int" where
  "minutes n = n * 60 * 10 ^ 9"

definition DefaultExpirationInterval :: int where
  "DefaultExpirationInterval = minutes 30"

definition DefaultEvictionInterval :: int where
  "DefaultEvictionInterval = minutes 10"

text \<open>Fields that Go zeroes; the eviction algorithm is nil until it is initialised, here an LRU of capacity 0.\<close>

definition nilAlgorithm :: EvictionAlg where
  "nilAlgorithm = Single (AlgLRU \<lparr>lru_capacity = 0, lru_items = [], lru_head = None, lru_tail = None,
     lru_pool = [], lru_mem = Map.empty, lru_fresh = 0\<rparr>)"

definition newHyperCacheBase :: "'b \<Rightarrow> 'b HyperCache" where
  "newHyperCacheBase b =
     \<lparr>hc_backend = b, stop = 0, bgCancel = False, jobs = [], poolClosed = False, expirationTriggerCh = 0, expirationTriggerCap = 0,
      expirationTriggerBufSize = 0, expirationSignalPending = False, expirationDebounceInterval = 0,
      lastExpirationTrigger = 0, evictCh = 0, evictionAlgorithmName = [], evictionAlgorithm = nilAlgorithm,
      evictionShardCount = int ShardCount, expirationInterval = DefaultExpirationInterval,
      evictionInterval = DefaultEvictionInterval, shouldEvict = False, maxEvictionCount = 0, maxCacheSize = 0,
      memoryAllocation = 0, statsCollectorName = [], StatsCollector = NewHistogramStatsCollector\<rparr>"

definition WithMaxCacheSize :: "int \<Rightarrow> 'b HyperCache \<Rightarrow> 'b HyperCache" where
  "WithMaxCacheSize n hc = hc\<lparr>maxCacheSize := (if n < 0 then 0 else n)\<rparr>"

definition WithEvictionShardCount :: "int \<Rightarrow> 'b HyperCache \<Rightarrow> 'b HyperCache" where
  "WithEvictionShardCount n hc = hc\<lparr>evictionShardCount := n\<rparr>"

definition WithEvictionAlgorithm :: "string \<Rightarrow> 'b HyperCache \<Rightarrow> 'b HyperCache" where
  "WithEvictionAlgorithm name hc = hc\<lparr>evictionAlgorithmName := name\<rparr>"

definition WithStatsCollector :: "string \<Rightarrow> 'b HyperCache \<Rightarrow> 'b HyperCache" where
  "WithStatsCollector name hc = hc\<lparr>statsCollectorName := name\<rparr>"

definition WithExpirationInterval :: "int \<Rightarrow> 'b HyperCache \<Rightarrow> 'b HyperCache" where
  "WithExpirationInterval n hc = hc\<lparr>expirationInterval := n\<rparr>"

definition WithEvictionInterval :: "int \<Rightarrow> 'b HyperCache \<Rightarrow> 'b HyperCache" where
  "WithEvictionInterval n hc = hc\<lparr>evictionInterval := n\<rparr>"

definition WithExpirationTriggerBuffer :: "int \<Rightarrow> 'b HyperCache \<Rightarrow> 'b HyperCache" where
  "WithExpirationTriggerBuffer n hc = hc\<lparr>expirationTriggerBufSize := n\<rparr>"

definition WithExpirationTriggerDebounce :: "int \<Rightarrow> 'b HyperCache \<Rightarrow> 'b HyperCache" where
  "WithExpirationTriggerDebounce n hc = hc\<lparr>expirationDebounceInterval := n\<rparr>"

definition WithMaxEvictionCount :: "64 word \<Rightarrow> 'b HyperCache \<Rightarrow> 'b HyperCache" where
  "WithMaxEvictionCount n hc = hc\<lparr>maxEvictionCount := n\<rparr>"

text \<open>An option is what one of the \<open>With\<close> functions returns; the management server is not modelled.\<close>

datatype Option = MaxCacheSize int | EvictionShardCount int | EvictionAlgorithm string | StatsCollectorOption string
  | ExpirationInterval int | EvictionInterval int | ExpirationTriggerBuffer int | ExpirationTriggerDebounce int
  | MaxEvictionCount "64 word"

fun apply_option :: "Option \<Rightarrow> 'b HyperCache \<Rightarrow> 'b HyperCache" where
  "apply_option (MaxCacheSize n) = WithMaxCacheSize n"
| "apply_option (EvictionShardCount n) = WithEvictionShardCount n"
| "apply_option (EvictionAlgorithm name) = WithEvictionAlgorithm name"
| "apply_option (StatsCollectorOption name) = WithStatsCollector name"
| "apply_option (ExpirationInterval n) = WithExpirationInterval n"
| "apply_option (EvictionInterval n) = WithEvictionInterval n"
| "apply_option (ExpirationTriggerBuffer n) = WithExpirationTriggerBuffer n"
| "apply_option (ExpirationTriggerDebounce n) = WithExpirationTriggerDebounce n"
| "apply_option (MaxEvictionCount n) = WithMaxEvictionCount n"

definition ApplyHyperCacheOptions :: "'b HyperCache \<Rightarrow> Option list \<Rightarrow> 'b HyperCache" where
  "ApplyHyperCacheOptions hc options = fold apply_option options hc"

definition configureEvictionSettings :: "'b Env \<Rightarrow> 'b HyperCache \<Rightarrow> 'b HyperCache" where
  "configureEvictionSettings E hc =
     (let hc1 = hc\<lparr>shouldEvict := (evictionInterval hc = 0 \<and> hc_Capacity E hc > 0)\<rparr> in
      if maxEvictionCount hc1 = 0
      then (case env_toUint E (hc_Capacity E hc1) of
              None \<Rightarrow> hc1\<lparr>maxEvictionCount := 1\<rparr>
            | Some n \<Rightarrow> hc1\<lparr>maxEvictionCount := n\<rparr>)
      else hc1)"

definition initEvictionAlgorithm :: "'b Env \<Rightarrow> 'b HyperCache \<Rightarrow> sentinel + 'b HyperCache" where
  "initEvictionAlgorithm E hc = (case env_toInt E (maxEvictionCount hc) of
       None \<Rightarrow> Inl (ErrText ''ToInt'')
     | Some n \<Rightarrow>
         let algorithmName = (if evictionAlgorithmName hc = '''' then ''lru'' else evictionAlgorithmName hc) in
         if evictionShardCount hc > 1
         then map_sum id (\<lambda>a. hc\<lparr>evictionAlgorithm := Multi a\<rparr>) (NewSharded (env_toU32 E) algorithmName n (evictionShardCount hc))
         else map_sum id (\<lambda>a. hc\<lparr>evictionAlgorithm := Single a\<rparr>) (NewEvictionAlgorithm algorithmName n))"

definition configureStats :: "'b HyperCache \<Rightarrow> sentinel + 'b HyperCache" where
  "configureStats hc =
     (if statsCollectorName hc = '''' then Inr (hc\<lparr>StatsCollector := NewHistogramStatsCollector\<rparr>)
      else map_sum id (\<lambda>c. hc\<lparr>StatsCollector := c\<rparr>) (NewCollector (statsCollectorName hc)))"

definition checkCapacity :: "'b Env \<Rightarrow> 'b HyperCache \<Rightarrow> sentinel option" where
  "checkCapacity E hc = (if hc_Capacity E hc < 0 then Some ErrInvalidCapacity else None)"

text \<open>\<open>Capacity() / 2\<close> is a division of non-negative numbers after \<open>checkCapacity\<close>.\<close>

definition initExpirationTrigger :: "'b Env \<Rightarrow> 'b HyperCache \<Rightarrow> 'b HyperCache" where
  "initExpirationTrigger E hc =
     (let buf = hc_Capacity E hc div 2;
          buf1 = (if expirationTriggerBufSize hc > 0 then expirationTriggerBufSize hc else buf);
          buf2 = (if buf1 < 1 then 1 else buf1)
      in hc\<lparr>expirationTriggerCh := 0, expirationTriggerCap := nat buf2\<rparr>)"

text \<open>\<open>New\<close> from the resolved backend on; starting the loops sets \<open>bgCancel\<close>.\<close>

definition New :: "'b Env \<Rightarrow> 'b \<Rightarrow> Option list \<Rightarrow> sentinel + 'b HyperCache" where
  "New E b options =
     (let hc1 = configureEvictionSettings E (ApplyHyperCacheOptions (newHyperCacheBase b) options) in
      case initEvictionAlgorithm E hc1 of
        Inl e \<Rightarrow> Inl e
      | Inr hc2 \<Rightarrow> (case configureStats hc2 of
          Inl e \<Rightarrow> Inl e
        | Inr hc3 \<Rightarrow> (case checkCapacity E hc3 of
            Some e \<Rightarrow> Inl e
          | None \<Rightarrow> Inr ((initExpirationTrigger E hc3)\<lparr>bgCancel := True\<rparr>))))"

definition NewInMemoryWithDefaults :: "InMemory Env \<Rightarrow> int \<Rightarrow> sentinel + InMemory HyperCache" where
  "NewInMemoryWithDefaults E capacity = (case NewInMemory [WithCapacity capacity] of
       Inl e \<Rightarrow> Inl e
     | Inr b \<Rightarrow> New E b [EvictionInterval DefaultEvictionInterval, EvictionAlgorithm ''lru'',
                          ExpirationInterval DefaultExpirationInterval])"

text \<open>\<open>Stop\<close>: the stop channel has room for two signals; the pool accepts no more jobs and finishes the queued ones.\<close>

primrec runJobs :: "nat \<Rightarrow> 'b Env \<Rightarrow> (nat \<Rightarrow> bool) \<Rightarrow> int \<Rightarrow> 'b HyperCache \<Rightarrow> 'b HyperCache option" where
  "runJobs 0 E ctx now hc = Some hc"
| "runJobs (Suc n) E ctx now hc = Option.bind (runJob E ctx now hc) (runJobs n E ctx now)"

definition hc_Stop :: "'b Env \<Rightarrow> (nat \<Rightarrow> bool) \<Rightarrow> int \<Rightarrow> 'b HyperCache \<Rightarrow> 'b HyperCache option" where
  "hc_Stop E ctx now hc =
     (let hc1 = hc\<lparr>stop := (if stop hc < 2 then stop hc + 1 else stop hc), bgCancel := False, poolClosed := True\<rparr>
      in runJobs (length (jobs hc1)) E ctx now hc1)"

section \<open>The eviction algorithm of the cache meets the contracts\<close>

fun ev_inv :: "(string \<Rightarrow> 32 word) \<Rightarrow> EvictionAlg \<Rightarrow> bool" where
  "ev_inv hash (Single a) = alg_inv a"
| "ev_inv hash (Multi s) = sharded_ok hash s"

fun ev_tracking_inv :: "(int \<Rightarrow> 32 word option) \<Rightarrow> (string \<Rightarrow> 32 word) \<Rightarrow> EvictionAlg \<Rightarrow> bool" where
  "ev_tracking_inv toU32 hash (Single a) = alg_tracking_inv a"
| "ev_tracking_inv toU32 hash (Multi s) = sharded_tracking toU32 hash s"

fun ev_cap :: "EvictionAlg \<Rightarrow> nat" where
  "ev_cap (Single a) = alg_cap a"
| "ev_cap (Multi s) = Sharded_cap s"

fun ev_content :: "(string \<Rightarrow> 32 word) \<Rightarrow> EvictionAlg \<Rightarrow> string \<Rightarrow> gval option" where
  "ev_content hash (Single a) = alg_content a"
| "ev_content hash (Multi s) = Sharded_content hash s"

interpretation ev: eviction_algorithm "ev_inv hash" ev_cap "ev_content hash" "ev_Set hash" "ev_Get hash"
    "ev_Evict toU32" "ev_Delete hash" for hash toU32
proof (unfold_locales, goal_cases)
  case (1 a)
  then show ?case using alg.bounded sharded.bounded by (cases a) auto
next
  case (2 a k v)
  then show ?case using alg.set_law [of _ k v] sharded.set_law [of hash _ k v] by (cases a) fastforce+
next
  case (3 a k)
  then show ?case using alg.get_law [of _ k] sharded.get_law [of hash _ k] by (cases a) fastforce+
next
  case (4 a)
  show ?case
  proof (cases a)
    case (Single x)
    with 4 obtain x' r where x: "alg_Evict x = Some (x', r)" "alg_inv x'" "alg_cap x' = alg_cap x"
      "case r of None \<Rightarrow> alg_content x' = alg_content x
       | Some k \<Rightarrow> k \<in> dom (alg_content x) \<and> alg_content x' = (alg_content x)(k := None)"
      using alg.evict_law [of x] by auto
    with Single show ?thesis by (intro exI [of _ "Single x'"] exI [of _ r]) (auto split: option.splits)
  next
    case (Multi x)
    with 4 obtain x' r where x: "Sharded_Evict toU32 x = Some (x', r)" "sharded_ok hash x'" "Sharded_cap x' = Sharded_cap x"
      "case r of None \<Rightarrow> Sharded_content hash x' = Sharded_content hash x
       | Some k \<Rightarrow> k \<in> dom (Sharded_content hash x) \<and> Sharded_content hash x' = (Sharded_content hash x)(k := None)"
      using sharded.evict_law [of hash x toU32] by auto
    with Multi show ?thesis by (intro exI [of _ "Multi x'"] exI [of _ r]) (auto split: option.splits)
  qed
next
  case (5 a k)
  then show ?case using alg.delete_law [of _ k] sharded.delete_law [of hash _ k] by (cases a) fastforce+
qed

interpretation ev_progress: tracking_algorithm "ev_tracking_inv toU32 hash" ev_cap "ev_content hash" "ev_Set hash" "ev_Get hash"
    "ev_Evict toU32" "ev_Delete hash" for toU32 hash
proof (unfold_locales, goal_cases)
  case (1 a)
  then show ?case using alg_tracking.bounded sharded_progress.bounded by (cases a) auto
next
  case (2 a k v)
  then show ?case using alg_tracking.set_law [of _ k v] sharded_progress.set_law [of toU32 hash _ k v]
    by (cases a) fastforce+
next
  case (3 a k)
  then show ?case using alg_tracking.get_law [of _ k] sharded_progress.get_law [of toU32 hash _ k]
    by (cases a) fastforce+
next
  case (4 a)
  show ?case
  proof (cases a)
    case (Single x)
    with 4 obtain x' r where x: "alg_Evict x = Some (x', r)" "alg_tracking_inv x'" "alg_cap x' = alg_cap x"
      "case r of None \<Rightarrow> alg_content x' = alg_content x
       | Some k \<Rightarrow> k \<in> dom (alg_content x) \<and> alg_content x' = (alg_content x)(k := None)"
      using alg_tracking.evict_law [of x] by auto
    with Single show ?thesis by (intro exI [of _ "Single x'"] exI [of _ r]) (auto split: option.splits)
  next
    case (Multi x)
    with 4 obtain x' r where x: "Sharded_Evict toU32 x = Some (x', r)" "sharded_tracking toU32 hash x'"
      "Sharded_cap x' = Sharded_cap x"
      "case r of None \<Rightarrow> Sharded_content hash x' = Sharded_content hash x
       | Some k \<Rightarrow> k \<in> dom (Sharded_content hash x) \<and> Sharded_content hash x' = (Sharded_content hash x)(k := None)"
      using sharded_progress.evict_law [of toU32 hash x] by auto
    with Multi show ?thesis by (intro exI [of _ "Multi x'"] exI [of _ r]) (auto split: option.splits)
  qed
next
  case (5 a k)
  then show ?case using alg_tracking.delete_law [of _ k] sharded_progress.delete_law [of toU32 hash _ k]
    by (cases a) fastforce+
next
  case (6 a k v a')
  then show ?case using alg_tracking.set_tracks [of _ k v] sharded_progress.set_tracks [of toU32 hash _ k v]
    by (cases a) auto
next
  case (7 a a' r)
  then show ?case using alg_tracking.evict_progress sharded_progress.evict_progress [of toU32 hash]
    by (cases a) fastforce+
qed

text \<open>The initialised algorithm is empty, has the configured number of slots and keeps the contract.\<close>

definition algorithmName_of :: "'b HyperCache \<Rightarrow> string" where
  "algorithmName_of hc = (if evictionAlgorithmName hc = '''' then ''lru'' else evictionAlgorithmName hc)"

lemma initEvictionAlgorithm_ok:
  assumes "initEvictionAlgorithm E hc = Inr hc'" "conv_ok E"
  shows "\<exists>a. hc' = hc\<lparr>evictionAlgorithm := a\<rparr> \<and> ev_inv (env_hash E) a \<and> ev_content (env_hash E) a = Map.empty \<and>
    (algorithmName_of hc \<noteq> ''clock'' \<longrightarrow> evictionShardCount hc < 2 ^ 32 \<longrightarrow> ev_tracking_inv (env_toU32 E) (env_hash E) a) \<and>
    (maxEvictionCount hc \<noteq> 0 \<longrightarrow> 0 < ev_cap a)"
proof -
  let ?name = "algorithmName_of hc"
  have U: "toU32_ok (env_toU32 E)" using assms(2) by (simp add: conv_ok_def)
  obtain n where n: "env_toInt E (maxEvictionCount hc) = Some n"
    using assms(1) by (auto simp: initEvictionAlgorithm_def split: option.splits)
  then have "n = uint (maxEvictionCount hc)"
    using assms(2) unfolding conv_ok_def by (metis option.distinct(1) option.inject)
  then have pos: "maxEvictionCount hc \<noteq> 0 \<Longrightarrow> 0 < n"
    by (metis linorder_not_less order_antisym uint_0_iff uint_ge_0)
  show ?thesis
  proof (cases "evictionShardCount hc > 1")
    case True
    with assms(1) n obtain s where s: "NewSharded (env_toU32 E) ?name n (evictionShardCount hc) = Inr s"
      "hc' = hc\<lparr>evictionAlgorithm := Multi s\<rparr>"
      by (auto simp: initEvictionAlgorithm_def algorithmName_of_def Let_def map_sum_def split: sum.splits)
    note new = NewSharded_ok [OF s(1) U]
    have "0 < Sharded_cap s" if "maxEvictionCount hc \<noteq> 0"
    proof -
      have "1 \<le> (n + evictionShardCount hc - 1) div evictionShardCount hc"
        using pos [OF that] True by (simp add: pos_imp_zdiv_pos_iff int_one_le_iff_zero_less)
      then have "0 < int (Sharded_cap s)" unfolding new(5) using True by simp
      then show ?thesis by simp
    qed
    then show ?thesis using s(2) new(1,2) sharded_tracking_new [OF s(1) U] by auto
  next
    case False
    with assms(1) n obtain a where a: "NewEvictionAlgorithm ?name n = Inr a"
      "hc' = hc\<lparr>evictionAlgorithm := Single a\<rparr>"
      by (auto simp: initEvictionAlgorithm_def algorithmName_of_def Let_def map_sum_def split: sum.splits)
    then show ?thesis using NewEvictionAlgorithm_ok [OF a(1)] pos by (auto simp: alg_tracking_inv_def)
  qed
qed

definition untouched_by_options :: "'b HyperCache \<Rightarrow> 'b \<times> job list \<times> bool \<times> 64 word" where
  "untouched_by_options hc = (hc_backend hc, jobs hc, poolClosed hc, memoryAllocation hc)"

lemma option_keeps: "untouched_by_options (apply_option opt hc) = untouched_by_options hc"
  by (cases opt) (simp_all add: untouched_by_options_def WithMaxCacheSize_def WithEvictionShardCount_def
      WithEvictionAlgorithm_def WithStatsCollector_def WithExpirationInterval_def WithEvictionInterval_def
      WithExpirationTriggerBuffer_def WithExpirationTriggerDebounce_def WithMaxEvictionCount_def)

lemma options_keep: "untouched_by_options (ApplyHyperCacheOptions hc options) = untouched_by_options hc"
  unfolding ApplyHyperCacheOptions_def by (induction options arbitrary: hc) (simp_all add: option_keeps)

end
