(* ===== verification/HyperCacheSpec.thy ===== *)
theory HyperCacheSpec
  imports HyperCache
begin

text \<open>
  What the cache guarantees over a backend that meets \<open>backend_contract\<close> and an eviction algorithm
  that meets \<open>eviction_algorithm\<close>: no operation panics, what each does to the stored items, to the
  tracked keys and to the memory accounting; the refinement of a timed map, the bound by the
  capacity, and where the two fall short.
\<close>

section \<open>The invariant\<close>

definition stats_ok :: "HistogramStatsCollector \<Rightarrow> bool" where
  "stats_ok c \<longleftrightarrow> 0 < sampleCap c \<and> (\<forall>(k, s) \<in> set (hs_stats c). ring_ok s)"

definition hc_inv :: "'b Env \<Rightarrow> ('b \<Rightarrow> bool) \<Rightarrow> ('b \<Rightarrow> string \<Rightarrow> Item option) \<Rightarrow> (EvictionAlg \<Rightarrow> bool) \<Rightarrow> 'b HyperCache \<Rightarrow> bool" where
  "hc_inv E binv lk evi hc \<longleftrightarrow> binv (hc_backend hc) \<and> evi (evictionAlgorithm hc) \<and>
     dom (ev_content (env_hash E) (evictionAlgorithm hc)) \<subseteq> dom (lk (hc_backend hc)) \<and> stats_ok (StatsCollector hc)"

text \<open>The fields that the operations on items leave alone.\<close>

definition settings :: "'b HyperCache \<Rightarrow> int \<times> bool \<times> 64 word \<times> int \<times> job list" where
  "settings hc = (maxCacheSize hc, shouldEvict hc, maxEvictionCount hc, evictionInterval hc, jobs hc)"

definition size_at :: "(string \<rightharpoonup> Item) \<Rightarrow> string \<Rightarrow> int" where
  "size_at m k = (case m k of None \<Rightarrow> 0 | Some it \<Rightarrow> Size it)"

text \<open>When the accounted size would exceed the configured limit.\<close>

definition rejected_full :: "'b HyperCache \<Rightarrow> Item \<Rightarrow> bool" where
  "rejected_full hc item \<longleftrightarrow> maxCacheSize hc > 0 \<and> sint (memoryAllocation hc + word_of_int (Size item)) > maxCacheSize hc"

lemma record_stat_ok:
  assumes "stats_ok c"
  shows "\<exists>c'. record_stat x c key v = Some c' \<and> stats_ok c'"
proof -
  obtain c1 s where c1: "collector_shard c key = (c1, s)" by fastforce
  then have 1: "stats_ok c1 \<and> ring_ok s"
    using assms
    by (auto simp: stats_ok_def collector_shard_def Let_def fresh_shard_def ring_ok_def set_gm_set_new dest: map_of_SomeD split: option.splits)
  let ?s = "s\<lparr>st_count := st_count s + 1, st_sum := st_sum s + word_of_int v,
    minV := (if v \<ge> minV s then minV s else v), maxV := (if v \<le> maxV s then maxV s else v)\<rparr>"
  have "ring_ok ?s" using 1 by (simp add: ring_ok_def)
  moreover have "record_shard x v s = (if x then Some ?s else write_sample v ?s)"
    by (auto simp: record_shard_def Let_def)
  ultimately obtain s' where s': "record_shard x v s = Some s'" "ring_ok s'" using write_sample_ok by (cases x) auto
  have "set (gm_set key s' m) \<subseteq> insert (key, s') (set m)" for m by (induction m) (auto split: if_splits)
  then have "stats_ok (c1\<lparr>hs_stats := gm_set key s' (hs_stats c1)\<rparr>)"
    using 1 s'(2) by (fastforce simp: stats_ok_def)
  with c1 s' show ?thesis by (simp add: record_stat_def)
qed

lemma statistics_ok:
  assumes "stats_ok (StatsCollector hc)"
  shows "\<exists>c. incrStat nm v hc = Some (hc\<lparr>StatsCollector := c\<rparr>) \<and> stats_ok c"
    "\<exists>c. gaugeStat nm v hc = Some (hc\<lparr>StatsCollector := c\<rparr>) \<and> stats_ok c"
    "\<exists>c. timingStat nm v hc = Some (hc\<lparr>StatsCollector := c\<rparr>) \<and> stats_ok c"
  using record_stat_ok [OF assms, of False nm v]
  by (auto simp: incrStat_def gaugeStat_def timingStat_def stat_Incr_def stat_Gauge_def stat_Timing_def)

lemma stats_ok_new: "stats_ok NewHistogramStatsCollector"
  by (simp add: stats_ok_def NewHistogramStatsCollector_def NewHistogramStatsCollectorWithCapacity_def DefaultSampleCapacity_def)

section \<open>Operations under the contracts\<close>

locale hyper_client = store: backend_contract "env_backend E" binv lk sortFunc +
    alg: eviction_algorithm evi ev_cap "ev_content (env_hash E)" "ev_Set (env_hash E)" "ev_Get (env_hash E)"
      "ev_Evict (env_toU32 E)" "ev_Delete (env_hash E)"
  for E :: "'b Env" and binv :: "'b \<Rightarrow> bool" and lk :: "'b \<Rightarrow> string \<Rightarrow> Item option"
    and sortFunc :: "(Item \<Rightarrow> Item \<Rightarrow> int) \<Rightarrow> Item list \<Rightarrow> Item list" and evi :: "EvictionAlg \<Rightarrow> bool"
begin

abbreviation items :: "'b HyperCache \<Rightarrow> string \<Rightarrow> Item option" where
  "items hc \<equiv> lk (hc_backend hc)"

abbreviation tracked :: "'b HyperCache \<Rightarrow> string \<Rightarrow> gval option" where
  "tracked hc \<equiv> ev_content (env_hash E) (evictionAlgorithm hc)"

abbreviation ok :: "'b HyperCache \<Rightarrow> bool" where
  "ok hc \<equiv> hc_inv E binv lk evi hc"

text \<open>The part of the state that survives every operation on items.\<close>

abbreviation frame :: "'b HyperCache \<Rightarrow> 'b HyperCache \<Rightarrow> bool" where
  "frame hc hc' \<equiv> settings hc' = settings hc \<and> hc_Capacity E hc' = hc_Capacity E hc \<and>
     ev_cap (evictionAlgorithm hc') = ev_cap (evictionAlgorithm hc)"

lemma remove_loop_ok:
  assumes "binv (hc_backend hc)" "evi (evictionAlgorithm hc)"
  shows "\<exists>a. remove_loop E hc ks = Some (hc\<lparr>evictionAlgorithm := a,
      memoryAllocation := memoryAllocation hc - word_of_int (\<Sum>k\<leftarrow>ks. size_at (items hc) k)\<rparr>) \<and> evi a \<and>
    ev_cap a = ev_cap (evictionAlgorithm hc) \<and>
    ev_content (env_hash E) a = (\<lambda>k. if k \<in> set ks \<and> items hc k \<noteq> None then None else tracked hc k)"
  using assms
proof (induction ks arbitrary: hc)
  case Nil
  then show ?case by (intro exI [of _ "evictionAlgorithm hc"]) simp
next
  case (Cons k ks)
  note get = store.get_law [OF Cons.prems(1), of k]
  show ?case
  proof (cases "items hc k")
    case None
    obtain a where a: "remove_loop E hc ks = Some (hc\<lparr>evictionAlgorithm := a,
        memoryAllocation := memoryAllocation hc - word_of_int (\<Sum>k\<leftarrow>ks. size_at (items hc) k)\<rparr>)" "evi a"
      "ev_cap a = ev_cap (evictionAlgorithm hc)"
      "ev_content (env_hash E) a = (\<lambda>k. if k \<in> set ks \<and> items hc k \<noteq> None then None else tracked hc k)"
      using Cons.IH [OF Cons.prems] by blast
    with None get show ?thesis by (intro exI [of _ a]) (auto simp: size_at_def fun_eq_iff)
  next
    case (Some it)
    obtain a where a: "ev_Delete (env_hash E) (evictionAlgorithm hc) k = Some a" "evi a"
      "ev_cap a = ev_cap (evictionAlgorithm hc)" "ev_content (env_hash E) a = (tracked hc)(k := None)"
      using alg.delete_law [OF Cons.prems(2)] by blast
    let ?hc = "(addMemory (- Size it) hc)\<lparr>evictionAlgorithm := a\<rparr>"
    have "binv (hc_backend ?hc)" "evi (evictionAlgorithm ?hc)" using Cons.prems a(2) by (simp_all add: addMemory_def)
    from Cons.IH [OF this] obtain c where c: "remove_loop E ?hc ks = Some (?hc\<lparr>evictionAlgorithm := c,
        memoryAllocation := memoryAllocation ?hc - word_of_int (\<Sum>k\<leftarrow>ks. size_at (items ?hc) k)\<rparr>)" "evi c"
      "ev_cap c = ev_cap a"
      "ev_content (env_hash E) c = (\<lambda>k. if k \<in> set ks \<and> items ?hc k \<noteq> None then None else tracked ?hc k)"
      by auto
    then have "remove_loop E hc (k # ks) = Some (?hc\<lparr>evictionAlgorithm := c,
        memoryAllocation := memoryAllocation ?hc - word_of_int (\<Sum>k\<leftarrow>ks. size_at (items ?hc) k)\<rparr>)"
      using Some get a(1) by (simp add: addMemory_def)
    with c(2-4) a(3,4) Some show ?thesis
      by (intro exI [of _ c]) (auto simp: addMemory_def size_at_def fun_eq_iff algebra_simps)
  qed
qed

lemma remove_ok:
  assumes "ok hc"
  shows "\<exists>hc'. hc_Remove E ctx hc ks = Some (hc', if ctx then Some ErrTimeoutOrCanceled else None) \<and> ok hc' \<and> frame hc hc' \<and>
    items hc' = (\<lambda>k. if k \<in> set ks then None else items hc k) \<and>
    tracked hc' = (\<lambda>k. if k \<in> set ks then None else tracked hc k) \<and>
    memoryAllocation hc' = memoryAllocation hc - word_of_int (\<Sum>k\<leftarrow>ks. size_at (items hc) k)"
proof -
  have binv: "binv (hc_backend hc)" "evi (evictionAlgorithm hc)" and sub: "dom (tracked hc) \<subseteq> dom (items hc)"
    and st: "stats_ok (StatsCollector hc)" using assms by (auto simp: hc_inv_def)
  obtain a where a: "remove_loop E hc ks = Some (hc\<lparr>evictionAlgorithm := a,
      memoryAllocation := memoryAllocation hc - word_of_int (\<Sum>k\<leftarrow>ks. size_at (items hc) k)\<rparr>)" "evi a"
    "ev_cap a = ev_cap (evictionAlgorithm hc)"
    "ev_content (env_hash E) a = (\<lambda>k. if k \<in> set ks \<and> items hc k \<noteq> None then None else tracked hc k)"
    using remove_loop_ok [OF binv] by blast
  have tr: "ev_content (env_hash E) a = (\<lambda>k. if k \<in> set ks then None else tracked hc k)"
    unfolding a(4) using sub by (auto simp: fun_eq_iff)
  obtain b where b: "bk_Remove (env_backend E) ctx (hc_backend hc) ks = Some (b, if ctx then Some ErrTimeoutOrCanceled else None)"
    "binv b" "lk b = (\<lambda>k. if k \<in> set ks then None else items hc k)"
    "bk_Capacity (env_backend E) b = bk_Capacity (env_backend E) (hc_backend hc)"
    using store.remove_law [OF binv(1)] by blast
  let ?hc = "hc\<lparr>evictionAlgorithm := a, hc_backend := b,
    memoryAllocation := memoryAllocation hc - word_of_int (\<Sum>k\<leftarrow>ks. size_at (items hc) k)\<rparr>"
  have "hc_Remove E ctx hc ks = Some (?hc, if ctx then Some ErrTimeoutOrCanceled else None)"
    using a(1) b(1) by (simp add: hc_Remove_def)
  moreover have "dom (ev_content (env_hash E) a) \<subseteq> dom (lk b)"
    unfolding tr b(3) using sub by (fastforce simp: dom_def split: if_splits)
  then have "ok ?hc" using a(2) b(2) st by (simp add: hc_inv_def)
  ultimately show ?thesis using a(3) b(3,4) tr
    by (intro exI [of _ ?hc]) (simp add: settings_def hc_Capacity_def)
qed

end

context hyper_client
begin

text \<open>An eviction either finds no key and changes nothing, or drops one tracked key everywhere.\<close>

lemma evictItem_ok:
  assumes "ok hc"
  shows "\<exists>hc' r. evictItem E ctx hc = Some (hc', r) \<and> ok hc' \<and> frame hc hc' \<and>
    ((ev_Evict (env_toU32 E) (evictionAlgorithm hc) = Some (evictionAlgorithm hc', None) \<and> r = None \<and> items hc' = items hc \<and>
      tracked hc' = tracked hc \<and> memoryAllocation hc' = memoryAllocation hc) \<or>
     (\<exists>key. key \<in> dom (tracked hc) \<and> r = (if ctx then None else Some key) \<and> items hc' = (items hc)(key := None) \<and>
      tracked hc' = (tracked hc)(key := None) \<and>
      memoryAllocation hc' = memoryAllocation hc - word_of_int (size_at (items hc) key)))"
proof -
  have evi: "evi (evictionAlgorithm hc)" using assms by (simp add: hc_inv_def)
  obtain a r where a: "ev_Evict (env_toU32 E) (evictionAlgorithm hc) = Some (a, r)" "evi a"
    "ev_cap a = ev_cap (evictionAlgorithm hc)"
    "case r of None \<Rightarrow> ev_content (env_hash E) a = tracked hc
     | Some k \<Rightarrow> k \<in> dom (tracked hc) \<and> ev_content (env_hash E) a = (tracked hc)(k := None)"
    using alg.evict_law [OF evi] by blast
  let ?hc = "hc\<lparr>evictionAlgorithm := a\<rparr>"
  have sub: "dom (ev_content (env_hash E) a) \<subseteq> dom (items hc)"
    using a(4) assms by (auto simp: hc_inv_def split: option.splits)
  then have ok1: "ok ?hc" using assms a(2) by (simp add: hc_inv_def)
  have fr: "frame hc ?hc" using a(3) by (simp add: settings_def hc_Capacity_def)
  show ?thesis
  proof (cases r)
    case None
    then have "evictItem E ctx hc = Some (?hc, None)" using a(1) by (simp add: evictItem_def)
    with ok1 fr None a(1,4) show ?thesis by (intro exI [of _ ?hc] exI [of _ None]) auto
  next
    case (Some key)
    obtain hc' where hc': "hc_Remove E ctx ?hc [key] = Some (hc', if ctx then Some ErrTimeoutOrCanceled else None)"
      "ok hc'" "frame ?hc hc'" "items hc' = (\<lambda>k. if k \<in> set [key] then None else items ?hc k)"
      "tracked hc' = (\<lambda>k. if k \<in> set [key] then None else tracked ?hc k)"
      "memoryAllocation hc' = memoryAllocation ?hc - word_of_int (\<Sum>k\<leftarrow>[key]. size_at (items ?hc) k)"
      using remove_ok [OF ok1] by blast
    have "evictItem E ctx hc = Some (hc', if ctx then None else Some key)"
      using a(1) Some hc'(1) by (simp add: evictItem_def)
    moreover have "items hc' = (items hc)(key := None)" "tracked hc' = (tracked hc)(key := None)"
      unfolding hc'(4,5) using a(4) Some by (auto simp: fun_eq_iff)
    moreover have "key \<in> dom (tracked hc)" using a(4) Some by simp
    moreover have "memoryAllocation hc' = memoryAllocation hc - word_of_int (size_at (items hc) key)" using hc'(6) by simp
    ultimately show ?thesis using hc'(2,3) fr
      by (intro exI [of _ hc'] exI [of _ "if ctx then None else Some key"]) auto
  qed
qed

text \<open>\<open>Set\<close> after the item has its size: the three ways it can go.\<close>

lemma insertItem_full:
  "rejected_full hc item \<Longrightarrow> insertItem E ctx hc key item = Some (hc, Some ErrCacheFull)"
  by (simp add: rejected_full_def insertItem_def Let_def addMemory_def Allocation_def)

lemma insertItem_invalid:
  assumes "ok hc" "\<not> rejected_full hc item" "snd (Item_Valid item) = Some e"
  shows "insertItem E ctx hc key item =
    Some (hc\<lparr>memoryAllocation := memoryAllocation hc + word_of_int (Size item)\<rparr>, Some e)"
proof -
  have "bk_Set (env_backend E) (hc_backend hc) item = Some (hc_backend hc, zero_Item, Some e)"
    using store.set_bad_law assms(1,3) by (simp add: hc_inv_def)
  with assms(2) show ?thesis
    by (auto simp: rejected_full_def insertItem_def Let_def addMemory_def Allocation_def zero_Item_def)
qed

lemma insertItem_stores:
  assumes "ok hc" "\<not> rejected_full hc item" "snd (Item_Valid item) = None"
  shows "\<exists>hc1 hc'. insertItem E ctx hc (Key item) item = Some (hc', None) \<and> ok hc1 \<and> frame hc hc1 \<and>
    items hc1 = (items hc)(Key item \<mapsto> item) \<and>
    ev_Set (env_hash E) (evictionAlgorithm hc) (Key item) (Val item) = Some (evictionAlgorithm hc1) \<and>
    memoryAllocation hc1 = memoryAllocation hc + word_of_int (Size item) \<and>
    (if shouldEvict hc1 \<and> hc_Count E hc1 > hc_Capacity E hc1
     then \<exists>r. evictItem E ctx hc1 = Some (hc', r) else hc' = hc1)"
proof -
  have binv: "binv (hc_backend hc)" and evi: "evi (evictionAlgorithm hc)" using assms(1) by (auto simp: hc_inv_def)
  obtain b where b: "bk_Set (env_backend E) (hc_backend hc) item = Some (b, item, None)" "binv b"
    "lk b = (items hc)(Key item \<mapsto> item)" "bk_Capacity (env_backend E) b = bk_Capacity (env_backend E) (hc_backend hc)"
    using store.set_law [OF binv assms(3)] by blast
  obtain a where a: "ev_Set (env_hash E) (evictionAlgorithm hc) (Key item) (Val item) = Some a"
    using alg.set_law [OF evi] by blast
  note a' = alg.set_dom [OF evi a]
  let ?hc = "hc\<lparr>memoryAllocation := memoryAllocation hc + word_of_int (Size item), hc_backend := b, evictionAlgorithm := a\<rparr>"
  have ok1: "ok ?hc" using a' b(2,3) assms(1) by (auto simp: hc_inv_def)
  moreover have "frame hc ?hc" using a'(2) b(4) by (simp add: settings_def hc_Capacity_def)
  moreover obtain hc2 r where e: "evictItem E ctx ?hc = Some (hc2, r)" using evictItem_ok [OF ok1] by blast
  have "insertItem E ctx hc (Key item) item = (if shouldEvict ?hc \<and> hc_Count E ?hc > hc_Capacity E ?hc
      then map_option (\<lambda>(h, r). (h, None)) (evictItem E ctx ?hc) else Some (?hc, None))"
    using assms(2) b(1) a
    by (auto simp: rejected_full_def insertItem_def Let_def addMemory_def Allocation_def hc_Count_def hc_Capacity_def
        map_option_case split: option.splits)
  ultimately show ?thesis using a b(3) e
    by (intro exI [of _ ?hc] exI [of _ "if shouldEvict ?hc \<and> hc_Count E ?hc > hc_Capacity E ?hc then hc2 else ?hc"])
      (auto simp: hc_Count_def hc_Capacity_def)
qed

end

lemma setItemSize_fields: "setItemSize E item = Inr item' \<Longrightarrow> \<exists>n. item' = item\<lparr>Size := n\<rparr>"
  using Item_SetSize_fields by (fastforce simp: setItemSize_def split: option.splits)

lemma setItemSize_new:
  assumes "setItemSize E (newItem now k v e) = Inr item"
  shows "Key item = k" "Val item = v" "Expiration item = e" "LastAccess item = now"
  using setItemSize_fields [OF assms] by (auto simp: newItem_def)

lemma expired_filter_iff: "expired_filter now = Item_Expired now"
  by (simp add: expired_filter_def Item_Expired_def fun_eq_iff)

definition unexpired :: "int \<Rightarrow> (string \<rightharpoonup> Item) \<Rightarrow> string \<rightharpoonup> Item" where
  "unexpired now m = (\<lambda>k. case m k of None \<Rightarrow> None | Some it \<Rightarrow> if Item_Expired now it then None else Some it)"

context hyper_client
begin

abbreviation same_data :: "'b HyperCache \<Rightarrow> 'b HyperCache \<Rightarrow> bool" where
  "same_data hc hc' \<equiv> items hc' = items hc \<and> tracked hc' = tracked hc \<and> memoryAllocation hc' = memoryAllocation hc"

lemma stat_step:
  assumes "ok hc"
  shows "\<exists>hc'. incrStat nm v hc = Some hc' \<and> ok hc' \<and> frame hc hc' \<and> same_data hc hc'"
    "\<exists>hc'. gaugeStat nm v hc = Some hc' \<and> ok hc' \<and> frame hc hc' \<and> same_data hc hc'"
    "\<exists>hc'. timingStat nm v hc = Some hc' \<and> ok hc' \<and> frame hc hc' \<and> same_data hc hc'"
proof -
  have st: "stats_ok (StatsCollector hc)" using assms by (simp add: hc_inv_def)
  have same: "ok (hc\<lparr>StatsCollector := c\<rparr>) \<and> frame hc (hc\<lparr>StatsCollector := c\<rparr>) \<and> same_data hc (hc\<lparr>StatsCollector := c\<rparr>)"
    if "stats_ok c" for c
    using assms that by (simp add: hc_inv_def settings_def hc_Capacity_def)
  show "\<exists>hc'. incrStat nm v hc = Some hc' \<and> ok hc' \<and> frame hc hc' \<and> same_data hc hc'"
    "\<exists>hc'. gaugeStat nm v hc = Some hc' \<and> ok hc' \<and> frame hc hc' \<and> same_data hc hc'"
    "\<exists>hc'. timingStat nm v hc = Some hc' \<and> ok hc' \<and> frame hc hc' \<and> same_data hc hc'"
    using statistics_ok [OF st, of nm v] same by blast+
qed

lemma trigger_ok:
  assumes "ok hc"
  shows "\<exists>hc'. execTriggerExpiration now hc = Some hc' \<and> ok hc' \<and> frame hc hc' \<and> same_data hc hc'"
proof -
  let ?h = "hc\<lparr>expirationSignalPending := True\<rparr>"
  let ?g = "?h\<lparr>expirationTriggerCh := expirationTriggerCh ?h + 1, lastExpirationTrigger := UnixNano now\<rparr>"
  have h: "ok ?h" "frame hc ?h" "same_data hc ?h" and g: "ok ?g" "frame hc ?g" "same_data hc ?g"
    using assms by (simp_all add: hc_inv_def settings_def hc_Capacity_def)
  have "execTriggerExpiration now hc \<in> {incrStat ''incr'' 1 hc, incrStat ''incr'' 1 ?h, Some ?g}"
    unfolding execTriggerExpiration_def Let_def by simp
  then consider "execTriggerExpiration now hc = incrStat ''incr'' 1 hc" | "execTriggerExpiration now hc = incrStat ''incr'' 1 ?h"
    | "execTriggerExpiration now hc = Some ?g" by blast
  then show ?thesis
  proof cases
    case 1
    then show ?thesis using stat_step(1) [OF assms] by simp
  next
    case 2
    then show ?thesis using stat_step(1) [OF h(1), of "''incr''" 1] h(2,3) by auto
  next
    case 3
    then show ?thesis using g by blast
  qed
qed

lemma touchItem_ok:
  assumes "ok hc" "items hc k = Some it"
  shows "\<exists>hc'. touchItem E now hc k it = Some (hc', Item_Touch now it) \<and> ok hc' \<and> frame hc hc' \<and>
    items hc' = (items hc)(k \<mapsto> Item_Touch now it) \<and> tracked hc' = tracked hc \<and> memoryAllocation hc' = memoryAllocation hc"
proof -
  have binv: "binv (hc_backend hc)" using assms(1) by (simp add: hc_inv_def)
  obtain t b where t: "bk_Touch (env_backend E) = Some t" "t now (hc_backend hc) k = Some (b, items hc k \<noteq> None)" "binv b"
    "lk b = (items hc)(k := map_option (Item_Touch now) (items hc k))"
    "bk_Capacity (env_backend E) b = bk_Capacity (env_backend E) (hc_backend hc)"
    using store.touch_law [OF binv] by blast
  let ?hc = "hc\<lparr>hc_backend := b\<rparr>"
  have "touchItem E now hc k it = Some (?hc, Item_Touch now it)" using t(1,2) by (simp add: touchItem_def)
  moreover have "ok ?hc" using assms t(3,4) by (auto simp: hc_inv_def)
  ultimately show ?thesis using t(4,5) assms(2)
    by (intro exI [of _ ?hc]) (simp add: settings_def hc_Capacity_def)
qed

text \<open>\<open>Get\<close>, \<open>GetWithInfo\<close> and the hit path of \<open>GetOrSet\<close> share one case analysis.\<close>

lemma read_cases:
  assumes "ok hc"
  obtains (miss) "items hc k = None" "bk_Get (env_backend E) (hc_backend hc) k = Some (hc_backend hc, None)"
  | (expired) it hc' where "items hc k = Some it" "bk_Get (env_backend E) (hc_backend hc) k = Some (hc_backend hc, Some it)"
      "Item_Expired now it" "execTriggerExpiration now hc = Some hc'" "ok hc'" "frame hc hc'" "same_data hc hc'"
  | (hit) it hc' where "items hc k = Some it" "bk_Get (env_backend E) (hc_backend hc) k = Some (hc_backend hc, Some it)"
      "\<not> Item_Expired now it" "touchItem E now hc k it = Some (hc', Item_Touch now it)" "ok hc'" "frame hc hc'"
      "items hc' = (items hc)(k \<mapsto> Item_Touch now it)" "tracked hc' = tracked hc" "memoryAllocation hc' = memoryAllocation hc"
proof -
  have get: "bk_Get (env_backend E) (hc_backend hc) k = Some (hc_backend hc, items hc k)"
    using store.get_law assms by (simp add: hc_inv_def)
  show thesis
  proof (cases "items hc k")
    case None
    with get show ?thesis using miss by simp
  next
    case (Some it)
    show ?thesis
    proof (cases "Item_Expired now it")
      case True
      with Some get trigger_ok [OF assms, of now] show ?thesis using expired by auto
    next
      case False
      with Some get touchItem_ok [OF assms Some, of now] show ?thesis using hit by auto
    qed
  qed
qed

lemma get_ok:
  assumes "ok hc"
  shows "\<exists>hc'. hc_Get E now hc k = Some (hc', map_option Val (unexpired now (items hc) k)) \<and> ok hc' \<and> frame hc hc' \<and>
    items hc' = (items hc)(k := (case items hc k of None \<Rightarrow> None
       | Some it \<Rightarrow> Some (if Item_Expired now it then it else Item_Touch now it))) \<and>
    tracked hc' = tracked hc \<and> memoryAllocation hc' = memoryAllocation hc"
  using assms
proof (cases rule: read_cases [where k = k and now = now])
  case miss
  then show ?thesis using assms by (intro exI [of _ hc]) (simp add: hc_Get_def unexpired_def fun_upd_idem)
next
  case (expired it hc')
  then show ?thesis by (intro exI [of _ hc']) (simp add: hc_Get_def unexpired_def fun_upd_idem)
next
  case (hit it hc')
  then show ?thesis by (intro exI [of _ hc']) (simp add: hc_Get_def unexpired_def Item_Touch_def)
qed

lemma delete_all_ok:
  assumes "evi a"
  shows "\<exists>a'. delete_all E xs a = Some a' \<and> evi a' \<and> ev_cap a' = ev_cap a \<and>
    ev_content (env_hash E) a' = (\<lambda>k. if k \<in> Key ` set xs then None else ev_content (env_hash E) a k)"
  using assms
proof (induction xs arbitrary: a)
  case (Cons x xs)
  obtain b where b: "ev_Delete (env_hash E) a (Key x) = Some b" "evi b" "ev_cap b = ev_cap a"
    "ev_content (env_hash E) b = (ev_content (env_hash E) a)(Key x := None)"
    using alg.delete_law [OF Cons.prems] by blast
  from Cons.IH [OF b(2)] b show ?case by (auto simp: fun_eq_iff)
qed simp

lemma clear_ok:
  assumes "ok hc"
  shows "\<exists>hc'. hc_Clear E False hc = Some (hc', None) \<and> ok hc' \<and> frame hc hc' \<and>
    items hc' = Map.empty \<and> tracked hc' = Map.empty \<and> memoryAllocation hc' = 0"
proof -
  have binv: "binv (hc_backend hc)" and evi: "evi (evictionAlgorithm hc)" and sub: "dom (tracked hc) \<subseteq> dom (items hc)"
    and st: "stats_ok (StatsCollector hc)" using assms by (auto simp: hc_inv_def)
  obtain xs where xs: "bk_List (env_backend E) (hc_backend hc) [] = Some (Inr xs)" "lists_map (items hc) xs"
    using store.list_law [OF binv, of "[]"] by auto
  obtain b where b: "bk_Clear (env_backend E) False (hc_backend hc) = Some (b, None)" "binv b" "lk b = Map.empty"
    "bk_Capacity (env_backend E) b = bk_Capacity (env_backend E) (hc_backend hc)"
    using store.clear_law [OF binv, of False] by auto
  obtain a where a: "delete_all E xs (evictionAlgorithm hc) = Some a" "evi a" "ev_cap a = ev_cap (evictionAlgorithm hc)"
    "ev_content (env_hash E) a = (\<lambda>k. if k \<in> Key ` set xs then None else tracked hc k)"
    using delete_all_ok [OF evi] by blast
  have "k \<in> Key ` set xs" if "items hc k = Some it" for k it
    using that xs(2) store.lk_SomeD [OF binv that] by (force simp: lists_map_def)
  then have none: "ev_content (env_hash E) a = Map.empty"
    unfolding a(4) using sub by (fastforce simp: fun_eq_iff)
  let ?hc = "hc\<lparr>hc_backend := b, evictionAlgorithm := a, memoryAllocation := 0\<rparr>"
  have "hc_Clear E False hc = Some (?hc, None)" using xs(1) b(1) a(1) by (simp add: hc_Clear_def)
  moreover have "ok ?hc" using b(2,3) a(2) none st by (simp add: hc_inv_def)
  ultimately show ?thesis using b(3,4) a(3) none
    by (intro exI [of _ ?hc]) (simp add: settings_def hc_Capacity_def)
qed

end

context hyper_client
begin

lemma expire_loop_ok:
  assumes "ok hc" "distinct (map Key xs)"
  shows "\<exists>hc'. expire_loop xs E (\<lambda>_. False) hc n = Some (hc', n + int (length xs), None) \<and> ok hc' \<and> frame hc hc' \<and>
    items hc' = (\<lambda>k. if k \<in> Key ` set xs then None else items hc k) \<and>
    tracked hc' = (\<lambda>k. if k \<in> Key ` set xs then None else tracked hc k) \<and>
    memoryAllocation hc' = memoryAllocation hc - word_of_int (\<Sum>x\<leftarrow>xs. size_at (items hc) (Key x))"
  using assms
proof (induction xs arbitrary: hc n)
  case (Cons x xs)
  obtain h1 where h1: "hc_Remove E False hc [Key x] = Some (h1, None)" "ok h1" "frame hc h1"
    "items h1 = (\<lambda>k. if k \<in> set [Key x] then None else items hc k)"
    "tracked h1 = (\<lambda>k. if k \<in> set [Key x] then None else tracked hc k)"
    "memoryAllocation h1 = memoryAllocation hc - word_of_int (\<Sum>k\<leftarrow>[Key x]. size_at (items hc) k)"
    using remove_ok [OF Cons.prems(1), of False "[Key x]"] by auto
  obtain h2 where h2: "incrStat ''item_expired_count'' 1 h1 = Some h2" "ok h2" "frame h1 h2" "same_data h1 h2"
    using stat_step(1) [OF h1(2)] by blast
  have d: "distinct (map Key xs)" and new: "Key x \<notin> Key ` set xs" using Cons.prems(2) by auto
  obtain h3 where h3: "expire_loop xs E (\<lambda>_. False) h2 (n + 1) = Some (h3, n + 1 + int (length xs), None)" "ok h3" "frame h2 h3"
    "items h3 = (\<lambda>k. if k \<in> Key ` set xs then None else items h2 k)"
    "tracked h3 = (\<lambda>k. if k \<in> Key ` set xs then None else tracked h2 k)"
    "memoryAllocation h3 = memoryAllocation h2 - word_of_int (\<Sum>x\<leftarrow>xs. size_at (items h2) (Key x))"
    using Cons.IH [OF h2(2) d] by blast
  have ne: "Key y \<noteq> Key x" if "y \<in> set xs" for y using new that by (metis imageI)
  have sizes: "(\<Sum>x\<leftarrow>xs. size_at (items h2) (Key x)) = (\<Sum>x\<leftarrow>xs. size_at (items hc) (Key x))"
    using ne h1(4) h2(4) by (intro arg_cong [of _ _ sum_list] map_cong) (simp_all add: size_at_def)
  have "expire_loop (x # xs) E (\<lambda>_. False) hc n = Some (h3, n + int (length (x # xs)), None)"
    using h1(1) h2(1) h3(1) by (simp add: algebra_simps)
  moreover have "items h3 = (\<lambda>k. if k \<in> Key ` set (x # xs) then None else items hc k)"
    "tracked h3 = (\<lambda>k. if k \<in> Key ` set (x # xs) then None else tracked hc k)"
    using h3(4,5) h2(4) h1(4,5) by (auto simp: fun_eq_iff)
  moreover have "memoryAllocation h3 = memoryAllocation hc - word_of_int (\<Sum>x\<leftarrow>x # xs. size_at (items hc) (Key x))"
    using h3(6) h2(4) h1(6) sizes by (simp add: algebra_simps)
  ultimately show ?case using h3(2,3) h2(3) h1(3) by (intro exI [of _ h3]) simp
qed simp

text \<open>The expiration job drops exactly the expired items, from the backend, the algorithm and the accounting.\<close>

lemma expirationJob_ok:
  assumes "ok hc" "sortFunc_ok sortFunc"
  shows "\<exists>hc' xs. expirationJob E (\<lambda>_. False) now hc = Some (hc', None) \<and> ok hc' \<and> frame hc hc' \<and>
    items hc' = unexpired now (items hc) \<and>
    tracked hc' = (\<lambda>k. if unexpired now (items hc) k = None then None else tracked hc k) \<and>
    distinct (map Key xs) \<and> (\<forall>it. it \<in> set xs \<longleftrightarrow> items hc (Key it) = Some it \<and> Item_Expired now it) \<and>
    memoryAllocation hc' = memoryAllocation hc - word_of_int (\<Sum>x\<leftarrow>xs. Size x)"
proof -
  obtain h1 where h1: "incrStat ''expiration_loop_count'' 1 hc = Some h1" "ok h1" "frame hc h1" "same_data hc h1"
    using stat_step(1) [OF assms(1)] by blast
  have binv: "binv (hc_backend h1)" using h1(2) by (simp add: hc_inv_def)
  have less: "sorter_less ''Expiration'' = Some (\<lambda>i j. Expiration i < Expiration j)" by (simp add: sorter_less_def)
  obtain xs where xs: "bk_List (env_backend E) (hc_backend h1) [WithSortBy ''Expiration'', WithFilterFunc (expired_filter now)] = Some (Inr xs)"
    "distinct (map Key xs)" "\<forall>it. it \<in> set xs \<longleftrightarrow> items h1 (Key it) = Some it \<and> expired_filter now it"
    using store.list_sorted_selection [OF binv assms(2) less, of "expired_filter now"] by blast
  obtain h2 where h2: "expire_loop xs E (\<lambda>_. False) h1 0 = Some (h2, int (length xs), None)" "ok h2" "frame h1 h2"
    "items h2 = (\<lambda>k. if k \<in> Key ` set xs then None else items h1 k)"
    "tracked h2 = (\<lambda>k. if k \<in> Key ` set xs then None else tracked h1 k)"
    "memoryAllocation h2 = memoryAllocation h1 - word_of_int (\<Sum>x\<leftarrow>xs. size_at (items h1) (Key x))"
    using expire_loop_ok [OF h1(2) xs(2), of 0] by auto
  obtain h3 where h3: "gaugeStat ''item_count'' (hc_Count E h2) h2 = Some h3" "ok h3" "frame h2 h3" "same_data h2 h3"
    using stat_step(2) [OF h2(2)] by blast
  obtain h4 where h4: "gaugeStat ''expired_item_count'' (int (length xs)) h3 = Some h4" "ok h4" "frame h3 h4" "same_data h3 h4"
    using stat_step(2) [OF h3(2)] by blast
  obtain h5 where h5: "timingStat ''expiration_loop_duration'' (UnixNano now) h4 = Some h5" "ok h5" "frame h4 h5" "same_data h4 h5"
    using stat_step(3) [OF h4(2)] by blast
  have keys: "k \<in> Key ` set xs \<longleftrightarrow> (\<exists>it. items hc k = Some it \<and> Item_Expired now it)" for k
    using xs(3) h1(4) store.lk_SomeD [OF binv] by (force simp: expired_filter_iff)
  have it: "items h5 = unexpired now (items hc)"
    using h2(4) h3(4) h4(4) h5(4) h1(4) keys by (auto simp: fun_eq_iff unexpired_def split: option.split)
  have tr: "tracked h5 = (\<lambda>k. if unexpired now (items hc) k = None then None else tracked hc k)"
    using h2(5) h3(4) h4(4) h5(4) h1(2,4) keys
    by (auto simp: fun_eq_iff unexpired_def hc_inv_def domIff split: option.split)
  have "(\<Sum>x\<leftarrow>xs. size_at (items h1) (Key x)) = (\<Sum>x\<leftarrow>xs. Size x)"
    using xs(3) by (intro arg_cong [of _ _ sum_list] map_cong) (auto simp: size_at_def)
  then have mem: "memoryAllocation h5 = memoryAllocation hc - word_of_int (\<Sum>x\<leftarrow>xs. Size x)"
    using h2(6) h3(4) h4(4) h5(4) h1(4) by simp
  have "expirationJob E (\<lambda>_. False) now hc = Some (h5, None)"
    using h1(1) xs(1) h2(1) h3(1) h4(1) h5(1) by (simp add: expirationJob_def hc_List_def)
  with it tr mem xs(2,3) h1(3,4) h2(3) h3(3) h4(3) h5(2,3) show ?thesis
    by (intro exI [of _ h5] exI [of _ xs]) (simp add: expired_filter_iff)
qed

text \<open>
  The eviction loop: it drops \<open>n\<close> tracked keys, and stops without an error only at the capacity, at
  the limit, or when the algorithm names no victim.
\<close>

lemma evict_loop_ok:
  assumes "ok hc"
  shows "\<exists>hc' n. evict_loop left E (\<lambda>_. False) hc ev = Some (hc', ev + of_nat n, None) \<and> ok hc' \<and> frame hc hc' \<and> n \<le> left \<and>
    (\<exists>K \<subseteq> dom (tracked hc). finite K \<and> card K = n \<and> items hc' = items hc |` (- K) \<and> tracked hc' = tracked hc |` (- K)) \<and>
    (hc_Count E hc' \<le> hc_Capacity E hc' \<or> n = left \<or>
     (\<exists>a. evi a \<and> ev_content (env_hash E) a = tracked hc' \<and> ev_Evict (env_toU32 E) a = Some (evictionAlgorithm hc', None)))"
  using assms
proof (induction left arbitrary: hc ev)
  case 0
  then show ?case by (intro exI [of _ hc] exI [of _ 0]) (auto intro!: exI [of _ "{}"])
next
  case (Suc left)
  show ?case
  proof (cases "hc_Count E hc > hc_Capacity E hc")
    case False
    with Suc.prems show ?thesis by (intro exI [of _ hc] exI [of _ 0]) (auto intro!: exI [of _ "{}"])
  next
    case True
    have evi: "evi (evictionAlgorithm hc)" using Suc.prems by (simp add: hc_inv_def)
    obtain a r where a: "ev_Evict (env_toU32 E) (evictionAlgorithm hc) = Some (a, r)" "evi a"
      "ev_cap a = ev_cap (evictionAlgorithm hc)"
      "case r of None \<Rightarrow> ev_content (env_hash E) a = tracked hc
       | Some k \<Rightarrow> k \<in> dom (tracked hc) \<and> ev_content (env_hash E) a = (tracked hc)(k := None)"
      using alg.evict_law [OF evi] by blast
    let ?hc = "hc\<lparr>evictionAlgorithm := a\<rparr>"
    have "dom (ev_content (env_hash E) a) \<subseteq> dom (items hc)"
      using a(4) Suc.prems by (auto simp: hc_inv_def split: option.splits)
    then have ok1: "ok ?hc" using Suc.prems a(2) by (simp add: hc_inv_def)
    have fr: "frame hc ?hc" using a(3) by (simp add: settings_def hc_Capacity_def)
    show ?thesis
    proof (cases r)
      case None
      then have "evict_loop (Suc left) E (\<lambda>_. False) hc ev = Some (?hc, ev + of_nat 0, None)" using True a(1) by simp
      with ok1 fr None a(1,4) evi show ?thesis
        by (intro exI [of _ ?hc] exI [of _ 0]) (auto intro!: exI [of _ "{}"] exI [of _ "evictionAlgorithm hc"])
    next
      case (Some key)
      obtain h1 where h1: "hc_Remove E False ?hc [key] = Some (h1, None)" "ok h1" "frame ?hc h1"
        "items h1 = (\<lambda>k. if k \<in> set [key] then None else items ?hc k)"
        "tracked h1 = (\<lambda>k. if k \<in> set [key] then None else tracked ?hc k)"
        using remove_ok [OF ok1, of False "[key]"] by auto
      obtain h2 where h2: "incrStat ''item_evicted_count'' 1 h1 = Some h2" "ok h2" "frame h1 h2" "same_data h1 h2"
        using stat_step(1) [OF h1(2)] by blast
      have it: "items h2 = (items hc)(key := None)" and tr: "tracked h2 = (tracked hc)(key := None)"
        and key: "key \<in> dom (tracked hc)"
        using h1(4,5) h2(4) a(4) Some by (auto simp: fun_eq_iff)
      obtain h3 n K where h3: "evict_loop left E (\<lambda>_. False) h2 (ev + 1) = Some (h3, ev + 1 + of_nat n, None)" "ok h3" "frame h2 h3"
        "n \<le> left" "K \<subseteq> dom (tracked h2)" "finite K" "card K = n" "items h3 = items h2 |` (- K)" "tracked h3 = tracked h2 |` (- K)"
        "hc_Count E h3 \<le> hc_Capacity E h3 \<or> n = left \<or>
         (\<exists>a. evi a \<and> ev_content (env_hash E) a = tracked h3 \<and> ev_Evict (env_toU32 E) a = Some (evictionAlgorithm h3, None))"
        using Suc.IH [OF h2(2), of "ev + 1"] by blast
      have new: "key \<notin> K" using h3(5) tr by auto
      have "evict_loop (Suc left) E (\<lambda>_. False) hc ev = Some (h3, ev + of_nat (Suc n), None)"
        using True a(1) Some h1(1) h2(1) h3(1) by (simp add: algebra_simps)
      moreover have "items h3 = items hc |` (- insert key K)" "tracked h3 = tracked hc |` (- insert key K)"
        using h3(8,9) it tr by (auto simp: restrict_map_def fun_eq_iff)
      moreover have "insert key K \<subseteq> dom (tracked hc)" "card (insert key K) = Suc n"
        using key h3(5,6,7) tr new by auto
      ultimately show ?thesis using h3(2,3,4,6,10) h2(3) h1(3) fr
        by (intro exI [of _ h3] exI [of _ "Suc n"]) (auto intro!: exI [of _ "insert key K"])
    qed
  qed
qed

end

section \<open>Runs and the timed map\<close>

datatype hc_op = HSet int string gval int | HGet int string | HGetOrSet int string gval int
  | HRemove "string list" | HClear | HTrigger int | HExpire int

datatype hc_res = HErr "sentinel option" | HVal "gval option" | HEither "sentinel + gval" | HDone

fun hc_step :: "'b Env \<Rightarrow> 'b HyperCache \<Rightarrow> hc_op \<Rightarrow> ('b HyperCache \<times> hc_res) option" where
  "hc_step E hc (HSet now k v e) = map_option (map_prod id HErr) (hc_Set E False now hc k v e)"
| "hc_step E hc (HGet now k) = map_option (map_prod id HVal) (hc_Get E now hc k)"
| "hc_step E hc (HGetOrSet now k v e) = map_option (map_prod id HEither) (GetOrSet E False now hc k v e)"
| "hc_step E hc (HRemove ks) = map_option (map_prod id HErr) (hc_Remove E False hc ks)"
| "hc_step E hc HClear = map_option (map_prod id HErr) (hc_Clear E False hc)"
| "hc_step E hc (HTrigger now) = map_option (\<lambda>h. (h, HDone)) (TriggerExpiration now hc)"
| "hc_step E hc (HExpire now) = map_option (map_prod id HErr) (expirationJob E (\<lambda>_. False) now hc)"

fun hc_run :: "'b Env \<Rightarrow> 'b HyperCache \<Rightarrow> hc_op list \<Rightarrow> ('b HyperCache \<times> hc_res list) option" where
  "hc_run E hc [] = Some (hc, [])"
| "hc_run E hc (x # xs) = (case hc_step E hc x of None \<Rightarrow> None
     | Some (h, r) \<Rightarrow> map_option (\<lambda>(h', rs). (h', r # rs)) (hc_run E h xs))"

text \<open>
  The specification without capacity: a map from keys to a value, its lifetime and the time of its
  last access. A lookup within the lifetime renews it; an item beyond it is invisible to \<open>Get\<close>, is
  reported by \<open>GetOrSet\<close>, and goes at the next expiration pass.
\<close>

type_synonym tmap = "string \<rightharpoonup> gval \<times> int \<times> int"

fun entry_expired :: "int \<Rightarrow> gval \<times> int \<times> int \<Rightarrow> bool" where
  "entry_expired now (v, e, la) \<longleftrightarrow> 0 < e \<and> e < time_Sub now la"

definition entry_error :: "'b Env \<Rightarrow> string \<Rightarrow> gval \<Rightarrow> int \<Rightarrow> sentinel option" where
  "entry_error E k v e = (case setItemSize E (newItem 0 [] v 0) of
       Inl err \<Rightarrow> Some err
     | Inr _ \<Rightarrow> if blank k then Some ErrInvalidKey else if v = GNil then Some ErrNilValue
                else if e < 0 then Some ErrInvalidExpiration else None)"

fun tm_step :: "'b Env \<Rightarrow> tmap \<Rightarrow> hc_op \<Rightarrow> tmap \<times> hc_res" where
  "tm_step E m (HSet now k v e) = (case entry_error E k v e of
       Some err \<Rightarrow> (m, HErr (Some err)) | None \<Rightarrow> (m(k \<mapsto> (v, e, now)), HErr None))"
| "tm_step E m (HGet now k) = (case m k of
       None \<Rightarrow> (m, HVal None)
     | Some (v, e, la) \<Rightarrow> if entry_expired now (v, e, la) then (m, HVal None) else (m(k \<mapsto> (v, e, now)), HVal (Some v)))"
| "tm_step E m (HGetOrSet now k v e) = (case m k of
       Some (w, e', la) \<Rightarrow> if entry_expired now (w, e', la) then (m, HEither (Inl ErrKeyExpired))
                          else (m(k \<mapsto> (w, e', now)), HEither (Inr w))
     | None \<Rightarrow> (case entry_error E k v e of
           Some err \<Rightarrow> (m, HEither (Inl err)) | None \<Rightarrow> (m(k \<mapsto> (v, e, now)), HEither (Inr v))))"
| "tm_step E m (HRemove ks) = (m |` (- set ks), HErr None)"
| "tm_step E m HClear = (Map.empty, HErr None)"
| "tm_step E m (HTrigger now) = (m, HDone)"
| "tm_step E m (HExpire now) =
     (\<lambda>k. case m k of None \<Rightarrow> None | Some x \<Rightarrow> if entry_expired now x then None else Some x, HErr None)"

fun tm_run :: "'b Env \<Rightarrow> tmap \<Rightarrow> hc_op list \<Rightarrow> tmap \<times> hc_res list" where
  "tm_run E m [] = (m, [])"
| "tm_run E m (x # xs) = (case tm_step E m x of (m1, r) \<Rightarrow> case tm_run E m1 xs of (m2, rs) \<Rightarrow> (m2, r # rs))"

definition entry :: "Item \<Rightarrow> gval \<times> int \<times> int" where
  "entry it = (Val it, Expiration it, LastAccess it)"

definition timed :: "(string \<rightharpoonup> Item) \<Rightarrow> tmap" where
  "timed m = (\<lambda>k. map_option entry (m k))"

lemma timed_simps [simp]:
  "timed m k = map_option entry (m k)" "timed (m(k := x)) = (timed m)(k := map_option entry x)" "timed Map.empty = Map.empty"
  by (auto simp: timed_def fun_eq_iff)

lemma entry_simps [simp]:
  "entry_expired now (entry it) \<longleftrightarrow> Item_Expired now it" "entry (Item_Touch now it) = (Val it, Expiration it, now)"
  by (auto simp: entry_def Item_Expired_def Item_Touch_def)

lemma setItemSize_cong:
  "Val a = Val b \<Longrightarrow> (case setItemSize E a of Inl e \<Rightarrow> Some e | Inr _ \<Rightarrow> None) = (case setItemSize E b of Inl e \<Rightarrow> Some e | Inr _ \<Rightarrow> None)"
  by (auto simp: setItemSize_def Item_SetSize_def split: option.splits gval.splits)

lemma entry_error_iff:
  "entry_error E k v e = (case setItemSize E (newItem now k v e) of Inl err \<Rightarrow> Some err | Inr item \<Rightarrow> snd (Item_Valid item))"
proof -
  have "(case setItemSize E (newItem 0 [] v 0) of Inl e \<Rightarrow> Some e | Inr _ \<Rightarrow> None) =
      (case setItemSize E (newItem now k v e) of Inl e \<Rightarrow> Some e | Inr _ \<Rightarrow> None)"
    by (rule setItemSize_cong) (simp add: newItem_def)
  then show ?thesis
    using setItemSize_new [of E now k v e]
    by (auto simp: entry_error_def Item_Valid_def split: sum.splits)
qed

context hyper_client
begin

text \<open>A \<open>Set\<close> without a size limit and without proactive eviction.\<close>

lemma set_unbounded:
  assumes "ok hc" "\<not> shouldEvict hc" "maxCacheSize hc = 0" "setItemSize E (newItem now k v e) = Inr item"
  shows "\<exists>hc'. insertItem E ctx hc k item = Some (hc', snd (Item_Valid item)) \<and> ok hc' \<and> frame hc hc' \<and>
    items hc' = (if snd (Item_Valid item) = None then (items hc)(k \<mapsto> item) else items hc)"
proof (cases "snd (Item_Valid item)")
  case None
  have full: "\<not> rejected_full hc item" using assms(3) by (simp add: rejected_full_def)
  have key: "Key item = k" using setItemSize_new(1) [OF assms(4)] .
  obtain hc1 hc' where h: "insertItem E ctx hc (Key item) item = Some (hc', None)" "ok hc1" "frame hc hc1"
    "items hc1 = (items hc)(Key item \<mapsto> item)"
    "if shouldEvict hc1 \<and> hc_Count E hc1 > hc_Capacity E hc1 then \<exists>r. evictItem E ctx hc1 = Some (hc', r) else hc' = hc1"
    using insertItem_stores [OF assms(1) full None, of ctx] by blast
  then have "hc' = hc1" using assms(2) by (simp add: settings_def)
  with h None key show ?thesis by auto
next
  case (Some err)
  then have "insertItem E ctx hc k item =
      Some (hc\<lparr>memoryAllocation := memoryAllocation hc + word_of_int (Size item)\<rparr>, Some err)"
    using insertItem_invalid [OF assms(1) _ Some] assms(3) by (simp add: rejected_full_def)
  with Some assms(1) show ?thesis
    by (intro exI [of _ "hc\<lparr>memoryAllocation := memoryAllocation hc + word_of_int (Size item)\<rparr>"])
      (simp add: hc_inv_def settings_def hc_Capacity_def)
qed

lemma getOrSet_present:
  assumes "ok hc" "items hc k = Some it"
  shows "\<exists>hc'. GetOrSet E ctx now hc k v e = Some (hc', if Item_Expired now it then Inl ErrKeyExpired else Inr (Val it)) \<and>
    ok hc' \<and> frame hc hc' \<and> items hc' = (items hc)(k \<mapsto> if Item_Expired now it then it else Item_Touch now it) \<and>
    tracked hc' = tracked hc \<and> memoryAllocation hc' = memoryAllocation hc"
  using assms(1)
proof (cases rule: read_cases [where k = k and now = now])
  case miss
  then show ?thesis using assms by simp
next
  case (expired it' hc')
  then show ?thesis using assms(2) by (intro exI [of _ hc']) (simp add: GetOrSet_def fun_upd_idem)
next
  case (hit it' hc')
  then show ?thesis using assms(2) by (intro exI [of _ hc']) (simp add: GetOrSet_def Item_Touch_def)
qed

lemma getOrSet_absent:
  assumes "ok hc" "items hc k = None"
  shows "GetOrSet E ctx now hc k v e = (case setItemSize E (newItem now k v e) of
      Inl err \<Rightarrow> Some (hc, Inl err)
    | Inr item \<Rightarrow> map_option (\<lambda>(hc2, err). (hc2, case err of None \<Rightarrow> Inr v | Some e \<Rightarrow> Inl e)) (insertItem E ctx hc k item))"
proof -
  have "bk_Get (env_backend E) (hc_backend hc) k = Some (hc_backend hc, None)"
    using store.get_law assms by (simp add: hc_inv_def)
  then show ?thesis by (simp add: GetOrSet_def)
qed

lemma timed_set:
  assumes "setItemSize E (newItem now k v e) = Inr item"
  shows "entry item = (v, e, now)"
  using setItemSize_new [OF assms] by (simp add: entry_def)

lemma step_refines_timed:
  assumes "ok hc" "\<not> shouldEvict hc" "maxCacheSize hc = 0" "sortFunc_ok sortFunc"
  shows "\<exists>hc'. hc_step E hc x = Some (hc', snd (tm_step E (timed (items hc)) x)) \<and> ok hc' \<and> frame hc hc' \<and>
    timed (items hc') = fst (tm_step E (timed (items hc)) x)"
proof (cases x)
  case (HSet now k v e)
  show ?thesis
  proof (cases "setItemSize E (newItem now k v e)")
    case (Inl err)
    with HSet assms(1) show ?thesis
      by (intro exI [of _ hc]) (simp add: hc_Set_def entry_error_iff [where now = now and k = k and v = v and e = e])
  next
    case (Inr item)
    then obtain hc' where "insertItem E False hc k item = Some (hc', snd (Item_Valid item))" "ok hc'" "frame hc hc'"
      "items hc' = (if snd (Item_Valid item) = None then (items hc)(k \<mapsto> item) else items hc)"
      using set_unbounded [OF assms(1-3)] by blast
    with Inr HSet timed_set [OF Inr] show ?thesis
      by (intro exI [of _ hc'])
        (auto simp: hc_Set_def entry_error_iff [where now = now and k = k and v = v and e = e] split: option.split)
  qed
next
  case (HGet now k)
  with get_ok [OF assms(1), of now k] show ?thesis
    by (cases "items hc k") (auto simp: unexpired_def entry_def Item_Expired_def Item_Touch_def fun_upd_idem split: prod.splits if_splits)
next
  case (HGetOrSet now k v e)
  show ?thesis
  proof (cases "items hc k")
    case (Some it)
    with getOrSet_present [OF assms(1) Some, of False now v e] HGetOrSet show ?thesis
      by (auto simp: entry_def Item_Expired_def Item_Touch_def fun_upd_idem split: prod.splits if_splits)
  next
    case None
    note abs = getOrSet_absent [OF assms(1) None, of False now v e]
    show ?thesis
    proof (cases "setItemSize E (newItem now k v e)")
      case (Inl err)
      with HGetOrSet None abs assms(1) show ?thesis
        by (intro exI [of _ hc]) (simp add: entry_error_iff [where now = now and k = k and v = v and e = e])
    next
      case (Inr item)
      then obtain hc' where "insertItem E False hc k item = Some (hc', snd (Item_Valid item))" "ok hc'" "frame hc hc'"
        "items hc' = (if snd (Item_Valid item) = None then (items hc)(k \<mapsto> item) else items hc)"
        using set_unbounded [OF assms(1-3)] by blast
      with Inr HGetOrSet None abs timed_set [OF Inr] show ?thesis
        by (intro exI [of _ hc'])
          (auto simp: entry_error_iff [where now = now and k = k and v = v and e = e] split: option.split)
    qed
  qed
next
  case (HRemove ks)
  obtain hc' where h: "hc_Remove E False hc ks = Some (hc', None)" "ok hc'" "frame hc hc'"
    "items hc' = (\<lambda>k. if k \<in> set ks then None else items hc k)"
    using remove_ok [OF assms(1), of False ks] by auto
  moreover have "timed (items hc') = timed (items hc) |` (- set ks)"
    unfolding h(4) by (auto simp: fun_eq_iff restrict_map_def)
  ultimately show ?thesis using HRemove by auto
next
  case HClear
  with clear_ok [OF assms(1)] show ?thesis by auto
next
  case (HTrigger now)
  with trigger_ok [OF assms(1), of now] show ?thesis by (auto simp: TriggerExpiration_def)
next
  case (HExpire now)
  obtain hc' where h: "expirationJob E (\<lambda>_. False) now hc = Some (hc', None)" "ok hc'" "frame hc hc'"
    "items hc' = unexpired now (items hc)"
    using expirationJob_ok [OF assms(1,4), of now] by blast
  moreover have "timed (items hc') = fst (tm_step E (timed (items hc)) (HExpire now))"
    unfolding h(4) by (auto simp: fun_eq_iff unexpired_def split: option.split)
  ultimately show ?thesis using HExpire by auto
qed

lemma run_refines_timed:
  assumes "ok hc" "\<not> shouldEvict hc" "maxCacheSize hc = 0" "sortFunc_ok sortFunc"
  shows "\<exists>hc' rs. hc_run E hc xs = Some (hc', rs) \<and> ok hc' \<and> tm_run E (timed (items hc)) xs = (timed (items hc'), rs)"
  using assms
proof (induction xs arbitrary: hc)
  case (Cons x xs)
  obtain h1 where h1: "hc_step E hc x = Some (h1, snd (tm_step E (timed (items hc)) x))" "ok h1" "frame hc h1"
    "timed (items h1) = fst (tm_step E (timed (items hc)) x)"
    using step_refines_timed [OF Cons.prems] by blast
  then have "\<not> shouldEvict h1" "maxCacheSize h1 = 0" using Cons.prems(2,3) by (simp_all add: settings_def)
  from Cons.IH [OF h1(2) this Cons.prems(4)] obtain h2 rs where
    "hc_run E h1 xs = Some (h2, rs)" "ok h2" "tm_run E (timed (items h1)) xs = (timed (items h2), rs)" by blast
  with h1 show ?case by (auto simp: case_prod_beta simp del: timed_simps(1))
qed simp

end

section \<open>Capacity\<close>

locale hyper_tracking = hyper_client +
  track: tracking_algorithm evi ev_cap "ev_content (env_hash E)" "ev_Set (env_hash E)" "ev_Get (env_hash E)"
    "ev_Evict (env_toU32 E)" "ev_Delete (env_hash E)"
begin

lemma count_card: "ok hc \<Longrightarrow> hc_Count E hc = int (card (dom (items hc))) \<and> finite (dom (items hc))"
  using store.count_law store.valid_law by (auto simp: hc_inv_def hc_Count_def valid_map_def)

lemma insert_bounded:
  assumes "ok hc" "shouldEvict hc" "0 < ev_cap (evictionAlgorithm hc)" "hc_Count E hc \<le> hc_Capacity E hc" "Key item = k"
    and "insertItem E False hc k item = Some (hc', r)"
  shows "ok hc' \<and> frame hc hc' \<and> hc_Count E hc' \<le> hc_Capacity E hc'"
proof (cases "rejected_full hc item")
  case True
  with assms insertItem_full [OF True, of False k] show ?thesis by simp
next
  case full: False
  show ?thesis
  proof (cases "snd (Item_Valid item)")
    case (Some e)
    with insertItem_invalid [OF assms(1) full Some, of False k] assms show ?thesis
      by (auto simp: hc_inv_def settings_def hc_Capacity_def hc_Count_def)
  next
    case None
    obtain hc1 where h: "ok hc1" "frame hc hc1" "items hc1 = (items hc)(k \<mapsto> item)"
      "ev_Set (env_hash E) (evictionAlgorithm hc) k (Val item) = Some (evictionAlgorithm hc1)"
      "if shouldEvict hc1 \<and> hc_Count E hc1 > hc_Capacity E hc1 then \<exists>r. evictItem E False hc1 = Some (hc', r) else hc' = hc1"
      using insertItem_stores [OF assms(1) full None, of False] assms(5,6) by auto
    show ?thesis
    proof (cases "hc_Count E hc1 > hc_Capacity E hc1")
      case False
      with h assms(2) show ?thesis by (auto split: if_splits)
    next
      case True
      with h(2,5) assms(2) obtain r' where ev: "evictItem E False hc1 = Some (hc', r')"
        by (auto simp: settings_def split: if_splits)
      have evi: "evi (evictionAlgorithm hc)" "evi (evictionAlgorithm hc1)" using assms(1) h(1) by (auto simp: hc_inv_def)
      have "tracked hc1 k = Some (Val item)" using track.set_tracks [OF evi(1) assms(3) h(4)] .
      then have ne: "tracked hc1 \<noteq> Map.empty" by auto
      have "ev_Evict (env_toU32 E) (evictionAlgorithm hc1) \<noteq> Some (evictionAlgorithm hc', None)"
        using track.evict_progress [OF evi(2) ne] by blast
      then obtain j where j: "ok hc'" "frame hc1 hc'" "j \<in> dom (tracked hc1)" "items hc' = (items hc1)(j := None)"
        using evictItem_ok [OF h(1), of False] ev by auto
      have sub: "j \<in> dom (items hc1)" using j(3) h(1) by (auto simp: hc_inv_def)
      have c: "hc_Count E hc = int (card (dom (items hc)))" "finite (dom (items hc))"
        "hc_Count E hc' = int (card (dom (items hc')))"
        using count_card [OF assms(1)] count_card [OF j(1)] by auto
      have "card (dom (items hc')) < card (insert k (dom (items hc)))"
        using sub c(2) unfolding j(4) h(3) by (intro psubset_card_mono) auto
      also have "\<dots> \<le> Suc (card (dom (items hc)))" by (rule card_insert_le_m1) simp_all
      finally show ?thesis using assms(4) c j(1,2) h(2) by simp
    qed
  qed
qed

lemma step_bounded:
  assumes "ok hc" "shouldEvict hc" "0 < ev_cap (evictionAlgorithm hc)" "hc_Count E hc \<le> hc_Capacity E hc"
    and "sortFunc_ok sortFunc"
  shows "\<exists>hc' r. hc_step E hc x = Some (hc', r) \<and> ok hc' \<and> frame hc hc' \<and> hc_Count E hc' \<le> hc_Capacity E hc'"
proof -
  have mono: "hc_Count E h \<le> hc_Capacity E h" if "ok h" "frame hc h" "dom (items h) \<subseteq> dom (items hc)" for h
    using that assms(4) count_card [OF assms(1)] count_card [OF that(1)] card_mono [of "dom (items hc)" "dom (items h)"] by simp
  have ins: "\<exists>hc' r. insertItem E False hc (Key item) item = Some (hc', r)" for item
  proof (cases "rejected_full hc item")
    case True
    then show ?thesis using insertItem_full by blast
  next
    case False
    show ?thesis
    proof (cases "snd (Item_Valid item)")
      case None
      then show ?thesis using insertItem_stores [OF assms(1) False None, of False] by blast
    next
      case (Some e)
      then show ?thesis using insertItem_invalid [OF assms(1) False Some] by blast
    qed
  qed
  show ?thesis
  proof (cases x)
    case (HSet now k v e)
    show ?thesis
    proof (cases "setItemSize E (newItem now k v e)")
      case (Inl err)
      with HSet assms(1,4) show ?thesis by (simp add: hc_Set_def)
    next
      case (Inr item)
      have key: "Key item = k" using setItemSize_new(1) [OF Inr] .
      obtain hc' r where h: "insertItem E False hc k item = Some (hc', r)" using ins key by blast
      with insert_bounded [OF assms(1-4) key h] HSet Inr show ?thesis by (simp add: hc_Set_def)
    qed
  next
    case (HGet now k)
    obtain h where h: "hc_Get E now hc k = Some (h, map_option Val (unexpired now (items hc) k))" "ok h" "frame hc h"
      "items h = (items hc)(k := (case items hc k of None \<Rightarrow> None
         | Some it \<Rightarrow> Some (if Item_Expired now it then it else Item_Touch now it)))"
      using get_ok [OF assms(1), of now k] by blast
    have "dom (items h) \<subseteq> dom (items hc)" unfolding h(4) by (auto split: option.splits)
    from mono [OF h(2,3) this] h HGet show ?thesis by simp
  next
    case (HGetOrSet now k v e)
    show ?thesis
    proof (cases "items hc k")
      case (Some it)
      obtain h where h: "GetOrSet E False now hc k v e = Some (h, if Item_Expired now it then Inl ErrKeyExpired else Inr (Val it))"
        "ok h" "frame hc h" "items h = (items hc)(k \<mapsto> if Item_Expired now it then it else Item_Touch now it)"
        using getOrSet_present [OF assms(1) Some, of False now v e] by blast
      have "dom (items h) \<subseteq> dom (items hc)" unfolding h(4) using Some by auto
      from mono [OF h(2,3) this] h HGetOrSet show ?thesis by simp
    next
      case None
      show ?thesis
      proof (cases "setItemSize E (newItem now k v e)")
        case (Inl err)
        with HGetOrSet getOrSet_absent [OF assms(1) None, of False now v e] assms(1,4) show ?thesis by simp
      next
        case (Inr item)
        have key: "Key item = k" using setItemSize_new(1) [OF Inr] .
        obtain hc' r where h: "insertItem E False hc k item = Some (hc', r)" using ins key by blast
        with insert_bounded [OF assms(1-4) key h] HGetOrSet Inr getOrSet_absent [OF assms(1) None, of False now v e]
        show ?thesis by simp
      qed
    qed
  next
    case (HRemove ks)
    then show ?thesis using remove_ok [OF assms(1), of False ks] mono by (fastforce split: if_splits)
  next
    case HClear
    then show ?thesis using clear_ok [OF assms(1)] mono by fastforce
  next
    case (HTrigger now)
    then show ?thesis using trigger_ok [OF assms(1), of now] mono by (fastforce simp: TriggerExpiration_def)
  next
    case (HExpire now)
    then show ?thesis using expirationJob_ok [OF assms(1,5), of now] mono
      by (fastforce simp: unexpired_def split: option.splits if_splits)
  qed
qed

lemma run_bounded:
  assumes "ok hc" "shouldEvict hc" "0 < ev_cap (evictionAlgorithm hc)" "hc_Count E hc \<le> hc_Capacity E hc"
    and "sortFunc_ok sortFunc"
  shows "\<exists>hc' rs. hc_run E hc xs = Some (hc', rs) \<and> ok hc' \<and> frame hc hc' \<and> hc_Count E hc' \<le> hc_Capacity E hc'"
  using assms(1-4)
proof (induction xs arbitrary: hc)
  case (Cons x xs)
  obtain h1 r where h1: "hc_step E hc x = Some (h1, r)" "ok h1" "frame hc h1" "hc_Count E h1 \<le> hc_Capacity E h1"
    using step_bounded [OF Cons.prems assms(5)] by blast
  then have "shouldEvict h1" "0 < ev_cap (evictionAlgorithm h1)" using Cons.prems(2,3) by (simp_all add: settings_def)
  from Cons.IH [OF h1(2) this h1(4)] h1 show ?case by auto
qed simp

lemma stat_tail:
  assumes "ok hc"
  shows "\<exists>hc1 hc2 hc3. gaugeStat n1 v1 hc = Some hc1 \<and> gaugeStat n2 v2 hc1 = Some hc2 \<and> timingStat n3 v3 hc2 = Some hc3 \<and>
    ok hc3 \<and> frame hc hc3 \<and> same_data hc hc3"
proof -
  obtain h1 where h1: "gaugeStat n1 v1 hc = Some h1" "ok h1" "frame hc h1" "same_data hc h1"
    using stat_step(2) [OF assms] by blast
  obtain h2 where h2: "gaugeStat n2 v2 h1 = Some h2" "ok h2" "frame h1 h2" "same_data h1 h2"
    using stat_step(2) [OF h1(2)] by blast
  obtain h3 where h3: "timingStat n3 v3 h2 = Some h3" "ok h3" "frame h2 h3" "same_data h2 h3"
    using stat_step(3) [OF h2(2)] by blast
  show ?thesis using h1 h2 h3 by simp
qed

lemma evictionJob_ok:
  assumes "ok hc" "conv_ok E" "maxEvictionCount hc < 2 ^ 63" "card (dom (items hc)) < 2 ^ 63"
  shows "\<exists>hc' K. evictionJob E (\<lambda>_. False) now hc = Some (hc', None) \<and> ok hc' \<and> K \<subseteq> dom (tracked hc) \<and>
    card K \<le> unat (maxEvictionCount hc) \<and> items hc' = items hc |` (- K) \<and> tracked hc' = tracked hc |` (- K) \<and>
    (hc_Count E hc' \<le> hc_Capacity E hc' \<or> card K = unat (maxEvictionCount hc) \<or> tracked hc' = Map.empty)"
proof -
  let ?mx = "unat (maxEvictionCount hc)"
  obtain h1 where h1: "incrStat ''eviction_loop_count'' 1 hc = Some h1" "ok h1" "frame hc h1" "same_data hc h1"
    using stat_step(1) [OF assms(1)] by blast
  obtain h2 n K where h2: "evict_loop ?mx E (\<lambda>_. False) h1 0 = Some (h2, 0 + of_nat n, None)" "ok h2" "frame h1 h2" "n \<le> ?mx"
    and K: "K \<subseteq> dom (tracked h1)" "card K = n" "items h2 = items h1 |` (- K)" "tracked h2 = tracked h1 |` (- K)"
    and stop: "hc_Count E h2 \<le> hc_Capacity E h2 \<or> n = ?mx \<or>
     (\<exists>a. evi a \<and> ev_content (env_hash E) a = tracked h2 \<and> ev_Evict (env_toU32 E) a = Some (evictionAlgorithm h2, None))"
    using evict_loop_ok [OF h1(2), of ?mx 0] by blast
  have stop': "hc_Count E h2 \<le> hc_Capacity E h2 \<or> n = ?mx \<or> tracked h2 = Map.empty"
    using stop track.evict_progress by metis
  obtain h3 h4 h5 where h5: "gaugeStat ''item_count'' (hc_Count E h2) h2 = Some h3"
    "gaugeStat ''evicted_item_count'' (int n) h3 = Some h4" "timingStat ''eviction_loop_duration'' (UnixNano now) h4 = Some h5"
    "ok h5" "frame h2 h5" "same_data h2 h5"
    using stat_tail [OF h2(2), of "''item_count''" "hc_Count E h2" "''evicted_item_count''" "int n"
        "''eviction_loop_duration''" "UnixNano now"] by blast
  have "dom (items h2) \<subseteq> dom (items hc)" using K(3) h1(4) by auto
  then have "card (dom (items h2)) \<le> card (dom (items hc))"
    using card_mono count_card [OF assms(1)] by blast
  then have "0 \<le> hc_Count E h2" "hc_Count E h2 < 2 ^ 63" using count_card [OF h2(2)] assms(4) by auto
  then have i64: "env_toInt64 E (hc_Count E h2) = Some (hc_Count E h2)" using assms(2) by (simp add: conv_ok_def)
  have "?mx < 2 ^ 63" using unat_mono [OF assms(3)] by simp
  then have "n < 2 ^ 63" using h2(4) by simp
  then have "take_bit 64 n = n" by (simp add: take_bit_nat_eq_self_iff)
  then have "uint (of_nat n :: 64 word) = int n" by (simp add: unsigned_of_nat)
  then have "env_toInt E (0 + of_nat n) = Some (int n)"
    using assms(2) \<open>n < 2 ^ 63\<close> by (simp only: conv_ok_def add_0) simp
  then have "evictionJob E (\<lambda>_. False) now hc = Some (h5, None)"
    using h1(1,3) h2(1) i64 h5(1-3) by (simp add: evictionJob_def settings_def)
  moreover have "hc_Count E h5 = hc_Count E h2 \<and> hc_Capacity E h5 = hc_Capacity E h2"
    using h5(5,6) count_card [OF h5(4)] count_card [OF h2(2)] by simp
  ultimately show ?thesis
    using h5(4,6) h2(4) K h1(4) stop' by (intro exI [of _ h5] exI [of _ K]) auto
qed

end

section \<open>Accounting\<close>

definition total_size :: "(string \<rightharpoonup> Item) \<Rightarrow> int" where
  "total_size m = (\<Sum>k \<in> dom m. size_at m k)"

text \<open>How far the accounted memory is from the total size of the stored items.\<close>

definition drift :: "('b \<Rightarrow> string \<Rightarrow> Item option) \<Rightarrow> 'b HyperCache \<Rightarrow> 64 word" where
  "drift lk hc = memoryAllocation hc - word_of_int (total_size (lk (hc_backend hc)))"

lemma total_size_del:
  assumes "finite (dom m)"
  shows "total_size (m(k := None)) = total_size m - size_at m k"
proof -
  have "total_size (m(k := None)) = (\<Sum>j \<in> dom m - {k}. size_at m j)"
    unfolding total_size_def by (rule sum.cong) (auto simp: size_at_def)
  then show ?thesis
    using assms by (cases "k \<in> dom m") (auto simp: total_size_def sum_diff1 size_at_def domIff)
qed

lemma total_size_put:
  assumes "finite (dom m)"
  shows "total_size (m(k \<mapsto> it)) = total_size m - size_at m k + Size it"
proof -
  have "total_size (m(k := None)) = (\<Sum>j \<in> dom m - {k}. size_at (m(k \<mapsto> it)) j)"
    unfolding total_size_def by (rule sum.cong) (auto simp: size_at_def)
  moreover have "total_size (m(k \<mapsto> it)) = Size it + (\<Sum>j \<in> dom m - {k}. size_at (m(k \<mapsto> it)) j)"
    using assms sum.insert [of "dom m - {k}" k "size_at (m(k \<mapsto> it))"] by (simp add: total_size_def size_at_def insert_absorb)
  ultimately show ?thesis using total_size_del [OF assms, of k] by simp
qed

lemma total_size_remove:
  assumes "finite (dom m)" "distinct ks"
  shows "total_size (\<lambda>k. if k \<in> set ks then None else m k) = total_size m - (\<Sum>k\<leftarrow>ks. size_at m k)"
  using assms
proof (induction ks arbitrary: m)
  case (Cons k ks)
  have "(\<lambda>j. if j \<in> set (k # ks) then None else m j) = (\<lambda>j. if j \<in> set ks then None else (m(k := None)) j)"
    by (auto simp: fun_eq_iff)
  moreover have "(\<Sum>j\<leftarrow>ks. size_at (m(k := None)) j) = (\<Sum>j\<leftarrow>ks. size_at m j)"
    using Cons.prems(2) by (intro arg_cong [of _ _ sum_list] map_cong) (auto simp: size_at_def)
  moreover have "total_size (\<lambda>j. if j \<in> set ks then None else (m(k := None)) j) =
      total_size (m(k := None)) - (\<Sum>j\<leftarrow>ks. size_at (m(k := None)) j)"
  proof (rule Cons.IH)
    show "finite (dom (m(k := None)))" using Cons.prems(1) by simp
    show "distinct ks" using Cons.prems(2) by simp
  qed
  ultimately show ?case using total_size_del [OF Cons.prems(1), of k] by (simp del: fun_upd_apply)
qed simp

context hyper_client
begin

lemma items_finite: "ok hc \<Longrightarrow> finite (dom (items hc))"
  using store.valid_law by (auto simp: hc_inv_def valid_map_def)

lemma evict_drift:
  assumes "ok hc" "evictItem E ctx hc = Some (hc', r)"
  shows "drift lk hc' = drift lk hc"
  using evictItem_ok [OF assms(1), of ctx] assms(2) items_finite [OF assms(1)]
  by (auto simp: drift_def total_size_del algebra_simps)

lemma set_drift:
  assumes "ok hc" "hc_Set E ctx now hc k v e = Some (hc', None)"
  shows "ok hc' \<and> drift lk hc' = drift lk hc + word_of_int (size_at (items hc) k)"
proof -
  obtain item where item: "setItemSize E (newItem now k v e) = Inr item" "insertItem E ctx hc k item = Some (hc', None)"
    using assms(2) by (auto simp: hc_Set_def split: sum.splits)
  have key: "Key item = k" using setItemSize_new(1) [OF item(1)] .
  have full: "\<not> rejected_full hc item" using item(2) insertItem_full by fastforce
  have valid: "snd (Item_Valid item) = None"
    using item(2) insertItem_invalid [OF assms(1) full] by (cases "snd (Item_Valid item)") fastforce+
  obtain hc1 where h: "ok hc1" "items hc1 = (items hc)(k \<mapsto> item)"
    "memoryAllocation hc1 = memoryAllocation hc + word_of_int (Size item)"
    "if shouldEvict hc1 \<and> hc_Count E hc1 > hc_Capacity E hc1 then \<exists>r. evictItem E ctx hc1 = Some (hc', r) else hc' = hc1"
    using insertItem_stores [OF assms(1) full valid, of ctx] item(2) key by auto
  have "drift lk hc1 = drift lk hc + word_of_int (size_at (items hc) k)"
    unfolding drift_def h(2,3) total_size_put [OF items_finite [OF assms(1)]] by simp
  moreover have "ok hc' \<and> drift lk hc' = drift lk hc1"
    using h(1,4) evict_drift [OF h(1), of ctx] evictItem_ok [OF h(1), of ctx] by (auto split: if_splits)
  ultimately show ?thesis by simp
qed

lemma set_invalid_drift:
  assumes "ok hc" "setItemSize E (newItem now k v e) = Inr item" "snd (Item_Valid item) = Some err" "\<not> rejected_full hc item"
  shows "\<exists>hc'. hc_Set E ctx now hc k v e = Some (hc', Some err) \<and> drift lk hc' = drift lk hc + word_of_int (Size item)"
  using insertItem_invalid [OF assms(1,4,3), of ctx k] assms(2) by (simp add: hc_Set_def drift_def)

lemma remove_drift:
  assumes "ok hc" "distinct ks" "hc_Remove E ctx hc ks = Some (hc', r)"
  shows "drift lk hc' = drift lk hc"
  using remove_ok [OF assms(1), of ctx ks] assms(3) total_size_remove [OF items_finite [OF assms(1)] assms(2)]
  by (auto simp: drift_def)

end

text \<open>Operations that neither write nor remove a key, nor expire items.\<close>

fun spares :: "string \<Rightarrow> hc_op \<Rightarrow> bool" where
  "spares k (HSet now j v e) = (j \<noteq> k)"
| "spares k (HGet now j) = True"
| "spares k (HGetOrSet now j v e) = (j \<noteq> k)"
| "spares k (HRemove ks) = (k \<notin> set ks)"
| "spares k HClear = False"
| "spares k (HTrigger now) = True"
| "spares k (HExpire now) = False"

context hyper_client
begin

abbreviation pinned :: "string \<Rightarrow> 'b HyperCache \<Rightarrow> bool" where
  "pinned k hc \<equiv> items hc k \<noteq> None \<and> tracked hc k = None"

lemma evict_keeps_pinned:
  assumes "ok hc" "pinned k hc" "evictItem E ctx hc = Some (hc', r)"
  shows "pinned k hc'"
  using evictItem_ok [OF assms(1), of ctx] assms(2,3) by auto

lemma insert_keeps_pinned:
  assumes "ok hc" "pinned k hc" "Key item \<noteq> k"
  shows "\<exists>hc' r. insertItem E ctx hc (Key item) item = Some (hc', r) \<and> ok hc' \<and> pinned k hc'"
proof (cases "rejected_full hc item")
  case True
  then show ?thesis using insertItem_full [OF True] assms by blast
next
  case full: False
  show ?thesis
  proof (cases "snd (Item_Valid item)")
    case (Some e)
    then show ?thesis using insertItem_invalid [OF assms(1) full Some, of ctx] assms(1,2) by (simp add: hc_inv_def)
  next
    case None
    obtain hc1 hc' where h: "insertItem E ctx hc (Key item) item = Some (hc', None)" "ok hc1"
      "items hc1 = (items hc)(Key item \<mapsto> item)"
      "ev_Set (env_hash E) (evictionAlgorithm hc) (Key item) (Val item) = Some (evictionAlgorithm hc1)"
      "if shouldEvict hc1 \<and> hc_Count E hc1 > hc_Capacity E hc1 then \<exists>r. evictItem E ctx hc1 = Some (hc', r) else hc' = hc1"
      using insertItem_stores [OF assms(1) full None, of ctx] by blast
    have "evi (evictionAlgorithm hc)" using assms(1) by (simp add: hc_inv_def)
    from alg.set_dom(3) [OF this h(4)] have p1: "pinned k hc1" using assms(2,3) h(3) by auto
    have "ok hc' \<and> pinned k hc'"
    proof (cases "shouldEvict hc1 \<and> hc_Count E hc1 > hc_Capacity E hc1")
      case True
      then obtain r where "evictItem E ctx hc1 = Some (hc', r)" using h(5) by auto
      with evict_keeps_pinned [OF h(2) p1 this] evictItem_ok [OF h(2), of ctx] show ?thesis by auto
    next
      case False
      with h(2,5) p1 show ?thesis by simp
    qed
    with h(1) show ?thesis by blast
  qed
qed

lemma step_keeps_pinned:
  assumes "ok hc" "pinned k hc" "spares k x"
  shows "\<exists>hc' r. hc_step E hc x = Some (hc', r) \<and> ok hc' \<and> pinned k hc'"
proof (cases x)
  case (HSet now j v e)
  show ?thesis
  proof (cases "setItemSize E (newItem now j v e)")
    case (Inl err)
    with HSet assms show ?thesis by (simp add: hc_Set_def)
  next
    case (Inr item)
    have key: "Key item = j" using setItemSize_new(1) [OF Inr] .
    from insert_keeps_pinned [OF assms(1,2), of item False] key HSet Inr assms(3) show ?thesis
      by (auto simp: hc_Set_def)
  qed
next
  case (HGet now j)
  obtain h where h: "hc_Get E now hc j = Some (h, map_option Val (unexpired now (items hc) j))" "ok h" "tracked h = tracked hc"
    "items h = (items hc)(j := (case items hc j of None \<Rightarrow> None
       | Some it \<Rightarrow> Some (if Item_Expired now it then it else Item_Touch now it)))"
    using get_ok [OF assms(1), of now j] by blast
  have "pinned k h" unfolding h(3,4) using assms(2) by (auto split: option.splits)
  with h(1,2) HGet show ?thesis by simp
next
  case (HGetOrSet now j v e)
  then have j: "j \<noteq> k" using assms(3) by simp
  show ?thesis
  proof (cases "items hc j")
    case (Some it)
    from getOrSet_present [OF assms(1) Some, of False now v e] HGetOrSet j assms(2) show ?thesis by auto
  next
    case None
    show ?thesis
    proof (cases "setItemSize E (newItem now j v e)")
      case (Inl err)
      with HGetOrSet getOrSet_absent [OF assms(1) None, of False now v e] assms(1,2) show ?thesis by simp
    next
      case (Inr item)
      have key: "Key item = j" using setItemSize_new(1) [OF Inr] .
      from insert_keeps_pinned [OF assms(1,2), of item False] key j HGetOrSet Inr
        getOrSet_absent [OF assms(1) None, of False now v e] show ?thesis by auto
    qed
  qed
next
  case (HRemove ks)
  with remove_ok [OF assms(1), of False ks] assms(2,3) show ?thesis by auto
next
  case HClear
  with assms(3) show ?thesis by simp
next
  case (HTrigger now)
  with trigger_ok [OF assms(1), of now] assms(2) show ?thesis by (auto simp: TriggerExpiration_def)
next
  case (HExpire now)
  with assms(3) show ?thesis by simp
qed

lemma run_keeps_pinned:
  assumes "ok hc" "pinned k hc" "list_all (spares k) xs"
  shows "\<exists>hc' rs. hc_run E hc xs = Some (hc', rs) \<and> ok hc' \<and> pinned k hc'"
  using assms
proof (induction xs arbitrary: hc)
  case (Cons x xs)
  obtain h r where h: "hc_step E hc x = Some (h, r)" "ok h" "pinned k h"
    using step_keeps_pinned [OF Cons.prems(1,2), of x] Cons.prems(3) by auto
  with Cons.IH [OF h(2,3)] Cons.prems(3) show ?case by auto
qed simp

text \<open>\<open>GetMultiple\<close> sorts the keys into found values and failures.\<close>

lemma touch_visible:
  assumes "ok hc" "items hc k = Some it" "\<not> Item_Expired now it"
  shows "map_option Val (unexpired now ((items hc)(k \<mapsto> Item_Touch now it)) j) = map_option Val (unexpired now (items hc) j)"
proof -
  have "0 \<le> Expiration it" using store.lk_SomeD assms(1,2) by (auto simp: hc_inv_def)
  from Item_Touch_fresh [OF this, of now] assms(2,3) show ?thesis by (simp add: unexpired_def Item_Touch_def)
qed

lemma getMultiple_loop_ok:
  assumes "ok hc"
  shows "\<exists>hc' result' failed'. getMultiple_loop E now hc ks result failed = Some (hc', result', failed') \<and> ok hc' \<and> frame hc hc' \<and>
    (\<forall>k. map_of result' k = (if k \<in> set ks \<and> unexpired now (items hc) k \<noteq> None
       then map_option Val (unexpired now (items hc) k) else map_of result k)) \<and>
    (\<forall>k. map_of failed' k = (if k \<in> set ks \<and> unexpired now (items hc) k = None then Some ErrKeyNotFound else map_of failed k))"
  using assms
proof (induction ks arbitrary: hc result failed)
  case (Cons k ks)
  from Cons.prems show ?case
  proof (cases rule: read_cases [where k = k and now = now])
    case miss
    with Cons.IH [OF Cons.prems, of result "gm_set k ErrKeyNotFound failed"] show ?thesis
      by (auto simp: gomap_simps unexpired_def)
  next
    case (expired it h)
    then have "getMultiple_loop E now hc (k # ks) result failed =
        getMultiple_loop E now h ks result (gm_set k ErrKeyNotFound failed)" by simp
    with Cons.IH [OF expired(5), of result "gm_set k ErrKeyNotFound failed"] expired show ?thesis
      by (auto simp: gomap_simps unexpired_def)
  next
    case (hit it h)
    have vis: "map_option Val (unexpired now (items h) j) = map_option Val (unexpired now (items hc) j)" for j
      using touch_visible [OF Cons.prems hit(1,3)] hit(7) by simp
    then have none: "unexpired now (items h) j = None \<longleftrightarrow> unexpired now (items hc) j = None" for j
      by (metis option.map_disc_iff)
    have "getMultiple_loop E now hc (k # ks) result failed =
        getMultiple_loop E now h ks (gm_set k (Val it) result) failed"
      using hit by (simp add: Item_Touch_def)
    moreover have uk: "unexpired now (items hc) k = Some it" using hit(1,3) by (simp add: unexpired_def)
    moreover obtain h' r' f' where "getMultiple_loop E now h ks (gm_set k (Val it) result) failed = Some (h', r', f')" "ok h'" "frame h h'"
      "\<forall>j. map_of r' j = (if j \<in> set ks \<and> unexpired now (items h) j \<noteq> None
         then map_option Val (unexpired now (items h) j) else map_of (gm_set k (Val it) result) j)"
      "\<forall>j. map_of f' j = (if j \<in> set ks \<and> unexpired now (items h) j = None then Some ErrKeyNotFound else map_of failed j)"
      using Cons.IH [OF hit(5), of "gm_set k (Val it) result" failed] by blast
    ultimately show ?thesis using hit(6)
      by (intro exI [of _ h'] exI [of _ r'] exI [of _ f']) (simp add: gomap_simps vis none del: getMultiple_loop.simps)
  qed
qed simp

end

end
