(* ===== verification/CacheResults.thy ===== *)
theory CacheResults
  imports HyperCacheSpec
begin

text \<open>
  The results about the cache over its in-memory backend: the contracts of \<open>HyperCacheSpec\<close>
  interpreted on the model's own definitions, and the properties read off from them.
\<close>

section \<open>The cache over the in-memory backend\<close>

text \<open>Any choice of the third-party functions, with the in-memory backend in place.\<close>

definition in_memory :: "InMemory Env \<Rightarrow> ((Item \<Rightarrow> Item \<Rightarrow> int) \<Rightarrow> Item list \<Rightarrow> Item list) \<Rightarrow> InMemory Env" where
  "in_memory E sortFunc = E\<lparr>env_backend := InMemory_backend (env_hash E) sortFunc\<rparr>"

lemma in_memory_simps [simp]:
  "env_backend (in_memory E sf) = InMemory_backend (env_hash E) sf" "env_hash (in_memory E sf) = env_hash E"
  "env_toU32 (in_memory E sf) = env_toU32 E" "env_toInt (in_memory E sf) = env_toInt E"
  "env_toUint (in_memory E sf) = env_toUint E" "env_toInt64 (in_memory E sf) = env_toInt64 E"
  "conv_ok (in_memory E sf) = conv_ok E"
  by (simp_all add: in_memory_def conv_ok_def)

abbreviation cache_items :: "InMemory Env \<Rightarrow> InMemory HyperCache \<Rightarrow> string \<Rightarrow> Item option" where
  "cache_items E hc \<equiv> im_lookup (env_hash E) (hc_backend hc)"

abbreviation cache_tracked :: "InMemory Env \<Rightarrow> InMemory HyperCache \<Rightarrow> string \<Rightarrow> gval option" where
  "cache_tracked E hc \<equiv> ev_content (env_hash E) (evictionAlgorithm hc)"

definition cache_ok :: "InMemory Env \<Rightarrow> ((Item \<Rightarrow> Item \<Rightarrow> int) \<Rightarrow> Item list \<Rightarrow> Item list) \<Rightarrow> InMemory HyperCache \<Rightarrow> bool" where
  "cache_ok E sf hc \<longleftrightarrow> hc_inv (in_memory E sf) (im_inv (env_hash E)) (im_lookup (env_hash E)) (ev_inv (env_hash E)) hc"

interpretation cache: hyper_client "in_memory E sf" "im_inv (env_hash E)" "im_lookup (env_hash E)" sf "ev_inv (env_hash E)"
  for E sf
  unfolding hyper_client_def in_memory_simps
  using inmemory.backend_contract_axioms ev.eviction_algorithm_axioms by blast

interpretation cache_tracking: hyper_tracking "in_memory E sf" "im_inv (env_hash E)" "im_lookup (env_hash E)" sf
    "ev_tracking_inv (env_toU32 E) (env_hash E)" for E sf
  unfolding hyper_tracking_def hyper_client_def in_memory_simps
  using inmemory.backend_contract_axioms ev_progress.eviction_algorithm_axioms ev_progress.tracking_algorithm_axioms by blast

section \<open>A new cache\<close>

lemma configureStats_fields: "configureStats hc = Inr hc' \<Longrightarrow> \<exists>c. hc' = hc\<lparr>StatsCollector := c\<rparr> \<and> stats_ok c"
  using stats_ok_new
  by (auto simp: configureStats_def NewCollector_def registry_NewCollector_def NewCollectorRegistry_def
      collectors_Register_def map_sum_def split: if_splits option.splits)

lemma new_cache:
  assumes "New (in_memory E sf) b opts = Inr hc" "conv_ok E" "NewInMemory [WithCapacity c] = Inr b"
  shows "cache_ok E sf hc \<and> cache_items E hc = Map.empty \<and> cache_tracked E hc = Map.empty \<and> memoryAllocation hc = 0 \<and>
    hc_Capacity (in_memory E sf) hc = c \<and> (shouldEvict hc \<longleftrightarrow> evictionInterval hc = 0 \<and> 0 < c) \<and>
    (0 < c \<longrightarrow> 0 < ev_cap (evictionAlgorithm hc)) \<and>
    (algorithmName_of hc \<noteq> ''clock'' \<longrightarrow> evictionShardCount hc < 2 ^ 32 \<longrightarrow>
       ev_tracking_inv (env_toU32 E) (env_hash E) (evictionAlgorithm hc))"
proof -
  let ?E = "in_memory E sf"
  define h0 where "h0 = ApplyHyperCacheOptions (newHyperCacheBase b) opts"
  define h1 where "h1 = configureEvictionSettings ?E h0"
  obtain h2 h3 where h2: "initEvictionAlgorithm ?E h1 = Inr h2" and h3: "configureStats h2 = Inr h3"
    and hc: "hc = (initExpirationTrigger ?E h3)\<lparr>bgCancel := True\<rparr>"
    using assms(1) by (auto simp: New_def h1_def h0_def Let_def split: sum.splits option.splits)
  have h0: "hc_backend h0 = b" "memoryAllocation h0 = 0"
    using options_keep [of "newHyperCacheBase b" opts] by (simp_all add: untouched_by_options_def h0_def newHyperCacheBase_def)
  have cap: "bk_Capacity (env_backend ?E) b = c" and im: "im_inv (env_hash E) b" "im_lookup (env_hash E) b = Map.empty"
    using im_inv_new [OF assms(3)] by (simp_all add: InMemory_backend_def InMemory_Capacity_def)
  have h1: "hc_backend h1 = b" "memoryAllocation h1 = 0" "shouldEvict h1 \<longleftrightarrow> evictionInterval h1 = 0 \<and> 0 < c"
    using h0 cap by (auto simp: h1_def configureEvictionSettings_def Let_def hc_Capacity_def split: option.splits)
  have mx: "maxEvictionCount h1 \<noteq> 0" if "0 < c"
  proof (cases "maxEvictionCount h0 = 0")
    case True
    have "env_toUint E c = (if 0 \<le> c \<and> c < 2 ^ 64 then Some (word_of_int c) else None)"
      using assms(2) by (simp add: conv_ok_def)
    moreover have "word_of_int c \<noteq> (0 :: 64 word)" if "c < 2 ^ 64"
      using that \<open>0 < c\<close> by (simp add: word_of_int_eq_0_iff zdvd_not_zless)
    ultimately show ?thesis using True h0 cap that
      by (auto simp: h1_def configureEvictionSettings_def Let_def hc_Capacity_def split: option.splits)
  next
    case False
    then show ?thesis by (simp add: h1_def configureEvictionSettings_def Let_def)
  qed
  obtain a where a: "h2 = h1\<lparr>evictionAlgorithm := a\<rparr>" "ev_inv (env_hash E) a" "ev_content (env_hash E) a = Map.empty"
    "algorithmName_of h1 \<noteq> ''clock'' \<longrightarrow> evictionShardCount h1 < 2 ^ 32 \<longrightarrow> ev_tracking_inv (env_toU32 E) (env_hash E) a"
    "maxEvictionCount h1 \<noteq> 0 \<longrightarrow> 0 < ev_cap a"
    using initEvictionAlgorithm_ok [OF h2] assms(2) by auto
  obtain s where s: "h3 = h2\<lparr>StatsCollector := s\<rparr>" "stats_ok s" using configureStats_fields [OF h3] by blast
  show ?thesis
    using hc s a h1 mx im cap
    by (auto simp: initExpirationTrigger_def Let_def cache_ok_def hc_inv_def hc_Capacity_def algorithmName_of_def)
qed

section \<open>The properties\<close>

text \<open>
  C7. Without proactive eviction and without a size limit, the cache is a timed map: for every
  sequence of \<open>Set\<close>, \<open>Get\<close>, \<open>GetOrSet\<close>, \<open>Remove\<close>, \<open>Clear\<close>, triggers and expiration passes on a new cache,
  with any eviction algorithm and any sharding, no operation panics, every result and error is the
  one of the timed map, and so are the stored values, lifetimes and access times at the end.
\<close>

theorem HyperCache_refines_timed_map:
  assumes "NewInMemory [WithCapacity c] = Inr b" "New (in_memory E sf) b opts = Inr hc"
    and "conv_ok E" "sortFunc_ok sf" "\<not> shouldEvict hc" "maxCacheSize hc = 0"
  shows "\<exists>hc' rs. hc_run (in_memory E sf) hc ops = Some (hc', rs) \<and>
    tm_run (in_memory E sf) Map.empty ops = (timed (cache_items E hc'), rs)"
proof -
  have ok: "hc_inv (in_memory E sf) (im_inv (env_hash E)) (im_lookup (env_hash E)) (ev_inv (env_hash E)) hc"
    and new: "cache_items E hc = Map.empty"
    using new_cache [OF assms(2,3,1)] by (auto simp: cache_ok_def)
  from cache.run_refines_timed [OF ok assms(5,6,4), of ops] new show ?thesis by auto
qed


text \<open>
  C9. A key that is stored but not tracked by the eviction algorithm is never evicted: it survives
  every run of operations that do not themselves write, remove or expire it.
\<close>

theorem untracked_key_never_evicted:
  assumes "cache_ok E sf hc" "cache_items E hc k \<noteq> None" "cache_tracked E hc k = None" "list_all (spares k) ops"
  shows "\<exists>hc' rs. hc_run (in_memory E sf) hc ops = Some (hc', rs) \<and> cache_items E hc' k \<noteq> None \<and> cache_tracked E hc' k = None"
  using cache.run_keeps_pinned [OF assms(1) [unfolded cache_ok_def], of k ops] assms(2-4) by auto

text \<open>
  Memory accounting. The difference between the accounted memory and the total size of the
  stored items stays the same when a new key is set; it grows by the size of the old item whenever
  \<open>Set\<close> overwrites a key, and by the size of the rejected item whenever the backend rejects one.
  Evictions in \<open>Set\<close> and a \<open>Remove\<close> of distinct keys leave it alone.
\<close>

lemma memory_drift:
  assumes "cache_ok E sf hc"
  shows "(\<forall>hc1. hc_Set (in_memory E sf) ctx now hc k v e = Some (hc1, None) \<longrightarrow>
      drift (im_lookup (env_hash E)) hc1 = drift (im_lookup (env_hash E)) hc + word_of_int (size_at (cache_items E hc) k)) \<and>
    (\<forall>item err. setItemSize (in_memory E sf) (newItem now k v e) = Inr item \<longrightarrow> snd (Item_Valid item) = Some err \<longrightarrow>
      \<not> rejected_full hc item \<longrightarrow> (\<exists>hc2. hc_Set (in_memory E sf) ctx now hc k v e = Some (hc2, Some err) \<and>
        drift (im_lookup (env_hash E)) hc2 = drift (im_lookup (env_hash E)) hc + word_of_int (Size item))) \<and>
    (distinct ks \<longrightarrow> (\<exists>hc3 r. hc_Remove (in_memory E sf) ctx hc ks = Some (hc3, r) \<and>
      drift (im_lookup (env_hash E)) hc3 = drift (im_lookup (env_hash E)) hc))"
proof -
  note ok = assms [unfolded cache_ok_def]
  obtain hc3 r where "hc_Remove (in_memory E sf) ctx hc ks = Some (hc3, r)"
    using cache.remove_ok [OF ok, of ctx ks] by blast
  then show ?thesis
    using cache.set_drift [OF ok, of ctx now k v e] cache.set_invalid_drift [OF ok, of now k v e _ _ ctx]
      cache.remove_drift [OF ok, of ks ctx hc3 r] by simp
qed

text \<open>
  C10. An expiration pass that is not cancelled removes exactly the expired items and nothing else,
  from the backend and from the eviction algorithm, and takes their sizes off the accounted memory.
\<close>

theorem expiration_pass_exact:
  assumes "cache_ok E sf hc" "sortFunc_ok sf"
  shows "\<exists>hc'. expirationJob (in_memory E sf) (\<lambda>_. False) now hc = Some (hc', None) \<and> cache_ok E sf hc' \<and>
    cache_items E hc' = unexpired now (cache_items E hc) \<and>
    (\<forall>k. cache_tracked E hc' k = (if unexpired now (cache_items E hc) k = None then None else cache_tracked E hc k)) \<and>
    drift (im_lookup (env_hash E)) hc' = drift (im_lookup (env_hash E)) hc"
proof -
  let ?ok = "hc_inv (in_memory E sf) (im_inv (env_hash E)) (im_lookup (env_hash E)) (ev_inv (env_hash E))"
  have ok: "?ok hc" using assms(1) by (simp add: cache_ok_def)
  obtain hc' xs where h: "expirationJob (in_memory E sf) (\<lambda>_. False) now hc = Some (hc', None)" "?ok hc'"
    "cache_items E hc' = unexpired now (cache_items E hc)"
    "cache_tracked E hc' = (\<lambda>k. if unexpired now (cache_items E hc) k = None then None else cache_tracked E hc k)"
    "distinct (map Key xs)" "\<forall>it. it \<in> set xs \<longleftrightarrow> cache_items E hc (Key it) = Some it \<and> Item_Expired now it"
    "memoryAllocation hc' = memoryAllocation hc - word_of_int (\<Sum>x\<leftarrow>xs. Size x)"
    using cache.expirationJob_ok [OF ok assms(2), of now, unfolded in_memory_simps] by blast
  have fin: "finite (dom (cache_items E hc))" using cache.items_finite [OF ok] .
  have key: "Key it = k" if "cache_items E hc k = Some it" for k it
    using inmemory.lk_SomeD [of "env_hash E" "hc_backend hc" k it] ok that by (simp add: hc_inv_def)
  have "unexpired now (cache_items E hc) k = (if k \<in> set (map Key xs) then None else cache_items E hc k)" for k
  proof (cases "cache_items E hc k")
    case None
    then show ?thesis by (simp add: unexpired_def)
  next
    case (Some it)
    have "k \<in> Key ` set xs \<longleftrightarrow> Item_Expired now it" 
    proof
      assume "k \<in> Key ` set xs"
      then obtain x where "x \<in> set xs" "Key x = k" by blast
      with h(6) Some show "Item_Expired now it" by auto
    next
      assume "Item_Expired now it"
      with h(6) Some key [OF Some] have "it \<in> set xs" by simp
      then show "k \<in> Key ` set xs" using key [OF Some] by blast
    qed
    with Some show ?thesis by (simp add: unexpired_def)
  qed
  then have "unexpired now (cache_items E hc) = (\<lambda>k. if k \<in> set (map Key xs) then None else cache_items E hc k)" by (rule ext)
  moreover have "(\<Sum>k\<leftarrow>map Key xs. size_at (cache_items E hc) k) = (\<Sum>x\<leftarrow>xs. Size x)"
    unfolding map_map using h(6) by (intro arg_cong [of _ _ sum_list] map_cong) (auto simp: size_at_def)
  ultimately have "drift (im_lookup (env_hash E)) hc' = drift (im_lookup (env_hash E)) hc"
    using total_size_remove [OF fin h(5)] h(3,7) by (simp add: drift_def)
  with h(1-4) show ?thesis by (auto simp: cache_ok_def)
qed

text \<open>
  \<open>GetMultiple\<close> answers every key exactly once: a key whose item is present and not expired is in
  the result with its value and not in the failures; every other key is in the failures as not
  found and not in the result; no other key is in either.
\<close>

lemma GetMultiple_partition:
  assumes "cache_ok E sf hc"
  shows "\<exists>hc' result failed. GetMultiple (in_memory E sf) now hc ks = Some (hc', result, failed) \<and> cache_ok E sf hc' \<and>
    (\<forall>k. map_of result k = (if k \<in> set ks then map_option Val (unexpired now (cache_items E hc) k) else None)) \<and>
    (\<forall>k. map_of failed k = (if k \<in> set ks \<and> unexpired now (cache_items E hc) k = None then Some ErrKeyNotFound else None))"
proof -
  obtain hc' result failed where h: "getMultiple_loop (in_memory E sf) now hc ks [] [] = Some (hc', result, failed)" "cache_ok E sf hc'"
    "\<forall>k. map_of result k = (if k \<in> set ks \<and> unexpired now (cache_items E hc) k \<noteq> None
       then map_option Val (unexpired now (cache_items E hc) k) else map_of [] k)"
    "\<forall>k. map_of failed k = (if k \<in> set ks \<and> unexpired now (cache_items E hc) k = None then Some ErrKeyNotFound else map_of [] k)"
    using cache.getMultiple_loop_ok [OF assms [unfolded cache_ok_def], of now ks "[]" "[]"] unfolding cache_ok_def by blast
  then show ?thesis unfolding GetMultiple_def by (intro exI [of _ hc'] exI [of _ result] exI [of _ failed]) auto
qed

lemma tracking_cache_ok:
  assumes "hc_inv (in_memory E sf) (im_inv (env_hash E)) (im_lookup (env_hash E)) (ev_tracking_inv (env_toU32 E) (env_hash E)) hc"
  shows "cache_ok E sf hc"
proof -
  have "ev_inv (env_hash E) a" if "ev_tracking_inv (env_toU32 E) (env_hash E) a" for a
    using that by (cases a) (simp_all add: alg_tracking_inv_def sharded_tracking_def)
  then show ?thesis using assms by (simp add: cache_ok_def hc_inv_def)
qed

text \<open>
  An eviction pass that is not cancelled, with LRU, LFU or CAWOLFU, drops \<open>n\<close> tracked keys from the
  backend and the algorithm and nothing else, where \<open>n\<close> is at most \<open>maxEvictionCount\<close>, and it stops
  early only when the cache is within its capacity or nothing is tracked any more.
\<close>

lemma eviction_pass_exact:
  assumes "cache_ok E sf hc" "ev_tracking_inv (env_toU32 E) (env_hash E) (evictionAlgorithm hc)" "conv_ok E"
    and "maxEvictionCount hc < 2 ^ 63" "card (dom (cache_items E hc)) < 2 ^ 63"
  shows "\<exists>hc' K. evictionJob (in_memory E sf) (\<lambda>_. False) now hc = Some (hc', None) \<and> cache_ok E sf hc' \<and>
    K \<subseteq> dom (cache_tracked E hc) \<and> card K \<le> unat (maxEvictionCount hc) \<and>
    cache_items E hc' = cache_items E hc |` (- K) \<and> cache_tracked E hc' = cache_tracked E hc |` (- K) \<and>
    (card K < unat (maxEvictionCount hc) \<longrightarrow>
      hc_Count (in_memory E sf) hc' \<le> hc_Capacity (in_memory E sf) hc' \<or> cache_tracked E hc' = Map.empty)"
proof -
  let ?E = "in_memory E sf"
  let ?tr = "hc_inv ?E (im_inv (env_hash E)) (im_lookup (env_hash E)) (ev_tracking_inv (env_toU32 E) (env_hash E))"
  have tr: "?tr hc" using assms(1,2) by (simp add: cache_ok_def hc_inv_def)
  obtain hc' K where job: "evictionJob ?E (\<lambda>_. False) now hc = Some (hc', None)" "?tr hc'"
    "K \<subseteq> dom (cache_tracked E hc)" "card K \<le> unat (maxEvictionCount hc)" "cache_items E hc' = cache_items E hc |` (- K)"
    "cache_tracked E hc' = cache_tracked E hc |` (- K)"
    "hc_Count ?E hc' \<le> hc_Capacity ?E hc' \<or> card K = unat (maxEvictionCount hc) \<or> cache_tracked E hc' = Map.empty"
    using cache_tracking.evictionJob_ok [OF tr, of now, unfolded in_memory_simps, OF assms(3,4,5)] by blast
  show ?thesis
    by (rule exI [of _ hc'], rule exI [of _ K]) (use job tracking_cache_ok [OF job(2)] in auto)
qed

section \<open>A concrete cache\<close>

definition simple_env :: "InMemory Env" where
  "simple_env = \<lparr>env_backend = InMemory_backend (\<lambda>_. 0) insertion_sort, env_hash = \<lambda>_. 0, env_cborLen = \<lambda>_. Some 1,
     env_toU32 = checkedU32,
     env_toUint = \<lambda>n. if 0 \<le> n \<and> n < 2 ^ 64 then Some (word_of_int n) else None,
     env_toInt = \<lambda>w. if uint w < 2 ^ 63 then Some (uint w) else None,
     env_toInt64 = \<lambda>n. if - (2 ^ 63) \<le> n \<and> n < 2 ^ 63 then Some n else None\<rparr>"

abbreviation the_env :: "InMemory Env" where
  "the_env \<equiv> in_memory simple_env insertion_sort"

lemma simple_env_ok: "conv_ok simple_env"
  by (simp add: conv_ok_def simple_env_def checkedU32_ok)

definition proactive_lru :: "Option list" where
  "proactive_lru = [EvictionInterval 0, EvictionShardCount 1, EvictionAlgorithm ''lru'']"

definition small_cache :: "int \<Rightarrow> Option list \<Rightarrow> InMemory HyperCache option" where
  "small_cache c opts = (case NewInMemory [WithCapacity c] of
     Inl _ \<Rightarrow> None | Inr b \<Rightarrow> (case New the_env b opts of Inl _ \<Rightarrow> None | Inr hc \<Rightarrow> Some hc))"

lemma small_cacheD:
  assumes "small_cache c opts = Some hc"
  obtains b where "NewInMemory [WithCapacity c] = Inr b" "New the_env b opts = Inr hc"
  using assms by (auto simp: small_cache_def split: sum.splits)

text \<open>
  A full LRU cache with capacity 2 evicts the wrong key. After \<open>a\<close>, \<open>b\<close> and \<open>c\<close> were set in this order,
  the cache holds \<open>a\<close> and \<open>c\<close>: the algorithm, which has the capacity of the cache, forgot the least
  recently used key \<open>a\<close> on its own when \<open>c\<close> came, and was then asked for a victim and named \<open>b\<close>. The
  key \<open>a\<close> is stored and no longer tracked. Reading \<open>a\<close> before changes nothing, since \<open>Get\<close> does not tell
  the algorithm.
\<close>

lemma full_LRU_cache_evicts_wrong_key:
  "case small_cache 2 proactive_lru of None \<Rightarrow> False | Some hc \<Rightarrow>
    (case hc_run the_env hc [HSet 1 ''a'' (GOther 7) 0, HSet 2 ''b'' (GOther 8) 0, HGet 3 ''a'', HSet 4 ''c'' (GOther 9) 0] of
       None \<Rightarrow> False
     | Some (hc', rs) \<Rightarrow> rs = [HErr None, HErr None, HVal (Some (GOther 7)), HErr None] \<and>
         cache_items simple_env hc' ''a'' \<noteq> None \<and> cache_tracked simple_env hc' ''a'' = None \<and>
         cache_items simple_env hc' ''b'' = None \<and> cache_items simple_env hc' ''c'' \<noteq> None)"
  by code_simp


section \<open>The properties at the concrete cache\<close>

lemma lru_cache_settings:
  "case small_cache 2 proactive_lru of None \<Rightarrow> False
   | Some hc \<Rightarrow> shouldEvict hc \<and> algorithmName_of hc \<noteq> ''clock'' \<and> evictionShardCount hc < 2 ^ 32 \<and> maxEvictionCount hc = 2"
  by code_simp

lemma lru_cache:
  obtains b hc where "NewInMemory [WithCapacity 2] = Inr b" "New the_env b proactive_lru = Inr hc"
    "small_cache 2 proactive_lru = Some hc" "shouldEvict hc" "algorithmName_of hc \<noteq> ''clock''"
    "evictionShardCount hc < 2 ^ 32" "maxEvictionCount hc = 2"
  using lru_cache_settings that by (auto split: option.splits elim!: small_cacheD)

definition filled :: "hc_op list \<Rightarrow> InMemory HyperCache option" where
  "filled ops = Option.bind (small_cache 2 proactive_lru) (\<lambda>hc. map_option fst (hc_run the_env hc ops))"

abbreviation tracking_ok :: "InMemory HyperCache \<Rightarrow> bool" where
  "tracking_ok \<equiv> hc_inv the_env (im_inv (env_hash simple_env)) (im_lookup (env_hash simple_env))
     (ev_tracking_inv (env_toU32 simple_env) (env_hash simple_env))"

lemma filled_ok:
  "\<exists>hc. filled ops = Some hc \<and> tracking_ok hc \<and> maxEvictionCount hc = 2 \<and> card (dom (cache_items simple_env hc)) \<le> 2"
proof -
  obtain b h0 where h0: "NewInMemory [WithCapacity 2] = Inr b" "New the_env b proactive_lru = Inr h0"
    "small_cache 2 proactive_lru = Some h0" "shouldEvict h0" "algorithmName_of h0 \<noteq> ''clock''"
    "evictionShardCount h0 < 2 ^ 32" "maxEvictionCount h0 = 2" by (rule lru_cache)
  have new: "tracking_ok h0" "0 < ev_cap (evictionAlgorithm h0)" "hc_Capacity the_env h0 = 2" "cache_items simple_env h0 = Map.empty"
    using new_cache [OF h0(2) simple_env_ok h0(1)] h0(5,6) by (auto simp: cache_ok_def hc_inv_def)
  have "hc_Count the_env h0 \<le> hc_Capacity the_env h0"
    using cache_tracking.count_card [OF new(1)] new(3,4) by simp
  from cache_tracking.run_bounded [OF new(1) h0(4) new(2) this insertion_sort_ok, of ops] obtain hc rs where
    hc: "hc_run the_env h0 ops = Some (hc, rs)" "tracking_ok hc" "settings hc = settings h0" "hc_Count the_env hc \<le> 2"
    using new(3) by auto
  then show ?thesis
    using h0(3,7) cache_tracking.count_card [OF hc(2)] by (simp add: filled_def settings_def)
qed

lemmas filled_cache_ok = tracking_cache_ok [where E = simple_env and sf = insertion_sort]

definition ab_ops :: "hc_op list" where
  "ab_ops = [HSet 1 ''a'' (GOther 7) 0, HSet 2 ''b'' (GOther 8) 0]"

definition abc_ops :: "hc_op list" where
  "abc_ops = ab_ops @ [HSet 4 ''c'' (GOther 9) 0]"

theorem HyperCache_refines_timed_map_witness:
  "case NewInMemory [WithCapacity 2] of Inl _ \<Rightarrow> False | Inr b \<Rightarrow> (case New the_env b [EvictionShardCount 1] of Inl _ \<Rightarrow> False
    | Inr hc \<Rightarrow> (\<exists>hc' rs. hc_run the_env hc abc_ops = Some (hc', rs) \<and>
        tm_run the_env Map.empty abc_ops = (timed (cache_items simple_env hc'), rs)))"
proof -
  have "case small_cache 2 [EvictionShardCount 1] of None \<Rightarrow> False | Some hc \<Rightarrow> \<not> shouldEvict hc \<and> maxCacheSize hc = 0"
    by code_simp
  then obtain b hc where "NewInMemory [WithCapacity 2] = Inr b" "New the_env b [EvictionShardCount 1] = Inr hc"
    "\<not> shouldEvict hc" "maxCacheSize hc = 0"
    by (auto split: option.splits elim!: small_cacheD)
  with HyperCache_refines_timed_map [OF this(1,2) simple_env_ok insertion_sort_ok this(3,4), of abc_ops]
  show ?thesis by simp
qed


theorem untracked_key_never_evicted_witness:
  "case filled abc_ops of None \<Rightarrow> False | Some hc \<Rightarrow>
    (\<exists>hc' rs. hc_run the_env hc abc_ops = Some (hc', rs)) \<and>
    (\<exists>hc' rs. hc_run the_env hc [HSet 5 ''d'' (GOther 3) 0, HGet 6 ''a''] = Some (hc', rs) \<and>
      cache_items simple_env hc' ''a'' \<noteq> None \<and> cache_tracked simple_env hc' ''a'' = None)"
proof -
  obtain hc where hc: "filled abc_ops = Some hc" "tracking_ok hc" using filled_ok by blast
  have "case filled abc_ops of None \<Rightarrow> False
    | Some hc \<Rightarrow> cache_items simple_env hc ''a'' \<noteq> None \<and> cache_tracked simple_env hc ''a'' = None \<and>
        hc_run the_env hc abc_ops \<noteq> None"
    by code_simp
  with hc(1) have h: "cache_items simple_env hc ''a'' \<noteq> None" "cache_tracked simple_env hc ''a'' = None"
    "\<exists>hc' rs. hc_run the_env hc abc_ops = Some (hc', rs)" by auto
  with untracked_key_never_evicted [OF filled_cache_ok [OF hc(2)] h(1,2), of "[HSet 5 ''d'' (GOther 3) 0, HGet 6 ''a'']"] hc(1)
  show ?thesis by simp
qed

lemma memory_drift_example:
  "case filled ab_ops of None \<Rightarrow> False | Some hc \<Rightarrow>
    (\<exists>hc1. hc_Set the_env False 5 hc ''a'' (GOther 3) 0 = Some (hc1, None) \<and>
       drift (im_lookup (env_hash simple_env)) hc1 = drift (im_lookup (env_hash simple_env)) hc + 1)"
proof -
  obtain hc where hc: "filled ab_ops = Some hc" "tracking_ok hc" using filled_ok by blast
  have "case filled ab_ops of None \<Rightarrow> False | Some hc \<Rightarrow>
     (case hc_Set the_env False 5 hc ''a'' (GOther 3) 0 of Some (hc1, None) \<Rightarrow> size_at (cache_items simple_env hc) ''a'' = 1 | _ \<Rightarrow> False)"
    by code_simp
  with hc(1) obtain hc1 where "hc_Set the_env False 5 hc ''a'' (GOther 3) 0 = Some (hc1, None)"
    "size_at (cache_items simple_env hc) ''a'' = 1" by (auto split: option.splits prod.splits)
  with memory_drift [OF filled_cache_ok [OF hc(2)], of False 5 "''a''" "GOther 3" 0 "[]"] hc(1) show ?thesis by simp
qed

theorem expiration_pass_exact_witness:
  "case filled [HSet 1 ''a'' (GOther 7) 3, HSet 2 ''b'' (GOther 8) 0] of None \<Rightarrow> False | Some hc \<Rightarrow>
    cache_items simple_env hc ''a'' \<noteq> None \<and>
    (\<exists>hc'. expirationJob the_env (\<lambda>_. False) 9 hc = Some (hc', None) \<and> cache_items simple_env hc' ''a'' = None \<and>
       cache_items simple_env hc' ''b'' \<noteq> None)"
proof -
  let ?ops = "[HSet 1 ''a'' (GOther 7) 3, HSet 2 ''b'' (GOther 8) 0]"
  obtain hc where hc: "filled ?ops = Some hc" "tracking_ok hc" using filled_ok by blast
  have "case filled ?ops of None \<Rightarrow> False | Some hc \<Rightarrow> cache_items simple_env hc ''a'' \<noteq> None \<and>
      unexpired 9 (cache_items simple_env hc) ''a'' = None \<and> unexpired 9 (cache_items simple_env hc) ''b'' \<noteq> None"
    by code_simp
  with expiration_pass_exact [OF filled_cache_ok [OF hc(2)] insertion_sort_ok, of 9] hc(1) show ?thesis by auto
qed

lemma GetMultiple_partition_example:
  "case filled ab_ops of None \<Rightarrow> False | Some hc \<Rightarrow>
    (\<exists>hc' result failed. GetMultiple the_env 5 hc [''a'', ''x''] = Some (hc', result, failed) \<and>
       map_of result ''a'' = Some (GOther 7) \<and> map_of failed ''x'' = Some ErrKeyNotFound)"
proof -
  obtain hc where hc: "filled ab_ops = Some hc" "tracking_ok hc" using filled_ok by blast
  have "case filled ab_ops of None \<Rightarrow> False | Some hc \<Rightarrow>
      map_option Val (unexpired 5 (cache_items simple_env hc) ''a'') = Some (GOther 7) \<and>
      unexpired 5 (cache_items simple_env hc) ''x'' = None"
    by code_simp
  with GetMultiple_partition [OF filled_cache_ok [OF hc(2)], of 5 "[''a'', ''x'']"] hc(1) show ?thesis by auto
qed

lemma eviction_pass_exact_example:
  "case filled ab_ops of None \<Rightarrow> False | Some hc \<Rightarrow>
    (\<exists>hc' K. evictionJob the_env (\<lambda>_. False) 7 hc = Some (hc', None) \<and> card K \<le> 2 \<and>
      cache_items simple_env hc' = cache_items simple_env hc |` (- K))"
proof -
  obtain hc where hc: "filled ab_ops = Some hc" "tracking_ok hc" "maxEvictionCount hc = 2"
    "card (dom (cache_items simple_env hc)) \<le> 2" using filled_ok by blast
  have "ev_tracking_inv (env_toU32 simple_env) (env_hash simple_env) (evictionAlgorithm hc)"
    using hc(2) by (simp add: hc_inv_def)
  from eviction_pass_exact [OF filled_cache_ok [OF hc(2)] this simple_env_ok, of 7] hc show ?thesis by auto
qed

end
