(* ===== verification/Ring.thy ===== *)
theory Ring
  imports Filters
begin

text \<open>
  \<open>internal/cluster/ring.go\<close>: the consistent-hashing ring with virtual nodes. The third-party
  \<open>xxhash.Sum64\<close> is a parameter \<open>xxh\<close> on byte strings and the order in which \<open>slices.SortFunc\<close> leaves
  equal elements is a parameter \<open>sortFunc\<close>. The lock makes each method one step.
\<close>

section \<open>State and operations\<close>

record vnode =
  vn_hash :: "64 word"
  vn_nid :: string

record Ring =
  vnodes :: "vnode list"
  vnPerNode :: int
  replication :: int

definition WithVirtualNodes :: "int \<Rightarrow> Ring \<Rightarrow> Ring" where
  "WithVirtualNodes n r = (if n > 0 then r\<lparr>vnPerNode := n\<rparr> else r)"

definition WithReplication :: "int \<Rightarrow> Ring \<Rightarrow> Ring" where
  "WithReplication n r = (if n > 0 then r\<lparr>replication := n\<rparr> else r)"

definition defaultVirtualNodes :: int where
  "defaultVirtualNodes = 64"

definition NewRing :: "(Ring \<Rightarrow> Ring) list \<Rightarrow> Ring" where
  "NewRing opts = fold (\<lambda>opt r. opt r) opts \<lparr>vnodes = [], vnPerNode = defaultVirtualNodes, replication = 1\<rparr>"

text \<open>The virtual nodes of one node: the index is cut to one byte.\<close>

definition node_vnodes :: "(string \<Rightarrow> 64 word) \<Rightarrow> int \<Rightarrow> string \<Rightarrow> vnode list" where
  "node_vnodes xxh n nid = map (\<lambda>i. \<lparr>vn_hash = xxh (nid @ [char_of (i :: nat)]), vn_nid = nid\<rparr>) [0..<nat n]"

definition vnode_cmp :: "vnode \<Rightarrow> vnode \<Rightarrow> int" where
  "vnode_cmp a b = (if vn_hash a < vn_hash b then -1 else if vn_hash a > vn_hash b then 1 else 0)"

type_synonym vsort = "(vnode \<Rightarrow> vnode \<Rightarrow> int) \<Rightarrow> vnode list \<Rightarrow> vnode list"

definition Ring_Build :: "(string \<Rightarrow> 64 word) \<Rightarrow> vsort \<Rightarrow> Ring \<Rightarrow> string list \<Rightarrow> Ring" where
  "Ring_Build xxh sortFunc r nodes =
     r\<lparr>vnodes := sortFunc vnode_cmp (concat (map (node_vnodes xxh (vnPerNode r)) nodes))\<rparr>"

text \<open>\<open>sort.Search\<close>: bisection for the first index in a range that passes the test.\<close>

function search_loop :: "(nat \<Rightarrow> bool) \<Rightarrow> nat \<Rightarrow> nat \<Rightarrow> nat" where
  "search_loop f i j =
     (if i < j then let h = (i + j) div 2 in if f h then search_loop f i h else search_loop f (h + 1) j else i)"
  by auto
termination by (relation "measure (\<lambda>(f, i, j). j - i)") auto

declare search_loop.simps [simp del]

definition sort_Search :: "nat \<Rightarrow> (nat \<Rightarrow> bool) \<Rightarrow> nat" where
  "sort_Search n f = search_loop f 0 n"

primrec lookup_loop :: "nat \<Rightarrow> Ring \<Rightarrow> nat \<Rightarrow> string list \<Rightarrow> string set \<Rightarrow> string list" where
  "lookup_loop 0 r idx res seen = res"
| "lookup_loop (Suc left) r idx res seen =
     (if int (length res) < replication r then
        let vn = vnodes r ! ((idx + (length (vnodes r) - Suc left)) mod length (vnodes r)) in
        if vn_nid vn \<in> seen then lookup_loop left r idx res seen
        else lookup_loop left r idx (res @ [vn_nid vn]) (insert (vn_nid vn) seen)
      else res)"

definition Ring_Lookup :: "(string \<Rightarrow> 64 word) \<Rightarrow> Ring \<Rightarrow> string \<Rightarrow> string list" where
  "Ring_Lookup xxh r key =
     (if vnodes r = [] then []
      else let target = xxh key;
               idx = sort_Search (length (vnodes r)) (\<lambda>i. vn_hash (vnodes r ! i) \<ge> target);
               idx = (if idx = length (vnodes r) then 0 else idx)
           in lookup_loop (length (vnodes r)) r idx [] {})"

definition Ring_Replication :: "Ring \<Rightarrow> int" where
  "Ring_Replication r = replication r"

definition VirtualNodesPerNode :: "Ring \<Rightarrow> int" where
  "VirtualNodesPerNode r = vnPerNode r"

section \<open>Bisection\<close>

lemma search_loop_finds:
  assumes "i \<le> j" "\<And>m n. m \<le> n \<Longrightarrow> f m \<Longrightarrow> n < k \<Longrightarrow> f n" "j \<le> k"
    and "\<And>m. m < i \<Longrightarrow> \<not> f m" "\<And>m. j \<le> m \<Longrightarrow> m < k \<Longrightarrow> f m"
  shows "search_loop f i j \<le> k \<and> (\<forall>m < search_loop f i j. \<not> f m) \<and> (\<forall>m. search_loop f i j \<le> m \<longrightarrow> m < k \<longrightarrow> f m)"
  using assms
proof (induction f i j rule: search_loop.induct)
  case (1 f i j)
  let ?h = "(i + j) div 2"
  show ?case
  proof (cases "i < j")
    case False
    then have "search_loop f i j = i" by (simp add: search_loop.simps [of f i j])
    with False 1(3,5-7) show ?thesis by auto
  next
    case True
    then have h: "i \<le> ?h" "?h < j" by auto
    show ?thesis
    proof (cases "f ?h")
      case yes: True
      have "\<And>m. ?h \<le> m \<Longrightarrow> m < k \<Longrightarrow> f m" using 1(4) [of ?h] yes by blast
      from 1(1) [OF True refl yes h(1) 1(4) _ 1(6) this] h 1(5)
      show ?thesis using True yes by (simp add: search_loop.simps [of f i j] Let_def)
    next
      case no: False
      have "\<not> f m" if "m < ?h + 1" for m
        using 1(4) [of m ?h] no that h 1(5) by (metis less_Suc_eq_le Suc_eq_plus1 less_le_trans)
      from 1(2) [OF True refl no _ 1(4) 1(5) this 1(7)] h
      show ?thesis using True no by (simp add: search_loop.simps [of f i j] Let_def)
    qed
  qed
qed

lemma sort_Search_split:
  assumes "sorted (map h xs)"
  shows "let i = sort_Search (length xs) (\<lambda>i. h (xs ! i) \<ge> (t :: 'a :: linorder)) in
    i \<le> length xs \<and> take i xs = filter (\<lambda>x. h x < t) xs \<and> drop i xs = filter (\<lambda>x. h x \<ge> t) xs"
proof -
  define f where "f = (\<lambda>i. h (xs ! i) \<ge> t)"
  define i where "i = sort_Search (length xs) f"
  have "search_loop f 0 (length xs) \<le> length xs \<and> (\<forall>m < search_loop f 0 (length xs). \<not> f m) \<and>
    (\<forall>m. search_loop f 0 (length xs) \<le> m \<longrightarrow> m < length xs \<longrightarrow> f m)"
  proof (rule search_loop_finds)
    show "f n" if "m \<le> n" "f m" "n < length xs" for m n
      using sorted_nth_mono [OF assms, of m n] that by (simp add: f_def)
  qed simp_all
  then have found: "i \<le> length xs" "\<forall>m < i. h (xs ! m) < t" "\<forall>m. i \<le> m \<longrightarrow> m < length xs \<longrightarrow> t \<le> h (xs ! m)"
    unfolding i_def sort_Search_def f_def not_le by blast+
  have i: "i \<le> length xs" "\<forall>x \<in> set (take i xs). h x < t" "\<forall>x \<in> set (drop i xs). h x \<ge> t"
    using found by (auto simp: in_set_conv_nth)
  have "filter (\<lambda>x. h x < t) xs = filter (\<lambda>x. h x < t) (take i xs @ drop i xs)"
    "filter (\<lambda>x. h x \<ge> t) xs = filter (\<lambda>x. h x \<ge> t) (take i xs @ drop i xs)" by simp_all
  then have "filter (\<lambda>x. h x < t) xs = take i xs" "filter (\<lambda>x. h x \<ge> t) xs = drop i xs"
    unfolding filter_append using i(2,3) by (auto simp: filter_empty_conv not_less not_le intro!: filter_True)
  with i(1) show ?thesis by (simp add: Let_def i_def f_def)
qed

section \<open>Lookup walks clockwise\<close>

text \<open>The elements of a list at their first occurrence.\<close>

fun firsts :: "'a list \<Rightarrow> 'a list" where
  "firsts [] = []"
| "firsts (x # xs) = x # filter (\<lambda>y. y \<noteq> x) (firsts xs)"

lemma set_firsts [simp]: "set (firsts xs) = set xs"
  by (induction xs) auto

lemma distinct_firsts [simp]: "distinct (firsts xs)"
  by (induction xs) auto

lemma length_firsts: "length (firsts xs) = card (set xs)"
  using distinct_card [of "firsts xs"] by simp

lemma firsts_filter: "firsts (filter P xs) = filter P (firsts xs)"
  by (induction xs) (auto simp: filter_filter intro!: filter_cong)

lemma lookup_loop_walk:
  assumes "left \<le> length (vnodes r)" "seen = set res"
  shows "lookup_loop left r idx res seen = res @ take (nat (replication r) - length res) (filter (\<lambda>x. x \<notin> seen)
    (firsts (map (\<lambda>j. vn_nid (vnodes r ! ((idx + j) mod length (vnodes r)))) [length (vnodes r) - left..<length (vnodes r)])))"
  using assms
proof (induction left arbitrary: res seen)
  case (Suc left)
  let ?n = "length (vnodes r)" and ?f = "\<lambda>j. vn_nid (vnodes r ! ((idx + j) mod length (vnodes r)))"
  let ?x = "?f (?n - Suc left)" and ?rest = "firsts (map ?f [?n - left..<?n])"
  have up: "[?n - Suc left..<?n] = (?n - Suc left) # [?n - left..<?n]"
    using Suc.prems(1) by (simp add: upt_conv_Cons Suc_diff_Suc)
  show ?case
  proof (cases "int (length res) < replication r")
    case False
    then show ?thesis by simp
  next
    case True
    then obtain k where k: "nat (replication r) - length res = Suc k"
      by (metis Suc_diff_Suc zless_nat_eq_int_zless)
    show ?thesis
    proof (cases "?x \<in> seen")
      case in_seen: True
      have "filter (\<lambda>x. x \<notin> seen) (filter (\<lambda>y. y \<noteq> ?x) ?rest) = filter (\<lambda>x. x \<notin> seen) ?rest"
        unfolding filter_filter using in_seen by (intro filter_cong) auto
      then show ?thesis
        using Suc.IH [of seen res] Suc.prems True in_seen unfolding up by (simp add: Let_def)
    next
      case new: False
      have "filter (\<lambda>x. x \<notin> seen) (filter (\<lambda>y. y \<noteq> ?x) ?rest) = filter (\<lambda>x. x \<notin> insert ?x seen) ?rest"
        unfolding filter_filter by (intro filter_cong) auto
      moreover have "nat (replication r) - length (res @ [?x]) = k" using k by simp
      ultimately show ?thesis
        using Suc.IH [of "insert ?x seen" "res @ [?x]"] Suc.prems True new k unfolding up by (simp add: Let_def)
    qed
  qed
qed simp

lemma rotate_as_map:
  "map (\<lambda>j. xs ! ((i + j) mod length xs)) [0..<length xs] = rotate i xs"
  by (rule nth_equalityI) (simp_all add: nth_rotate)

text \<open>All nodes in the order in which the walk from the hash of a key meets them.\<close>

definition clockwise :: "64 word \<Rightarrow> vnode list \<Rightarrow> string list" where
  "clockwise t vs = firsts (map vn_nid (filter (\<lambda>v. vn_hash v \<ge> t) vs @ filter (\<lambda>v. vn_hash v < t) vs))"

lemma Ring_Lookup_clockwise:
  assumes "sorted (map vn_hash (vnodes r))"
  shows "Ring_Lookup xxh r key = take (nat (replication r)) (clockwise (xxh key) (vnodes r))"
proof (cases "vnodes r = []")
  case True
  then show ?thesis by (simp add: Ring_Lookup_def clockwise_def)
next
  case False
  let ?vs = "vnodes r" and ?t = "xxh key"
  define i where "i = sort_Search (length ?vs) (\<lambda>i. vn_hash (?vs ! i) \<ge> ?t)"
  define idx where "idx = (if i = length ?vs then 0 else i)"
  have i: "i \<le> length ?vs" "take i ?vs = filter (\<lambda>v. vn_hash v < ?t) ?vs" "drop i ?vs = filter (\<lambda>v. vn_hash v \<ge> ?t) ?vs"
    using sort_Search_split [OF assms, of ?t] by (simp_all add: i_def Let_def)
  have "rotate idx ?vs = drop i ?vs @ take i ?vs"
    using i(1) False by (auto simp: idx_def rotate_drop_take)
  then have "firsts (map vn_nid (rotate idx ?vs)) = clockwise ?t ?vs" by (simp add: clockwise_def i(2,3))
  moreover have "map (\<lambda>j. vn_nid (?vs ! ((idx + j) mod length ?vs))) [0..<length ?vs] = map vn_nid (rotate idx ?vs)"
    unfolding rotate_as_map [symmetric] by simp
  ultimately have "lookup_loop (length ?vs) r idx [] {} = take (nat (replication r)) (clockwise ?t ?vs)"
    using lookup_loop_walk [of "length ?vs" r "{}" "[]" idx] by simp
  with False show ?thesis unfolding Ring_Lookup_def Let_def i_def [symmetric] idx_def [symmetric] by simp
qed

lemma vnode_cmp_weak: "strict_weak vnode_cmp" "vnode_cmp a b < 0 \<longleftrightarrow> vn_hash a < vn_hash b"
  by (auto simp: strict_weak_def vnode_cmp_def)

lemma Ring_Build_vnodes:
  assumes "sortFunc_ok sortFunc"
  shows "mset (vnodes (Ring_Build xxh sortFunc r nodes)) = mset (concat (map (node_vnodes xxh (vnPerNode r)) nodes))"
    "sorted (map vn_hash (vnodes (Ring_Build xxh sortFunc r nodes)))"
proof -
  have le: "(\<lambda>a b. \<not> vnode_cmp b a < 0) = (\<lambda>a b. vn_hash a \<le> vn_hash b)"
    by (simp add: fun_eq_iff vnode_cmp_weak(2) not_less)
  have "mset (sortFunc vnode_cmp vs) = mset vs" "sorted_wrt (\<lambda>a b. vn_hash a \<le> vn_hash b) (sortFunc vnode_cmp vs)" for vs
    using assms vnode_cmp_weak(1) unfolding sortFunc_ok_def le [symmetric] by blast+
  then show "mset (vnodes (Ring_Build xxh sortFunc r nodes)) = mset (concat (map (node_vnodes xxh (vnPerNode r)) nodes))"
    "sorted (map vn_hash (vnodes (Ring_Build xxh sortFunc r nodes)))"
    unfolding Ring_Build_def sorted_map by simp_all
qed

lemma Ring_Build_settings [simp]:
  "vnPerNode (Ring_Build xxh sortFunc r nodes) = vnPerNode r" "replication (Ring_Build xxh sortFunc r nodes) = replication r"
  by (simp_all add: Ring_Build_def)

lemma set_vnodes:
  assumes "sortFunc_ok sortFunc"
  shows "set (vnodes (Ring_Build xxh sortFunc r nodes)) = (\<Union>n \<in> set nodes. set (node_vnodes xxh (vnPerNode r) n))"
proof -
  have "set_mset (mset (vnodes (Ring_Build xxh sortFunc r nodes))) = set (concat (map (node_vnodes xxh (vnPerNode r)) nodes))"
    unfolding Ring_Build_vnodes(1) [OF assms] by simp
  then show ?thesis by simp
qed

lemma Build_Lookup:
  assumes "sortFunc_ok sortFunc"
  shows "Ring_Lookup xxh (Ring_Build xxh sortFunc r nodes) key =
    take (nat (replication r)) (clockwise (xxh key) (vnodes (Ring_Build xxh sortFunc r nodes)))"
  using Ring_Lookup_clockwise [OF Ring_Build_vnodes(2) [OF assms]] by simp

lemma clockwise_set [simp]: "set (clockwise t vs) = vn_nid ` set vs" "distinct (clockwise t vs)"
proof -
  have "{x \<in> set vs. t \<le> vn_hash x} \<union> {x \<in> set vs. vn_hash x < t} = set vs" by auto
  then show "set (clockwise t vs) = vn_nid ` set vs" by (simp add: clockwise_def flip: image_Un)
qed (simp add: clockwise_def)

lemma clockwise_filter: "clockwise t (filter (\<lambda>v. P (vn_nid v)) vs) = filter P (clockwise t vs)"
proof -
  have "map vn_nid (filter (\<lambda>v. Q v) (filter (\<lambda>v. P (vn_nid v)) vs)) = filter P (map vn_nid (filter Q vs))" for Q
    unfolding filter_map comp_def filter_filter by (intro arg_cong [of _ _ "map vn_nid"] filter_cong) auto
  then show ?thesis by (simp add: clockwise_def flip: firsts_filter)
qed

lemma vnode_owners:
  assumes "sortFunc_ok sortFunc" "0 < vnPerNode r"
  shows "vn_nid ` set (vnodes (Ring_Build xxh sortFunc r nodes)) = set nodes"
proof -
  have "vn_nid ` set (node_vnodes xxh (vnPerNode r) n) = {n}" for n
    using assms(2) by (simp add: node_vnodes_def image_image image_constant_conv)
  then show ?thesis unfolding set_vnodes [OF assms(1)] by (simp add: image_UN)
qed

section \<open>Consistent hashing\<close>

text \<open>No virtual nodes of two different nodes share a point of the ring.\<close>

definition collision_free :: "(string \<Rightarrow> 64 word) \<Rightarrow> int \<Rightarrow> string list \<Rightarrow> bool" where
  "collision_free xxh n nodes \<longleftrightarrow> (\<forall>a \<in> set nodes. \<forall>b \<in> set nodes. \<forall>i < nat n. \<forall>j < nat n.
     xxh (a @ [char_of (i :: nat)]) = xxh (b @ [char_of (j :: nat)]) \<longrightarrow> a = b)"

lemma sorted_unique:
  assumes "mset xs = mset ys" "sorted (map f xs)" "sorted (map f ys)" "inj_on f (set xs)"
  shows "xs = ys"
proof -
  have "mset (map f xs) = mset (map f ys)" using assms(1) by simp
  then have "map f xs = map f ys"
    using assms(2,3) by (metis properties_for_sort sort_key_id_if_sorted list.map_id id_apply)
  moreover have "set xs = set ys" using assms(1) by (rule mset_eq_setD)
  ultimately show ?thesis using assms(4) map_inj_on [of f xs ys] by simp
qed

lemma inj_hash:
  assumes "sortFunc_ok sortFunc" "collision_free xxh (vnPerNode r) nodes"
  shows "inj_on vn_hash (set (vnodes (Ring_Build xxh sortFunc r nodes)))"
  using assms(2) unfolding set_vnodes [OF assms(1)]
  by (auto simp: inj_on_def node_vnodes_def collision_free_def)

lemma node_vnodes_filter:
  "filter (\<lambda>v. P (vn_nid v)) (concat (map (node_vnodes xxh n) nodes)) = concat (map (node_vnodes xxh n) (filter P nodes))"
proof (induction nodes)
  case (Cons nid nodes)
  have "filter (\<lambda>v. P (vn_nid v)) (node_vnodes xxh n nid) = (if P nid then node_vnodes xxh n nid else [])"
    by (auto simp: node_vnodes_def filter_map comp_def)
  with Cons show ?case by simp
qed simp

lemma Ring_Build_filter:
  assumes "sortFunc_ok sortFunc" "collision_free xxh (vnPerNode r) nodes"
  shows "vnodes (Ring_Build xxh sortFunc r (filter P nodes)) = filter (\<lambda>v. P (vn_nid v)) (vnodes (Ring_Build xxh sortFunc r nodes))"
proof (rule sorted_unique [of _ _ vn_hash])
  let ?vs = "vnodes (Ring_Build xxh sortFunc r nodes)"
  show "mset (vnodes (Ring_Build xxh sortFunc r (filter P nodes))) = mset (filter (\<lambda>v. P (vn_nid v)) ?vs)"
    unfolding mset_filter Ring_Build_vnodes(1) [OF assms(1)] node_vnodes_filter [symmetric] by simp
  show "sorted (map vn_hash (vnodes (Ring_Build xxh sortFunc r (filter P nodes))))"
    by (rule Ring_Build_vnodes(2) [OF assms(1)])
  show "sorted (map vn_hash (filter (\<lambda>v. P (vn_nid v)) ?vs))"
    using Ring_Build_vnodes(2) [OF assms(1), of xxh r nodes] by (simp add: sorted_filter)
  show "inj_on vn_hash (set (vnodes (Ring_Build xxh sortFunc r (filter P nodes))))"
    using assms by (intro inj_hash) (auto simp: collision_free_def)
qed

text \<open>
  C11. After \<open>Build\<close> on a set of nodes, \<open>Lookup\<close> gives every key an owner list without duplicates that
  holds nodes of the ring only and is as long as the replication factor, or holds all nodes when
  there are fewer.
\<close>

theorem Ring_owner_list:
  assumes "sortFunc_ok sortFunc" "0 < vnPerNode r" "0 < replication r"
  shows "distinct (Ring_Lookup xxh (Ring_Build xxh sortFunc r nodes) key) \<and>
    set (Ring_Lookup xxh (Ring_Build xxh sortFunc r nodes) key) \<subseteq> set nodes \<and>
    length (Ring_Lookup xxh (Ring_Build xxh sortFunc r nodes) key) = min (nat (replication r)) (card (set nodes))"
proof -
  let ?c = "clockwise (xxh key) (vnodes (Ring_Build xxh sortFunc r nodes))"
  have "set ?c = set nodes" "length ?c = card (set nodes)"
    using vnode_owners [OF assms(1,2), of xxh nodes] distinct_card [of ?c] by simp_all
  then show ?thesis unfolding Build_Lookup [OF assms(1)] using set_take_subset [of _ ?c] by auto
qed


text \<open>
  The order in which the nodes are handed to \<open>Build\<close>, which for a membership is the order of a
  map iteration, does not matter.
\<close>

lemma Ring_Build_order_irrelevant:
  assumes "sortFunc_ok sortFunc" "collision_free xxh (vnPerNode r) nodes" "mset nodes' = mset nodes"
  shows "Ring_Build xxh sortFunc r nodes' = Ring_Build xxh sortFunc r nodes"
proof -
  have "mset (concat (map f ns)) = sum_mset (image_mset (\<lambda>n. mset (f n)) (mset ns))" for f :: "string \<Rightarrow> vnode list" and ns
    by (induction ns) simp_all
  then have m: "mset (vnodes (Ring_Build xxh sortFunc r nodes')) = mset (vnodes (Ring_Build xxh sortFunc r nodes))"
    unfolding Ring_Build_vnodes(1) [OF assms(1)] using assms(3) by simp
  have "set nodes' = set nodes" using assms(3) by (rule mset_eq_setD)
  then have "collision_free xxh (vnPerNode r) nodes'" using assms(2) by (simp add: collision_free_def)
  from sorted_unique [OF m Ring_Build_vnodes(2) [OF assms(1)] Ring_Build_vnodes(2) [OF assms(1)] inj_hash [OF assms(1) this]]
  show ?thesis by (simp add: Ring_Build_def)
qed

text \<open>
  The virtual-node index is cut to one byte: with more than 256 virtual nodes per node the ring
  has no more points than with 256.
\<close>

lemma virtual_nodes_truncated:
  assumes "sortFunc_ok sortFunc" "256 \<le> n"
  shows "set (vnodes (Ring_Build xxh sortFunc (WithVirtualNodes n r) nodes)) =
    set (vnodes (Ring_Build xxh sortFunc (WithVirtualNodes 256 r) nodes))"
proof -
  have "set (node_vnodes xxh n nid) = set (node_vnodes xxh 256 nid)" for nid
  proof -
    have "(char_of :: nat \<Rightarrow> char) i \<in> char_of ` {0..<256 :: nat}" for i :: nat
      by (rule image_eqI [of _ _ "i mod 256"]) simp_all
    then have "char_of ` {0..<nat n} = (char_of :: nat \<Rightarrow> char) ` {0..<256}"
      using assms(2) by fastforce
    then have "(\<lambda>c. \<lparr>vn_hash = xxh (nid @ [c]), vn_nid = nid\<rparr>) ` char_of ` {0..<nat n} =
      (\<lambda>c. \<lparr>vn_hash = xxh (nid @ [c]), vn_nid = nid\<rparr>) ` (char_of :: nat \<Rightarrow> char) ` {0..<256}" by (rule arg_cong)
    then show ?thesis by (simp add: node_vnodes_def image_image)
  qed
  with assms(2) show ?thesis unfolding set_vnodes [OF assms(1)] by (simp add: WithVirtualNodes_def)
qed

section \<open>A concrete ring\<close>

definition toy_hash :: "string \<Rightarrow> 64 word" where
  "toy_hash s = (if take 2 s = ''n3'' then 3 else if take 2 s = ''n5'' then 5 else if take 2 s = ''n7'' then 7 else 4)"

definition three_nodes :: "string list" where
  "three_nodes = [''n7'', ''n3'', ''n5'']"

definition small_ring :: Ring where
  "small_ring = NewRing [WithVirtualNodes 2, WithReplication 2]"

lemma three_nodes_free: "collision_free toy_hash (vnPerNode small_ring) three_nodes"
  by (simp add: collision_free_def three_nodes_def toy_hash_def)

lemma small_ring_settings: "0 < vnPerNode small_ring" "replication small_ring = 2"
  by (simp_all add: small_ring_def NewRing_def WithVirtualNodes_def WithReplication_def)

theorem Ring_owner_list_witness:
  "length (Ring_Lookup toy_hash (Ring_Build toy_hash insertion_sort small_ring three_nodes) ''n4x'') = 2"
proof -
  have "card (set three_nodes) = 3" by (simp add: three_nodes_def)
  then show ?thesis
    using Ring_owner_list [OF insertion_sort_ok small_ring_settings(1), of toy_hash three_nodes "''n4x''"]
    by (simp add: small_ring_settings(2))
qed


lemma Ring_Build_order_irrelevant_example:
  "Ring_Build toy_hash insertion_sort small_ring [''n3'', ''n5'', ''n7''] =
   Ring_Build toy_hash insertion_sort small_ring three_nodes"
proof -
  have "mset [''n3'', ''n5'', ''n7''] = mset three_nodes" by (simp add: three_nodes_def)
  from Ring_Build_order_irrelevant [OF insertion_sort_ok three_nodes_free this] show ?thesis .
qed

lemma virtual_nodes_truncated_example:
  "set (vnodes (Ring_Build toy_hash insertion_sort (WithVirtualNodes 1000 small_ring) three_nodes)) =
   set (vnodes (Ring_Build toy_hash insertion_sort (WithVirtualNodes 256 small_ring) three_nodes))"
  using virtual_nodes_truncated [OF insertion_sort_ok, of 1000 toy_hash small_ring three_nodes] by simp

end
