(* ===== verification/Membership.thy ===== *)
theory Membership
  imports Ring
begin

text \<open>
  \<open>internal/cluster/node.go\<close>, \<open>version.go\<close> and \<open>membership.go\<close>: node identities, the membership table
  bound to a ring, and its observers. An observer is a function the membership calls; the model
  names the registered observers by numbers and logs the calls. A node is a value in the table; the
  clock is the argument \<open>now\<close> of the operations that read it.
\<close>

section \<open>Nodes\<close>

datatype NodeState = NodeAlive | NodeSuspect | NodeDead

fun NodeState_String :: "NodeState \<Rightarrow> string" where
  "NodeState_String NodeAlive = ''alive''"
| "NodeState_String NodeSuspect = ''suspect''"
| "NodeState_String NodeDead = ''dead''"

record ClusterNode =
  node_ID :: string
  node_Address :: string
  node_State :: NodeState
  node_Incarnation :: "64 word"
  node_LastSeen :: int

text \<open>\<open>binary.LittleEndian.PutUint64\<close> and \<open>hex.EncodeToString\<close>.\<close>

definition PutUint64_LE :: "64 word \<Rightarrow> nat list" where
  "PutUint64_LE v = map (\<lambda>i. unat (drop_bit (8 * i) v) mod 256) [0..<8]"

definition hexDigit :: "nat \<Rightarrow> char" where
  "hexDigit n = ''0123456789abcdef'' ! n"

definition hex_EncodeToString :: "nat list \<Rightarrow> string" where
  "hex_EncodeToString bs = concat (map (\<lambda>b. [hexDigit (b div 16), hexDigit (b mod 16)]) bs)"

definition NewNode :: "(string \<Rightarrow> 64 word) \<Rightarrow> int \<Rightarrow> string \<Rightarrow> string \<Rightarrow> ClusterNode" where
  "NewNode xxh now nid addr =
     \<lparr>node_ID = (if nid = [] then hex_EncodeToString (PutUint64_LE (xxh addr)) else nid), node_Address = addr,
      node_State = NodeAlive, node_Incarnation = 1, node_LastSeen = now\<rparr>"

section \<open>Membership\<close>

record Membership =
  mb_nodes :: "(string, ClusterNode) gomap"
  mb_ring :: Ring
  mb_ver :: "64 word"
  mb_observers :: "nat list"
  mb_notified :: "(nat \<times> string \<times> NodeState \<times> 64 word) list"

definition NewMembership :: "Ring \<Rightarrow> Membership" where
  "NewMembership ring = \<lparr>mb_nodes = [], mb_ring = ring, mb_ver = 0, mb_observers = [], mb_notified = []\<rparr>"

definition OnStateChange :: "nat \<Rightarrow> Membership \<Rightarrow> Membership" where
  "OnStateChange fn m = m\<lparr>mb_observers := mb_observers m @ [fn]\<rparr>"

definition MembershipVersion_Next :: "Membership \<Rightarrow> Membership \<times> 64 word" where
  "MembershipVersion_Next m = (let v = mb_ver m + 1 in (m\<lparr>mb_ver := v\<rparr>, v))"

definition notify :: "nat list \<Rightarrow> string \<Rightarrow> NodeState \<Rightarrow> 64 word \<Rightarrow> Membership \<Rightarrow> Membership" where
  "notify observers nid state version m =
     m\<lparr>mb_notified := mb_notified m @ map (\<lambda>fn. (fn, nid, state, version)) observers\<rparr>"

definition ring_nodes :: "Membership \<Rightarrow> string list" where
  "ring_nodes m = map node_ID (filter (\<lambda>n. node_State n \<noteq> NodeDead) (map snd (mb_nodes m)))"

definition Upsert :: "(string \<Rightarrow> 64 word) \<Rightarrow> vsort \<Rightarrow> int \<Rightarrow> Membership \<Rightarrow> ClusterNode \<Rightarrow> Membership" where
  "Upsert xxh sortFunc now m n =
     (let n = n\<lparr>node_LastSeen := now\<rparr>;
          m1 = m\<lparr>mb_nodes := gm_set (node_ID n) n (mb_nodes m)\<rparr>;
          nodes = ring_nodes m1;
          (m2, version) = MembershipVersion_Next m1;
          m3 = m2\<lparr>mb_ring := Ring_Build xxh sortFunc (mb_ring m2) nodes\<rparr>
      in notify (mb_observers m3) (node_ID n) (node_State n) version m3)"

definition Membership_List :: "Membership \<Rightarrow> ClusterNode list" where
  "Membership_List m = map snd (mb_nodes m)"

definition Membership_Remove :: "(string \<Rightarrow> 64 word) \<Rightarrow> vsort \<Rightarrow> Membership \<Rightarrow> string \<Rightarrow> Membership \<times> bool" where
  "Membership_Remove xxh sortFunc m nid =
     (if map_of (mb_nodes m) nid = None then (m, False)
      else let m1 = m\<lparr>mb_nodes := gm_del nid (mb_nodes m)\<rparr>;
               nodes = ring_nodes m1;
               (m2, version) = MembershipVersion_Next m1;
               m3 = m2\<lparr>mb_ring := Ring_Build xxh sortFunc (mb_ring m2) nodes\<rparr>
           in (notify (mb_observers m3) nid NodeDead version m3, True))"

definition Mark :: "int \<Rightarrow> Membership \<Rightarrow> string \<Rightarrow> NodeState \<Rightarrow> Membership \<times> bool" where
  "Mark now m nid state = (case map_of (mb_nodes m) nid of
       None \<Rightarrow> (m, False)
     | Some n \<Rightarrow>
         if node_State n = state then (m\<lparr>mb_nodes := gm_set nid (n\<lparr>node_LastSeen := now\<rparr>) (mb_nodes m)\<rparr>, True)
         else let n1 = n\<lparr>node_State := state, node_Incarnation := node_Incarnation n + 1, node_LastSeen := now\<rparr>;
                  (m2, version) = MembershipVersion_Next (m\<lparr>mb_nodes := gm_set nid n1 (mb_nodes m)\<rparr>)
              in (notify (mb_observers m2) nid state version m2, True))"

definition Refute :: "int \<Rightarrow> Membership \<Rightarrow> string \<Rightarrow> Membership \<times> bool" where
  "Refute now m nid = (case map_of (mb_nodes m) nid of
       None \<Rightarrow> (m, False)
     | Some n \<Rightarrow>
         let n1 = n\<lparr>node_State := NodeAlive, node_Incarnation := node_Incarnation n + 1, node_LastSeen := now\<rparr>;
             (m2, version) = MembershipVersion_Next (m\<lparr>mb_nodes := gm_set nid n1 (mb_nodes m)\<rparr>)
         in (notify (mb_observers m2) nid NodeAlive version m2, True))"

definition Membership_Version :: "Membership \<Rightarrow> 64 word" where
  "Membership_Version m = mb_ver m"

section \<open>Invariants\<close>

definition nodes_ok :: "(string, ClusterNode) gomap \<Rightarrow> bool" where
  "nodes_ok ns \<longleftrightarrow> gm_wf ns \<and> (\<forall>(k, n) \<in> set ns. node_ID n = k)"

lemma set_gm_set_sub: "set (gm_set k v m) \<subseteq> insert (k, v) (set m)"
  by (induction m) (auto split: if_splits)

lemma nodes_ok_set [simp]: "nodes_ok ns \<Longrightarrow> node_ID n = k \<Longrightarrow> nodes_ok (gm_set k n ns)"
  using set_gm_set_sub [of k n ns] by (fastforce simp: nodes_ok_def)

lemma nodes_ok_del [simp]: "nodes_ok ns \<Longrightarrow> nodes_ok (gm_del k ns)"
  by (auto simp: nodes_ok_def set_gm_del)

lemma nodes_ok_ID: "nodes_ok ns \<Longrightarrow> map_of ns k = Some n \<Longrightarrow> node_ID n = k"
  by (auto simp: nodes_ok_def dest!: map_of_SomeD)

datatype mb_op = MUpsert int ClusterNode | MRemove string | MMark int string NodeState | MRefute int string

fun mb_step :: "(string \<Rightarrow> 64 word) \<Rightarrow> vsort \<Rightarrow> Membership \<Rightarrow> mb_op \<Rightarrow> Membership" where
  "mb_step xxh sortFunc m (MUpsert now n) = Upsert xxh sortFunc now m n"
| "mb_step xxh sortFunc m (MRemove nid) = fst (Membership_Remove xxh sortFunc m nid)"
| "mb_step xxh sortFunc m (MMark now nid st) = fst (Mark now m nid st)"
| "mb_step xxh sortFunc m (MRefute now nid) = fst (Refute now m nid)"

lemmas membership_defs = Upsert_def Membership_Remove_def Mark_def Refute_def MembershipVersion_Next_def notify_def Let_def

lemma mb_step_ok:
  assumes "nodes_ok (mb_nodes m)"
  shows "nodes_ok (mb_nodes (mb_step xxh sortFunc m x))"
  using assms nodes_ok_ID [OF assms]
  by (cases x) (simp_all add: membership_defs split: option.split)

lemma set_ring_nodes:
  assumes "nodes_ok (mb_nodes m)"
  shows "set (ring_nodes m) = {k. \<exists>n. map_of (mb_nodes m) k = Some n \<and> node_State n \<noteq> NodeDead}"
proof -
  have "(k, n) \<in> set (mb_nodes m) \<longleftrightarrow> map_of (mb_nodes m) k = Some n" for k n
    using assms by (simp add: nodes_ok_def gm_in_set_iff)
  moreover have "node_ID n = k" if "(k, n) \<in> set (mb_nodes m)" for k n using assms that by (auto simp: nodes_ok_def)
  ultimately show ?thesis unfolding ring_nodes_def by (auto simp: image_iff) (metis snd_conv)
qed

text \<open>The nodes whose virtual nodes the ring holds.\<close>

definition ring_members :: "Membership \<Rightarrow> string set" where
  "ring_members m = vn_nid ` set (vnodes (mb_ring m))"

lemma ring_settings_step [simp]:
  "vnPerNode (mb_ring (mb_step xxh sortFunc m x)) = vnPerNode (mb_ring m)"
  "replication (mb_ring (mb_step xxh sortFunc m x)) = replication (mb_ring m)"
  by (cases x; simp add: membership_defs split: option.split)+

lemma ring_members_step:
  assumes "nodes_ok (mb_nodes m)" "ring_members m \<subseteq> dom (map_of (mb_nodes m))" "sortFunc_ok sortFunc" "0 < vnPerNode (mb_ring m)"
  shows "ring_members (mb_step xxh sortFunc m x) \<subseteq> dom (map_of (mb_nodes (mb_step xxh sortFunc m x)))"
proof -
  have built: "vn_nid ` set (vnodes (Ring_Build xxh sortFunc (mb_ring m) (ring_nodes m'))) \<subseteq> dom (map_of (mb_nodes m'))"
    if "nodes_ok (mb_nodes m')" for m'
    unfolding vnode_owners [OF assms(3,4)] set_ring_nodes [OF that] by blast
  have same: "ring_members m \<subseteq> insert k (dom (map_of (mb_nodes m)))" for k using assms(2) by blast
  show ?thesis
  proof (cases x)
    case (MUpsert now n)
    with assms(1) built [of "m\<lparr>mb_nodes := gm_set (node_ID n) (n\<lparr>node_LastSeen := now\<rparr>) (mb_nodes m)\<rparr>"]
    show ?thesis by (simp add: membership_defs ring_members_def)
  next
    case (MRemove nid)
    with assms(1,2) built [of "m\<lparr>mb_nodes := gm_del nid (mb_nodes m)\<rparr>"]
    show ?thesis by (simp add: membership_defs ring_members_def)
  next
    case (MMark now nid st)
    with assms(2) same show ?thesis by (simp add: membership_defs ring_members_def gm_get_set split: option.split)
  next
    case (MRefute now nid)
    with assms(2) same show ?thesis by (simp add: membership_defs ring_members_def gm_get_set split: option.split)
  qed
qed

definition mb_run :: "(string \<Rightarrow> 64 word) \<Rightarrow> vsort \<Rightarrow> Membership \<Rightarrow> mb_op list \<Rightarrow> Membership" where
  "mb_run xxh sortFunc m ops = foldl (mb_step xxh sortFunc) m ops"

lemma mb_run_induct:
  assumes "P m" "\<And>m x. P m \<Longrightarrow> P (mb_step xxh sortFunc m x)"
  shows "P (mb_run xxh sortFunc m ops)"
  unfolding mb_run_def using assms by (induction ops arbitrary: m) auto

lemma NewRing_settings:
  assumes "set opts \<subseteq> range WithVirtualNodes \<union> range WithReplication"
  shows "vnodes (NewRing opts) = [] \<and> 0 < vnPerNode (NewRing opts) \<and> 0 < replication (NewRing opts)"
proof -
  have "vnodes (fold (\<lambda>opt r. opt r) opts r) = [] \<and> 0 < vnPerNode (fold (\<lambda>opt r. opt r) opts r) \<and>
    0 < replication (fold (\<lambda>opt r. opt r) opts r)"
    if "vnodes r = [] \<and> 0 < vnPerNode r \<and> 0 < replication r" for r
    using assms that by (induction opts arbitrary: r) (auto simp: WithVirtualNodes_def WithReplication_def)
  then show ?thesis by (simp add: NewRing_def defaultVirtualNodes_def)
qed

lemma Lookup_members: "set (Ring_Lookup xxh r key) \<subseteq> vn_nid ` set (vnodes r)"
proof (cases "vnodes r = []")
  case False
  have "set (lookup_loop left r idx res seen) \<subseteq> set res \<union> vn_nid ` set (vnodes r)" for left idx res seen
  proof (induction left arbitrary: res seen)
    case (Suc left)
    let ?v = "vnodes r ! ((idx + (length (vnodes r) - Suc left)) mod length (vnodes r))"
    have "vn_nid ?v \<in> vn_nid ` set (vnodes r)" using False by simp
    with Suc.IH [of res seen] Suc.IH [of "res @ [vn_nid ?v]" "insert (vn_nid ?v) seen"] show ?case by (auto simp: Let_def)
  qed simp
  from this [of _ _ "[]"] False show ?thesis by (simp add: Ring_Lookup_def Let_def)
qed (simp add: Ring_Lookup_def)

section \<open>Ownership follows membership\<close>


text \<open>
  An \<open>Upsert\<close>, and a \<open>Remove\<close> of a member, rebuild the ring so that a key's owners are members that
  are not dead, as many as the replication factor asks for or all of them.
\<close>

lemma rebuild_excludes_dead:
  assumes "sortFunc_ok sortFunc" "nodes_ok (mb_nodes m)" "0 < vnPerNode (mb_ring m)" "0 < replication (mb_ring m)"
    and "m' = Upsert xxh sortFunc now m n \<or> Membership_Remove xxh sortFunc m nid = (m', True)"
  shows "let live = {k. \<exists>n. map_of (mb_nodes m') k = Some n \<and> node_State n \<noteq> NodeDead};
             owners = Ring_Lookup xxh (mb_ring m') key in
    set owners \<subseteq> live \<and> distinct owners \<and> length owners = min (nat (replication (mb_ring m))) (card live)"
proof -
  have ok: "nodes_ok (mb_nodes m')"
    using assms(2,5) mb_step_ok [OF assms(2), of xxh sortFunc "MUpsert now n"] mb_step_ok [OF assms(2), of xxh sortFunc "MRemove nid"]
    by auto
  have ring: "mb_ring m' = Ring_Build xxh sortFunc (mb_ring m) (ring_nodes m')"
    using assms(5) by (auto simp: membership_defs ring_nodes_def split: if_splits)
  show ?thesis
    using Ring_owner_list [OF assms(1,3,4), of xxh "ring_nodes m'" key] unfolding Let_def ring set_ring_nodes [OF ok, symmetric] by simp
qed

text \<open>
  Observers see every change exactly once and in order: on any run after one observer has been
  registered, the versions it was called with are 1, 2, 3 and so on, and the membership version
  is their number.
\<close>

lemma observers_see_consecutive_versions:
  "let m = mb_run xxh sortFunc (OnStateChange fn (NewMembership ring)) ops in
    map (\<lambda>(_, _, _, version). version) (mb_notified m) = map of_nat [1..<Suc (length (mb_notified m))] \<and>
    Membership_Version m = of_nat (length (mb_notified m))"
proof -
  let ?ok = "\<lambda>m. mb_observers m = [fn] \<and> mb_ver m = of_nat (length (mb_notified m)) \<and>
    map (\<lambda>(_, _, _, version). version) (mb_notified m) = map of_nat [1..<Suc (length (mb_notified m))]"
  have "?ok (mb_run xxh sortFunc (OnStateChange fn (NewMembership ring)) ops)"
  proof (rule mb_run_induct [of ?ok])
    show "?ok (mb_step xxh sortFunc m x)" if "?ok m" for m x
      using that by (cases x) (auto simp: membership_defs split: option.split)
  qed (simp add: OnStateChange_def NewMembership_def)
  then show ?thesis by (simp add: Let_def Membership_Version_def)
qed

text \<open>
  \<open>Mark\<close> on a member advances the version and the incarnation exactly when the state changes; it
  always refreshes the time of the last contact and never touches the ring or another node.
\<close>

lemma Mark_transition:
  assumes "map_of (mb_nodes m) nid = Some n"
  shows "let (m', ok) = Mark now m nid st in ok \<and> mb_ring m' = mb_ring m \<and>
    map_of (mb_nodes m') = (map_of (mb_nodes m))(nid \<mapsto> n\<lparr>node_State := st,
      node_Incarnation := node_Incarnation n + (if node_State n = st then 0 else 1), node_LastSeen := now\<rparr>) \<and>
    mb_ver m' = mb_ver m + (if node_State n = st then 0 else 1) \<and>
    (mb_notified m' = mb_notified m \<longleftrightarrow> node_State n = st \<or> mb_observers m = [])"
  using assms by (auto simp: membership_defs gm_get_set)

section \<open>Derived node identities\<close>

lemma hexDigit_inj:
  assumes "a < 16" "b < 16" "hexDigit a = hexDigit b"
  shows "a = b"
proof -
  have "distinct ''0123456789abcdef''" "length ''0123456789abcdef'' = 16" by simp_all
  with assms nth_eq_iff_index_eq [of "''0123456789abcdef''" a b] show ?thesis unfolding hexDigit_def by simp
qed

lemma hex_inj:
  assumes "list_all (\<lambda>b. b < 256) xs" "list_all (\<lambda>b. b < 256) ys" "length xs = length ys"
    and "hex_EncodeToString xs = hex_EncodeToString ys"
  shows "xs = ys"
  using assms(3,1,2,4)
proof (induction rule: list_induct2)
  case (Cons x xs y ys)
  have "hexDigit (x div 16) = hexDigit (y div 16)" "hexDigit (x mod 16) = hexDigit (y mod 16)" "xs = ys"
    using Cons by (simp_all add: hex_EncodeToString_def)
  moreover have "x div 16 < 16" "y div 16 < 16" "x mod 16 < 16" "y mod 16 < 16" using Cons.prems by auto
  ultimately have "x div 16 = y div 16" "x mod 16 = y mod 16" by (simp_all add: hexDigit_inj)
  then have "x = y" by (metis div_mult_mod_eq)
  with \<open>xs = ys\<close> show ?case by simp
qed simp

lemma PutUint64_LE_inj:
  assumes "PutUint64_LE v = PutUint64_LE w"
  shows "v = w"
proof (rule bit_word_eqI)
  fix n assume "n < LENGTH(64)"
  then have i: "n div 8 < 8" by simp
  have byte: "bit x n \<longleftrightarrow> bit (unat (drop_bit (8 * (n div 8)) x) mod 256) (n mod 8)" for x :: "64 word"
  proof -
    have "unat (drop_bit (8 * (n div 8)) x) mod 256 = take_bit 8 (unat (drop_bit (8 * (n div 8)) x))"
      by (simp add: take_bit_eq_mod)
    then show ?thesis
      using \<open>n < LENGTH(64)\<close> by (simp add: bit_take_bit_iff bit_unsigned_iff bit_drop_bit_eq)
  qed
  have "PutUint64_LE v ! (n div 8) = PutUint64_LE w ! (n div 8)" using assms by simp
  then show "bit v n \<longleftrightarrow> bit w n" using i byte [of v] byte [of w] by (simp add: PutUint64_LE_def)
qed

text \<open>
  A node created without an id gets sixteen characters derived from its address, and two such
  nodes have the same id exactly when the hashes of their addresses agree.
\<close>

lemma derived_ID:
  "length (node_ID (NewNode xxh now [] addr)) = 16 \<and>
   (node_ID (NewNode xxh now [] addr) = node_ID (NewNode xxh now' [] addr') \<longleftrightarrow> xxh addr = xxh addr')"
proof -
  have len: "length (hex_EncodeToString bs) = 2 * length bs" for bs
    by (induction bs) (simp_all add: hex_EncodeToString_def)
  have bytes: "list_all (\<lambda>b. b < 256) (PutUint64_LE v)" "length (PutUint64_LE v) = 8" for v
    by (simp_all add: PutUint64_LE_def list_all_iff)
  have "xxh addr = xxh addr'" if "hex_EncodeToString (PutUint64_LE (xxh addr)) = hex_EncodeToString (PutUint64_LE (xxh addr'))"
    using hex_inj [OF bytes(1) bytes(1) _ that] bytes(2) PutUint64_LE_inj by simp
  then show ?thesis by (auto simp: NewNode_def len bytes(2))
qed

section \<open>Addresses\<close>

text \<open>\<open>net.SplitHostPort\<close>, as far as its error goes.\<close>

definition indexByte :: "string \<Rightarrow> char \<Rightarrow> nat option" where
  "indexByte s c = (let i = length (takeWhile (\<lambda>x. x \<noteq> c) s) in if i < length s then Some i else None)"

definition lastIndexByte :: "string \<Rightarrow> char \<Rightarrow> nat option" where
  "lastIndexByte s c = map_option (\<lambda>i. length s - 1 - i) (indexByte (rev s) c)"

definition SplitHostPort :: "string \<Rightarrow> (string \<times> string) option" where
  "SplitHostPort s = (case lastIndexByte s CHR '':'' of
       None \<Rightarrow> None
     | Some i \<Rightarrow>
         if s ! 0 = CHR ''['' then
           (case indexByte s CHR '']'' of
              None \<Rightarrow> None
            | Some e \<Rightarrow>
                if e + 1 = i \<and> e + 1 \<noteq> length s \<and> indexByte (drop 1 s) CHR ''['' = None \<and> indexByte (drop (e + 1) s) CHR '']'' = None
                then Some (drop 1 (take e s), drop (i + 1) s) else None)
         else if indexByte (take i s) CHR '':'' = None \<and> indexByte s CHR ''['' = None \<and> indexByte s CHR '']'' = None
              then Some (take i s, drop (i + 1) s) else None)"

definition Node_Validate :: "ClusterNode \<Rightarrow> bool" where
  "Node_Validate n \<longleftrightarrow> node_Address n \<noteq> [] \<and> SplitHostPort (node_Address n) \<noteq> None"

lemma length_takeWhile_less_iff: "length (takeWhile P s) < length s \<longleftrightarrow> (\<exists>x \<in> set s. \<not> P x)"
  by (induction s) auto

lemma indexByte_None: "indexByte s c = None \<longleftrightarrow> c \<notin> set s"
  by (auto simp: indexByte_def Let_def length_takeWhile_less_iff)

lemma lastIndexByte_append:
  assumes "c \<notin> set p"
  shows "lastIndexByte (h @ c # p) c = Some (length h)"
proof -
  have "takeWhile (\<lambda>x. x \<noteq> c) (rev p) = rev p" using assms by (auto simp: takeWhile_eq_all_conv)
  then have "takeWhile (\<lambda>x. x \<noteq> c) (rev (h @ c # p)) = rev p" by (simp add: takeWhile_append)
  then show ?thesis by (simp add: lastIndexByte_def indexByte_def)
qed

text \<open>
  A node whose address is a host and a port joined by a colon, without colons or brackets in
  either, is valid, and the split gives back host and port.
\<close>

lemma host_port_valid:
  assumes "{CHR '':'', CHR ''['', CHR '']''} \<inter> (set host \<union> set port) = {}"
  shows "SplitHostPort (host @ CHR '':'' # port) = Some (host, port) \<and>
    Node_Validate (NewNode xxh now nid (host @ CHR '':'' # port))"
proof -
  have "(host @ CHR '':'' # port) ! 0 \<noteq> CHR ''[''" using assms by (cases host) auto
  then have "SplitHostPort (host @ CHR '':'' # port) = Some (host, port)"
    using assms by (simp add: SplitHostPort_def lastIndexByte_append indexByte_None)
  then show ?thesis by (simp add: Node_Validate_def NewNode_def)
qed

section \<open>Witnesses\<close>


lemma rebuild_excludes_dead_example:
  "length (Ring_Lookup toy_hash (mb_ring (Upsert toy_hash insertion_sort 1 (NewMembership small_ring)
     (NewNode toy_hash 0 ''n3'' ''h:1''))) ''k'') = 1"
proof -
  let ?m = "NewMembership small_ring" and ?n = "NewNode toy_hash 0 ''n3'' ''h:1''"
  have "nodes_ok (mb_nodes ?m)" "mb_ring ?m = small_ring" by (simp_all add: NewMembership_def nodes_ok_def)
  with rebuild_excludes_dead [OF insertion_sort_ok, of ?m "Upsert toy_hash insertion_sort 1 ?m ?n" toy_hash 1 ?n "[]" "''k''"]
    small_ring_settings
  have "length (Ring_Lookup toy_hash (mb_ring (Upsert toy_hash insertion_sort 1 ?m ?n)) ''k'') =
    min 2 (card {k. \<exists>n. map_of (mb_nodes (Upsert toy_hash insertion_sort 1 ?m ?n)) k = Some n \<and> node_State n \<noteq> NodeDead})"
    by (simp add: Let_def)
  moreover have "{k. \<exists>n. map_of (mb_nodes (Upsert toy_hash insertion_sort 1 ?m ?n)) k = Some n \<and> node_State n \<noteq> NodeDead} = {''n3''}"
    by (auto simp: membership_defs NewMembership_def NewNode_def split: if_splits)
  ultimately show ?thesis by simp
qed

lemma Mark_transition_example:
  "case Mark 5 (Upsert toy_hash insertion_sort 1 (NewMembership small_ring) (NewNode toy_hash 0 ''n3'' ''h:1'')) ''n3'' NodeSuspect of
     (m', ok) \<Rightarrow> ok \<and> mb_ver m' = 2"
proof -
  let ?m = "Upsert toy_hash insertion_sort 1 (NewMembership small_ring) (NewNode toy_hash 0 ''n3'' ''h:1'')"
  have "map_of (mb_nodes ?m) ''n3'' = Some ((NewNode toy_hash 0 ''n3'' ''h:1'')\<lparr>node_LastSeen := 1\<rparr>)" "mb_ver ?m = 1"
    by (simp_all add: membership_defs NewMembership_def NewNode_def)
  with Mark_transition [OF this(1), of 5 NodeSuspect] show ?thesis by (simp add: NewNode_def case_prod_beta Let_def)
qed

lemma host_port_valid_example:
  "SplitHostPort ''node7:8080'' = Some (''node7'', ''8080'')"
  using host_port_valid [of "''node7''" "''8080''" toy_hash 0 "[]"] by simp

end
