(* ===== verification/EventBus.thy ===== *)
theory EventBus
  imports Prelude
begin

text \<open>
  \<open>internal/eventbus/bus.go\<close>: the in-process broadcaster. The first part has its operations as
  functions on the bus. The second part interleaves them: every goroutine that publishes or
  unsubscribes is a thread whose program counter moves through the source's atomic actions (taking
  and releasing the lock, stamping, each channel send, deleting, closing). A send on a closed channel
  and a second close set the flag \<open>panicked\<close>.
\<close>

section \<open>Operations\<close>

record Event =
  ev_Type :: string
  ev_Payload :: gval
  ev_Version :: "64 word"
  ev_Timestamp :: int

definition subscriberBufferSize :: nat where
  "subscriberBufferSize = 16"

text \<open>A subscription is its number; \<open>bus_ch\<close> holds the buffered events of its channel.\<close>

record Bus =
  subscribers :: "nat list"
  bus_nextID :: nat
  bus_version :: "64 word"
  bus_dropped :: "64 word"
  bus_ch :: "nat \<Rightarrow> Event list"
  bus_closed :: "nat \<Rightarrow> bool"

definition Bus_New :: Bus where
  "Bus_New = \<lparr>subscribers = [], bus_nextID = 0, bus_version = 0, bus_dropped = 0, bus_ch = \<lambda>_. [], bus_closed = \<lambda>_. False\<rparr>"

definition Subscribe :: "Bus \<Rightarrow> Bus \<times> nat" where
  "Subscribe b = (let i = bus_nextID b in
     (b\<lparr>subscribers := subscribers b @ [i], bus_nextID := i + 1, bus_ch := (bus_ch b)(i := []),
        bus_closed := (bus_closed b)(i := False)\<rparr>, i))"

definition unsub_delete :: "nat \<Rightarrow> Bus \<Rightarrow> Bus" where
  "unsub_delete i b = b\<lparr>subscribers := filter (\<lambda>j. j \<noteq> i) (subscribers b)\<rparr>"

definition close_ch :: "nat \<Rightarrow> Bus \<Rightarrow> Bus option" where
  "close_ch i b = (if bus_closed b i then None else Some (b\<lparr>bus_closed := (bus_closed b)(i := True)\<rparr>))"

definition Unsubscribe :: "nat \<Rightarrow> Bus \<Rightarrow> Bus option" where
  "Unsubscribe i b = close_ch i (unsub_delete i b)"

definition stamp :: "int \<Rightarrow> Bus \<Rightarrow> Event \<Rightarrow> Bus \<times> Event" where
  "stamp now b evt = (let version = bus_version b + 1 in
     (b\<lparr>bus_version := version\<rparr>,
      evt\<lparr>ev_Version := version, ev_Timestamp := (if ev_Timestamp evt = 0 then now else ev_Timestamp evt)\<rparr>))"

text \<open>The non-blocking send to one subscriber.\<close>

definition send_to :: "Event \<Rightarrow> nat \<Rightarrow> Bus \<Rightarrow> Bus option" where
  "send_to evt i b =
     (if bus_closed b i then None
      else if length (bus_ch b i) < subscriberBufferSize then Some (b\<lparr>bus_ch := (bus_ch b)(i := bus_ch b i @ [evt])\<rparr>)
      else Some (b\<lparr>bus_dropped := bus_dropped b + 1\<rparr>))"

primrec send_all :: "nat list \<Rightarrow> Event \<Rightarrow> Bus \<Rightarrow> Bus option" where
  "send_all [] evt b = Some b"
| "send_all (i # is) evt b = do { b1 \<leftarrow> send_to evt i b; send_all is evt b1 }"

definition Publish :: "int \<Rightarrow> Bus \<Rightarrow> Event \<Rightarrow> (Bus \<times> 64 word) option" where
  "Publish now b evt = (let (b1, e) = stamp now b evt in
     map_option (\<lambda>b2. (b2, ev_Version e)) (send_all (subscribers b1) e b1))"

definition Dropped :: "Bus \<Rightarrow> 64 word" where
  "Dropped b = bus_dropped b"

definition SubscriberCount :: "Bus \<Rightarrow> nat" where
  "SubscriberCount b = length (subscribers b)"

definition receive :: "nat \<Rightarrow> Bus \<Rightarrow> Bus" where
  "receive i b = b\<lparr>bus_ch := (bus_ch b)(i := tl (bus_ch b i))\<rparr>"

section \<open>Interleaved execution\<close>

datatype pc =
    PubStart Event | PubLocked Event | PubSend Event "nat list" | PubDone "64 word"
  | UnsubStart nat | UnsubLock nat | UnsubClose nat | UnsubDone

record BusSys =
  bus :: Bus
  readers :: "nat set"
  once :: "nat \<Rightarrow> bool"
  threads :: "nat \<Rightarrow> pc option"
  panicked :: bool

definition sys_init :: BusSys where
  "sys_init = \<lparr>bus = Bus_New, readers = {}, once = \<lambda>_. False, threads = Map.empty, panicked = False\<rparr>"

abbreviation goto :: "nat \<Rightarrow> pc \<Rightarrow> BusSys \<Rightarrow> BusSys" where
  "goto t p s \<equiv> s\<lparr>threads := (threads s)(t \<mapsto> p)\<rparr>"

text \<open>What a thread does at its program counter; \<open>None\<close> is a panic.\<close>

definition after_panic :: "BusSys \<Rightarrow> Bus option \<Rightarrow> BusSys" where
  "after_panic s r = (case r of None \<Rightarrow> s\<lparr>panicked := True\<rparr> | Some b \<Rightarrow> s\<lparr>bus := b\<rparr>)"

inductive bus_step :: "BusSys \<Rightarrow> BusSys \<Rightarrow> bool" where
  subscribe: "readers s = {} \<Longrightarrow> Subscribe (bus s) = (b, i) \<Longrightarrow> bus_step s (s\<lparr>bus := b\<rparr>)"
| start_publish: "threads s t = None \<Longrightarrow> bus_step s (goto t (PubStart evt) s)"
| start_unsubscribe: "threads s t = None \<Longrightarrow> i < bus_nextID (bus s) \<Longrightarrow> bus_step s (goto t (UnsubStart i) s)"
| consume: "bus_ch (bus s) i \<noteq> [] \<Longrightarrow> bus_step s (s\<lparr>bus := receive i (bus s)\<rparr>)"
| pub_rlock: "threads s t = Some (PubStart evt) \<Longrightarrow> bus_step s (goto t (PubLocked evt) (s\<lparr>readers := insert t (readers s)\<rparr>))"
| pub_stamp: "threads s t = Some (PubLocked evt) \<Longrightarrow> stamp now (bus s) evt = (b, e) \<Longrightarrow> distinct order \<Longrightarrow>
    set order = set (subscribers b) \<Longrightarrow> bus_step s (goto t (PubSend e order) (s\<lparr>bus := b\<rparr>))"
| pub_send: "threads s t = Some (PubSend e (i # is)) \<Longrightarrow>
    bus_step s (goto t (PubSend e is) (after_panic s (send_to e i (bus s))))"
| pub_unlock: "threads s t = Some (PubSend e []) \<Longrightarrow>
    bus_step s (goto t (PubDone (ev_Version e)) (s\<lparr>readers := readers s - {t}\<rparr>))"
| unsub_once: "threads s t = Some (UnsubStart i) \<Longrightarrow> \<not> once s i \<Longrightarrow>
    bus_step s (goto t (UnsubLock i) (s\<lparr>once := (once s)(i := True)\<rparr>))"
| unsub_again: "threads s t = Some (UnsubStart i) \<Longrightarrow> once s i \<Longrightarrow> bus_step s (goto t UnsubDone s)"
| unsub_delete: "threads s t = Some (UnsubLock i) \<Longrightarrow> readers s = {} \<Longrightarrow>
    bus_step s (goto t (UnsubClose i) (s\<lparr>bus := unsub_delete i (bus s)\<rparr>))"
| unsub_close: "threads s t = Some (UnsubClose i) \<Longrightarrow> bus_step s (goto t UnsubDone (after_panic s (close_ch i (bus s))))"

inductive_cases bus_stepE: "bus_step s s'"

inductive bus_reachable :: "BusSys \<Rightarrow> bool" where
  init: "bus_reachable sys_init"
| step: "bus_reachable s \<Longrightarrow> bus_step s s' \<Longrightarrow> bus_reachable s'"

section \<open>Invariant\<close>

text \<open>Which threads are inside the read lock, and which own the removal of a subscription.\<close>

fun in_lock :: "pc option \<Rightarrow> bool" where
  "in_lock (Some (PubLocked e)) = True"
| "in_lock (Some (PubSend e is)) = True"
| "in_lock _ = False"

fun removing :: "nat \<Rightarrow> pc option \<Rightarrow> bool" where
  "removing i (Some (UnsubLock j)) = (i = j)"
| "removing i (Some (UnsubClose j)) = (i = j)"
| "removing i _ = False"

definition bus_inv :: "BusSys \<Rightarrow> bool" where
  "bus_inv s \<longleftrightarrow> \<not> panicked s \<and> (\<forall>t. t \<in> readers s \<longleftrightarrow> in_lock (threads s t)) \<and>
     (\<forall>i \<in> set (subscribers (bus s)). i < bus_nextID (bus s) \<and> \<not> bus_closed (bus s) i) \<and>
     (\<forall>i. bus_nextID (bus s) \<le> i \<longrightarrow> \<not> once s i) \<and>
     (\<forall>i. bus_closed (bus s) i \<longrightarrow> once s i \<and> (\<forall>t. \<not> removing i (threads s t))) \<and>
     (\<forall>t i. removing i (threads s t) \<longrightarrow> once s i) \<and>
     (\<forall>t i. threads s t = Some (UnsubStart i) \<longrightarrow> i < bus_nextID (bus s)) \<and>
     (\<forall>t u i. removing i (threads s t) \<longrightarrow> removing i (threads s u) \<longrightarrow> t = u) \<and>
     (\<forall>t e is i. threads s t = Some (PubSend e is) \<longrightarrow> i \<in> set is \<longrightarrow> i \<in> set (subscribers (bus s))) \<and>
     (\<forall>t i. threads s t = Some (UnsubClose i) \<longrightarrow> i \<notin> set (subscribers (bus s))) \<and>
     (\<forall>i. length (bus_ch (bus s) i) \<le> subscriberBufferSize)"

lemma bus_inv_init: "bus_inv sys_init"
  by (simp add: bus_inv_def sys_init_def Bus_New_def)

lemma send_to_open:
  assumes "\<not> bus_closed b i"
  shows "\<exists>b'. send_to e i b = Some b' \<and> subscribers b' = subscribers b \<and> bus_nextID b' = bus_nextID b \<and>
    bus_closed b' = bus_closed b \<and>
    (\<forall>j. length (bus_ch b j) \<le> subscriberBufferSize \<longrightarrow> length (bus_ch b' j) \<le> subscriberBufferSize)"
  using assms by (simp add: send_to_def)

lemma removing_once:
  assumes "bus_inv s" "removing i (threads s t)"
  shows "once s i" "\<not> bus_closed (bus s) i" "removing i (threads s u) \<Longrightarrow> u = t"
  using assms unfolding bus_inv_def by blast+

lemma no_readers:
  assumes "bus_inv s" "readers s = {}"
  shows "threads s t \<noteq> Some (PubSend e is)"
  using assms unfolding bus_inv_def by (metis empty_iff in_lock.simps(2))

lemma bus_inv_step:
  assumes "bus_inv s" "bus_step s s'"
  shows "bus_inv s'"
  using assms(2)
proof cases
  case (subscribe b i)
  have "threads s t \<noteq> Some (UnsubClose (bus_nextID (bus s)))" for t
  proof
    assume "threads s t = Some (UnsubClose (bus_nextID (bus s)))"
    then have "removing (bus_nextID (bus s)) (threads s t)" by simp
    with assms(1) show False unfolding bus_inv_def by blast
  qed
  with no_readers [OF assms(1) subscribe(2)] show ?thesis using subscribe assms(1)
    by (auto simp: bus_inv_def Subscribe_def Let_def less_Suc_eq split: if_splits)
next
  case (start_publish t evt)
  then show ?thesis using assms(1) by (auto simp: bus_inv_def)
next
  case (start_unsubscribe t i)
  then show ?thesis using assms(1) by (auto simp: bus_inv_def)
next
  case (consume i)
  then show ?thesis using assms(1) by (auto simp: bus_inv_def receive_def intro: le_trans [OF diff_le_self])
next
  case (pub_rlock t evt)
  then show ?thesis using assms(1) by (auto simp: bus_inv_def)
next
  case (pub_stamp t evt now b e order)
  then show ?thesis using assms(1) by (auto simp: bus_inv_def stamp_def Let_def)
next
  case (pub_send t e i "is")
  then have "\<not> bus_closed (bus s) i" using assms(1) by (fastforce simp: bus_inv_def)
  then obtain b where b: "send_to e i (bus s) = Some b" "subscribers b = subscribers (bus s)" "bus_nextID b = bus_nextID (bus s)"
    "bus_closed b = bus_closed (bus s)"
    and ch: "\<forall>j. length (bus_ch (bus s) j) \<le> subscriberBufferSize \<longrightarrow> length (bus_ch b j) \<le> subscriberBufferSize"
    using send_to_open by blast
  have "\<forall>j \<in> set is. j \<in> set (subscribers (bus s))"
    using assms(1) pub_send(2) unfolding bus_inv_def by (meson list.set_intros(2))
  then show ?thesis using assms(1) ch unfolding pub_send(1) after_panic_def b(1) bus_inv_def
    by (auto simp: b(2-4) pub_send(2))
next
  case (pub_unlock t e)
  then show ?thesis using assms(1) by (auto simp: bus_inv_def)
next
  case (unsub_once t i)
  then show ?thesis using assms(1) by (auto simp: bus_inv_def) (meson leD)
next
  case (unsub_again t i)
  then show ?thesis using assms(1) by (auto simp: bus_inv_def)
next
  case (unsub_delete t i)
  then have rem: "removing i (threads s t)" by simp
  show ?thesis
    using assms(1) unsub_delete removing_once [OF assms(1) rem] no_readers [OF assms(1) unsub_delete(3)]
    by (auto simp: bus_inv_def unsub_delete_def)
next
  case (unsub_close t i)
  then have rem: "removing i (threads s t)" and gone: "i \<notin> set (subscribers (bus s))"
    using assms(1) by (auto simp: bus_inv_def)
  from removing_once [OF assms(1) rem] have "after_panic s (close_ch i (bus s)) = s\<lparr>bus := bus s\<lparr>bus_closed := (bus_closed (bus s))(i := True)\<rparr>\<rparr>"
    by (simp add: after_panic_def close_ch_def)
  with unsub_close(1,2) removing_once [OF assms(1) rem] gone assms(1) show ?thesis
    by (auto simp: bus_inv_def)
qed

lemma bus_inv_reachable: "bus_reachable s \<Longrightarrow> bus_inv s"
  by (induction rule: bus_reachable.induct) (auto intro: bus_inv_init bus_inv_step)

section \<open>Properties\<close>

text \<open>
  C14. However goroutines that subscribe, publish, consume and unsubscribe (also twice, and also by a
  context's cancellation) interleave, the bus never sends on a closed channel and never closes a
  channel twice, no subscriber holds more than its buffer, and every subscriber in the table is open.
\<close>

theorem bus_never_panics:
  assumes "bus_reachable s"
  shows "\<not> panicked s \<and> (\<forall>i. length (bus_ch (bus s) i) \<le> subscriberBufferSize) \<and>
    (\<forall>i \<in> set (subscribers (bus s)). \<not> bus_closed (bus s) i)"
  using bus_inv_reachable [OF assms] by (simp add: bus_inv_def)

text \<open>Publishing one event without interference.\<close>

lemma send_all_ok:
  assumes "distinct is" "\<forall>i \<in> set is. \<not> bus_closed b i"
  shows "\<exists>b'. send_all is e b = Some b' \<and> subscribers b' = subscribers b \<and> bus_closed b' = bus_closed b \<and>
    bus_version b' = bus_version b \<and>
    (\<forall>i. bus_ch b' i = (if i \<in> set is \<and> length (bus_ch b i) < subscriberBufferSize then bus_ch b i @ [e] else bus_ch b i)) \<and>
    bus_dropped b' = bus_dropped b + of_nat (length (filter (\<lambda>i. length (bus_ch b i) \<ge> subscriberBufferSize) is))"
  using assms
proof (induction "is" arbitrary: b)
  case (Cons i "is")
  show ?case
  proof (cases "length (bus_ch b i) < subscriberBufferSize")
    case True
    let ?b = "b\<lparr>bus_ch := (bus_ch b)(i := bus_ch b i @ [e])\<rparr>"
    have "filter (\<lambda>j. length (bus_ch ?b j) \<ge> subscriberBufferSize) is = filter (\<lambda>j. length (bus_ch b j) \<ge> subscriberBufferSize) is"
      using Cons.prems(1) by (intro filter_cong) auto
    with Cons.IH [of ?b] Cons.prems True show ?thesis by (auto simp: send_to_def)
  next
    case False
    with Cons.IH [of "b\<lparr>bus_dropped := bus_dropped b + 1\<rparr>"] Cons.prems show ?thesis
      by (auto simp: send_to_def algebra_simps)
  qed
qed simp

text \<open>
  A \<open>Publish\<close> that runs alone gives the event the next version and puts it at the end of every
  subscriber's channel that has room; the drop counter grows by the number of full ones, and
  nothing blocks.
\<close>

lemma Publish_delivers:
  assumes "distinct (subscribers b)" "\<forall>i \<in> set (subscribers b). \<not> bus_closed b i"
  shows "\<exists>b' e. Publish now b evt = Some (b', bus_version b + 1) \<and> ev_Version e = bus_version b + 1 \<and>
    ev_Type e = ev_Type evt \<and> ev_Payload e = ev_Payload evt \<and>
    (\<forall>i. bus_ch b' i = (if i \<in> set (subscribers b) \<and> length (bus_ch b i) < subscriberBufferSize
                        then bus_ch b i @ [e] else bus_ch b i)) \<and>
    Dropped b' = Dropped b + of_nat (length (filter (\<lambda>i. length (bus_ch b i) \<ge> subscriberBufferSize) (subscribers b)))"
proof -
  let ?b = "b\<lparr>bus_version := bus_version b + 1\<rparr>"
    and ?e = "evt\<lparr>ev_Version := bus_version b + 1, ev_Timestamp := (if ev_Timestamp evt = 0 then now else ev_Timestamp evt)\<rparr>"
  obtain b' where b': "send_all (subscribers ?b) ?e ?b = Some b'"
    "\<forall>i. bus_ch b' i = (if i \<in> set (subscribers b) \<and> length (bus_ch b i) < subscriberBufferSize then bus_ch b i @ [?e] else bus_ch b i)"
    "bus_dropped b' = bus_dropped b + of_nat (length (filter (\<lambda>i. length (bus_ch b i) \<ge> subscriberBufferSize) (subscribers b)))"
    using send_all_ok [of "subscribers b" ?b ?e] assms by auto
  then show ?thesis
    by (intro exI [of _ b'] exI [of _ ?e]) (simp add: Publish_def stamp_def Let_def Dropped_def)
qed

lemma Publish_delivers_example:
  "\<exists>b' e. Publish 7 (fst (Subscribe Bus_New)) \<lparr>ev_Type = ''members'', ev_Payload = GNil, ev_Version = 0, ev_Timestamp = 0\<rparr> = Some (b', 1) \<and>
    bus_ch b' 0 = [e] \<and> ev_Version e = 1"
proof -
  let ?b = "fst (Subscribe Bus_New)"
  have b: "distinct (subscribers ?b)" "\<forall>i \<in> set (subscribers ?b). \<not> bus_closed ?b i"
    and "bus_version ?b = 0" "bus_ch ?b 0 = []" "0 \<in> set (subscribers ?b)"
    by (simp_all add: Subscribe_def Bus_New_def Let_def)
  then show ?thesis
    using Publish_delivers [OF b, of 7 "\<lparr>ev_Type = ''members'', ev_Payload = GNil, ev_Version = 0, ev_Timestamp = 0\<rparr>"]
    by (auto simp: subscriberBufferSize_def)
qed

section \<open>Concurrent publishers\<close>

definition evt_a :: Event where
  "evt_a = \<lparr>ev_Type = ''members'', ev_Payload = GString ''a'', ev_Version = 0, ev_Timestamp = 5\<rparr>"

definition evt_b :: Event where
  "evt_b = \<lparr>ev_Type = ''members'', ev_Payload = GString ''b'', ev_Version = 0, ev_Timestamp = 5\<rparr>"

text \<open>Two publishers under the read lock together: the first stamps first and sends last.\<close>

definition crossed_1 :: BusSys where
  "crossed_1 = goto 8 (PubStart evt_b) (goto 7 (PubStart evt_a) (sys_init\<lparr>bus := fst (Subscribe Bus_New)\<rparr>))"

definition crossed_2 :: BusSys where
  "crossed_2 = goto 8 (PubLocked evt_b) ((goto 7 (PubLocked evt_a) (crossed_1\<lparr>readers := {7}\<rparr>))\<lparr>readers := {8, 7}\<rparr>)"

definition crossed_3 :: BusSys where
  "crossed_3 = goto 8 (PubSend (evt_b\<lparr>ev_Version := 2\<rparr>) [0])
     ((goto 7 (PubSend (evt_a\<lparr>ev_Version := 1\<rparr>) [0]) (crossed_2\<lparr>bus := bus crossed_2\<lparr>bus_version := 1\<rparr>\<rparr>))
        \<lparr>bus := bus crossed_2\<lparr>bus_version := 2\<rparr>\<rparr>)"

lemma crossed_bus: "bus crossed_2 = fst (Subscribe Bus_New)"
  by (simp add: crossed_2_def crossed_1_def)

lemma reach_crossed_1: "bus_reachable crossed_1"
proof -
  have "bus_reachable (sys_init\<lparr>bus := fst (Subscribe Bus_New)\<rparr>)"
    by (rule bus_reachable.step [OF bus_reachable.init], rule bus_step.subscribe [of _ _ 0])
      (simp_all add: sys_init_def Subscribe_def Bus_New_def Let_def)
  from bus_reachable.step [OF bus_reachable.step [OF this bus_step.start_publish [of _ 7 evt_a]] bus_step.start_publish [of _ 8 evt_b]]
  show ?thesis by (simp add: crossed_1_def sys_init_def)
qed

lemma reach_crossed_2: "bus_reachable crossed_2"
proof -
  have s1: "bus_step crossed_1 (goto 7 (PubLocked evt_a) (crossed_1\<lparr>readers := {7}\<rparr>))"
    using bus_step.pub_rlock [of crossed_1 7 evt_a] by (simp add: crossed_1_def sys_init_def)
  have s2: "bus_step (goto 7 (PubLocked evt_a) (crossed_1\<lparr>readers := {7}\<rparr>)) crossed_2"
    using bus_step.pub_rlock [of "goto 7 (PubLocked evt_a) (crossed_1\<lparr>readers := {7}\<rparr>)" 8 evt_b]
    by (simp add: crossed_2_def crossed_1_def)
  show ?thesis by (rule bus_reachable.step [OF bus_reachable.step [OF reach_crossed_1 s1] s2])
qed

lemma reach_crossed_3: "bus_reachable crossed_3"
proof -
  let ?mid = "goto 7 (PubSend (evt_a\<lparr>ev_Version := 1\<rparr>) [0]) (crossed_2\<lparr>bus := bus crossed_2\<lparr>bus_version := 1\<rparr>\<rparr>)"
  have "stamp 9 (bus crossed_2) evt_a = (bus crossed_2\<lparr>bus_version := 1\<rparr>, evt_a\<lparr>ev_Version := 1\<rparr>)"
    by (simp add: crossed_bus Subscribe_def Bus_New_def Let_def stamp_def evt_a_def)
  then have s1: "bus_step crossed_2 ?mid"
    by (rule bus_step.pub_stamp [rotated]) (simp_all add: crossed_2_def crossed_1_def Subscribe_def Bus_New_def Let_def)
  have "stamp 9 (bus ?mid) evt_b = (bus crossed_2\<lparr>bus_version := 2\<rparr>, evt_b\<lparr>ev_Version := 2\<rparr>)"
    by (simp add: crossed_bus Subscribe_def Bus_New_def Let_def stamp_def evt_b_def)
  then have "bus_step ?mid (goto 8 (PubSend (evt_b\<lparr>ev_Version := 2\<rparr>) [0]) (?mid\<lparr>bus := bus crossed_2\<lparr>bus_version := 2\<rparr>\<rparr>))"
    by (rule bus_step.pub_stamp [rotated]) (simp_all add: crossed_2_def crossed_1_def Subscribe_def Bus_New_def Let_def)
  then have s2: "bus_step ?mid crossed_3" unfolding crossed_3_def .
  show ?thesis by (rule bus_reachable.step [OF bus_reachable.step [OF reach_crossed_2 s1] s2])
qed

text \<open>
  Versions can arrive out of order. Publishers only share the read lock, so two of them can cross
  between the stamp and the send: there is a run in which a subscriber's channel holds version 2
  in front of version 1.
\<close>

lemma versions_delivered_out_of_order:
  "\<exists>s. bus_reachable s \<and> map ev_Version (bus_ch (bus s) 0) = [2, 1]"
proof -
  let ?b8 = "(bus crossed_3)\<lparr>bus_ch := (bus_ch (bus crossed_3))(0 := [evt_b\<lparr>ev_Version := 2\<rparr>])\<rparr>"
  let ?s8 = "goto 8 (PubSend (evt_b\<lparr>ev_Version := 2\<rparr>) []) (crossed_3\<lparr>bus := ?b8\<rparr>)"
  let ?b7 = "?b8\<lparr>bus_ch := (bus_ch ?b8)(0 := [evt_b\<lparr>ev_Version := 2\<rparr>, evt_a\<lparr>ev_Version := 1\<rparr>])\<rparr>"
  let ?s7 = "goto 7 (PubSend (evt_a\<lparr>ev_Version := 1\<rparr>) []) (?s8\<lparr>bus := ?b7\<rparr>)"
  have open_ch: "\<not> bus_closed (bus crossed_3) 0" "bus_ch (bus crossed_3) 0 = []"
    by (simp_all add: crossed_3_def crossed_bus Subscribe_def Bus_New_def Let_def)
  have "send_to (evt_b\<lparr>ev_Version := 2\<rparr>) 0 (bus crossed_3) = Some ?b8"
    using open_ch by (simp add: send_to_def subscriberBufferSize_def)
  then have s8: "bus_step crossed_3 ?s8"
    using bus_step.pub_send [of crossed_3 8 "evt_b\<lparr>ev_Version := 2\<rparr>" 0 "[]"]
    by (simp add: after_panic_def crossed_3_def)
  have "send_to (evt_a\<lparr>ev_Version := 1\<rparr>) 0 (bus ?s8) = Some ?b7"
    using open_ch by (simp add: send_to_def subscriberBufferSize_def)
  moreover have "threads ?s8 7 = Some (PubSend (evt_a\<lparr>ev_Version := 1\<rparr>) [0])" by (simp add: crossed_3_def)
  ultimately have s7: "bus_step ?s8 ?s7"
    using bus_step.pub_send [of ?s8 7 "evt_a\<lparr>ev_Version := 1\<rparr>" 0 "[]"] by (simp add: after_panic_def)
  have "bus_reachable ?s7" by (rule bus_reachable.step [OF bus_reachable.step [OF reach_crossed_3 s8] s7])
  moreover have "map ev_Version (bus_ch (bus ?s7) 0) = [2, 1]" by (simp add: evt_a_def evt_b_def)
  ultimately show ?thesis by (intro exI [of _ ?s7] conjI)
qed

theorem bus_never_panics_witness:
  "\<not> panicked crossed_3 \<and> length (bus_ch (bus crossed_3) 0) \<le> 16"
  using bus_never_panics [OF reach_crossed_3] by (auto simp: subscriberBufferSize_def)

end
