(* ===== verification/Pool.thy ===== *)
theory Pool
  imports Prelude
begin

text \<open>
  \<open>pool.go\<close>: the worker pool as a transition system. Every goroutine (a worker, a caller of \<open>Enqueue\<close>,
  \<open>Shutdown\<close> or \<open>Resize\<close>) is a program counter in the list \<open>pcs\<close> and moves through the source's
  atomic actions; a channel is its buffer length, its capacity and whether it is closed. A job is
  whether it returns an error. A send on a closed channel, a second close and a negative wait group
  set \<open>pl_panicked\<close>. The flags of the relation say whether somebody receives from \<open>Errors\<close> and whether
  \<open>Resize\<close> is called.
\<close>

section \<open>State\<close>

datatype ppc =
    EnqStart bool | EnqLocked bool | EnqSend bool | EnqDone
  | ShStart | ShWait | ShQuit | ShErr | ShDone
  | WIdle | WRun bool | WErr | WFinish | WExit
  | RszStart int | RszQuit nat | RszDone

record WorkerPool =
  pl_closed :: bool
  pl_workers :: int
  pl_cap :: nat
  pl_jobs :: "bool list"
  pl_jobsClosed :: bool
  pl_wg :: int
  pl_quit :: nat
  pl_quitClosed :: bool
  pl_errs :: nat
  pl_errsClosed :: bool
  pcs :: "ppc list"
  pl_panicked :: bool

definition NewWorkerPool :: "nat \<Rightarrow> WorkerPool" where
  "NewWorkerPool n = \<lparr>pl_closed = False, pl_workers = int n, pl_cap = n, pl_jobs = [], pl_jobsClosed = False, pl_wg = 0,
     pl_quit = 0, pl_quitClosed = False, pl_errs = 0, pl_errsClosed = False, pcs = replicate n WIdle, pl_panicked = False\<rparr>"

section \<open>Actions\<close>

definition at_pc :: "nat \<Rightarrow> ppc \<Rightarrow> WorkerPool \<Rightarrow> bool" where
  "at_pc i p s \<longleftrightarrow> i < length (pcs s) \<and> pcs s ! i = p"

definition goto_pc :: "nat \<Rightarrow> ppc \<Rightarrow> WorkerPool \<Rightarrow> WorkerPool" where
  "goto_pc i p s = s\<lparr>pcs := (pcs s)[i := p]\<rparr>"

definition spawn :: "ppc list \<Rightarrow> WorkerPool \<Rightarrow> WorkerPool" where
  "spawn ps s = s\<lparr>pcs := pcs s @ ps\<rparr>"

definition panic :: "WorkerPool \<Rightarrow> WorkerPool" where
  "panic s = s\<lparr>pl_panicked := True\<rparr>"

text \<open>Callers of \<open>Enqueue\<close> inside the read lock keep a \<open>Shutdown\<close> out of the write lock.\<close>

fun holds_rlock :: "ppc \<Rightarrow> bool" where
  "holds_rlock (EnqLocked j) = True"
| "holds_rlock (EnqSend j) = True"
| "holds_rlock _ = False"

definition Enqueue_check :: "nat \<Rightarrow> bool \<Rightarrow> WorkerPool \<Rightarrow> WorkerPool" where
  "Enqueue_check i j s = (if pl_closed s then goto_pc i EnqDone s else goto_pc i (EnqSend j) (s\<lparr>pl_wg := pl_wg s + 1\<rparr>))"

definition Shutdown_close :: "nat \<Rightarrow> WorkerPool \<Rightarrow> WorkerPool" where
  "Shutdown_close i s =
     (if pl_closed s then goto_pc i ShDone s
      else if pl_jobsClosed s then panic s
      else goto_pc i ShWait (s\<lparr>pl_closed := True, pl_jobsClosed := True\<rparr>))"

definition close_quit :: "nat \<Rightarrow> WorkerPool \<Rightarrow> WorkerPool" where
  "close_quit i s = (if pl_quitClosed s then panic s else goto_pc i ShErr (s\<lparr>pl_quitClosed := True\<rparr>))"

definition close_errs :: "nat \<Rightarrow> WorkerPool \<Rightarrow> WorkerPool" where
  "close_errs i s = (if pl_errsClosed s then panic s else goto_pc i ShDone (s\<lparr>pl_errsClosed := True\<rparr>))"

definition worker_done :: "nat \<Rightarrow> WorkerPool \<Rightarrow> WorkerPool" where
  "worker_done i s = (if pl_wg s \<le> 0 then panic s else goto_pc i WIdle (s\<lparr>pl_wg := pl_wg s - 1\<rparr>))"

definition Resize :: "nat \<Rightarrow> int \<Rightarrow> WorkerPool \<Rightarrow> WorkerPool" where
  "Resize i newSize s =
     (if newSize < 0 then goto_pc i RszDone s
      else let diff = newSize - pl_workers s in
        if diff = 0 then goto_pc i RszDone s
        else let s1 = s\<lparr>pl_workers := newSize\<rparr> in
          if diff > 0 then spawn (replicate (nat diff) WIdle) (goto_pc i RszDone s1)
          else goto_pc i (RszQuit (nat (- diff))) s1)"

inductive pool_step :: "bool \<Rightarrow> bool \<Rightarrow> WorkerPool \<Rightarrow> WorkerPool \<Rightarrow> bool" for reads rsz where
  call_enqueue: "pool_step reads rsz s (spawn [EnqStart j] s)"
| call_shutdown: "pool_step reads rsz s (spawn [ShStart] s)"
| call_resize: "rsz \<Longrightarrow> pool_step reads rsz s (spawn [RszStart n] s)"
| enq_rlock: "at_pc i (EnqStart j) s \<Longrightarrow> pool_step reads rsz s (goto_pc i (EnqLocked j) s)"
| enq_check: "at_pc i (EnqLocked j) s \<Longrightarrow> pool_step reads rsz s (Enqueue_check i j s)"
| enq_panic: "at_pc i (EnqSend j) s \<Longrightarrow> pl_jobsClosed s \<Longrightarrow> pool_step reads rsz s (panic s)"
| enq_send: "at_pc i (EnqSend j) s \<Longrightarrow> \<not> pl_jobsClosed s \<Longrightarrow> length (pl_jobs s) < pl_cap s \<Longrightarrow>
    pool_step reads rsz s (goto_pc i EnqDone (s\<lparr>pl_jobs := pl_jobs s @ [j]\<rparr>))"
| enq_hand: "at_pc i (EnqSend j) s \<Longrightarrow> \<not> pl_jobsClosed s \<Longrightarrow> pl_jobs s = [] \<Longrightarrow> at_pc k WIdle s \<Longrightarrow>
    pool_step reads rsz s (goto_pc k (WRun j) (goto_pc i EnqDone s))"
| sh_close: "at_pc i ShStart s \<Longrightarrow> \<not> list_ex holds_rlock (pcs s) \<Longrightarrow> pool_step reads rsz s (Shutdown_close i s)"
| sh_wait: "at_pc i ShWait s \<Longrightarrow> pl_wg s = 0 \<Longrightarrow> pool_step reads rsz s (goto_pc i ShQuit s)"
| sh_quit: "at_pc i ShQuit s \<Longrightarrow> pool_step reads rsz s (close_quit i s)"
| sh_err: "at_pc i ShErr s \<Longrightarrow> pool_step reads rsz s (close_errs i s)"
| w_take: "at_pc i WIdle s \<Longrightarrow> pl_jobs s = j # js \<Longrightarrow> pool_step reads rsz s (goto_pc i (WRun j) (s\<lparr>pl_jobs := js\<rparr>))"
| w_end: "at_pc i WIdle s \<Longrightarrow> pl_jobs s = [] \<Longrightarrow> pl_jobsClosed s \<Longrightarrow> pool_step reads rsz s (goto_pc i WExit s)"
| w_quit: "at_pc i WIdle s \<Longrightarrow> pl_quit s = Suc q \<Longrightarrow> pool_step reads rsz s (goto_pc i WExit (s\<lparr>pl_quit := q\<rparr>))"
| w_quit_closed: "at_pc i WIdle s \<Longrightarrow> pl_quit s = 0 \<Longrightarrow> pl_quitClosed s \<Longrightarrow> pool_step reads rsz s (goto_pc i WExit s)"
| w_run: "at_pc i (WRun j) s \<Longrightarrow> pool_step reads rsz s (goto_pc i (if j then WErr else WFinish) s)"
| w_err_panic: "at_pc i WErr s \<Longrightarrow> pl_errsClosed s \<Longrightarrow> pool_step reads rsz s (panic s)"
| w_err: "at_pc i WErr s \<Longrightarrow> \<not> pl_errsClosed s \<Longrightarrow> pl_errs s < pl_cap s \<Longrightarrow>
    pool_step reads rsz s (goto_pc i WFinish (s\<lparr>pl_errs := pl_errs s + 1\<rparr>))"
| w_done: "at_pc i WFinish s \<Longrightarrow> pool_step reads rsz s (worker_done i s)"
| read_error: "reads \<Longrightarrow> pl_errs s = Suc e \<Longrightarrow> pool_step reads rsz s (s\<lparr>pl_errs := e\<rparr>)"
| rsz_start: "at_pc i (RszStart n) s \<Longrightarrow> pool_step reads rsz s (Resize i n s)"
| rsz_panic: "at_pc i (RszQuit (Suc n)) s \<Longrightarrow> pl_quitClosed s \<Longrightarrow> pool_step reads rsz s (panic s)"
| rsz_quit: "at_pc i (RszQuit (Suc n)) s \<Longrightarrow> \<not> pl_quitClosed s \<Longrightarrow> pl_quit s < pl_cap s \<Longrightarrow>
    pool_step reads rsz s (goto_pc i (RszQuit n) (s\<lparr>pl_quit := pl_quit s + 1\<rparr>))"
| rsz_done: "at_pc i (RszQuit 0) s \<Longrightarrow> pool_step reads rsz s (goto_pc i RszDone s)"

inductive pool_reachable :: "bool \<Rightarrow> bool \<Rightarrow> nat \<Rightarrow> WorkerPool \<Rightarrow> bool" for reads rsz n where
  init: "pool_reachable reads rsz n (NewWorkerPool n)"
| step: "pool_reachable reads rsz n s \<Longrightarrow> pool_step reads rsz s s' \<Longrightarrow> pool_reachable reads rsz n s'"

section \<open>Invariant\<close>

definition cnt :: "(ppc \<Rightarrow> bool) \<Rightarrow> WorkerPool \<Rightarrow> int" where
  "cnt P s = int (length (filter P (pcs s)))"

lemma cnt_goto:
  assumes "at_pc i p s"
  shows "cnt P (goto_pc i q s) = cnt P s + of_bool (P q) - of_bool (P p)"
proof -
  have "length (filter P (xs[i := q])) + of_bool (P (xs ! i)) = length (filter P xs) + of_bool (P q)" if "i < length xs" for xs
    using that
  proof (induction xs arbitrary: i)
    case (Cons x xs)
    then show ?case by (cases i) auto
  qed simp
  from this [of "pcs s"] assms show ?thesis
    by (cases "P p"; cases "P q") (simp_all add: cnt_def goto_pc_def at_pc_def)
qed

lemma cnt_spawn: "cnt P (spawn ps s) = cnt P s + int (length (filter P ps))"
  by (simp add: cnt_def spawn_def)

lemma cnt_frame [simp]:
  "cnt P (s\<lparr>pl_closed := a\<rparr>) = cnt P s" "cnt P (s\<lparr>pl_workers := w\<rparr>) = cnt P s" "cnt P (s\<lparr>pl_jobs := js\<rparr>) = cnt P s"
  "cnt P (s\<lparr>pl_jobsClosed := a\<rparr>) = cnt P s" "cnt P (s\<lparr>pl_wg := w\<rparr>) = cnt P s" "cnt P (s\<lparr>pl_quit := q\<rparr>) = cnt P s"
  "cnt P (s\<lparr>pl_quitClosed := a\<rparr>) = cnt P s" "cnt P (s\<lparr>pl_errs := q\<rparr>) = cnt P s" "cnt P (s\<lparr>pl_errsClosed := a\<rparr>) = cnt P s"
  by (simp_all add: cnt_def)

lemma at_frame [simp]:
  "at_pc i p (s\<lparr>pl_closed := a\<rparr>) = at_pc i p s" "at_pc i p (s\<lparr>pl_workers := w\<rparr>) = at_pc i p s"
  "at_pc i p (s\<lparr>pl_jobs := js\<rparr>) = at_pc i p s" "at_pc i p (s\<lparr>pl_jobsClosed := a\<rparr>) = at_pc i p s"
  "at_pc i p (s\<lparr>pl_wg := w\<rparr>) = at_pc i p s" "at_pc i p (s\<lparr>pl_quit := q\<rparr>) = at_pc i p s"
  "at_pc i p (s\<lparr>pl_quitClosed := a\<rparr>) = at_pc i p s" "at_pc i p (s\<lparr>pl_errs := q\<rparr>) = at_pc i p s"
  "at_pc i p (s\<lparr>pl_errsClosed := a\<rparr>) = at_pc i p s"
  by (simp_all add: at_pc_def)

lemma goto_frame [simp]:
  "pl_closed (goto_pc i p s) = pl_closed s" "pl_workers (goto_pc i p s) = pl_workers s" "pl_cap (goto_pc i p s) = pl_cap s"
  "pl_jobs (goto_pc i p s) = pl_jobs s" "pl_jobsClosed (goto_pc i p s) = pl_jobsClosed s" "pl_wg (goto_pc i p s) = pl_wg s"
  "pl_quit (goto_pc i p s) = pl_quit s" "pl_quitClosed (goto_pc i p s) = pl_quitClosed s" "pl_errs (goto_pc i p s) = pl_errs s"
  "pl_errsClosed (goto_pc i p s) = pl_errsClosed s" "pl_panicked (goto_pc i p s) = pl_panicked s"
  "pl_closed (spawn ps s) = pl_closed s" "pl_cap (spawn ps s) = pl_cap s"
  "pl_jobs (spawn ps s) = pl_jobs s" "pl_jobsClosed (spawn ps s) = pl_jobsClosed s" "pl_wg (spawn ps s) = pl_wg s"
  "pl_quit (spawn ps s) = pl_quit s" "pl_quitClosed (spawn ps s) = pl_quitClosed s" "pl_errs (spawn ps s) = pl_errs s"
  "pl_errsClosed (spawn ps s) = pl_errsClosed s" "pl_panicked (spawn ps s) = pl_panicked s"
  by (simp_all add: goto_pc_def spawn_def)

lemma panic_frame [simp]:
  "pl_closed (panic s) = pl_closed s" "pl_cap (panic s) = pl_cap s" "pl_jobs (panic s) = pl_jobs s" "pl_quit (panic s) = pl_quit s"
  "cnt P (panic s) = cnt P s"
  by (simp_all add: panic_def cnt_def)

lemma cnt_pos: "at_pc i p s \<Longrightarrow> P p \<Longrightarrow> 0 < cnt P s"
  by (auto simp: cnt_def at_pc_def filter_empty_conv intro!: nth_mem)

lemma cnt_nonneg: "0 \<le> cnt P s"
  by (simp add: cnt_def)

text \<open>Threads that owe the wait group a \<open>Done\<close>.\<close>

fun busy :: "ppc \<Rightarrow> bool" where
  "busy (EnqSend j) = True"
| "busy (WRun j) = True"
| "busy WErr = True"
| "busy WFinish = True"
| "busy _ = False"

fun sending :: "ppc \<Rightarrow> bool" where
  "sending (EnqSend j) = True"
| "sending _ = False"

fun resizing :: "ppc \<Rightarrow> bool" where
  "resizing (RszStart n) = True"
| "resizing (RszQuit n) = True"
| "resizing _ = False"

definition pool_inv :: "WorkerPool \<Rightarrow> bool" where
  "pool_inv s \<longleftrightarrow> \<not> pl_panicked s \<and> pl_jobsClosed s = pl_closed s \<and> cnt resizing s = 0 \<and>
     pl_wg s = int (length (pl_jobs s)) + cnt busy s \<and> (pl_closed s \<longrightarrow> cnt sending s = 0) \<and>
     (if \<not> pl_closed s
      then cnt ((=) ShWait) s = 0 \<and> cnt ((=) ShQuit) s = 0 \<and> cnt ((=) ShErr) s = 0 \<and> \<not> pl_quitClosed s \<and> \<not> pl_errsClosed s
      else if \<not> pl_quitClosed s then cnt ((=) ShWait) s + cnt ((=) ShQuit) s = 1 \<and> cnt ((=) ShErr) s = 0 \<and> \<not> pl_errsClosed s
      else cnt ((=) ShWait) s = 0 \<and> cnt ((=) ShQuit) s = 0 \<and> cnt ((=) ShErr) s = (if pl_errsClosed s then 0 else 1)) \<and>
     (0 < cnt ((=) ShQuit) s \<or> pl_quitClosed s \<longrightarrow> pl_jobs s = [] \<and> cnt busy s = 0)"

lemma pool_inv_init: "pool_inv (NewWorkerPool n)"
  by (simp add: pool_inv_def NewWorkerPool_def cnt_def)

lemma pool_invD:
  assumes "pool_inv s"
  shows "at_pc i (RszStart m) s \<Longrightarrow> False" "at_pc i (RszQuit k) s \<Longrightarrow> False"
    "at_pc i (EnqSend j) s \<Longrightarrow> \<not> pl_closed s \<and> \<not> pl_jobsClosed s"
    "at_pc i ShWait s \<Longrightarrow> pl_closed s \<and> \<not> pl_quitClosed s \<and> \<not> pl_errsClosed s"
    "at_pc i ShQuit s \<Longrightarrow> pl_closed s \<and> \<not> pl_quitClosed s \<and> \<not> pl_errsClosed s"
    "at_pc i ShErr s \<Longrightarrow> pl_closed s \<and> pl_quitClosed s \<and> \<not> pl_errsClosed s"
    "at_pc i WErr s \<Longrightarrow> \<not> pl_errsClosed s" "at_pc i WFinish s \<Longrightarrow> 0 < pl_wg s"
  using assms cnt_nonneg [of "(=) ShWait" s] cnt_nonneg [of busy s] cnt_pos [of i "RszStart m" s resizing] cnt_pos [of i "RszQuit k" s resizing] cnt_pos [of i "EnqSend j" s sending]
    cnt_pos [of i ShWait s "(=) ShWait"] cnt_pos [of i ShQuit s "(=) ShQuit"] cnt_pos [of i ShErr s "(=) ShErr"]
    cnt_pos [of i WErr s busy] cnt_pos [of i WFinish s busy]
  by (auto simp: pool_inv_def split: if_splits)

lemma wg_zero: "pool_inv s \<Longrightarrow> pl_wg s = 0 \<Longrightarrow> pl_jobs s = [] \<and> cnt busy s = 0"
  by (simp add: pool_inv_def add_nonneg_eq_0_iff cnt_nonneg)

lemma pool_inv_step:
  assumes "pool_inv s" "pool_step reads False s s'"
  shows "pool_inv s'"
  using assms(2)
proof cases
  case (call_enqueue j)
  then show ?thesis using assms(1) by (simp add: pool_inv_def cnt_spawn)
next
  case call_shutdown
  then show ?thesis using assms(1) by (simp add: pool_inv_def cnt_spawn)
next
  case (enq_rlock i j)
  then show ?thesis using assms(1) by (simp add: pool_inv_def cnt_goto [OF enq_rlock(2)])
next
  case (enq_check i j)
  then show ?thesis using assms(1) by (simp add: pool_inv_def Enqueue_check_def cnt_goto [of i "EnqLocked j"])
next
  case (enq_panic i j)
  then show ?thesis using pool_invD(3) [OF assms(1)] by blast
next
  case (enq_send i j)
  then show ?thesis using assms(1) pool_invD(3) [OF assms(1)] by (simp add: pool_inv_def cnt_goto [of i "EnqSend j"])
next
  case (enq_hand i j k)
  then have ne: "i \<noteq> k" by (auto simp: at_pc_def)
  then have "at_pc k WIdle (goto_pc i EnqDone s)" using enq_hand by (simp add: at_pc_def goto_pc_def)
  then show ?thesis using assms(1) enq_hand pool_invD(3) [OF assms(1) enq_hand(2)]
    by (simp add: pool_inv_def cnt_goto [of k WIdle] cnt_goto [OF enq_hand(2)])
next
  case (sh_close i)
  have "cnt sending s = 0" if "\<not> list_ex holds_rlock (pcs s)"
  proof -
    have "sending p \<longrightarrow> holds_rlock p" for p by (cases p) simp_all
    then show ?thesis using that by (auto simp: cnt_def list_ex_iff filter_empty_conv)
  qed
  with sh_close assms(1) show ?thesis by (simp add: pool_inv_def Shutdown_close_def cnt_goto [of i ShStart])
next
  case (sh_wait i)
  then show ?thesis using assms(1) pool_invD(4) [OF assms(1) sh_wait(2)] wg_zero [OF assms(1)] cnt_pos [of i ShWait s "(=) ShWait"] by (auto simp: pool_inv_def cnt_goto [OF sh_wait(2)])
next
  case (sh_quit i)
  then show ?thesis using assms(1) pool_invD(5) [OF assms(1) sh_quit(2)] cnt_pos [of i ShQuit s "(=) ShQuit"] cnt_nonneg [of "(=) ShWait" s]
    by (auto simp: pool_inv_def close_quit_def cnt_goto [of i ShQuit])
next
  case (sh_err i)
  then show ?thesis using assms(1) pool_invD(6) [OF assms(1) sh_err(2)]
    by (simp add: pool_inv_def close_errs_def cnt_goto [of i ShErr])
next
  case (w_take i j js)
  then show ?thesis using assms(1) by (simp add: pool_inv_def cnt_goto [of i WIdle])
next
  case (w_end i)
  then show ?thesis using assms(1) by (simp add: pool_inv_def cnt_goto [of i WIdle])
next
  case (w_quit i q)
  then show ?thesis using assms(1) by (simp add: pool_inv_def cnt_goto [of i WIdle])
next
  case (w_quit_closed i)
  then show ?thesis using assms(1) by (auto simp: pool_inv_def cnt_goto [of i WIdle] split: if_splits)
next
  case (w_run i j)
  then show ?thesis using assms(1) by (simp add: pool_inv_def cnt_goto [OF w_run(2)])
next
  case (w_err_panic i)
  then show ?thesis using pool_invD(7) [OF assms(1)] by blast
next
  case (w_err i)
  then show ?thesis using assms(1) by (simp add: pool_inv_def cnt_goto [of i WErr])
next
  case (w_done i)
  then show ?thesis using assms(1) pool_invD(8) [OF assms(1) w_done(2)] cnt_pos [of i WFinish s busy]
    by (auto simp: pool_inv_def worker_done_def cnt_goto [of i WFinish])
next
  case (read_error e)
  then show ?thesis using assms(1) by (simp add: pool_inv_def)
next
  case (rsz_start i n)
  then show ?thesis using pool_invD(1) [OF assms(1)] by blast
next
  case (rsz_panic i n)
  then show ?thesis using pool_invD(2) [OF assms(1)] by blast
next
  case (rsz_quit i n)
  then show ?thesis using pool_invD(2) [OF assms(1)] by blast
next
  case (rsz_done i)
  then show ?thesis using pool_invD(2) [OF assms(1)] by blast
qed simp

lemma pool_inv_reachable: "pool_reachable reads False n s \<Longrightarrow> pool_inv s"
  by (induction rule: pool_reachable.induct) (auto intro: pool_inv_init pool_inv_step)

section \<open>Safety of Shutdown\<close>

text \<open>
  C15. Without \<open>Resize\<close>, however callers of \<open>Enqueue\<close> and \<open>Shutdown\<close> and the workers interleave, the pool
  never sends on a closed channel, never closes a channel twice and never drops the wait group below
  zero; and when \<open>Shutdown\<close> has closed the error channel, every accepted job has been run.
\<close>

theorem pool_safe:
  assumes "pool_reachable reads False n s"
  shows "\<not> pl_panicked s \<and> 0 \<le> pl_wg s \<and>
    (pl_errsClosed s \<longrightarrow> pl_closed s \<and> pl_wg s = 0 \<and> pl_jobs s = [] \<and> list_all (\<lambda>p. \<not> busy p) (pcs s))"
proof -
  have inv: "pool_inv s" by (rule pool_inv_reachable [OF assms])
  have "list_all (\<lambda>p. \<not> busy p) (pcs s)" if "cnt busy s = 0" using that by (auto simp: cnt_def list_all_iff filter_empty_conv)
  with inv cnt_nonneg [of busy s] show ?thesis by (auto simp: pool_inv_def split: if_splits)
qed

section \<open>Progress of Shutdown\<close>

fun is_worker :: "ppc \<Rightarrow> bool" where
  "is_worker WIdle = True"
| "is_worker (WRun j) = True"
| "is_worker WErr = True"
| "is_worker WFinish = True"
| "is_worker WExit = True"
| "is_worker _ = False"

definition live_inv :: "nat \<Rightarrow> WorkerPool \<Rightarrow> bool" where
  "live_inv n s \<longleftrightarrow> pool_inv s \<and> pl_quit s = 0 \<and> cnt is_worker s = int n \<and> pl_cap s = n \<and>
     (0 < cnt ((=) WExit) s \<longrightarrow> pl_closed s \<and> pl_jobs s = [])"

lemma live_inv_init: "live_inv n (NewWorkerPool n)"
  using pool_inv_init by (simp add: live_inv_def NewWorkerPool_def cnt_def)

lemma live_inv_step:
  assumes "live_inv n s" "pool_step reads False s s'"
  shows "live_inv n s'"
proof -
  have inv: "pool_inv s" and live: "pl_quit s = 0" "cnt is_worker s = int n" "pl_cap s = n"
      "0 < cnt ((=) WExit) s \<longrightarrow> pl_closed s \<and> pl_jobs s = []"
    using assms(1) by (simp_all add: live_inv_def)
  have closed: "pl_jobsClosed s = pl_closed s" "pl_quitClosed s \<longrightarrow> pl_closed s \<and> pl_jobs s = []"
    using inv by (auto simp: pool_inv_def split: if_splits)
  have "pl_quit s' = 0 \<and> cnt is_worker s' = int n \<and> pl_cap s' = n \<and>
     (0 < cnt ((=) WExit) s' \<longrightarrow> pl_closed s' \<and> pl_jobs s' = [])"
    using assms(2)
  proof cases
    case (enq_hand i j k)
    then have "i \<noteq> k" by (auto simp: at_pc_def)
    then have "at_pc k WIdle (goto_pc i EnqDone s)" using enq_hand by (simp add: at_pc_def goto_pc_def)
    with enq_hand live show ?thesis by (simp add: cnt_goto [of k WIdle] cnt_goto [OF enq_hand(2)])
  next
    case (enq_send i j)
    with pool_invD(3) [OF inv enq_send(2)] live show ?thesis by (auto simp: cnt_goto [of i "EnqSend j"])
  next
    case (rsz_start i m)
    then show ?thesis using pool_invD(1) [OF inv] by blast
  qed (use live closed pool_invD(2) [OF inv] in
      \<open>auto simp: cnt_spawn cnt_goto Enqueue_check_def Shutdown_close_def close_quit_def close_errs_def worker_done_def\<close>)
  with pool_inv_step [OF inv assms(2)] show ?thesis by (simp add: live_inv_def)
qed

lemma live_inv_reachable: "pool_reachable reads False n s \<Longrightarrow> live_inv n s"
  by (induction rule: pool_reachable.induct) (auto intro: live_inv_init live_inv_step)

text \<open>The work left: every step a worker takes on a job, and every error received, makes it smaller.\<close>

fun weight :: "ppc \<Rightarrow> int" where
  "weight (WRun j) = 3"
| "weight WErr = 2"
| "weight WFinish = 1"
| "weight _ = 0"

definition work :: "WorkerPool \<Rightarrow> int" where
  "work s = int (pl_errs s) + 2 * (4 * int (length (pl_jobs s)) + sum_list (map weight (pcs s)))"

lemma work_goto:
  assumes "at_pc i p s"
  shows "work (goto_pc i q s) = work s + 2 * (weight q - weight p)"
proof -
  have "sum_list (map weight (xs[i := q])) = sum_list (map weight xs) + weight q - weight (xs ! i)" if "i < length xs" for xs
    using that
  proof (induction xs arbitrary: i)
    case (Cons x xs)
    then show ?case by (cases i) auto
  qed simp
  then have "sum_list (map weight ((pcs s)[i := q])) = sum_list (map weight (pcs s)) + weight q - weight p"
    using assms by (simp add: at_pc_def)
  then show ?thesis by (simp add: work_def goto_pc_def)
qed

lemma work_frame:
  "work (s\<lparr>pl_jobs := js\<rparr>) = work s + 8 * (int (length js) - int (length (pl_jobs s)))" "work (s\<lparr>pl_wg := w\<rparr>) = work s"
  "work (s\<lparr>pl_errs := e\<rparr>) = work s + int e - int (pl_errs s)"
  by (simp_all add: work_def)

lemma cnt_ex: "0 < cnt P s \<Longrightarrow> \<exists>i. i < length (pcs s) \<and> P (pcs s ! i)"
  by (auto simp: cnt_def filter_empty_conv in_set_conv_nth)

lemma busy_progress:
  assumes "pool_inv s" "pl_closed s" "0 < cnt busy s" "0 < pl_wg s" "reads \<or> pl_errs s < pl_cap s" "0 < pl_cap s"
  shows "\<exists>s'. pool_step reads False s s' \<and> work s' < work s"
proof -
  note inv = assms(1)
  obtain i where i: "i < length (pcs s)" "busy (pcs s ! i)" using cnt_ex [OF assms(3)] by blast
  then have at: "at_pc i (pcs s ! i) s" by (simp add: at_pc_def)
  show ?thesis
  proof (cases "pcs s ! i")
    case (EnqSend j)
    then show ?thesis using pool_invD(3) [OF inv] at assms(2) by auto
  next
    case (WRun j)
    have "pool_step reads False s (goto_pc i (if j then WErr else WFinish) s)" using at WRun pool_step.w_run by simp
    then show ?thesis using at WRun by (auto simp: work_goto)
  next
    case WErr
    show ?thesis
    proof (cases "pl_errs s < pl_cap s")
      case True
      have "pool_step reads False s (goto_pc i WFinish (s\<lparr>pl_errs := pl_errs s + 1\<rparr>))"
        using at WErr True pool_invD(7) [OF inv] pool_step.w_err by simp
      then show ?thesis using at WErr by (auto simp: work_goto [of i WErr] work_frame)
    next
      case False
      then obtain e where e: "reads" "pl_errs s = Suc e"
        using assms(5,6) inv by (cases "pl_errs s") auto
      then have "pool_step reads False s (s\<lparr>pl_errs := e\<rparr>)" by (rule pool_step.read_error)
      with e show ?thesis by (auto simp: work_frame)
    qed
  next
    case WFinish
    have "pool_step reads False s (worker_done i s)" using at WFinish pool_step.w_done by simp
    then show ?thesis using at WFinish assms(4) by (auto simp: worker_done_def work_goto [of i WFinish] work_frame)
  qed (use i in simp_all)
qed

lemma idle_progress:
  assumes "live_inv n s" "0 < n" "\<not> 0 < cnt busy s" "0 < pl_wg s"
  shows "\<exists>s'. pool_step reads False s s' \<and> work s' < work s"
proof -
  note live = assms(1)
  then have inv: "pool_inv s" by (simp add: live_inv_def)
  have jobs: "pl_jobs s \<noteq> []" using assms(3,4) inv by (auto simp: pool_inv_def)
  obtain i where i: "i < length (pcs s)" "is_worker (pcs s ! i)"
    using cnt_ex [of is_worker s] live assms(2) by (auto simp: live_inv_def)
  have "\<not> busy (pcs s ! i)" using assms(3) cnt_pos [of i _ s busy] i(1) by (auto simp: at_pc_def)
  moreover have "pcs s ! i \<noteq> WExit"
    using cnt_pos [of i WExit s "(=) WExit"] i(1) live jobs by (auto simp: live_inv_def at_pc_def)
  ultimately have at: "at_pc i WIdle s" using i by (cases "pcs s ! i") (simp_all add: at_pc_def)
  obtain j js where js: "pl_jobs s = j # js" using jobs by (cases "pl_jobs s") auto
  have "pool_step reads False s (goto_pc i (WRun j) (s\<lparr>pl_jobs := js\<rparr>))" by (rule pool_step.w_take [OF at js])
  then show ?thesis using at js by (auto simp: work_goto [of i WIdle] work_frame)
qed

text \<open>
  C16. While \<open>Shutdown\<close> waits for jobs, some step is possible that brings them nearer to their end, as long
  as somebody reads the errors or the error channel has room: the work left is a natural number
  that such a step makes smaller, so \<open>Shutdown\<close> cannot deadlock then.
\<close>

theorem shutdown_progress:
  assumes "pool_reachable reads False n s" "0 < n" "at_pc k ShWait s" "0 < pl_wg s" "reads \<or> pl_errs s < pl_cap s"
  shows "\<exists>s'. pool_step reads False s s' \<and> work s' < work s"
proof -
  have live: "live_inv n s" and inv: "pool_inv s" using live_inv_reachable [OF assms(1)] by (simp_all add: live_inv_def)
  have "pl_closed s" using pool_invD(4) [OF inv assms(3)] by simp
  moreover have "0 < pl_cap s" using assms(2) live by (auto simp: live_inv_def)
  ultimately show ?thesis using busy_progress [OF inv _ _ assms(4,5)] idle_progress [OF live assms(2) _ assms(4)] by blast
qed

section \<open>Errors nobody reads\<close>

lemma stuck_step:
  assumes "pool_inv s" "at_pc i WErr s" "pl_errs s = pl_cap s" "at_pc k ShWait s" "pool_step False False s s'"
  shows "at_pc i WErr s' \<and> pl_errs s' = pl_cap s' \<and> at_pc k ShWait s'"
proof -
  have wg: "0 < pl_wg s" using assms(1) cnt_pos [of i WErr s busy] assms(2) by (simp add: pool_inv_def)
  have keep: "at_pc i WErr (goto_pc m q t) \<and> at_pc k ShWait (goto_pc m q t)"
    if "at_pc i WErr t" "at_pc k ShWait t" "at_pc m p t" "p \<noteq> WErr" "p \<noteq> ShWait" for m p q t
    using that by (auto simp: at_pc_def goto_pc_def nth_list_update)
  have keep_spawn: "at_pc i WErr (spawn ps s) \<and> at_pc k ShWait (spawn ps s)" for ps
    using assms(2,4) by (simp add: at_pc_def spawn_def nth_append)
  from assms(5) show ?thesis
  proof cases
    case (enq_hand m j l)
    have "at_pc l WIdle (goto_pc m EnqDone s)"
      using enq_hand(2,5) by (auto simp: at_pc_def goto_pc_def nth_list_update)
    with enq_hand keep [OF assms(2,4) enq_hand(2)] keep [of "goto_pc m EnqDone s" l WIdle] assms(3) show ?thesis by simp
  next
    case (sh_wait m)
    then show ?thesis using wg by simp
  next
    case (w_err m)
    then show ?thesis using assms(3) by simp
  next
    case (w_err_panic m)
    then show ?thesis using pool_invD(7) [OF assms(1)] by blast
  next
    case (rsz_start m n)
    then show ?thesis using pool_invD(1) [OF assms(1)] by blast
  qed (use assms(2-4) keep_spawn keep pool_invD [OF assms(1)] wg in
    \<open>auto simp: Enqueue_check_def Shutdown_close_def close_quit_def close_errs_def worker_done_def panic_def at_pc_def [of _ _ "panic s"]\<close>)
qed

text \<open>
  The cache never reads the errors of its pool. Once a worker waits to hand over an error and the
  channel is full, it waits forever, and a \<open>Shutdown\<close> that waits for the jobs never returns.
\<close>

lemma undrained_errors_hang:
  assumes "pool_reachable False False n s" "at_pc i WErr s" "pl_errs s = pl_cap s" "at_pc k ShWait s"
    and "(pool_step False False)\<^sup>*\<^sup>* s s'"
  shows "at_pc i WErr s' \<and> at_pc k ShWait s'"
proof -
  have "pool_inv s' \<and> at_pc i WErr s' \<and> pl_errs s' = pl_cap s' \<and> at_pc k ShWait s'"
    using assms(5)
  proof (induction rule: rtranclp_induct)
    case base
    then show ?case using assms(2-4) pool_inv_reachable [OF assms(1)] by simp
  next
    case (step y z)
    then show ?case using stuck_step pool_inv_step by blast
  qed
  then show ?thesis by simp
qed

section \<open>Concrete runs\<close>

definition pool_at :: "bool \<Rightarrow> bool list \<Rightarrow> int \<Rightarrow> nat \<Rightarrow> ppc list \<Rightarrow> WorkerPool" where
  "pool_at closed jobs wg errs ps = \<lparr>pl_closed = closed, pl_workers = 1, pl_cap = 1, pl_jobs = jobs, pl_jobsClosed = closed, pl_wg = wg,
     pl_quit = 0, pl_quitClosed = False, pl_errs = errs, pl_errsClosed = False, pcs = ps, pl_panicked = False\<rparr>"

lemmas run_simps = pool_at_def at_pc_def goto_pc_def spawn_def Enqueue_check_def Shutdown_close_def worker_done_def

lemma reach_to:
  assumes "pool_reachable reads rsz n s" "pool_step reads rsz s t" "t = u"
  shows "pool_reachable reads rsz n u"
  using pool_reachable.step [OF assms(1,2)] assms(3) by simp

lemma run_start: "pool_reachable reads rsz 1 (pool_at False [] 0 0 [WIdle])"
  using pool_reachable.init [of reads rsz 1] by (simp add: NewWorkerPool_def pool_at_def)

lemma run_enqueue:
  assumes "pool_reachable reads rsz 1 (pool_at False [] wg e ps)"
  shows "pool_reachable reads rsz 1 (pool_at False [j] (wg + 1) e (ps @ [EnqDone]))"
proof -
  let ?i = "length ps"
  have 1: "pool_reachable reads rsz 1 (pool_at False [] wg e (ps @ [EnqStart j]))"
    by (rule reach_to [OF assms pool_step.call_enqueue]) (simp add: run_simps)
  have 2: "pool_reachable reads rsz 1 (pool_at False [] wg e (ps @ [EnqLocked j]))"
    by (rule reach_to [OF 1 pool_step.enq_rlock [of ?i j]]) (simp_all add: run_simps)
  have 3: "pool_reachable reads rsz 1 (pool_at False [] (wg + 1) e (ps @ [EnqSend j]))"
    by (rule reach_to [OF 2 pool_step.enq_check [of ?i j]]) (simp_all add: run_simps)
  show ?thesis
    by (rule reach_to [OF 3 pool_step.enq_send [of ?i j]]) (simp_all add: run_simps)
qed

lemma run_shutdown:
  assumes "pool_reachable reads rsz 1 (pool_at False jobs wg e ps)" "\<not> list_ex holds_rlock ps"
  shows "pool_reachable reads rsz 1 (pool_at True jobs wg e (ps @ [ShWait]))"
proof -
  have 1: "pool_reachable reads rsz 1 (pool_at False jobs wg e (ps @ [ShStart]))"
    by (rule reach_to [OF assms(1) pool_step.call_shutdown]) (simp add: run_simps)
  show ?thesis
    by (rule reach_to [OF 1 pool_step.sh_close [of "length ps"]]) (use assms(2) in \<open>simp_all add: run_simps\<close>)
qed

definition hanging :: WorkerPool where
  "hanging = pool_at True [] 1 1 [WErr, EnqDone, EnqDone, ShWait]"

lemma reach_hanging: "pool_reachable reads rsz 1 hanging"
proof -
  have 1: "pool_reachable reads rsz 1 (pool_at False [True] 1 0 [WIdle, EnqDone])"
    using run_enqueue [OF run_start] by simp
  have 2: "pool_reachable reads rsz 1 (pool_at False [] 1 0 [WRun True, EnqDone])"
    by (rule reach_to [OF 1 pool_step.w_take [of 0]]) (simp_all add: run_simps)
  have 3: "pool_reachable reads rsz 1 (pool_at False [] 1 0 [WErr, EnqDone])"
    by (rule reach_to [OF 2 pool_step.w_run [of 0 True]]) (simp_all add: run_simps)
  have 4: "pool_reachable reads rsz 1 (pool_at False [] 1 1 [WFinish, EnqDone])"
    by (rule reach_to [OF 3 pool_step.w_err [of 0]]) (simp_all add: run_simps)
  have 5: "pool_reachable reads rsz 1 (pool_at False [] 0 1 [WIdle, EnqDone])"
    by (rule reach_to [OF 4 pool_step.w_done [of 0]]) (simp_all add: run_simps)
  have 6: "pool_reachable reads rsz 1 (pool_at False [True] 1 1 [WIdle, EnqDone, EnqDone])"
    using run_enqueue [OF 5, of True] by simp
  have 7: "pool_reachable reads rsz 1 (pool_at False [] 1 1 [WRun True, EnqDone, EnqDone])"
    by (rule reach_to [OF 6 pool_step.w_take [of 0]]) (simp_all add: run_simps)
  have 8: "pool_reachable reads rsz 1 (pool_at False [] 1 1 [WErr, EnqDone, EnqDone])"
    by (rule reach_to [OF 7 pool_step.w_run [of 0 True]]) (simp_all add: run_simps)
  show ?thesis using run_shutdown [OF 8] by (simp add: hanging_def)
qed

lemma undrained_errors_hang_example:
  "pool_reachable False False 1 hanging \<and> at_pc 0 WErr hanging \<and> at_pc 3 ShWait hanging"
  using undrained_errors_hang [OF reach_hanging, of 0 3 hanging] reach_hanging
  by (simp add: hanging_def run_simps)

theorem pool_safe_witness: "\<not> pl_panicked hanging \<and> 0 \<le> pl_wg hanging"
  using pool_safe [OF reach_hanging] by blast

definition waiting :: WorkerPool where
  "waiting = pool_at True [False] 1 0 [WIdle, EnqDone, ShWait]"

lemma reach_waiting: "pool_reachable reads rsz 1 waiting"
  using run_shutdown [OF run_enqueue [OF run_start], of reads rsz False] by (simp add: waiting_def)

theorem shutdown_progress_witness: "\<exists>s'. pool_step False False waiting s' \<and> work s' < work waiting"
proof -
  have "at_pc 2 ShWait waiting" "0 < pl_wg waiting" "pl_errs waiting < pl_cap waiting" by (simp_all add: waiting_def run_simps)
  with shutdown_progress [OF reach_waiting, of 2 False] show ?thesis by simp
qed

text \<open>
  \<open>Resize\<close> to fewer workers after \<open>Shutdown\<close> panics: it sends a quit signal on the channel that
  \<open>Shutdown\<close> has closed.
\<close>

lemma resize_after_shutdown_panics: "\<exists>s. pool_reachable reads True 1 s \<and> pl_panicked s"
proof -
  let ?q = "\<lambda>ps. (pool_at True [] 0 0 ps)\<lparr>pl_quitClosed := True\<rparr>"
  have 1: "pool_reachable reads True 1 (pool_at True [] 0 0 [WIdle, ShWait])"
    using run_shutdown [OF run_start, of reads True] by simp
  have 2: "pool_reachable reads True 1 (pool_at True [] 0 0 [WIdle, ShQuit])"
    by (rule reach_to [OF 1 pool_step.sh_wait [of 1]]) (simp_all add: run_simps)
  have 3: "pool_reachable reads True 1 (?q [WIdle, ShErr])"
    by (rule reach_to [OF 2 pool_step.sh_quit [of 1]]) (simp_all add: run_simps close_quit_def)
  have 4: "pool_reachable reads True 1 (?q [WIdle, ShErr, RszStart 0])"
    by (rule reach_to [OF 3 pool_step.call_resize [of _ _ _ 0]]) (simp_all add: run_simps)
  have 5: "pool_reachable reads True 1 (?q [WIdle, ShErr, RszQuit (Suc 0)]\<lparr>pl_workers := 0\<rparr>)"
    by (rule reach_to [OF 4 pool_step.rsz_start [of 2 0]]) (simp_all add: run_simps Resize_def Let_def)
  have "pool_step reads True (?q [WIdle, ShErr, RszQuit (Suc 0)]\<lparr>pl_workers := 0\<rparr>)
    (panic (?q [WIdle, ShErr, RszQuit (Suc 0)]\<lparr>pl_workers := 0\<rparr>))"
    by (rule pool_step.rsz_panic [of 2 0]) (simp_all add: run_simps)
  from pool_reachable.step [OF 5 this] show ?thesis by (auto simp: panic_def)
qed

end
