(* ===== verification/Trigger.thy ===== *)
theory Trigger
  imports HyperCache
begin

text \<open>
  The expiration trigger of \<open>hypercache_expiration.go\<close> with its interleavings. \<open>HyperCache\<close> has
  \<open>execTriggerExpiration\<close> and \<open>handleExpirationSelect\<close> as single steps; here the callers of
  \<open>TriggerExpiration\<close> and the background loop move through their atomic actions on the pending flag and
  the trigger channel (no debounce interval, which is the default).
\<close>

section \<open>State and steps\<close>

text \<open>Where a caller and the background loop are.\<close>

datatype caller = TSwap | TSend | TDone

datatype looper = HSelect | HLoop | HStore | HDrain

record TriggerState =
  tg_ch :: nat
  tg_cap :: nat
  tg_pending :: bool
  tg_loop :: looper
  tg_callers :: "caller list"
  tg_passes :: nat

definition tg_init :: "nat \<Rightarrow> TriggerState" where
  "tg_init cap = \<lparr>tg_ch = 0, tg_cap = cap, tg_pending = False, tg_loop = HSelect, tg_callers = [], tg_passes = 0\<rparr>"

definition swap_pending :: "nat \<Rightarrow> TriggerState \<Rightarrow> TriggerState" where
  "swap_pending i s = s\<lparr>tg_pending := True, tg_callers := (tg_callers s)[i := if tg_pending s then TDone else TSend]\<rparr>"

definition try_send :: "nat \<Rightarrow> TriggerState \<Rightarrow> TriggerState" where
  "try_send i s = s\<lparr>tg_ch := (if tg_ch s < tg_cap s then tg_ch s + 1 else tg_ch s), tg_callers := (tg_callers s)[i := TDone]\<rparr>"

inductive tg_step :: "TriggerState \<Rightarrow> TriggerState \<Rightarrow> bool" where
  call: "tg_step s (s\<lparr>tg_callers := tg_callers s @ [TSwap]\<rparr>)"
| swap: "i < length (tg_callers s) \<Longrightarrow> tg_callers s ! i = TSwap \<Longrightarrow> tg_step s (swap_pending i s)"
| send: "i < length (tg_callers s) \<Longrightarrow> tg_callers s ! i = TSend \<Longrightarrow> tg_step s (try_send i s)"
| recv: "tg_loop s = HSelect \<Longrightarrow> tg_ch s = Suc c \<Longrightarrow> tg_step s (s\<lparr>tg_ch := c, tg_loop := HLoop\<rparr>)"
| pass: "tg_loop s = HLoop \<Longrightarrow> tg_step s (s\<lparr>tg_passes := tg_passes s + 1, tg_loop := HStore\<rparr>)"
| clear: "tg_loop s = HStore \<Longrightarrow> tg_step s (s\<lparr>tg_pending := False, tg_loop := HDrain\<rparr>)"
| drain: "tg_loop s = HDrain \<Longrightarrow> tg_ch s = Suc c \<Longrightarrow> tg_step s (s\<lparr>tg_ch := c\<rparr>)"
| drained: "tg_loop s = HDrain \<Longrightarrow> tg_ch s = 0 \<Longrightarrow> tg_step s (s\<lparr>tg_loop := HSelect\<rparr>)"

section \<open>The lost trigger\<close>

text \<open>The flag says that a trigger is on its way, and none is.\<close>

definition lost :: "TriggerState \<Rightarrow> bool" where
  "lost s \<longleftrightarrow> tg_pending s \<and> tg_ch s = 0 \<and> tg_loop s = HSelect \<and> TSend \<notin> set (tg_callers s)"

lemma lost_step:
  assumes "lost s" "tg_step s s'"
  shows "lost s' \<and> tg_passes s' = tg_passes s"
  using assms(2)
proof cases
  case (swap i)
  have "set ((tg_callers s)[i := TDone]) \<subseteq> insert TDone (set (tg_callers s))" by (rule set_update_subset_insert)
  with swap assms(1) show ?thesis by (auto simp: lost_def swap_pending_def)
next
  case (send i)
  then show ?thesis using assms(1) nth_mem by (fastforce simp: lost_def)
qed (use assms(1) in \<open>auto simp: lost_def\<close>)

lemma lost_forever: "tg_step\<^sup>*\<^sup>* s s' \<Longrightarrow> lost s \<Longrightarrow> lost s' \<and> tg_passes s' = tg_passes s"
  by (induction rule: rtranclp_induct) (use lost_step in fastforce)+

abbreviation run_state :: "nat \<Rightarrow> nat \<Rightarrow> bool \<Rightarrow> looper \<Rightarrow> caller list \<Rightarrow> nat \<Rightarrow> TriggerState" where
  "run_state cap ch p l cs n \<equiv> \<lparr>tg_ch = ch, tg_cap = cap, tg_pending = p, tg_loop = l, tg_callers = cs, tg_passes = n\<rparr>"

lemma tg_step_to: "tg_step s t \<Longrightarrow> t = u \<Longrightarrow> tg_step s u"
  by simp

lemma reach_lost: "tg_step\<^sup>*\<^sup>* (tg_init (Suc m)) (run_state (Suc m) 0 True HSelect [TDone, TDone] 1)"
proof -
  let ?r = "run_state (Suc m)"
  have 1: "tg_step (tg_init (Suc m)) (?r 0 False HSelect [TSwap] 0)"
    by (rule tg_step_to [OF tg_step.call]) (simp add: tg_init_def)
  have 2: "tg_step (?r 0 False HSelect [TSwap] 0) (?r 0 True HSelect [TSend] 0)"
    by (rule tg_step_to [OF tg_step.swap [of 0]]) (simp_all add: swap_pending_def)
  have 3: "tg_step (?r 0 True HSelect [TSend] 0) (?r 1 True HSelect [TDone] 0)"
    by (rule tg_step_to [OF tg_step.send [of 0]]) (simp_all add: try_send_def)
  have 4: "tg_step (?r 1 True HSelect [TDone] 0) (?r 0 True HLoop [TDone] 0)"
    by (rule tg_step_to [OF tg_step.recv [of _ 0]]) simp_all
  have 5: "tg_step (?r 0 True HLoop [TDone] 0) (?r 0 True HStore [TDone] 1)"
    by (rule tg_step_to [OF tg_step.pass]) simp_all
  have 6: "tg_step (?r 0 True HStore [TDone] 1) (?r 0 False HDrain [TDone] 1)"
    by (rule tg_step_to [OF tg_step.clear]) simp_all
  have 7: "tg_step (?r 0 False HDrain [TDone] 1) (?r 0 False HDrain [TDone, TSwap] 1)"
    by (rule tg_step_to [OF tg_step.call]) simp_all
  have 8: "tg_step (?r 0 False HDrain [TDone, TSwap] 1) (?r 0 True HDrain [TDone, TSend] 1)"
    by (rule tg_step_to [OF tg_step.swap [of 1]]) (simp_all add: swap_pending_def)
  have 9: "tg_step (?r 0 True HDrain [TDone, TSend] 1) (?r 1 True HDrain [TDone, TDone] 1)"
    by (rule tg_step_to [OF tg_step.send [of 1]]) (simp_all add: try_send_def)
  have 10: "tg_step (?r 1 True HDrain [TDone, TDone] 1) (?r 0 True HDrain [TDone, TDone] 1)"
    by (rule tg_step_to [OF tg_step.drain [of _ 0]]) simp_all
  have 11: "tg_step (?r 0 True HDrain [TDone, TDone] 1) (?r 0 True HSelect [TDone, TDone] 1)"
    by (rule tg_step_to [OF tg_step.drained]) simp_all
  show ?thesis using 1 2 3 4 5 6 7 8 9 10 11 by (meson rtranclp.rtrancl_into_rtrancl rtranclp.rtrancl_refl)
qed

text \<open>
  The expiration trigger can be lost for good. With any channel capacity, a trigger that arrives
  between clearing the pending flag and draining the channel is drained while it has set the flag
  again; from there on the flag stays set, the channel stays empty, and no later call of
  \<open>TriggerExpiration\<close> ever causes a pass.
\<close>

lemma expiration_trigger_lost:
  "\<exists>s. tg_step\<^sup>*\<^sup>* (tg_init (Suc m)) s \<and> (\<forall>s'. tg_step\<^sup>*\<^sup>* s s' \<longrightarrow> tg_pending s' \<and> tg_ch s' = 0 \<and> tg_passes s' = tg_passes s)"
proof -
  have "lost (run_state (Suc m) 0 True HSelect [TDone, TDone] 1)" by (simp add: lost_def)
  with reach_lost lost_forever show ?thesis unfolding lost_def by blast
qed

lemma expiration_trigger_lost_example:
  "\<exists>s. tg_step\<^sup>*\<^sup>* (tg_init 3) s \<and> (\<forall>s'. tg_step\<^sup>*\<^sup>* s s' \<longrightarrow> tg_pending s' \<and> tg_ch s' = 0 \<and> tg_passes s' = tg_passes s)"
  using expiration_trigger_lost [of 2] by (simp add: numeral_3_eq_3 numeral_2_eq_2)

end
