(* ===== verification/DistCore.thy ===== *)
theory DistCore
  imports Membership
begin

text \<open>
  \<open>pkg/backend/dist_memory.go\<close>: the state of one node of the distributed backend and the operations
  that stay on it: shards, tombstones, ownership and the order on versions. A shard's \<open>ConcurrentMap\<close>
  is represented by the map it refines (theory \<open>CMap\<close>); the membership carries the ring, as
  \<open>NewDistMemory\<close> always sets both. Metrics, tracing and logging are left out.
\<close>

section \<open>State\<close>

record tombstone =
  tb_version :: "64 word"
  tb_origin :: string
  tb_at :: int

record distShard =
  ds_items :: "(string, Item) gomap"
  ds_tombs :: "(string, tombstone) gomap"
  originalPrimary :: "(string, string) gomap"
  originalOwners :: "(string, string list) gomap"
  removedAt :: "(string, int) gomap"

datatype ConsistencyLevel = ConsistencyOne | ConsistencyQuorum | ConsistencyAll

datatype hintSource = hintSourceReplication | hintSourceMigration

record hintedEntry =
  he_item :: Item
  he_queuedAt :: int
  he_expire :: int
  he_size :: int
  he_source :: hintSource

record repairQueue =
  rq_maxBatchSize :: int
  rq_entries :: "(string, (string, Item) gomap) gomap"

text \<open>The settings that no operation changes after construction.\<close>

record DistConfig =
  nodeID :: string
  nodeAddr :: string
  seeds :: "string list"
  cfg_replication :: int
  cfg_virtualNodes :: int
  hbInterval :: int
  hbSuspectAfter :: int
  hbDeadAfter :: int
  hbSampleSize :: int
  indirectProbeK :: int
  indirectProbeTimeout :: int
  hintReplayInt :: int
  gossipInterval :: int
  merkleChunkSize :: int
  listKeysMax :: int
  autoSyncInterval :: int
  autoSyncPeersPerInterval :: int
  autoSyncMaxBackoffFactor :: int
  tombstoneSweepInt :: int
  rebalanceInterval :: int
  rebalanceBatchSize :: int
  rebalanceMaxConcurrent :: int
  repairBatchInterval :: int
  repairBatchSize :: int

record DistMemory =
  dm_shards :: "distShard list"
  shardCount :: int
  dm_capacity :: int
  localID :: string
  dm_membership :: Membership
  dm_transport :: bool
  dm_repairQueue :: "repairQueue option"
  readConsistency :: ConsistencyLevel
  writeConsistency :: ConsistencyLevel
  versionCounter :: "64 word"
  hintTTL :: int
  hintMaxPerNode :: int
  hintMaxTotal :: int
  hintMaxBytes :: int
  hints :: "(string, hintedEntry list) gomap"
  hintTotal :: int
  hintBytes :: int
  parallelReads :: bool
  tombVersionCounter :: "64 word"
  tombstoneTTL :: int
  removalGracePeriod :: int
  replicaDiffMaxPerTick :: int
  autoSyncBackoffFactor :: int
  draining :: bool
  dm_cfg :: DistConfig

section \<open>Shards\<close>

text \<open>The 32-bit FNV-1a hash of \<open>hash/fnv\<close>.\<close>

definition fnv32a :: "string \<Rightarrow> 32 word" where
  "fnv32a key = fold (\<lambda>c h. xor h (of_char c) * 16777619) key 2166136261"

definition hashKey :: "DistMemory \<Rightarrow> string \<Rightarrow> nat" where
  "hashKey dm key = nat (uint (fnv32a key) mod shardCount dm)"

definition dm_shardFor :: "DistMemory \<Rightarrow> string \<Rightarrow> distShard" where
  "dm_shardFor dm key = dm_shards dm ! hashKey dm key"

definition put_shard :: "DistMemory \<Rightarrow> string \<Rightarrow> distShard \<Rightarrow> DistMemory" where
  "put_shard dm key sh = dm\<lparr>dm_shards := (dm_shards dm)[hashKey dm key := sh]\<rparr>"

definition empty_shard :: distShard where
  "empty_shard = \<lparr>ds_items = [], ds_tombs = [], originalPrimary = [], originalOwners = [], removedAt = []\<rparr>"

definition defaultDistShardCount :: int where
  "defaultDistShardCount = 8"

definition ensureShardConfig :: "DistMemory \<Rightarrow> DistMemory" where
  "ensureShardConfig dm =
     (let n = (if shardCount dm \<le> 0 then defaultDistShardCount else shardCount dm) in
      dm\<lparr>shardCount := n, dm_shards := dm_shards dm @ replicate (nat n - length (dm_shards dm)) empty_shard\<rparr>)"

definition local_get :: "DistMemory \<Rightarrow> string \<Rightarrow> Item option" where
  "local_get dm key = map_of (ds_items (dm_shardFor dm key)) key"

definition local_tomb :: "DistMemory \<Rightarrow> string \<Rightarrow> tombstone option" where
  "local_tomb dm key = map_of (ds_tombs (dm_shardFor dm key)) key"

section \<open>Local operations\<close>

definition DistMemory_SetCapacity :: "DistMemory \<Rightarrow> int \<Rightarrow> DistMemory" where
  "DistMemory_SetCapacity dm c = (if c \<ge> 0 then dm\<lparr>dm_capacity := c\<rparr> else dm)"

definition DistMemory_Count :: "DistMemory \<Rightarrow> nat" where
  "DistMemory_Count dm = sum_list (map (\<lambda>s. length (ds_items s)) (dm_shards dm))"

definition DistMemory_List :: "DistMemory \<Rightarrow> Item list" where
  "DistMemory_List dm = concat (map (\<lambda>s. map snd (ds_items s)) (dm_shards dm))"

definition DistMemory_Clear :: "bool \<Rightarrow> DistMemory \<Rightarrow> DistMemory \<times> sentinel option" where
  "DistMemory_Clear ctx dm =
     (dm\<lparr>dm_shards := map (\<lambda>s. s\<lparr>ds_items := []\<rparr>) (dm_shards dm)\<rparr>, if ctx then Some ErrTimeoutOrCanceled else None)"

definition LocalContains :: "DistMemory \<Rightarrow> string \<Rightarrow> bool" where
  "LocalContains dm key \<longleftrightarrow> local_get dm key \<noteq> None"

definition DistMemory_Touch :: "int \<Rightarrow> DistMemory \<Rightarrow> string \<Rightarrow> DistMemory \<times> bool" where
  "DistMemory_Touch now dm key = (case local_get dm key of
       None \<Rightarrow> (dm, False)
     | Some it \<Rightarrow> (let sh = dm_shardFor dm key in
         (put_shard dm key (sh\<lparr>ds_items := gm_set key (Item_Touch now it) (ds_items sh)\<rparr>), True)))"

definition DebugDropLocal :: "DistMemory \<Rightarrow> string \<Rightarrow> DistMemory" where
  "DebugDropLocal dm key = (let sh = dm_shardFor dm key in put_shard dm key (sh\<lparr>ds_items := gm_del key (ds_items sh)\<rparr>))"

definition DebugInject :: "DistMemory \<Rightarrow> Item \<Rightarrow> DistMemory" where
  "DebugInject dm it = (let sh = dm_shardFor dm (Key it) in
     put_shard dm (Key it) (sh\<lparr>ds_tombs := gm_del (Key it) (ds_tombs sh), ds_items := gm_set (Key it) it (ds_items sh)\<rparr>))"

definition Drain :: "DistMemory \<Rightarrow> DistMemory" where
  "Drain dm = dm\<lparr>draining := True\<rparr>"

definition countTombstones :: "DistMemory \<Rightarrow> nat" where
  "countTombstones dm = sum_list (map (\<lambda>s. length (ds_tombs s)) (dm_shards dm))"

definition compactTombstones :: "int \<Rightarrow> DistMemory \<Rightarrow> DistMemory \<times> nat" where
  "compactTombstones now dm =
     (if tombstoneTTL dm \<le> 0 then (dm, 0)
      else let keep = \<lambda>(k, ts). \<not> time_Sub now (tb_at ts) \<ge> tombstoneTTL dm;
               dm1 = dm\<lparr>dm_shards := map (\<lambda>s. s\<lparr>ds_tombs := filter keep (ds_tombs s)\<rparr>) (dm_shards dm)\<rparr>
           in (dm1, countTombstones dm - countTombstones dm1))"

section \<open>Ownership\<close>

definition lookupOwners :: "(string \<Rightarrow> 64 word) \<Rightarrow> DistMemory \<Rightarrow> string \<Rightarrow> string list" where
  "lookupOwners xxh dm key = Ring_Lookup xxh (mb_ring (dm_membership dm)) key"

definition ownsKeyInternal :: "(string \<Rightarrow> 64 word) \<Rightarrow> DistMemory \<Rightarrow> string \<Rightarrow> bool" where
  "ownsKeyInternal xxh dm key \<longleftrightarrow> (let owners = lookupOwners xxh dm key in localID dm \<in> set owners \<or> owners = [])"

definition requiredAcks :: "nat \<Rightarrow> ConsistencyLevel \<Rightarrow> nat" where
  "requiredAcks n lvl = (case lvl of ConsistencyAll \<Rightarrow> n | ConsistencyQuorum \<Rightarrow> n div 2 + 1 | ConsistencyOne \<Rightarrow> 1)"

definition recordOriginalPrimary :: "string list \<Rightarrow> distShard \<Rightarrow> string \<Rightarrow> distShard" where
  "recordOriginalPrimary owners sh key =
     (if map_of (originalPrimary sh) key \<noteq> None \<or> owners = [] then sh
      else let sh1 = sh\<lparr>originalPrimary := gm_set key (hd owners) (originalPrimary sh)\<rparr> in
        if map_of (originalOwners sh1) key = None then sh1\<lparr>originalOwners := gm_set key owners (originalOwners sh1)\<rparr> else sh1)"

section \<open>Versions\<close>

text \<open>Whether \<open>chooseNewer\<close> returns its second argument.\<close>

definition second_newer :: "Item \<Rightarrow> Item \<Rightarrow> bool" where
  "second_newer a b \<longleftrightarrow> Version b > Version a \<or> (\<not> Version a > Version b \<and> str_less (Origin b) (Origin a))"

fun chooseNewer :: "Item option \<Rightarrow> Item option \<Rightarrow> Item option" where
  "chooseNewer None b = b"
| "chooseNewer a None = a"
| "chooseNewer (Some a) (Some b) = Some (if second_newer a b then b else a)"

definition isHigherVersion :: "Item \<Rightarrow> Item \<Rightarrow> bool" where
  "isHigherVersion candidate existing \<longleftrightarrow>
     (if Version candidate > Version existing then True
      else if Version candidate < Version existing then False
      else str_less (Origin candidate) (Origin existing))"

section \<open>Shards hold their keys\<close>

definition shard_ok :: "distShard \<Rightarrow> bool" where
  "shard_ok s \<longleftrightarrow> gm_wf (ds_items s) \<and> gm_wf (ds_tombs s) \<and> (\<forall>(k, it) \<in> set (ds_items s). Key it = k)"

definition shards_ok :: "DistMemory \<Rightarrow> bool" where
  "shards_ok dm \<longleftrightarrow> 0 < shardCount dm \<and> length (dm_shards dm) = nat (shardCount dm) \<and>
     (\<forall>s \<in> set (dm_shards dm). shard_ok s)"

lemma hashKey_bound: "shards_ok dm \<Longrightarrow> hashKey dm key < length (dm_shards dm)"
  by (simp add: shards_ok_def hashKey_def)

lemma dm_shardFor_put [simp]:
  assumes "shards_ok dm"
  shows "dm_shardFor (put_shard dm key sh) key' = (if hashKey dm key = hashKey dm key' then sh else dm_shardFor dm key')"
  using hashKey_bound [OF assms] by (simp add: dm_shardFor_def put_shard_def hashKey_def nth_list_update)

lemma dm_shardFor_ok: "shards_ok dm \<Longrightarrow> shard_ok (dm_shardFor dm key)"
  using hashKey_bound [of dm key] by (simp add: shards_ok_def dm_shardFor_def)

lemma shards_ok_put [simp]:
  assumes "shards_ok dm" "shard_ok sh"
  shows "shards_ok (put_shard dm key sh)"
  using assms set_update_subset_insert [of "dm_shards dm" "hashKey dm key" sh] by (fastforce simp: shards_ok_def put_shard_def)

lemma ensureShardConfig_ok:
  assumes "dm_shards dm = []"
  shows "shards_ok (ensureShardConfig dm)" "DistMemory_List (ensureShardConfig dm) = []"
  using assms by (auto simp: shards_ok_def shard_ok_def ensureShardConfig_def empty_shard_def Let_def defaultDistShardCount_def DistMemory_List_def)

lemma recordOriginalPrimary_items [simp]:
  "ds_items (recordOriginalPrimary owners sh key) = ds_items sh" "ds_tombs (recordOriginalPrimary owners sh key) = ds_tombs sh"
  by (simp_all add: recordOriginalPrimary_def Let_def)

lemma shard_ok_set [simp]:
  assumes "shard_ok sh" "Key it = key"
  shows "shard_ok (sh\<lparr>ds_items := gm_set key it (ds_items sh)\<rparr>)"
  using assms set_gm_set_sub [of key it "ds_items sh"] by (auto simp: shard_ok_def)

lemma shard_ok_bookkeeping [simp]: "shard_ok (recordOriginalPrimary owners sh key) = shard_ok sh"
  by (simp add: shard_ok_def)

lemma local_get_key: "shards_ok dm \<Longrightarrow> local_get dm key = Some it \<Longrightarrow> Key it = key"
  using dm_shardFor_ok [of dm key] by (auto simp: local_get_def shard_ok_def dest!: map_of_SomeD)

lemma put_shard_same [simp]:
  "localID (put_shard dm key sh) = localID dm" "dm_membership (put_shard dm key sh) = dm_membership dm"
  "dm_transport (put_shard dm key sh) = dm_transport dm" "hints (put_shard dm key sh) = hints dm"
  "shardCount (put_shard dm key sh) = shardCount dm"
  by (simp_all add: put_shard_def)

section \<open>Owner lists\<close>

lemma in_set_tl: "x \<in> set (tl xs) \<Longrightarrow> x \<in> set xs"
  by (cases xs) simp_all

lemma distinct_Lookup [simp]: "distinct (Ring_Lookup xxh r key)"
  by (simp add: Ring_Lookup_def Let_def lookup_loop_walk)

lemma distinct_owners [simp]: "distinct (lookupOwners xxh dm key)"
  by (simp add: lookupOwners_def)

lemma lookupOwners_put [simp]: "lookupOwners xxh (put_shard dm k sh) key = lookupOwners xxh dm key"
  by (simp add: lookupOwners_def)

text \<open>Two groups of owners that both reach a quorum share an owner.\<close>

lemma quorums_meet:
  assumes "A \<subseteq> set owners" "B \<subseteq> set owners" "distinct owners"
    and "requiredAcks (length owners) ConsistencyQuorum \<le> card A" "requiredAcks (length owners) ConsistencyQuorum \<le> card B"
  shows "A \<inter> B \<noteq> {}"
proof
  assume "A \<inter> B = {}"
  then have "card A + card B = card (A \<union> B)"
    using assms(1,2) by (metis List.finite_set card_Un_disjoint finite_subset)
  also have "\<dots> \<le> length owners"
    using assms(1,2) by (metis List.finite_set Un_least card_length card_mono le_trans)
  finally show False using assms(4,5) by (simp add: requiredAcks_def)
qed

section \<open>The order on versions\<close>

text \<open>
  What a merge by versions relies on: \<open>newer a b\<close>, that \<open>b\<close> supersedes \<open>a\<close>, is a strict weak order.
  Merging keeps a maximal element whatever the order in which the copies arrive.
\<close>

locale version_order =
  fixes newer :: "'a \<Rightarrow> 'a \<Rightarrow> bool"
  assumes newer_irrefl: "\<not> newer a a"
    and newer_trans: "newer a b \<Longrightarrow> newer b c \<Longrightarrow> newer a c"
    and newer_neg_trans: "\<not> newer a b \<Longrightarrow> \<not> newer b c \<Longrightarrow> \<not> newer a c"
begin

primrec merge :: "'a option \<Rightarrow> 'a option \<Rightarrow> 'a option" where
  "merge a None = a"
| "merge a (Some b) = (case a of None \<Rightarrow> Some b | Some x \<Rightarrow> Some (if newer x b then b else x))"

lemma newer_asym: "newer a b \<Longrightarrow> \<not> newer b a"
  using newer_trans newer_irrefl by blast

lemma merge_upper:
  assumes "merge a b = Some m"
  shows "(\<forall>x. a = Some x \<longrightarrow> \<not> newer m x) \<and> (\<forall>y. b = Some y \<longrightarrow> \<not> newer m y) \<and> (a = Some m \<or> b = Some m)"
  using assms by (cases a; cases b) (auto simp: newer_irrefl dest: newer_asym split: if_splits)

lemma foldl_merge_upper:
  "foldl merge a xs = Some m \<Longrightarrow> (\<forall>x. a = Some x \<or> Some x \<in> set xs \<longrightarrow> \<not> newer m x) \<and> (a = Some m \<or> Some m \<in> set xs)"
proof (induction xs arbitrary: a)
  case Nil
  then show ?case by (simp add: newer_irrefl)
next
  case (Cons b xs)
  from Cons.IH [of "merge a b"] Cons.prems
  have up: "\<And>x. merge a b = Some x \<or> Some x \<in> set xs \<Longrightarrow> \<not> newer m x" and mem: "merge a b = Some m \<or> Some m \<in> set xs"
    by auto
  have "\<not> newer m x" if "a = Some x \<or> b = Some x" for x
  proof -
    obtain y where y: "merge a b = Some y" using \<open>a = Some x \<or> b = Some x\<close> by (cases a; cases b) simp_all
    then show ?thesis using up [of y] merge_upper [OF y] \<open>a = Some x \<or> b = Some x\<close> newer_neg_trans by blast
  qed
  then show ?case using up mem merge_upper [of a b m] by auto
qed

lemma foldl_merge_order_irrelevant:
  assumes "set xs = set ys" "foldl merge None xs = Some m" "foldl merge None ys = Some m'"
  shows "\<not> newer m m' \<and> \<not> newer m' m"
  using foldl_merge_upper [OF assms(2)] foldl_merge_upper [OF assms(3)] assms(1) by simp

end

interpretation versions: version_order second_newer
  by unfold_locales (auto simp: second_newer_def str_less_irrefl intro: str_less_trans dest: str_less_neg_trans)

lemma chooseNewer_merge: "chooseNewer a b = versions.merge a b"
  by (cases a; cases b) auto

lemma isHigherVersion_newer: "isHigherVersion c e \<longleftrightarrow> second_newer e c"
  by (auto simp: isHigherVersion_def second_newer_def)

text \<open>Neither of two copies supersedes the other exactly when they carry the same version and origin.\<close>

lemma version_ties: "\<not> second_newer a b \<and> \<not> second_newer b a \<longleftrightarrow> Version a = Version b \<and> Origin a = Origin b"
  using str_less_total [of "Origin a" "Origin b"] by (auto simp: second_newer_def str_less_irrefl)

lemma not_second_newer_version: "\<not> second_newer a b \<Longrightarrow> Version b \<le> Version a"
  by (auto simp: second_newer_def)

end
