(* ===== verification/DistHints.thy ===== *)
theory DistHints
  imports DistCore
begin

text \<open>
  The hint queue of \<open>pkg/backend/dist_memory.go\<close>: writes that could not reach an owner wait here for a
  replay. The queue is bounded per node and, through two running totals, over all nodes. The
  third-party JSON encoder is the parameter \<open>jsonLen\<close>, the length of an encoding if there is one.
\<close>

section \<open>Hinted handoff\<close>

definition approxHintSize :: "(gval \<Rightarrow> nat option) \<Rightarrow> Item \<Rightarrow> int" where
  "approxHintSize jsonLen item = int (length (Key item)) + (case Val item of
       GString s \<Rightarrow> int (length s)
     | GBytes bs \<Rightarrow> int (length bs)
     | v \<Rightarrow> (case jsonLen v of None \<Rightarrow> 0 | Some n \<Rightarrow> int n))"

definition adjustHintAccounting :: "int \<Rightarrow> int \<Rightarrow> DistMemory \<Rightarrow> DistMemory" where
  "adjustHintAccounting countDelta bytesDelta dm =
     dm\<lparr>hintTotal := max 0 (hintTotal dm + countDelta), hintBytes := max 0 (hintBytes dm + bytesDelta)\<rparr>"

definition hint_queue :: "DistMemory \<Rightarrow> string \<Rightarrow> hintedEntry list" where
  "hint_queue dm nid = (case map_of (hints dm) nid of None \<Rightarrow> [] | Some q \<Rightarrow> q)"

text \<open>
  A full queue of one node loses its oldest entry; when a global cap then rejects the new entry, the
  shortened queue is not written back.
\<close>

definition queueHint :: "(gval \<Rightarrow> nat option) \<Rightarrow> int \<Rightarrow> DistMemory \<Rightarrow> string \<Rightarrow> Item \<Rightarrow> hintSource \<Rightarrow> DistMemory" where
  "queueHint jsonLen now dm nid item source =
     (if hintTTL dm \<le> 0 then dm
      else let size = approxHintSize jsonLen item;
               queue = hint_queue dm nid;
               full = (hintMaxPerNode dm > 0 \<and> int (length queue) \<ge> hintMaxPerNode dm);
               dm1 = (if full then adjustHintAccounting (- 1) (- he_size (hd queue)) dm else dm);
               queue1 = (if full then tl queue else queue)
           in if (hintMaxTotal dm1 > 0 \<and> hintTotal dm1 \<ge> hintMaxTotal dm1) \<or> (hintMaxBytes dm1 > 0 \<and> hintBytes dm1 + size > hintMaxBytes dm1)
              then dm1
              else adjustHintAccounting 1 size
                (dm1\<lparr>hints := gm_set nid (queue1 @ [\<lparr>he_item = item, he_queuedAt = now, he_expire = now + hintTTL dm1,
                   he_size = size, he_source = source\<rparr>]) (hints dm1)\<rparr>))"

section \<open>Accounting\<close>

definition stored_count :: "(string, hintedEntry list) gomap \<Rightarrow> int" where
  "stored_count h = sum_list (map (\<lambda>(_, q). int (length q)) h)"

definition stored_bytes :: "(string, hintedEntry list) gomap \<Rightarrow> int" where
  "stored_bytes h = sum_list (map (\<lambda>(_, q). sum_list (map he_size q)) h)"

definition queue_ok :: "int \<Rightarrow> hintedEntry list \<Rightarrow> bool" where
  "queue_ok maxPerNode q \<longleftrightarrow> (\<forall>e \<in> set q. 0 \<le> he_size e) \<and> (maxPerNode > 0 \<longrightarrow> int (length q) \<le> maxPerNode)"

definition hints_ok :: "DistMemory \<Rightarrow> bool" where
  "hints_ok dm \<longleftrightarrow> gm_wf (hints dm) \<and> (\<forall>(_, q) \<in> set (hints dm). queue_ok (hintMaxPerNode dm) q)"

definition hints_exact :: "DistMemory \<Rightarrow> bool" where
  "hints_exact dm \<longleftrightarrow> hintTotal dm = stored_count (hints dm) \<and> hintBytes dm = stored_bytes (hints dm)"

text \<open>Whether the queue of the node is full, and whether a global cap rejects a new entry in a state.\<close>

definition hint_full :: "DistMemory \<Rightarrow> string \<Rightarrow> bool" where
  "hint_full dm nid \<longleftrightarrow> hintMaxPerNode dm > 0 \<and> int (length (hint_queue dm nid)) \<ge> hintMaxPerNode dm"

definition hint_capped :: "DistMemory \<Rightarrow> int \<Rightarrow> bool" where
  "hint_capped dm sz \<longleftrightarrow> (hintMaxTotal dm > 0 \<and> hintTotal dm \<ge> hintMaxTotal dm) \<or> (hintMaxBytes dm > 0 \<and> hintBytes dm + sz > hintMaxBytes dm)"

definition after_drop :: "DistMemory \<Rightarrow> string \<Rightarrow> DistMemory" where
  "after_drop dm nid = (if hint_full dm nid then adjustHintAccounting (- 1) (- he_size (hd (hint_queue dm nid))) dm else dm)"

lemma sum_gm_set:
  fixes f :: "'a \<times> 'b \<Rightarrow> int"
  assumes "gm_wf m"
  shows "sum_list (map f (gm_set k v m)) = sum_list (map f m) + f (k, v) - (case map_of m k of None \<Rightarrow> 0 | Some u \<Rightarrow> f (k, u))"
  using assms by (induction m) (auto split: option.split)

lemma sum_gm_del:
  fixes f :: "'a \<times> 'b \<Rightarrow> int"
  assumes "gm_wf m"
  shows "sum_list (map f (gm_del k m)) = sum_list (map f m) - (case map_of m k of None \<Rightarrow> 0 | Some u \<Rightarrow> f (k, u))"
  using assms by (induction m) (auto simp: gm_del_absent map_of_eq_None_iff dest: map_of_SomeD split: option.split)

lemma stored_set:
  assumes "gm_wf h"
  shows "stored_count (gm_set nid q h) = stored_count h + int (length q) - int (length (case map_of h nid of None \<Rightarrow> [] | Some q' \<Rightarrow> q'))"
    and "stored_bytes (gm_set nid q h) = stored_bytes h + sum_list (map he_size q) - sum_list (map he_size (case map_of h nid of None \<Rightarrow> [] | Some q' \<Rightarrow> q'))"
  using assms by (simp_all add: stored_count_def stored_bytes_def sum_gm_set split: option.split)

lemma stored_del:
  assumes "gm_wf h" "map_of h nid = Some q"
  shows "stored_count (gm_del nid h) = stored_count h - int (length q)" "stored_bytes (gm_del nid h) = stored_bytes h - sum_list (map he_size q)"
  using assms by (simp_all add: stored_count_def stored_bytes_def sum_gm_del)

lemma stored_ge_queue:
  assumes "gm_wf h" "map_of h nid = Some q" "\<forall>(_, q) \<in> set h. queue_ok maxPerNode q"
  shows "int (length q) \<le> stored_count h" "sum_list (map he_size q) \<le> stored_bytes h"
proof -
  have "0 \<le> stored_count (gm_del nid h)" unfolding stored_count_def by (intro sum_list_nonneg) auto
  moreover have "0 \<le> stored_bytes (gm_del nid h)"
    unfolding stored_bytes_def using assms(3) by (intro sum_list_nonneg) (fastforce simp: set_gm_del queue_ok_def intro!: sum_list_nonneg)
  ultimately show "int (length q) \<le> stored_count h" "sum_list (map he_size q) \<le> stored_bytes h"
    using stored_del [OF assms(1,2)] by simp_all
qed

lemma adjust_same [simp]:
  "hints (adjustHintAccounting c b dm) = hints dm" "hintMaxPerNode (adjustHintAccounting c b dm) = hintMaxPerNode dm"
  "hintTTL (adjustHintAccounting c b dm) = hintTTL dm" "hint_queue (adjustHintAccounting c b dm) nid = hint_queue dm nid"
  by (simp_all add: adjustHintAccounting_def hint_queue_def)

lemma approxHintSize_nonneg [simp]: "0 \<le> approxHintSize jsonLen item"
  by (auto simp: approxHintSize_def split: gval.split option.split)

text \<open>The two outcomes of queueing: rejected, with the queues untouched, or appended.\<close>

lemma queueHint_cases:
  assumes "0 < hintTTL dm"
  shows "queueHint jsonLen now dm nid item src =
    (if hint_capped (after_drop dm nid) (approxHintSize jsonLen item) then after_drop dm nid
     else adjustHintAccounting 1 (approxHintSize jsonLen item) ((after_drop dm nid)\<lparr>hints :=
       gm_set nid ((if hint_full dm nid then tl (hint_queue dm nid) else hint_queue dm nid) @
         [\<lparr>he_item = item, he_queuedAt = now, he_expire = now + hintTTL dm, he_size = approxHintSize jsonLen item, he_source = src\<rparr>]) (hints dm)\<rparr>))"
  using assms by (simp add: queueHint_def hint_capped_def after_drop_def hint_full_def Let_def)

lemma after_drop_same [simp]:
  "hints (after_drop dm nid) = hints dm" "hintMaxPerNode (after_drop dm nid) = hintMaxPerNode dm"
  by (simp_all add: after_drop_def)

lemma hint_queue_ok:
  assumes "hints_ok dm"
  shows "queue_ok (hintMaxPerNode dm) (hint_queue dm nid)"
proof (cases "map_of (hints dm) nid")
  case None
  then show ?thesis by (simp add: hint_queue_def queue_ok_def)
next
  case (Some q)
  from map_of_SomeD [OF this] assms have "queue_ok (hintMaxPerNode dm) q" by (auto simp: hints_ok_def)
  with Some show ?thesis by (simp add: hint_queue_def)
qed

lemma queue_ok_append:
  assumes "queue_ok n q" "0 \<le> he_size e" "0 < n \<longrightarrow> int (length q) < n"
  shows "queue_ok n (q @ [e])"
  using assms by (auto simp: queue_ok_def)

lemma queue_ok_tl: "queue_ok n q \<Longrightarrow> queue_ok n (tl q)"
  by (cases q) (auto simp: queue_ok_def)

lemma hints_ok_set:
  assumes "hints_ok dm" "queue_ok (hintMaxPerNode dm) q"
  shows "gm_wf (gm_set nid q (hints dm))" "\<forall>(_, q) \<in> set (gm_set nid q (hints dm)). queue_ok (hintMaxPerNode dm) q"
  using assms set_gm_set_sub [of nid q "hints dm"] by (auto simp: hints_ok_def)

lemma queueHint_ok:
  assumes "hints_ok dm"
  shows "hints_ok (queueHint jsonLen now dm nid item src)"
proof (cases "0 < hintTTL dm \<and> \<not> hint_capped (after_drop dm nid) (approxHintSize jsonLen item)")
  case True
  note q = hint_queue_ok [OF assms, of nid]
  let ?e = "\<lparr>he_item = item, he_queuedAt = now, he_expire = now + hintTTL dm, he_size = approxHintSize jsonLen item, he_source = src\<rparr>"
  let ?q = "(if hint_full dm nid then tl (hint_queue dm nid) else hint_queue dm nid) @ [?e]"
  have "queue_ok (hintMaxPerNode dm) ?q"
  proof (cases "hint_full dm nid")
    case True
    then have "0 < hintMaxPerNode dm \<longrightarrow> int (length (tl (hint_queue dm nid))) < hintMaxPerNode dm"
      using q by (auto simp: hint_full_def queue_ok_def)
    with True show ?thesis by (simp add: queue_ok_append queue_ok_tl q)
  next
    case False
    then have "0 < hintMaxPerNode dm \<longrightarrow> int (length (hint_queue dm nid)) < hintMaxPerNode dm"
      by (auto simp: hint_full_def)
    with False show ?thesis by (simp add: queue_ok_append q)
  qed
  from hints_ok_set [OF assms this, of nid] True show ?thesis by (simp add: queueHint_cases hints_ok_def)
next
  case False
  then show ?thesis using assms
    by (cases "0 < hintTTL dm") (simp_all add: queueHint_cases hints_ok_def, simp add: queueHint_def)
qed

lemma after_drop_totals:
  assumes "hints_ok dm" "hints_exact dm" "hint_full dm nid"
  shows "hintTotal (after_drop dm nid) = stored_count (hints dm) - 1" "hintBytes (after_drop dm nid) = stored_bytes (hints dm) - he_size (hd (hint_queue dm nid))"
proof -
  obtain q where q: "map_of (hints dm) nid = Some q" "hint_queue dm nid = q" "q \<noteq> []"
    using assms(3) by (cases "map_of (hints dm) nid") (force simp: hint_full_def hint_queue_def)+
  note ge = stored_ge_queue [OF _ q(1), of "hintMaxPerNode dm"]
  have "0 \<le> sum_list (map he_size (tl q))"
    using queue_ok_tl [OF hint_queue_ok [OF assms(1), of nid]] q(2) by (intro sum_list_nonneg) (auto simp: queue_ok_def)
  moreover have "sum_list (map he_size q) = he_size (hd q) + sum_list (map he_size (tl q))" using q(3) by (cases q) simp_all
  moreover have "1 \<le> int (length q)" using q(3) by (cases q) simp_all
  ultimately show "hintTotal (after_drop dm nid) = stored_count (hints dm) - 1" "hintBytes (after_drop dm nid) = stored_bytes (hints dm) - he_size (hd (hint_queue dm nid))"
    using ge assms q(2) by (auto simp: after_drop_def adjustHintAccounting_def hints_exact_def hints_ok_def)
qed

lemma hint_queue_stored:
  "gm_wf (hints dm) \<Longrightarrow> stored_count (gm_set nid q (hints dm)) = stored_count (hints dm) + int (length q) - int (length (hint_queue dm nid))"
  "gm_wf (hints dm) \<Longrightarrow> stored_bytes (gm_set nid q (hints dm)) = stored_bytes (hints dm) + sum_list (map he_size q) - sum_list (map he_size (hint_queue dm nid))"
  by (simp_all add: stored_set hint_queue_def split: option.split)

lemma stored_nonneg:
  assumes "hints_ok dm"
  shows "0 \<le> stored_count (hints dm)" "0 \<le> stored_bytes (hints dm)"
  using assms unfolding stored_count_def stored_bytes_def hints_ok_def
  by (auto intro!: sum_list_nonneg) (fastforce simp: queue_ok_def)

text \<open>The totals stay exact unless a full queue lost an entry for a hint a global cap then rejected.\<close>

lemma queueHint_exact:
  assumes "hints_ok dm" "hints_exact dm" "\<not> (0 < hintTTL dm \<and> hint_full dm nid \<and> hint_capped (after_drop dm nid) (approxHintSize jsonLen item))"
  shows "hints_exact (queueHint jsonLen now dm nid item src)"
proof -
  consider "hintTTL dm \<le> 0" | "0 < hintTTL dm" "hint_capped (after_drop dm nid) (approxHintSize jsonLen item)" "\<not> hint_full dm nid"
    | "0 < hintTTL dm" "\<not> hint_capped (after_drop dm nid) (approxHintSize jsonLen item)"
    using assms(3) by linarith
  then show ?thesis
  proof cases
    case 1
    then show ?thesis using assms(2) by (simp add: queueHint_def)
  next
    case 2
    then show ?thesis using assms(2) by (simp add: queueHint_cases after_drop_def)
  next
    case 3
    have wf: "gm_wf (hints dm)" using assms(1) by (simp add: hints_ok_def)
    note nn = stored_nonneg [OF assms(1)] approxHintSize_nonneg [of jsonLen item]
    show ?thesis
    proof (cases "hint_full dm nid")
      case True
      note t = after_drop_totals [OF assms(1,2) True]
      obtain e q where q: "hint_queue dm nid = e # q" using True by (cases "hint_queue dm nid") (auto simp: hint_full_def)
      have "0 \<le> stored_bytes (hints dm) - he_size e" "0 \<le> stored_count (hints dm) - 1"
        using t q by (auto simp: after_drop_def adjustHintAccounting_def True hints_exact_def split: if_splits)
      with 3 True t q nn show ?thesis
        by (simp add: queueHint_cases hints_exact_def hint_queue_stored [OF wf] adjustHintAccounting_def)
    next
      case False
      with 3 nn assms(2) show ?thesis
        by (simp add: queueHint_cases hints_exact_def hint_queue_stored [OF wf] adjustHintAccounting_def after_drop_def)
    qed
  qed
qed

end
