(* ===== verification/DistOps.thy ===== *)
theory DistOps
  imports DistHints
begin

text \<open>
  The distributed operations of \<open>pkg/backend/dist_memory.go\<close>, the in-process transport of
  \<open>dist_transport.go\<close> and the read-repair queue of \<open>dist_read_repair.go\<close>. A world holds the backends of
  all nodes and the table of the transport, from which an unreachable node is missing; every node has
  its own membership and so its own view of the ring. An operation of a node is a function on the
  world, since it also changes the backends it forwards to. The third-party \<open>xxhash.Sum64\<close> is the
  parameter \<open>xxh\<close>. The random arrival order of parallel reads is a parameter of the read.
\<close>

section \<open>The world\<close>

record World =
  w_nodes :: "(string, DistMemory) gomap"
  w_backends :: "string list"

definition backend_of :: "World \<Rightarrow> string \<Rightarrow> DistMemory option" where
  "backend_of w nid = (if nid \<in> set (w_backends w) then map_of (w_nodes w) nid else None)"

definition put_node :: "World \<Rightarrow> string \<Rightarrow> DistMemory \<Rightarrow> World" where
  "put_node w nid dm = w\<lparr>w_nodes := gm_set nid dm (w_nodes w)\<rparr>"

definition Transport_Register :: "World \<Rightarrow> string \<Rightarrow> World" where
  "Transport_Register w nid = w\<lparr>w_backends := nid # filter (\<lambda>x. x \<noteq> nid) (w_backends w)\<rparr>"

definition Transport_Unregister :: "World \<Rightarrow> string \<Rightarrow> World" where
  "Transport_Unregister w nid = w\<lparr>w_backends := filter (\<lambda>x. x \<noteq> nid) (w_backends w)\<rparr>"

section \<open>Writes\<close>

text \<open>\<open>applySet\<close> without fan-out, on one backend, and its arrival over the transport.\<close>

definition applySet_local :: "(string \<Rightarrow> 64 word) \<Rightarrow> DistMemory \<Rightarrow> Item \<Rightarrow> DistMemory" where
  "applySet_local xxh dm item =
     (let key = Key item;
          sh = recordOriginalPrimary (lookupOwners xxh dm key) (dm_shardFor dm key) key
      in put_shard dm key (sh\<lparr>ds_items := gm_set key item (ds_items sh)\<rparr>))"

definition forward_replica_set :: "(string \<Rightarrow> 64 word) \<Rightarrow> World \<Rightarrow> string \<Rightarrow> Item \<Rightarrow> World \<times> sentinel option" where
  "forward_replica_set xxh w nid item = (case backend_of w nid of
       None \<Rightarrow> (w, Some ErrBackendNotFound)
     | Some b \<Rightarrow> if ownsKeyInternal xxh b (Key item) then (put_node w nid (applySet_local xxh b item), None) else (w, None))"

primrec fanout_set :: "(string \<Rightarrow> 64 word) \<Rightarrow> string \<Rightarrow> Item \<Rightarrow> string list \<Rightarrow> World \<Rightarrow> World" where
  "fanout_set xxh self item [] w = w"
| "fanout_set xxh self item (oid # oids) w =
     fanout_set xxh self item oids (if oid = self then w else fst (forward_replica_set xxh w oid item))"

definition applySet :: "(string \<Rightarrow> 64 word) \<Rightarrow> World \<Rightarrow> string \<Rightarrow> Item \<Rightarrow> bool \<Rightarrow> World" where
  "applySet xxh w nid item repl = (case map_of (w_nodes w) nid of
       None \<Rightarrow> w
     | Some dm \<Rightarrow>
         let w1 = put_node w nid (applySet_local xxh dm item);
             owners = lookupOwners xxh dm (Key item)
         in if \<not> repl \<or> length owners \<le> 1 \<or> \<not> dm_transport dm then w1
            else fanout_set xxh nid item (tl owners) w1)"

definition applyForwardedSet :: "(string \<Rightarrow> 64 word) \<Rightarrow> World \<Rightarrow> string \<Rightarrow> DistMemory \<Rightarrow> Item \<Rightarrow> bool \<Rightarrow> World" where
  "applyForwardedSet xxh w nid b item repl =
     (if \<not> ownsKeyInternal xxh b (Key item) then w else applySet xxh w nid item repl)"

definition ForwardSet :: "(string \<Rightarrow> 64 word) \<Rightarrow> World \<Rightarrow> string \<Rightarrow> Item \<Rightarrow> bool \<Rightarrow> World \<times> sentinel option" where
  "ForwardSet xxh w nid item repl = (case backend_of w nid of
       None \<Rightarrow> (w, Some ErrBackendNotFound)
     | Some b \<Rightarrow> (applyForwardedSet xxh w nid b item repl, None))"

text \<open>The loop of \<open>replicateTo\<close>: the number of acknowledgements, and a hint for every failure.\<close>

primrec replicateTo_loop :: "(string \<Rightarrow> 64 word) \<Rightarrow> (gval \<Rightarrow> nat option) \<Rightarrow> int \<Rightarrow> string \<Rightarrow> Item \<Rightarrow> string list
    \<Rightarrow> World \<Rightarrow> nat \<Rightarrow> World \<times> nat" where
  "replicateTo_loop xxh jsonLen now self item [] w acks = (w, acks)"
| "replicateTo_loop xxh jsonLen now self item (oid # oids) w acks =
     (if oid = self then replicateTo_loop xxh jsonLen now self item oids w acks
      else case ForwardSet xxh w oid item False of
        (w1, None) \<Rightarrow> replicateTo_loop xxh jsonLen now self item oids w1 (acks + 1)
      | (w1, Some _) \<Rightarrow> replicateTo_loop xxh jsonLen now self item oids
          (case map_of (w_nodes w1) self of
             None \<Rightarrow> w1 | Some dm \<Rightarrow> put_node w1 self (queueHint jsonLen now dm oid item hintSourceReplication)) acks)"

definition replicateTo :: "(string \<Rightarrow> 64 word) \<Rightarrow> (gval \<Rightarrow> nat option) \<Rightarrow> int \<Rightarrow> World \<Rightarrow> string \<Rightarrow> bool \<Rightarrow> Item \<Rightarrow> string list
    \<Rightarrow> World \<times> nat" where
  "replicateTo xxh jsonLen now w self transport item replicas =
     (if \<not> transport then (w, 0) else replicateTo_loop xxh jsonLen now self item replicas w 0)"

definition handleForwardPrimary :: "(string \<Rightarrow> 64 word) \<Rightarrow> World \<Rightarrow> string \<Rightarrow> DistMemory \<Rightarrow> string list \<Rightarrow> Item
    \<Rightarrow> World \<times> bool \<times> sentinel option" where
  "handleForwardPrimary xxh w self dm owners item =
     (if \<not> dm_transport dm then (w, False, Some ErrNotOwner)
      else case ForwardSet xxh w (hd owners) item True of
        (w1, None) \<Rightarrow> (w1, False, None)
      | (w1, Some e) \<Rightarrow>
          if self \<in> set (tl owners) \<and> ownsKeyInternal xxh dm (Key item) then (w1, True, None) else (w1, False, Some e))"

text \<open>The primary's part of \<open>setImpl\<close>: stamp, apply, replicate, count.\<close>

definition set_as_primary :: "(string \<Rightarrow> 64 word) \<Rightarrow> (gval \<Rightarrow> nat option) \<Rightarrow> int \<Rightarrow> World \<Rightarrow> string \<Rightarrow> DistMemory \<Rightarrow> string list
    \<Rightarrow> bool \<Rightarrow> Item \<Rightarrow> World \<times> sentinel option" where
  "set_as_primary xxh jsonLen now w self dm owners promoted item =
     (let v = versionCounter dm + 1;
          item1 = item\<lparr>Version := v, Origin := self, LastUpdated := now\<rparr>;
          w1 = put_node w self (dm\<lparr>versionCounter := v\<rparr>);
          w2 = applySet xxh w1 self item1 False;
          (w3, n) = replicateTo xxh jsonLen now w2 self (dm_transport dm) item1 (if promoted then owners else tl owners);
          acks = 1 + n
      in (w3, if acks < requiredAcks (length owners) (writeConsistency dm) then Some ErrQuorumFailed else None))"

definition setImpl :: "(string \<Rightarrow> 64 word) \<Rightarrow> (gval \<Rightarrow> nat option) \<Rightarrow> int \<Rightarrow> World \<Rightarrow> string \<Rightarrow> Item \<Rightarrow> World \<times> sentinel option" where
  "setImpl xxh jsonLen now w self item = (case map_of (w_nodes w) self of
       None \<Rightarrow> (w, Some ErrBackendNotFound)
     | Some dm \<Rightarrow>
         if draining dm then (w, Some ErrDraining)
         else let owners = lookupOwners xxh dm (Key item) in
           if owners = [] then (w, Some ErrNotOwner)
           else if hd owners = self then set_as_primary xxh jsonLen now w self dm owners False item
           else (case handleForwardPrimary xxh w self dm owners item of
               (w1, _, Some e) \<Rightarrow> (w1, Some e)
             | (w1, False, None) \<Rightarrow> (w1, None)
             | (w1, True, None) \<Rightarrow> set_as_primary xxh jsonLen now w1 self dm owners True item))"

definition DistMemory_Set :: "(string \<Rightarrow> 64 word) \<Rightarrow> (gval \<Rightarrow> nat option) \<Rightarrow> int \<Rightarrow> World \<Rightarrow> string \<Rightarrow> Item \<Rightarrow> World \<times> sentinel option" where
  "DistMemory_Set xxh jsonLen now w self item = (case Item_Valid item of
       (_, Some e) \<Rightarrow> (w, Some e)
     | (item1, None) \<Rightarrow> setImpl xxh jsonLen now w self item1)"

section \<open>Removals\<close>

text \<open>\<open>applyRemove\<close> without fan-out: the tombstone is one version ahead of the removed item.\<close>

definition applyRemove_local :: "int \<Rightarrow> DistMemory \<Rightarrow> string \<Rightarrow> DistMemory" where
  "applyRemove_local now dm key =
     (let sh = dm_shardFor dm key;
          nextVer = (case map_of (ds_items sh) key of None \<Rightarrow> 0 | Some it \<Rightarrow> Version it + 1);
          (dm1, ver) = (if nextVer = 0 then (dm\<lparr>tombVersionCounter := tombVersionCounter dm + 1\<rparr>, tombVersionCounter dm + 1) else (dm, nextVer))
      in put_shard dm1 key (sh\<lparr>ds_items := gm_del key (ds_items sh),
           ds_tombs := gm_set key \<lparr>tb_version = ver, tb_origin = localID dm, tb_at = now\<rparr> (ds_tombs sh)\<rparr>))"

definition forward_replica_remove :: "int \<Rightarrow> World \<Rightarrow> string \<Rightarrow> string \<Rightarrow> World \<times> sentinel option" where
  "forward_replica_remove now w nid key = (case backend_of w nid of
       None \<Rightarrow> (w, Some ErrBackendNotFound)
     | Some b \<Rightarrow> (put_node w nid (applyRemove_local now b key), None))"

primrec fanout_remove :: "int \<Rightarrow> string \<Rightarrow> string \<Rightarrow> string list \<Rightarrow> World \<Rightarrow> World" where
  "fanout_remove now self key [] w = w"
| "fanout_remove now self key (oid # oids) w =
     fanout_remove now self key oids (if oid = self then w else fst (forward_replica_remove now w oid key))"

definition applyRemove :: "(string \<Rightarrow> 64 word) \<Rightarrow> int \<Rightarrow> World \<Rightarrow> string \<Rightarrow> string \<Rightarrow> bool \<Rightarrow> World" where
  "applyRemove xxh now w nid key repl = (case map_of (w_nodes w) nid of
       None \<Rightarrow> w
     | Some dm \<Rightarrow>
         let w1 = put_node w nid (applyRemove_local now dm key);
             owners = lookupOwners xxh dm key
         in if \<not> repl \<or> \<not> dm_transport dm \<or> length owners \<le> 1 then w1
            else fanout_remove now nid key (tl owners) w1)"

definition ForwardRemove :: "(string \<Rightarrow> 64 word) \<Rightarrow> int \<Rightarrow> World \<Rightarrow> string \<Rightarrow> string \<Rightarrow> bool \<Rightarrow> World \<times> sentinel option" where
  "ForwardRemove xxh now w nid key repl = (case backend_of w nid of
       None \<Rightarrow> (w, Some ErrBackendNotFound)
     | Some _ \<Rightarrow> (applyRemove xxh now w nid key repl, None))"

definition forwardOrPromoteRemove :: "(string \<Rightarrow> 64 word) \<Rightarrow> int \<Rightarrow> World \<Rightarrow> string \<Rightarrow> DistMemory \<Rightarrow> string \<Rightarrow> string list
    \<Rightarrow> World \<times> sentinel option" where
  "forwardOrPromoteRemove xxh now w self dm key owners = (case ForwardRemove xxh now w (hd owners) key True of
       (w1, None) \<Rightarrow> (w1, None)
     | (w1, Some e) \<Rightarrow>
         if self \<in> set (tl owners) \<and> ownsKeyInternal xxh dm key then (applyRemove xxh now w1 self key True, None) else (w1, Some e))"

primrec dist_remove_loop :: "(string \<Rightarrow> 64 word) \<Rightarrow> int \<Rightarrow> string \<Rightarrow> string list \<Rightarrow> World \<Rightarrow> World \<times> sentinel option" where
  "dist_remove_loop xxh now self [] w = (w, None)"
| "dist_remove_loop xxh now self (key # keys) w = (case map_of (w_nodes w) self of
       None \<Rightarrow> (w, Some ErrBackendNotFound)
     | Some dm \<Rightarrow>
         let owners = lookupOwners xxh dm key in
         if owners = [] then dist_remove_loop xxh now self keys w
         else if hd owners = self then dist_remove_loop xxh now self keys (applyRemove xxh now w self key True)
         else if \<not> dm_transport dm then (w, Some ErrNotOwner)
         else (case forwardOrPromoteRemove xxh now w self dm key owners of
             (w1, Some e) \<Rightarrow> (w1, Some e)
           | (w1, None) \<Rightarrow> dist_remove_loop xxh now self keys w1))"

definition removeImpl :: "(string \<Rightarrow> 64 word) \<Rightarrow> int \<Rightarrow> World \<Rightarrow> string \<Rightarrow> string list \<Rightarrow> World \<times> sentinel option" where
  "removeImpl xxh now w self keys = (case map_of (w_nodes w) self of
       None \<Rightarrow> (w, Some ErrBackendNotFound)
     | Some dm \<Rightarrow> if draining dm then (w, Some ErrDraining) else dist_remove_loop xxh now self keys w)"

section \<open>Reads\<close>

definition ForwardGet :: "World \<Rightarrow> string \<Rightarrow> string \<Rightarrow> Item option \<times> sentinel option" where
  "ForwardGet w nid key = (case backend_of w nid of
       None \<Rightarrow> (None, Some ErrBackendNotFound)
     | Some b \<Rightarrow> (local_get b key, None))"

definition tryLocalGet :: "DistMemory \<Rightarrow> string \<Rightarrow> string \<Rightarrow> string \<Rightarrow> Item option" where
  "tryLocalGet dm self key oid = (if oid \<noteq> self then None else local_get dm key)"

text \<open>A hit on a remote owner is written back when this node is an owner that lacks the key.\<close>

definition tryRemoteGet :: "(string \<Rightarrow> 64 word) \<Rightarrow> World \<Rightarrow> string \<Rightarrow> DistMemory \<Rightarrow> string \<Rightarrow> string \<Rightarrow> World \<times> Item option" where
  "tryRemoteGet xxh w self dm key oid =
     (if oid = self \<or> \<not> dm_transport dm then (w, None)
      else case ForwardGet w oid key of
        (Some it, None) \<Rightarrow>
          (if ownsKeyInternal xxh dm key \<and> local_get dm key = None then applySet xxh w self it False else w, Some it)
      | _ \<Rightarrow> (w, None))"

primrec getOne :: "(string \<Rightarrow> 64 word) \<Rightarrow> World \<Rightarrow> string \<Rightarrow> DistMemory \<Rightarrow> string \<Rightarrow> string list \<Rightarrow> World \<times> Item option" where
  "getOne xxh w self dm key [] = (w, None)"
| "getOne xxh w self dm key (oid # oids) = (case tryLocalGet dm self key oid of
       Some it \<Rightarrow> (w, Some it)
     | None \<Rightarrow> (case tryRemoteGet xxh w self dm key oid of
         (w1, Some it) \<Rightarrow> (w1, Some it)
       | (w1, None) \<Rightarrow> getOne xxh w1 self dm key oids))"

definition fetchOwner :: "World \<Rightarrow> string \<Rightarrow> DistMemory \<Rightarrow> string \<Rightarrow> string \<Rightarrow> Item option" where
  "fetchOwner w self dm key oid =
     (if oid = self then local_get dm key
      else if \<not> dm_transport dm then None
      else case ForwardGet w oid key of (it, None) \<Rightarrow> it | (_, Some _) \<Rightarrow> None)"

text \<open>The collecting loop: chosen item, acknowledgements and the owners marked stale, over the owners in
  the order their answers are taken. An owner is marked when its own answer replaced the choice.\<close>

primrec collectQuorum :: "World \<Rightarrow> string \<Rightarrow> DistMemory \<Rightarrow> string \<Rightarrow> nat \<Rightarrow> string list \<Rightarrow> Item option \<Rightarrow> nat \<Rightarrow> string list
    \<Rightarrow> Item option \<times> nat \<times> string list" where
  "collectQuorum w self dm key needed [] chosen acks stale = (chosen, acks, stale)"
| "collectQuorum w self dm key needed (oid # oids) chosen acks stale = (case fetchOwner w self dm key oid of
       None \<Rightarrow> collectQuorum w self dm key needed oids chosen acks stale
     | Some it \<Rightarrow>
         let chosen1 = chooseNewer chosen (Some it);
             stale1 = (case chosen of None \<Rightarrow> stale | Some prev \<Rightarrow> if second_newer prev it then stale @ [oid] else stale)
         in if acks + 1 \<ge> needed then (chosen1, acks + 1, stale1)
            else collectQuorum w self dm key needed oids chosen1 (acks + 1) stale1)"

section \<open>Read repair\<close>

definition RepairQueue_enqueue :: "repairQueue \<Rightarrow> string \<Rightarrow> Item \<Rightarrow> repairQueue \<times> bool" where
  "RepairQueue_enqueue q peer item =
     (let peerEntries = (case map_of (rq_entries q) peer of None \<Rightarrow> [] | Some es \<Rightarrow> es);
          put = gm_set (Key item) item peerEntries
      in case map_of peerEntries (Key item) of
           Some existing \<Rightarrow> if \<not> isHigherVersion item existing then (q, False)
             else (q\<lparr>rq_entries := gm_set peer put (rq_entries q)\<rparr>, int (length put) \<ge> rq_maxBatchSize q)
         | None \<Rightarrow> (q\<lparr>rq_entries := gm_set peer put (rq_entries q)\<rparr>, int (length put) \<ge> rq_maxBatchSize q))"

primrec flush_items :: "(string \<Rightarrow> 64 word) \<Rightarrow> string \<Rightarrow> Item list \<Rightarrow> World \<Rightarrow> World" where
  "flush_items xxh peer [] w = w"
| "flush_items xxh peer (it # its) w = flush_items xxh peer its (fst (ForwardSet xxh w peer it False))"

definition flushPeer :: "(string \<Rightarrow> 64 word) \<Rightarrow> World \<Rightarrow> string \<Rightarrow> string \<Rightarrow> World" where
  "flushPeer xxh w self peer = (case map_of (w_nodes w) self of
       None \<Rightarrow> w
     | Some dm \<Rightarrow> (case dm_repairQueue dm of
         None \<Rightarrow> w
       | Some q \<Rightarrow> (case map_of (rq_entries q) peer of
           None \<Rightarrow> w
         | Some [] \<Rightarrow> w
         | Some es \<Rightarrow>
             let w1 = put_node w self (dm\<lparr>dm_repairQueue := Some (q\<lparr>rq_entries := gm_del peer (rq_entries q)\<rparr>)\<rparr>)
             in if \<not> dm_transport dm then w1 else flush_items xxh peer (map snd es) w1)))"

definition flushAll :: "(string \<Rightarrow> 64 word) \<Rightarrow> World \<Rightarrow> string \<Rightarrow> World" where
  "flushAll xxh w self = (case map_of (w_nodes w) self of
       None \<Rightarrow> w
     | Some dm \<Rightarrow> (case dm_repairQueue dm of
         None \<Rightarrow> w
       | Some q \<Rightarrow> foldl (\<lambda>w peer. flushPeer xxh w self peer) w (map fst (rq_entries q))))"

text \<open>A batch that fills up is flushed by a goroutine of its own; it runs here at once.\<close>

definition repairRemoteReplica :: "(string \<Rightarrow> 64 word) \<Rightarrow> World \<Rightarrow> string \<Rightarrow> Item \<Rightarrow> string \<Rightarrow> World" where
  "repairRemoteReplica xxh w self chosen oid = (case map_of (w_nodes w) self of
       None \<Rightarrow> w
     | Some dm \<Rightarrow>
         if \<not> dm_transport dm then w
         else (case dm_repairQueue dm of
             None \<Rightarrow> fst (ForwardSet xxh w oid chosen False)
           | Some q \<Rightarrow> (case RepairQueue_enqueue q oid chosen of (q1, shouldFlush) \<Rightarrow>
               let w1 = put_node w self (dm\<lparr>dm_repairQueue := Some q1\<rparr>)
               in if shouldFlush then flushPeer xxh w1 self oid else w1)))"

definition repairLocalReplica :: "(string \<Rightarrow> 64 word) \<Rightarrow> World \<Rightarrow> string \<Rightarrow> string \<Rightarrow> Item \<Rightarrow> World" where
  "repairLocalReplica xxh w self key chosen = (case map_of (w_nodes w) self of
       None \<Rightarrow> w
     | Some dm \<Rightarrow> (case local_get dm key of
         None \<Rightarrow> applySet xxh w self chosen False
       | Some localIt \<Rightarrow>
           if Version localIt < Version chosen \<or> (Version localIt = Version chosen \<and> str_less (Origin chosen) (Origin localIt))
           then applySet xxh w self chosen False else w))"

primrec repair_stale_loop :: "(string \<Rightarrow> 64 word) \<Rightarrow> string \<Rightarrow> Item \<Rightarrow> string list \<Rightarrow> World \<Rightarrow> World" where
  "repair_stale_loop xxh self chosen [] w = w"
| "repair_stale_loop xxh self chosen (oid # oids) w =
     repair_stale_loop xxh self chosen oids (if oid = self then w else repairRemoteReplica xxh w self chosen oid)"

definition repairStaleOwners :: "(string \<Rightarrow> 64 word) \<Rightarrow> World \<Rightarrow> string \<Rightarrow> DistMemory \<Rightarrow> Item \<Rightarrow> string list \<Rightarrow> World" where
  "repairStaleOwners xxh w self dm chosen staleOwners =
     (if \<not> dm_transport dm then w else repair_stale_loop xxh self chosen staleOwners w)"

primrec repairReplicas :: "(string \<Rightarrow> 64 word) \<Rightarrow> string \<Rightarrow> string \<Rightarrow> Item \<Rightarrow> string list \<Rightarrow> World \<Rightarrow> World" where
  "repairReplicas xxh self key chosen [] w = w"
| "repairReplicas xxh self key chosen (oid # oids) w =
     repairReplicas xxh self key chosen oids
       (if oid = self then repairLocalReplica xxh w self key chosen else repairRemoteReplica xxh w self chosen oid)"

definition getWithConsistency :: "(string \<Rightarrow> 64 word) \<Rightarrow> World \<Rightarrow> string \<Rightarrow> DistMemory \<Rightarrow> string \<Rightarrow> string list \<Rightarrow> string list
    \<Rightarrow> World \<times> Item option" where
  "getWithConsistency xxh w self dm key owners arrival =
     (let needed = requiredAcks (length owners) (readConsistency dm) in
      case collectQuorum w self dm key needed arrival None 0 [] of
        (None, _, _) \<Rightarrow> (w, None)
      | (Some chosen, acks, stale) \<Rightarrow>
          if acks < needed then (w, None)
          else (repairReplicas xxh self key chosen owners (repairStaleOwners xxh w self dm chosen stale), Some chosen))"

text \<open>The sequential read asks the owners in ring order; the parallel one takes the answers as they arrive.\<close>

definition getImpl :: "(string \<Rightarrow> 64 word) \<Rightarrow> World \<Rightarrow> string \<Rightarrow> string \<Rightarrow> string list \<Rightarrow> World \<times> Item option" where
  "getImpl xxh w self key arrival = (case map_of (w_nodes w) self of
       None \<Rightarrow> (w, None)
     | Some dm \<Rightarrow>
         let owners = lookupOwners xxh dm key in
         if readConsistency dm = ConsistencyOne then
           (case local_get dm key of
              Some it \<Rightarrow> (w, Some it)
            | None \<Rightarrow> if owners = [] then (w, None) else getOne xxh w self dm key owners)
         else if owners = [] then (w, None)
         else getWithConsistency xxh w self dm key owners (if parallelReads dm then arrival else owners))"

section \<open>Replay of hints\<close>

definition processHint :: "(string \<Rightarrow> 64 word) \<Rightarrow> int \<Rightarrow> World \<Rightarrow> string \<Rightarrow> hintedEntry \<Rightarrow> World \<times> bool" where
  "processHint xxh now w nid entry =
     (if now > he_expire entry then (w, True)
      else case ForwardSet xxh w nid (he_item entry) False of
        (w1, None) \<Rightarrow> (w1, True)
      | (w1, Some _) \<Rightarrow> (w1, False))"

text \<open>One node's queue: the entries kept, with the totals adjusted for every entry removed.\<close>

primrec replay_queue :: "(string \<Rightarrow> 64 word) \<Rightarrow> int \<Rightarrow> string \<Rightarrow> string \<Rightarrow> hintedEntry list \<Rightarrow> World \<Rightarrow> World \<times> hintedEntry list" where
  "replay_queue xxh now self nid [] w = (w, [])"
| "replay_queue xxh now self nid (e # es) w = (case processHint xxh now w nid e of
       (w1, True) \<Rightarrow> replay_queue xxh now self nid es (case map_of (w_nodes w1) self of
           None \<Rightarrow> w1 | Some dm \<Rightarrow> put_node w1 self (adjustHintAccounting (- 1) (- he_size e) dm))
     | (w1, False) \<Rightarrow> (case replay_queue xxh now self nid es w1 of (w2, out) \<Rightarrow> (w2, e # out)))"

primrec replay_nodes :: "(string \<Rightarrow> 64 word) \<Rightarrow> int \<Rightarrow> string \<Rightarrow> (string, hintedEntry list) gomap \<Rightarrow> World \<Rightarrow> World" where
  "replay_nodes xxh now self [] w = w"
| "replay_nodes xxh now self (nq # rest) w = (case replay_queue xxh now self (fst nq) (snd nq) w of (w1, out) \<Rightarrow>
     replay_nodes xxh now self rest (case map_of (w_nodes w1) self of
         None \<Rightarrow> w1
       | Some dm \<Rightarrow> put_node w1 self (dm\<lparr>hints := if out = [] then gm_del (fst nq) (hints dm) else gm_set (fst nq) out (hints dm)\<rparr>)))"

definition replayHints :: "(string \<Rightarrow> 64 word) \<Rightarrow> int \<Rightarrow> World \<Rightarrow> string \<Rightarrow> World" where
  "replayHints xxh now w self = (case map_of (w_nodes w) self of
       None \<Rightarrow> w
     | Some dm \<Rightarrow> if \<not> dm_transport dm then w else replay_nodes xxh now self (hints dm) w)"

section \<open>What a write leaves behind\<close>

definition node_get :: "World \<Rightarrow> string \<Rightarrow> string \<Rightarrow> Item option" where
  "node_get w nid key = (case map_of (w_nodes w) nid of None \<Rightarrow> None | Some dm \<Rightarrow> local_get dm key)"

text \<open>Every node knows its name and holds the same view of the ring.\<close>

definition world_ok :: "World \<Rightarrow> Ring \<Rightarrow> bool" where
  "world_ok w r \<longleftrightarrow> (\<forall>nid dm. map_of (w_nodes w) nid = Some dm \<longrightarrow> shards_ok dm \<and> localID dm = nid \<and> mb_ring (dm_membership dm) = r)"

lemma applySet_local_get:
  assumes "shards_ok dm"
  shows "local_get (applySet_local xxh dm item) k = (if k = Key item then Some item else local_get dm k)"
  using assms by (auto simp: local_get_def applySet_local_def Let_def gomap_simps) (simp add: dm_shardFor_def hashKey_def)+

lemma applySet_local_same [simp]:
  "localID (applySet_local xxh dm item) = localID dm" "dm_membership (applySet_local xxh dm item) = dm_membership dm"
  "dm_transport (applySet_local xxh dm item) = dm_transport dm" "hints (applySet_local xxh dm item) = hints dm"
  by (simp_all add: applySet_local_def Let_def)

lemma applySet_local_ok [simp]: "shards_ok dm \<Longrightarrow> shards_ok (applySet_local xxh dm item)"
  using shard_ok_set [of "recordOriginalPrimary (lookupOwners xxh dm (Key item)) (dm_shardFor dm (Key item)) (Key item)" item "Key item"] dm_shardFor_ok
  by (simp add: applySet_local_def Let_def)

lemma map_of_put_node [simp]: "map_of (w_nodes (put_node w nid dm)) n = (if n = nid then Some dm else map_of (w_nodes w) n)"
  by (simp add: put_node_def gomap_simps)

lemma put_node_backends [simp]: "w_backends (put_node w nid dm) = w_backends w"
  by (simp add: put_node_def)

lemma world_ok_put: "world_ok w r \<Longrightarrow> shards_ok dm \<Longrightarrow> localID dm = nid \<Longrightarrow> mb_ring (dm_membership dm) = r \<Longrightarrow> world_ok (put_node w nid dm) r"
  by (simp add: world_ok_def)

lemma node_get_put [simp]: "node_get (put_node w nid dm) n k = (if n = nid then local_get dm k else node_get w n k)"
  by (simp add: node_get_def)

lemma backend_of_ok: "world_ok w r \<Longrightarrow> backend_of w nid = Some b \<Longrightarrow> map_of (w_nodes w) nid = Some b \<and> shards_ok b \<and> localID b = nid \<and> mb_ring (dm_membership b) = r"
  by (auto simp: backend_of_def world_ok_def split: if_splits)

text \<open>The fan-out of \<open>applySet\<close> is the transport's \<open>ForwardSet\<close> without a further fan-out.\<close>

lemma forward_replica_set_eq: "forward_replica_set xxh w nid item = ForwardSet xxh w nid item False"
  by (auto simp: forward_replica_set_def ForwardSet_def applyForwardedSet_def applySet_def backend_of_def Let_def split: option.split)

lemma ForwardSet_replica:
  assumes "world_ok w r" "nid \<in> set (Ring_Lookup xxh r (Key item))"
  shows "ForwardSet xxh w nid item False = (case backend_of w nid of
      None \<Rightarrow> (w, Some ErrBackendNotFound) | Some b \<Rightarrow> (put_node w nid (applySet_local xxh b item), None))"
  using assms backend_of_ok [OF assms(1), of nid]
  by (auto simp: ForwardSet_def applyForwardedSet_def applySet_def ownsKeyInternal_def lookupOwners_def Let_def split: option.split)

text \<open>Queueing a hint leaves items and ring alone.\<close>

lemma queueHint_same [simp]:
  "dm_shards (queueHint jl now dm nid item src) = dm_shards dm" "shardCount (queueHint jl now dm nid item src) = shardCount dm"
  "localID (queueHint jl now dm nid item src) = localID dm" "dm_membership (queueHint jl now dm nid item src) = dm_membership dm"
  by (simp_all add: queueHint_def adjustHintAccounting_def Let_def)

lemma local_get_cong: "dm_shards a = dm_shards b \<Longrightarrow> shardCount a = shardCount b \<Longrightarrow> local_get a k = local_get b k"
  by (simp add: local_get_def dm_shardFor_def hashKey_def)

lemma shards_ok_cong: "dm_shards a = dm_shards b \<Longrightarrow> shardCount a = shardCount b \<Longrightarrow> shards_ok a = shards_ok b"
  by (simp add: shards_ok_def)

lemma queueHint_world:
  assumes "world_ok w r"
  shows "world_ok (case map_of (w_nodes w) self of None \<Rightarrow> w | Some dm \<Rightarrow> put_node w self (queueHint jl now dm oid item src)) r"
    and "node_get (case map_of (w_nodes w) self of None \<Rightarrow> w | Some dm \<Rightarrow> put_node w self (queueHint jl now dm oid item src)) n k = node_get w n k"
proof -
  have *: "shards_ok (queueHint jl now dm oid item src) = shards_ok dm" "local_get (queueHint jl now dm oid item src) k = local_get dm k" for dm
    by (rule shards_ok_cong local_get_cong; simp)+
  show "world_ok (case map_of (w_nodes w) self of None \<Rightarrow> w | Some dm \<Rightarrow> put_node w self (queueHint jl now dm oid item src)) r"
    using assms by (auto simp: world_ok_def * split: option.split)
  show "node_get (case map_of (w_nodes w) self of None \<Rightarrow> w | Some dm \<Rightarrow> put_node w self (queueHint jl now dm oid item src)) n k = node_get w n k"
    by (auto simp: node_get_def * split: option.split)
qed

text \<open>The replicas that acknowledged hold the item, and nobody who held it lost it.\<close>

lemma replicateTo_loop_acks:
  assumes "world_ok w r" "set oids \<subseteq> set (Ring_Lookup xxh r (Key item))" "distinct oids"
    and "replicateTo_loop xxh jl now self item oids w acks = (w', n)"
  shows "world_ok w' r \<and> (\<exists>A \<subseteq> set oids - {self}. n = acks + card A \<and> (\<forall>a \<in> A. node_get w' a (Key item) = Some item)) \<and>
    (\<forall>x. node_get w x (Key item) = Some item \<longrightarrow> node_get w' x (Key item) = Some item)"
  using assms
proof (induction oids arbitrary: w acks)
  case Nil
  then show ?case by auto
next
  case (Cons oid oids)
  show ?case
  proof (cases "oid = self")
    case True
    with Cons.prems have "replicateTo_loop xxh jl now self item oids w acks = (w', n)" by simp
    from Cons.IH [OF Cons.prems(1) _ _ this] Cons.prems(2,3) show ?thesis by (simp, blast)
  next
    case False
    have fwd: "ForwardSet xxh w oid item False = (case backend_of w oid of
        None \<Rightarrow> (w, Some ErrBackendNotFound) | Some b \<Rightarrow> (put_node w oid (applySet_local xxh b item), None))"
      using Cons.prems(1,2) by (intro ForwardSet_replica) auto
    show ?thesis
    proof (cases "backend_of w oid")
      case None
      let ?w = "case map_of (w_nodes w) self of None \<Rightarrow> w | Some dm \<Rightarrow> put_node w self (queueHint jl now dm oid item hintSourceReplication)"
      from None fwd False Cons.prems(4) have "replicateTo_loop xxh jl now self item oids ?w acks = (w', n)" by simp
      from Cons.IH [OF queueHint_world(1) [OF Cons.prems(1)] _ _ this] Cons.prems(2,3) queueHint_world(2) [OF Cons.prems(1)]
      show ?thesis by (simp, blast)
    next
      case (Some b)
      note b = backend_of_ok [OF Cons.prems(1) Some]
      let ?w = "put_node w oid (applySet_local xxh b item)"
      from Some fwd False Cons.prems(4) have "replicateTo_loop xxh jl now self item oids ?w (acks + 1) = (w', n)" by simp
      from Cons.IH [OF world_ok_put [OF Cons.prems(1)] _ _ this] b Cons.prems(2,3)
      obtain A where A: "world_ok w' r" "A \<subseteq> set oids - {self}" "n = acks + 1 + card A" "\<forall>a \<in> A. node_get w' a (Key item) = Some item"
        and keep: "\<And>x. node_get ?w x (Key item) = Some item \<Longrightarrow> node_get w' x (Key item) = Some item"
        by auto
      have "node_get ?w oid (Key item) = Some item" using b by (simp add: applySet_local_get)
      then have "node_get w' oid (Key item) = Some item" by (rule keep)
      moreover have "card (insert oid A) = Suc (card A)"
        using A(2) Cons.prems(3) by (auto simp: finite_subset intro!: card_insert_disjoint)
      moreover have "node_get w' x (Key item) = Some item" if "node_get w x (Key item) = Some item" for x
        using that b by (intro keep) (simp add: applySet_local_get)
      ultimately show ?thesis using A False by (intro conjI exI [of _ "insert oid A"]) auto
    qed
  qed
qed

text \<open>The primary's write: the stamped item is on every node that counts as an acknowledgement.\<close>

definition stamped :: "DistMemory \<Rightarrow> int \<Rightarrow> string \<Rightarrow> Item \<Rightarrow> Item" where
  "stamped dm now self item = item\<lparr>Version := versionCounter dm + 1, Origin := self, LastUpdated := now\<rparr>"

lemma set_as_primary_acks:
  assumes "world_ok w r" "map_of (w_nodes w) self = Some dm" "owners = Ring_Lookup xxh r (Key item)" "self \<in> set owners"
    and "set_as_primary xxh jl now w self dm owners promoted item = (w', e)"
  shows "world_ok w' r \<and> node_get w' self (Key item) = Some (stamped dm now self item) \<and>
    (\<exists>A \<subseteq> set owners. (e = None \<longleftrightarrow> requiredAcks (length owners) (writeConsistency dm) \<le> card A) \<and> (e = None \<or> e = Some ErrQuorumFailed) \<and>
      (\<forall>a \<in> A. node_get w' a (Key item) = Some (stamped dm now self item)))"
proof -
  let ?it = "stamped dm now self item" and ?dm = "dm\<lparr>versionCounter := versionCounter dm + 1\<rparr>"
  let ?reps = "if promoted then owners else tl owners"
  let ?w2 = "applySet xxh (put_node w self ?dm) self ?it False"
  have dm: "shards_ok dm" "localID dm = self" "mb_ring (dm_membership dm) = r" using assms(1,2) by (auto simp: world_ok_def)
  then have ok: "shards_ok ?dm" by (simp add: shards_ok_def)
  have key: "Key ?it = Key item" by (simp add: stamped_def)
  have w2: "?w2 = put_node (put_node w self ?dm) self (applySet_local xxh ?dm ?it)" by (simp add: applySet_def)
  have ok2: "world_ok ?w2 r" unfolding w2 using assms(1) dm ok by (intro world_ok_put) simp_all
  have self2: "node_get ?w2 self (Key item) = Some ?it" unfolding w2 using ok key by (simp add: applySet_local_get)
  obtain w3 n where rep: "replicateTo xxh jl now ?w2 self (dm_transport dm) ?it ?reps = (w3, n)" by fastforce
  have sub: "set ?reps \<subseteq> set owners" "distinct ?reps"
    using assms(3) by (auto dest: in_set_tl intro: distinct_tl)
  have "world_ok w3 r \<and> (\<exists>A \<subseteq> set ?reps - {self}. n = card A \<and> (\<forall>a \<in> A. node_get w3 a (Key item) = Some ?it)) \<and>
      node_get w3 self (Key item) = Some ?it"
  proof (cases "dm_transport dm")
    case True
    with rep have rep': "replicateTo_loop xxh jl now self ?it ?reps ?w2 0 = (w3, n)" unfolding replicateTo_def by metis
    have "set ?reps \<subseteq> set (Ring_Lookup xxh r (Key ?it))" using sub(1) assms(3) key by simp
    from replicateTo_loop_acks [OF ok2 this sub(2) rep'] self2 show ?thesis unfolding key by (metis add_0)
  next
    case False
    with rep have "w3 = ?w2" "n = 0" unfolding replicateTo_def by simp_all
    with ok2 self2 show ?thesis by (metis card.empty empty_subsetI equals0D)
  qed
  then obtain A where A: "world_ok w3 r" "A \<subseteq> set ?reps - {self}" "n = card A" "\<forall>a \<in> A. node_get w3 a (Key item) = Some ?it"
    "node_get w3 self (Key item) = Some ?it" by blast
  have "self \<notin> A" "finite A" using A(2) finite_subset [OF A(2)] by auto
  then have card: "card (insert self A) = 1 + n" using A(3) by simp
  have eq: "w' = w3" "e = (if 1 + n < requiredAcks (length owners) (writeConsistency dm) then Some ErrQuorumFailed else None)"
    using assms(5) rep by (simp_all add: set_as_primary_def Let_def stamped_def)
  show ?thesis
  proof (intro conjI exI [of _ "insert self A"])
    show "insert self A \<subseteq> set owners" using A(2) sub(1) assms(4) by auto
    show "e = None \<longleftrightarrow> requiredAcks (length owners) (writeConsistency dm) \<le> card (insert self A)" using eq(2) card by auto
  qed (use A eq in auto)
qed

section \<open>What a read sees\<close>

lemma fetchOwner_holds:
  assumes "map_of (w_nodes w) self = Some dm" "fetchOwner w self dm key oid = Some it"
  shows "node_get w oid key = Some it"
  using assms by (auto simp: fetchOwner_def ForwardGet_def node_get_def backend_of_def split: if_splits option.splits)

text \<open>The owners that answer, in the order in which the answers are taken.\<close>

definition answers :: "World \<Rightarrow> string \<Rightarrow> DistMemory \<Rightarrow> string \<Rightarrow> string list \<Rightarrow> string list" where
  "answers w self dm key oids = filter (\<lambda>oid. fetchOwner w self dm key oid \<noteq> None) oids"

text \<open>The loop merges the answers it takes, and takes as many as it needs or all there are.\<close>

lemma collectQuorum_merges:
  assumes "acks < needed"
  shows "collectQuorum w self dm key needed oids chosen acks stale = (c, n, st) \<Longrightarrow>
    n = min needed (acks + length (answers w self dm key oids)) \<and>
    c = foldl chooseNewer chosen (map (fetchOwner w self dm key) (take (needed - acks) (answers w self dm key oids)))"
  using assms
proof (induction oids arbitrary: chosen acks stale)
  case Nil
  then show ?case by (simp add: answers_def)
next
  case (Cons oid oids)
  show ?case
  proof (cases "fetchOwner w self dm key oid")
    case None
    with Cons show ?thesis by (simp add: answers_def)
  next
    case (Some it)
    let ?c = "chooseNewer chosen (Some it)"
      and ?st = "case chosen of None \<Rightarrow> stale | Some prev \<Rightarrow> if second_newer prev it then stale @ [oid] else stale"
    have ans: "answers w self dm key (oid # oids) = oid # answers w self dm key oids" using Some by (simp add: answers_def)
    show ?thesis
    proof (cases "acks + 1 \<ge> needed")
      case True
      with Cons.prems Some have "needed - acks = 1" "c = ?c" "n = acks + 1" by (auto simp: Let_def)
      with True Cons.prems(2) Some ans show ?thesis by simp
    next
      case False
      with Cons.prems Some have "collectQuorum w self dm key needed oids ?c (acks + 1) ?st = (c, n, st)" by (simp add: Let_def)
      from Cons.IH [OF this] False have "n = min needed (acks + 1 + length (answers w self dm key oids))"
        "c = foldl chooseNewer ?c (map (fetchOwner w self dm key) (take (needed - (acks + 1)) (answers w self dm key oids)))" by simp_all
      moreover have "needed - acks = Suc (needed - (acks + 1))" using False by simp
      ultimately show ?thesis using ans Some by simp
    qed
  qed
qed

lemma foldl_chooseNewer: "foldl chooseNewer a xs = foldl versions.merge a xs"
  by (induction xs arbitrary: a) (simp_all add: chooseNewer_merge)

lemma foldl_chooseNewer_None: "(\<forall>x \<in> set xs. x \<noteq> None) \<Longrightarrow> foldl chooseNewer a xs = None \<longleftrightarrow> a = None \<and> xs = []"
proof (induction xs arbitrary: a)
  case (Cons x xs)
  then show ?case by (cases a; cases x) auto
qed simp

lemma requiredAcks_pos: "0 < n \<Longrightarrow> 0 < requiredAcks n lvl"
  by (simp add: requiredAcks_def split: ConsistencyLevel.split)

text \<open>A read above level one answers exactly when enough owners answer, with the newest of their copies.\<close>

lemma getWithConsistency_result:
  assumes "getWithConsistency xxh w self dm key owners arrival = (w', res)" "owners \<noteq> []" "needed = requiredAcks (length owners) (readConsistency dm)"
  shows "res = (if needed \<le> length (answers w self dm key arrival)
     then foldl chooseNewer None (map (fetchOwner w self dm key) (take needed (answers w self dm key arrival))) else None)"
proof -
  have pos: "0 < needed" using assms(2,3) by (simp add: requiredAcks_pos)
  obtain c n st where col: "collectQuorum w self dm key needed arrival None 0 [] = (c, n, st)" by (metis prod_cases3)
  note m = collectQuorum_merges [OF pos col, simplified]
  have "c = None \<longleftrightarrow> answers w self dm key arrival = []"
    using m pos by (subst conjunct2 [OF m], subst foldl_chooseNewer_None) (auto simp: answers_def dest: in_set_takeD)
  with m pos col assms(1,3) show ?thesis
    by (cases c) (auto simp: getWithConsistency_def Let_def split: if_splits)
qed

lemma getImpl_above_one:
  assumes "getImpl xxh w self key arrival = (w', Some it)" "map_of (w_nodes w) self = Some dm" "readConsistency dm \<noteq> ConsistencyOne"
  shows "lookupOwners xxh dm key \<noteq> [] \<and>
    getWithConsistency xxh w self dm key (lookupOwners xxh dm key) (if parallelReads dm then arrival else lookupOwners xxh dm key) = (w', Some it)"
  using assms by (simp add: getImpl_def Let_def split: if_splits)

text \<open>The owners a read merged: as many as the read level asks for, each with a copy no newer than the result.\<close>

lemma read_quorum:
  assumes "getImpl xxh w self key arrival = (w', Some it)" "map_of (w_nodes w) self = Some dm" "readConsistency dm \<noteq> ConsistencyOne"
    and "owners = lookupOwners xxh dm key" "mset arrival = mset owners"
  shows "\<exists>B \<subseteq> set owners. card B = requiredAcks (length owners) (readConsistency dm) \<and>
    (\<forall>b \<in> B. \<exists>c. node_get w b key = Some c \<and> \<not> second_newer it c) \<and> (\<exists>b \<in> B. node_get w b key = Some it)"
proof -
  define order where "order = (if parallelReads dm then arrival else owners)"
  have order: "distinct order" "set order = set owners"
    using assms(4,5) mset_eq_imp_distinct_iff [of arrival owners] mset_eq_setD [of arrival owners] by (auto simp: order_def)
  define needed where "needed = requiredAcks (length owners) (readConsistency dm)"
  let ?taken = "take needed (answers w self dm key order)"
  from getImpl_above_one [OF assms(1-3)] assms(4)
  have get: "getWithConsistency xxh w self dm key owners order = (w', Some it)" and ne: "owners \<noteq> []" unfolding order_def by (blast, simp)
  from getWithConsistency_result [OF get ne needed_def]
  have enough: "needed \<le> length (answers w self dm key order)"
    and fold: "foldl versions.merge None (map (fetchOwner w self dm key) ?taken) = Some it"
    unfolding foldl_chooseNewer by (metis option.distinct(1))+
  have sub: "set ?taken \<subseteq> set owners" unfolding order(2) [symmetric] answers_def by (meson filter_is_subset order.trans set_take_subset)
  have dist: "card (set ?taken) = needed" using order(1) enough by (simp add: distinct_card answers_def)
  note up = versions.foldl_merge_upper [OF fold]
  have each: "\<exists>c. node_get w b key = Some c \<and> \<not> second_newer it c" if "b \<in> set ?taken" for b
  proof -
    from in_set_takeD [OF that] obtain c where c: "fetchOwner w self dm key b = Some c" by (auto simp: answers_def)
    with that have "Some c \<in> set (map (fetchOwner w self dm key) ?taken)" by (metis image_eqI list.set_map)
    with up c show ?thesis using fetchOwner_holds [OF assms(2)] by blast
  qed
  from up obtain b where "b \<in> set ?taken" "fetchOwner w self dm key b = Some it" by auto
  then have "\<exists>b \<in> set ?taken. node_get w b key = Some it" using fetchOwner_holds [OF assms(2)] by blast
  with sub dist each show ?thesis unfolding needed_def [symmetric] by blast
qed

lemma overlap:
  assumes "A \<subseteq> S" "B \<subseteq> S" "finite S" "card S < card A + card B"
  shows "A \<inter> B \<noteq> {}"
proof
  assume "A \<inter> B = {}"
  then have "card A + card B = card (A \<union> B)" using assms(1-3) by (metis card_Un_disjoint finite_subset)
  also have "\<dots> \<le> card S" using assms(1-3) by (intro card_mono) auto
  finally show False using assms(4) by simp
qed

section \<open>Read repair\<close>

text \<open>The backends of one round of repair: reachability and the reader's settings never change.\<close>

definition repairs_at :: "World \<Rightarrow> string \<Rightarrow> bool" where
  "repairs_at w self \<longleftrightarrow> (\<exists>dm. map_of (w_nodes w) self = Some dm \<and> dm_transport dm \<and> dm_repairQueue dm = None)"

lemma applySet_local_queue [simp]: "dm_repairQueue (applySet_local xxh dm item) = dm_repairQueue dm"
  by (simp add: applySet_local_def put_shard_def Let_def)

text \<open>One step of repair on an owner other than the reader writes the chosen copy there if it is reachable.\<close>

lemma repairRemote_step:
  assumes "world_ok w r" "repairs_at w self" "oid \<in> set (Ring_Lookup xxh r (Key it))"
  shows "repairRemoteReplica xxh w self it oid = (case backend_of w oid of None \<Rightarrow> w | Some b \<Rightarrow> put_node w oid (applySet_local xxh b it))"
  using assms ForwardSet_replica [OF assms(1,3)] by (auto simp: repairs_at_def repairRemoteReplica_def split: option.splits)

text \<open>Writing the copy on one more node, as every step of repair does, or doing nothing.\<close>

definition spreads :: "(string \<Rightarrow> 64 word) \<Rightarrow> Item \<Rightarrow> World \<Rightarrow> World \<Rightarrow> bool" where
  "spreads xxh it w w' \<longleftrightarrow> w' = w \<or> (\<exists>oid b. map_of (w_nodes w) oid = Some b \<and> w' = put_node w oid (applySet_local xxh b it))"

lemma spreads_keeps:
  assumes "spreads xxh it w w'" "world_ok w r" "repairs_at w self"
  shows "world_ok w' r" "repairs_at w' self" "backend_of w' x = None \<longleftrightarrow> backend_of w x = None"
    and "node_get w x (Key it) = Some it \<Longrightarrow> node_get w' x (Key it) = Some it"
proof -
  consider "w' = w" | oid b where "map_of (w_nodes w) oid = Some b" "w' = put_node w oid (applySet_local xxh b it)"
    using assms(1) unfolding spreads_def by blast
  then have "world_ok w' r \<and> repairs_at w' self \<and> (backend_of w' x = None \<longleftrightarrow> backend_of w x = None) \<and>
    (node_get w x (Key it) = Some it \<longrightarrow> node_get w' x (Key it) = Some it)"
  proof cases
    case 1
    then show ?thesis using assms by simp
  next
    case 2
    then have "shards_ok b" "localID b = oid" "mb_ring (dm_membership b) = r" using assms(2) by (auto simp: world_ok_def)
    with 2 assms(2,3) show ?thesis
      by (auto simp: world_ok_put applySet_local_get repairs_at_def backend_of_def)
  qed
  then show "world_ok w' r" "repairs_at w' self" "backend_of w' x = None \<longleftrightarrow> backend_of w x = None"
    "node_get w x (Key it) = Some it \<Longrightarrow> node_get w' x (Key it) = Some it" by blast+
qed

lemma repairRemote_spreads:
  assumes "world_ok w r" "repairs_at w self" "oid \<in> set (Ring_Lookup xxh r (Key it))"
  shows "spreads xxh it w (repairRemoteReplica xxh w self it oid)"
    and "backend_of w oid \<noteq> None \<Longrightarrow> node_get (repairRemoteReplica xxh w self it oid) oid (Key it) = Some it"
proof -
  show "spreads xxh it w (repairRemoteReplica xxh w self it oid)"
    using repairRemote_step [OF assms] backend_of_ok [OF assms(1), of oid] by (cases "backend_of w oid") (auto simp: spreads_def)
  show "node_get (repairRemoteReplica xxh w self it oid) oid (Key it) = Some it" if "backend_of w oid \<noteq> None"
    using that repairRemote_step [OF assms] backend_of_ok [OF assms(1), of oid] by (auto simp: applySet_local_get)
qed

lemma repairLocal_spreads: "spreads xxh it w (repairLocalReplica xxh w self key it)"
proof (cases "map_of (w_nodes w) self")
  case (Some dm)
  then have "applySet xxh w self it False = put_node w self (applySet_local xxh dm it)" by (simp add: applySet_def Let_def)
  with Some show ?thesis by (cases "local_get dm key") (auto simp: repairLocalReplica_def spreads_def)
qed (simp add: repairLocalReplica_def spreads_def)

text \<open>A whole round: copies written stay, and every reachable owner visited gets one.\<close>

lemma repair_stale_loop_ok:
  assumes "world_ok w r" "repairs_at w self" "set oids \<subseteq> set (Ring_Lookup xxh r (Key it))" "w' = repair_stale_loop xxh self it oids w"
  shows "world_ok w' r \<and> repairs_at w' self \<and> (\<forall>x. backend_of w' x = None \<longleftrightarrow> backend_of w x = None)"
  using assms
proof (induction oids arbitrary: w)
  case (Cons oid oids)
  let ?w = "if oid = self then w else repairRemoteReplica xxh w self it oid"
  have "spreads xxh it w ?w" using Cons.prems repairRemote_spreads(1) [of w r self oid xxh it] by (simp add: spreads_def)
  note k = spreads_keeps [OF this Cons.prems(1,2)]
  have "set oids \<subseteq> set (Ring_Lookup xxh r (Key it))" "w' = repair_stale_loop xxh self it oids ?w" using Cons.prems(3,4) by simp_all
  from Cons.IH [OF k(1,2) this] k(3) show ?case by blast
qed simp

lemma repairReplicas_ok:
  assumes "world_ok w r" "repairs_at w self" "set oids \<subseteq> set (Ring_Lookup xxh r (Key it))" "w' = repairReplicas xxh self (Key it) it oids w"
  shows "(\<forall>x. node_get w x (Key it) = Some it \<longrightarrow> node_get w' x (Key it) = Some it) \<and>
    (\<forall>oid \<in> set oids. oid \<noteq> self \<longrightarrow> backend_of w oid \<noteq> None \<longrightarrow> node_get w' oid (Key it) = Some it)"
  using assms
proof (induction oids arbitrary: w)
  case (Cons oid oids)
  let ?w = "if oid = self then repairLocalReplica xxh w self (Key it) it else repairRemoteReplica xxh w self it oid"
  have sp: "spreads xxh it w ?w" using Cons.prems repairRemote_spreads(1) [of w r self oid xxh it] repairLocal_spreads by simp
  note k = spreads_keeps [OF sp Cons.prems(1,2)]
  have "set oids \<subseteq> set (Ring_Lookup xxh r (Key it))" "w' = repairReplicas xxh self (Key it) it oids ?w" using Cons.prems(3,4) by simp_all
  note ih = Cons.IH [OF k(1,2) this]
  have "node_get ?w oid (Key it) = Some it" if "oid \<noteq> self" "backend_of w oid \<noteq> None"
    using that Cons.prems repairRemote_spreads(2) [of w r self oid xxh it] by simp
  then have "node_get w' oid (Key it) = Some it" if "oid \<noteq> self" "backend_of w oid \<noteq> None" using that ih by blast
  with ih k(3,4) show ?case by (metis set_ConsD)
qed simp

lemma stale_are_owners:
  "collectQuorum w self dm key needed oids chosen acks stale = (c, n, st) \<Longrightarrow> set st \<subseteq> set stale \<union> set oids"
proof (induction oids arbitrary: chosen acks stale)
  case (Cons oid oids)
  show ?case
  proof (cases "fetchOwner w self dm key oid")
    case None
    with Cons show ?thesis by fastforce
  next
    case (Some it)
    let ?st = "case chosen of None \<Rightarrow> stale | Some prev \<Rightarrow> if second_newer prev it then stale @ [oid] else stale"
    have "set ?st \<subseteq> set stale \<union> {oid}" by (auto split: option.split)
    moreover have "st = ?st \<or> set st \<subseteq> set ?st \<union> set oids"
      using Cons.prems Cons.IH [of "chooseNewer chosen (Some it)" "acks + 1" ?st] Some by (auto simp: Let_def split: if_splits)
    ultimately show ?thesis by auto
  qed
qed simp

section \<open>Removals\<close>

lemma shard_ok_remove [simp]: "shard_ok sh \<Longrightarrow> shard_ok (sh\<lparr>ds_items := gm_del key (ds_items sh), ds_tombs := gm_set key t (ds_tombs sh)\<rparr>)"
  by (auto simp: shard_ok_def set_gm_del)

lemma removed_tomb:
  "dm_shards (dm\<lparr>tombVersionCounter := v\<rparr>) = dm_shards dm" "shardCount (dm\<lparr>tombVersionCounter := v\<rparr>) = shardCount dm"
  by simp_all

lemma applyRemove_local_ok:
  assumes "shards_ok dm"
  shows "shards_ok (applyRemove_local now dm key)" "localID (applyRemove_local now dm key) = localID dm"
    "dm_membership (applyRemove_local now dm key) = dm_membership dm" "dm_transport (applyRemove_local now dm key) = dm_transport dm"
    "local_get (applyRemove_local now dm key) k = (if k = key then None else local_get dm k)"
    "\<exists>t. local_tomb (applyRemove_local now dm key) key = Some t \<and> tb_at t = now \<and> tb_origin t = localID dm \<and>
       (\<forall>it. local_get dm key = Some it \<longrightarrow> Version it + 1 \<noteq> 0 \<longrightarrow> tb_version t = Version it + 1)"
proof -
  let ?nv = "case map_of (ds_items (dm_shardFor dm key)) key of None \<Rightarrow> 0 | Some it \<Rightarrow> Version it + 1"
  let ?dm = "if ?nv = 0 then dm\<lparr>tombVersionCounter := tombVersionCounter dm + 1\<rparr> else dm"
  let ?t = "\<lparr>tb_version = if ?nv = 0 then tombVersionCounter dm + 1 else ?nv, tb_origin = localID dm, tb_at = now\<rparr>"
  let ?sh = "(dm_shardFor dm key)\<lparr>ds_items := gm_del key (ds_items (dm_shardFor dm key)), ds_tombs := gm_set key ?t (ds_tombs (dm_shardFor dm key))\<rparr>"
  have eq: "applyRemove_local now dm key = put_shard ?dm key ?sh" by (simp add: applyRemove_local_def Let_def)
  have ok: "shards_ok ?dm" using assms by (simp add: shards_ok_def)
  have same: "dm_shardFor ?dm k = dm_shardFor dm k" "hashKey ?dm k = hashKey dm k" for k by (simp_all add: dm_shardFor_def hashKey_def)
  show "shards_ok (applyRemove_local now dm key)" unfolding eq using ok dm_shardFor_ok [OF assms] by (intro shards_ok_put shard_ok_remove)
  show "localID (applyRemove_local now dm key) = localID dm" "dm_membership (applyRemove_local now dm key) = dm_membership dm"
    "dm_transport (applyRemove_local now dm key) = dm_transport dm" unfolding eq by simp_all
  show "local_get (applyRemove_local now dm key) k = (if k = key then None else local_get dm k)"
    unfolding eq local_get_def dm_shardFor_put [OF ok] same
    by (auto simp: gomap_simps) (simp add: dm_shardFor_def)
  have "local_tomb (applyRemove_local now dm key) key = Some ?t"
    unfolding eq local_tomb_def dm_shardFor_put [OF ok] same by (simp add: gomap_simps)
  then show "\<exists>t. local_tomb (applyRemove_local now dm key) key = Some t \<and> tb_at t = now \<and> tb_origin t = localID dm \<and>
       (\<forall>it. local_get dm key = Some it \<longrightarrow> Version it + 1 \<noteq> 0 \<longrightarrow> tb_version t = Version it + 1)"
    by (simp add: local_get_def)
qed

lemma fanout_remove_ok:
  assumes "world_ok w r" "w' = fanout_remove now self key oids w"
  shows "world_ok w' r \<and> (\<forall>x. node_get w x key = None \<longrightarrow> node_get w' x key = None) \<and>
    (\<forall>oid \<in> set oids. oid \<noteq> self \<longrightarrow> backend_of w oid \<noteq> None \<longrightarrow> node_get w' oid key = None)"
  using assms
proof (induction oids arbitrary: w)
  case (Cons oid oids)
  let ?w = "if oid = self then w else fst (forward_replica_remove now w oid key)"
  have "world_ok ?w r \<and> (\<forall>x. node_get w x key = None \<longrightarrow> node_get ?w x key = None) \<and> (\<forall>x. backend_of ?w x = None \<longleftrightarrow> backend_of w x = None) \<and>
      (oid \<noteq> self \<longrightarrow> backend_of w oid \<noteq> None \<longrightarrow> node_get ?w oid key = None)"
  proof (cases "oid = self \<or> backend_of w oid = None")
    case True
    then show ?thesis using Cons.prems by (auto simp: forward_replica_remove_def)
  next
    case False
    then obtain b where b: "backend_of w oid = Some b" "oid \<noteq> self" by auto
    note bo = backend_of_ok [OF Cons.prems(1) b(1)]
    then have "?w = put_node w oid (applyRemove_local now b key)" using b by (simp add: forward_replica_remove_def)
    moreover have "world_ok (put_node w oid (applyRemove_local now b key)) r"
      using bo Cons.prems(1) by (intro world_ok_put) (simp_all add: applyRemove_local_ok)
    ultimately show ?thesis using bo b by (simp add: applyRemove_local_ok backend_of_def)
  qed
  note step = this
  have "w' = fanout_remove now self key oids ?w" using Cons.prems(2) by simp
  from Cons.IH [OF conjunct1 [OF step] this] step show ?case by (metis set_ConsD)
qed simp

lemma fanout_remove_self: "map_of (w_nodes (fanout_remove now self key oids w)) self = map_of (w_nodes w) self"
proof (induction oids arbitrary: w)
  case (Cons oid oids)
  have "map_of (w_nodes (fst (forward_replica_remove now w oid key))) self = map_of (w_nodes w) self" if "oid \<noteq> self"
    using that by (auto simp: forward_replica_remove_def split: option.split)
  then show ?case using Cons by simp
qed simp

text \<open>A removal applied at a node with fan-out: the node and every other reachable owner but the first lose the key.\<close>

lemma applyRemove_owners:
  assumes "world_ok w r" "map_of (w_nodes w) nid = Some dm" "owners = Ring_Lookup xxh r key" "dm_transport dm"
  shows "node_get (applyRemove xxh now w nid key True) nid key = None \<and>
    (\<forall>oid \<in> set (tl owners). backend_of w oid \<noteq> None \<longrightarrow> node_get (applyRemove xxh now w nid key True) oid key = None) \<and>
    map_of (w_nodes (applyRemove xxh now w nid key True)) nid = Some (applyRemove_local now dm key)"
proof -
  let ?w1 = "put_node w nid (applyRemove_local now dm key)"
  have dm: "shards_ok dm" "localID dm = nid" "mb_ring (dm_membership dm) = r" using assms(1,2) by (auto simp: world_ok_def)
  then have w1: "world_ok ?w1 r" using assms(1) by (intro world_ok_put) (simp_all add: applyRemove_local_ok)
  have eq: "applyRemove xxh now w nid key True = (if length owners \<le> 1 then ?w1 else fanout_remove now nid key (tl owners) ?w1)"
    using assms(2-4) dm(3) by (simp add: applyRemove_def lookupOwners_def Let_def)
  have self: "map_of (w_nodes (applyRemove xxh now w nid key True)) nid = Some (applyRemove_local now dm key)"
    unfolding eq by (simp add: fanout_remove_self)
  then have nid: "node_get (applyRemove xxh now w nid key True) nid key = None"
    using dm(1) by (simp add: node_get_def applyRemove_local_ok)
  have "node_get (applyRemove xxh now w nid key True) oid key = None" if "oid \<in> set (tl owners)" "backend_of w oid \<noteq> None" for oid
  proof (cases "oid = nid")
    case False
    have "backend_of ?w1 oid \<noteq> None" using that(2) False by (simp add: backend_of_def split: if_splits)
    moreover have "\<not> length owners \<le> 1" using that(1) by (cases owners) auto
    ultimately show ?thesis unfolding eq using fanout_remove_ok [OF w1 refl, of now nid key "tl owners"] that(1) False by simp
  qed (use nid in simp)
  with nid self show ?thesis by blast
qed

section \<open>Replay of hints\<close>

text \<open>What a replay keeps of a node's queue: the entries that neither expired nor could be delivered.\<close>

definition kept :: "int \<Rightarrow> World \<Rightarrow> string \<Rightarrow> hintedEntry list \<Rightarrow> hintedEntry list" where
  "kept now w nid q = filter (\<lambda>e. now \<le> he_expire e \<and> backend_of w nid = None) q"

lemma processHint_effect:
  assumes "processHint xxh now w nid e = (w1, rm)" "nid \<noteq> self"
  shows "map_of (w_nodes w1) self = map_of (w_nodes w) self" "\<And>x. backend_of w1 x = None \<longleftrightarrow> backend_of w x = None"
    "w_backends w1 = w_backends w" "rm \<longleftrightarrow> \<not> (now \<le> he_expire e \<and> backend_of w nid = None)"
proof -
  have fwd: "ForwardSet xxh w nid (he_item e) False = (case backend_of w nid of
      None \<Rightarrow> (w, Some ErrBackendNotFound)
    | Some b \<Rightarrow> (if ownsKeyInternal xxh b (Key (he_item e)) then put_node w nid (applySet_local xxh b (he_item e)) else w, None))"
    by (auto simp: ForwardSet_def applyForwardedSet_def applySet_def backend_of_def Let_def split: option.split)
  have "w1 = w \<or> (\<exists>b. map_of (w_nodes w) nid = Some b \<and> w1 = put_node w nid (applySet_local xxh b (he_item e)))"
    using assms(1) fwd by (auto simp: processHint_def backend_of_def split: if_splits option.splits)
  then show "map_of (w_nodes w1) self = map_of (w_nodes w) self" "\<And>x. backend_of w1 x = None \<longleftrightarrow> backend_of w x = None"
    "w_backends w1 = w_backends w"
    using assms(2) by (auto simp: backend_of_def split: if_splits)
  show "rm \<longleftrightarrow> \<not> (now \<le> he_expire e \<and> backend_of w nid = None)"
    using assms(1) fwd by (auto simp: processHint_def split: if_splits option.splits)
qed

abbreviation with_totals :: "DistMemory \<Rightarrow> int \<Rightarrow> int \<Rightarrow> DistMemory" where
  "with_totals dm c b \<equiv> dm\<lparr>hintTotal := c, hintBytes := b\<rparr>"

lemma replay_queue_effect:
  assumes "replay_queue xxh now self nid q w = (w', out)" "nid \<noteq> self" "map_of (w_nodes w) self = Some dm"
    and "\<forall>e \<in> set q. 0 \<le> he_size e" "int (length q) \<le> hintTotal dm" "sum_list (map he_size q) \<le> hintBytes dm"
  shows "out = kept now w nid q \<and> (\<forall>x. backend_of w' x = None \<longleftrightarrow> backend_of w x = None) \<and>
    map_of (w_nodes w') self = Some (with_totals dm (hintTotal dm - int (length q) + int (length out))
      (hintBytes dm - sum_list (map he_size q) + sum_list (map he_size out)))"
  using assms
proof (induction q arbitrary: w dm out)
  case Nil
  then show ?case by (simp add: kept_def)
next
  case (Cons e q)
  obtain w1 rm where ph: "processHint xxh now w nid e = (w1, rm)" by fastforce
  note pe = processHint_effect [OF ph Cons.prems(2)]
  have q: "\<forall>e \<in> set q. 0 \<le> he_size e" "0 \<le> he_size e" using Cons.prems(4) by simp_all
  have nn: "0 \<le> sum_list (map he_size q)" using q(1) by (intro sum_list_nonneg) auto
  have same: "kept now w1 nid q = kept now w nid q" using pe(2) by (simp add: kept_def)
  show ?case
  proof (cases rm)
    case True
    let ?dm = "with_totals dm (hintTotal dm - 1) (hintBytes dm - he_size e)"
    have "adjustHintAccounting (- 1) (- he_size e) dm = ?dm" using Cons.prems(5,6) nn by (simp add: adjustHintAccounting_def)
    with True ph pe(1) Cons.prems(1,3) have rq: "replay_queue xxh now self nid q (put_node w1 self ?dm) = (w', out)" by simp
    have "map_of (w_nodes (put_node w1 self ?dm)) self = Some ?dm" by simp
    from Cons.IH [OF rq Cons.prems(2) this q(1)] Cons.prems(5,6)
    have ih: "out = kept now (put_node w1 self ?dm) nid q" "\<And>x. backend_of w' x = None \<longleftrightarrow> backend_of (put_node w1 self ?dm) x = None"
      "map_of (w_nodes w') self = Some (with_totals dm (hintTotal dm - 1 - int (length q) + int (length out))
         (hintBytes dm - he_size e - sum_list (map he_size q) + sum_list (map he_size out)))" by simp_all
    have bk: "backend_of (put_node w1 self ?dm) x = None \<longleftrightarrow> backend_of w x = None" for x
      using pe(2) [of x] pe(1,3) Cons.prems(3) by (auto simp: backend_of_def)
    then have "out = kept now w nid (e # q)" using ih(1) True pe(4) by (simp add: kept_def)
    with ih(2,3) bk show ?thesis by (simp add: algebra_simps)
  next
    case False
    obtain w2 out' where rq: "replay_queue xxh now self nid q w1 = (w2, out')" by fastforce
    with False ph Cons.prems(1) have eq: "w2 = w'" "out = e # out'" by simp_all
    note rq = rq [unfolded eq(1)]
    have "map_of (w_nodes w1) self = Some dm" using pe(1) Cons.prems(3) by simp
    from Cons.IH [OF rq Cons.prems(2) this q(1)] Cons.prems(5,6) q(2) eq same pe(2,4) False show ?thesis
      by (simp add: kept_def algebra_simps)
  qed
qed

lemma with_totals_hints_ok [simp]: "hints_ok (with_totals dm c b) = hints_ok dm"
  by (simp add: hints_ok_def)

lemma queue_ok_kept:
  assumes "queue_ok n q"
  shows "queue_ok n (kept now w nid q)"
proof -
  have len: "int (length (kept now w nid q)) \<le> int (length q)" by (simp add: kept_def)
  have "set (kept now w nid q) \<subseteq> set q" by (auto simp: kept_def)
  with assms len show ?thesis unfolding queue_ok_def by (meson order_trans subsetD)
qed

text \<open>One node of the replay loop: its queue is cut down to what is kept, and the totals stay exact.\<close>

lemma replay_node_step:
  assumes "hints_ok dm" "hints_exact dm" "map_of (hints dm) nid = Some q" "out = kept now w nid q"
    and "dm1 = (with_totals dm (hintTotal dm - int (length q) + int (length out)) (hintBytes dm - sum_list (map he_size q) + sum_list (map he_size out)))
        \<lparr>hints := if out = [] then gm_del nid (hints dm) else gm_set nid out (hints dm)\<rparr>"
  shows "hints_ok dm1" "hints_exact dm1" "map_of (hints dm1) = (map_of (hints dm))(nid := if out = [] then None else Some out)"
proof -
  have wf: "gm_wf (hints dm)" and q: "queue_ok (hintMaxPerNode dm) q"
    using assms(1) map_of_SomeD [OF assms(3)] by (auto simp: hints_ok_def)
  then have out: "queue_ok (hintMaxPerNode dm) out" unfolding assms(4) by (intro queue_ok_kept)
  show "hints_ok dm1"
    using assms(1,5) hints_ok_set [OF assms(1) out, of nid] by (auto simp: hints_ok_def set_gm_del)
  show "hints_exact dm1"
    using assms(2,3,5) stored_set [OF wf, of nid out] stored_del [OF wf assms(3)] by (auto simp: hints_exact_def)
  show "map_of (hints dm1) = (map_of (hints dm))(nid := if out = [] then None else Some out)"
    using assms(5) by (simp add: gomap_simps)
qed

lemma replay_nodes_effect:
  assumes "map_of (w_nodes w) self = Some dm" "hints_ok dm" "hints_exact dm" "distinct (map fst nqs)" "self \<notin> fst ` set nqs"
    and "\<forall>(n, q) \<in> set nqs. map_of (hints dm) n = Some q"
  shows "\<exists>dm'. map_of (w_nodes (replay_nodes xxh now self nqs w)) self = Some dm' \<and> hints_ok dm' \<and> hints_exact dm' \<and>
    (\<forall>n. map_of (hints dm') n = (case map_of nqs n of None \<Rightarrow> map_of (hints dm) n
       | Some q \<Rightarrow> if kept now w n q = [] then None else Some (kept now w n q)))"
  using assms
proof (induction nqs arbitrary: w dm)
  case (Cons nq nqs)
  obtain n q where nq: "nq = (n, q)" by fastforce
  have n: "n \<noteq> self" "map_of (hints dm) n = Some q" "n \<notin> fst ` set nqs" using Cons.prems(4-6) nq by auto
  obtain w1 out where rq: "replay_queue xxh now self n q w = (w1, out)" by fastforce
  have wf: "gm_wf (hints dm)" and qs: "\<forall>(_, q) \<in> set (hints dm). queue_ok (hintMaxPerNode dm) q"
    using Cons.prems(2) by (auto simp: hints_ok_def)
  note ge = stored_ge_queue [OF wf n(2) qs]
  have sz: "\<forall>e \<in> set q. 0 \<le> he_size e" using qs map_of_SomeD [OF n(2)] by (auto simp: queue_ok_def)
  let ?dm = "(with_totals dm (hintTotal dm - int (length q) + int (length out)) (hintBytes dm - sum_list (map he_size q) + sum_list (map he_size out)))
        \<lparr>hints := if out = [] then gm_del n (hints dm) else gm_set n out (hints dm)\<rparr>"
  let ?w = "put_node w1 self ?dm"
  from replay_queue_effect [OF rq n(1) Cons.prems(1) sz] ge Cons.prems(3)
  have e: "out = kept now w n q" "\<And>x. backend_of w1 x = None \<longleftrightarrow> backend_of w x = None"
    "map_of (w_nodes w1) self = Some (with_totals dm (hintTotal dm - int (length q) + int (length out)) (hintBytes dm - sum_list (map he_size q) + sum_list (map he_size out)))"
    by (simp_all add: hints_exact_def)
  note st = replay_node_step [OF Cons.prems(2,3) n(2) e(1) refl]
  have run: "replay_nodes xxh now self (nq # nqs) w = replay_nodes xxh now self nqs ?w" using nq rq e(3) by simp
  have bk: "kept now ?w x qq = kept now w x qq" for x qq using e(2) [of x] e(3) by (auto simp: kept_def backend_of_def)
  have "\<forall>(m, q') \<in> set nqs. map_of (hints ?dm) m = Some q'" unfolding st(3) using Cons.prems(6) n(3) by (force)
  with Cons.IH [of ?w, OF _ st(1,2)] Cons.prems(4,5) nq
  obtain dm' where dm': "map_of (w_nodes (replay_nodes xxh now self nqs ?w)) self = Some dm'" "hints_ok dm'" "hints_exact dm'"
    "\<And>m. map_of (hints dm') m = (case map_of nqs m of None \<Rightarrow> map_of (hints ?dm) m
       | Some q \<Rightarrow> if kept now ?w m q = [] then None else Some (kept now ?w m q))" by auto
  have "map_of nqs n = None" using n(3) by (simp add: map_of_eq_None_iff)
  with dm'(4) have "map_of (hints dm') m = (case map_of (nq # nqs) m of None \<Rightarrow> map_of (hints dm) m
       | Some q \<Rightarrow> if kept now w m q = [] then None else Some (kept now w m q))" for m
    unfolding st(3) bk using nq e(1) by (simp split: option.split)
  with dm' run show ?case by (intro exI [of _ dm']) simp
qed simp

end
