(* ===== verification/DistResults.thy ===== *)
theory DistResults
  imports DistOps
begin

text \<open>
  What the distributed operations promise, and where the code falls short of its comments: quorum reads
  after quorum writes, read repair, error paths of writes, forwarded and promoted writes, removals and
  the replay of hints. The witnesses run on a cluster of three nodes.
\<close>

section \<open>A cluster of three\<close>

definition trio_ring :: Ring where
  "trio_ring = \<lparr>vnodes = [\<lparr>vn_hash = 1, vn_nid = ''a''\<rparr>, \<lparr>vn_hash = 2, vn_nid = ''b''\<rparr>, \<lparr>vn_hash = 3, vn_nid = ''c''\<rparr>],
     vnPerNode = 1, replication = 3\<rparr>"

definition flat_hash :: "string \<Rightarrow> 64 word" where
  "flat_hash _ = 0"

definition no_json :: "gval \<Rightarrow> nat option" where
  "no_json _ = None"

definition plain_config :: DistConfig where
  "plain_config = \<lparr>nodeID = [], nodeAddr = [], seeds = [], cfg_replication = 3, cfg_virtualNodes = 1, hbInterval = 0, hbSuspectAfter = 0, hbDeadAfter = 0,
     hbSampleSize = 0, indirectProbeK = 0, indirectProbeTimeout = 0, hintReplayInt = 0, gossipInterval = 0, merkleChunkSize = 2, listKeysMax = 0,
     autoSyncInterval = 0, autoSyncPeersPerInterval = 0, autoSyncMaxBackoffFactor = 0, tombstoneSweepInt = 0, rebalanceInterval = 0,
     rebalanceBatchSize = 0, rebalanceMaxConcurrent = 0, repairBatchInterval = 0, repairBatchSize = 0\<rparr>"

definition node_with :: "string \<Rightarrow> (string, Item) gomap \<Rightarrow> DistMemory" where
  "node_with nid its = \<lparr>dm_shards = [empty_shard\<lparr>ds_items := its\<rparr>], shardCount = 1, dm_capacity = 0, localID = nid, dm_membership = NewMembership trio_ring,
     dm_transport = True, dm_repairQueue = None, readConsistency = ConsistencyQuorum, writeConsistency = ConsistencyQuorum,
     versionCounter = 0, hintTTL = 0, hintMaxPerNode = 0, hintMaxTotal = 0, hintMaxBytes = 0, hints = [], hintTotal = 0, hintBytes = 0,
     parallelReads = True, tombVersionCounter = 0, tombstoneTTL = 0, removalGracePeriod = 0, replicaDiffMaxPerTick = 0, autoSyncBackoffFactor = 0, draining = False, dm_cfg = plain_config\<rparr>"

definition an_item :: "string \<Rightarrow> 64 word \<Rightarrow> string \<Rightarrow> Item" where
  "an_item v ver origin = \<lparr>Key = ''k'', Val = GString v, LastAccess = 0, LastUpdated = 0, Size = 0, Expiration = 0, AccessCount = 0,
     Version = ver, Origin = origin\<rparr>"

definition trio :: "(string, Item) gomap \<Rightarrow> (string, Item) gomap \<Rightarrow> (string, Item) gomap \<Rightarrow> string list \<Rightarrow> World" where
  "trio ia ib ic reachable = \<lparr>w_nodes = [(''a'', node_with ''a'' ia), (''b'', node_with ''b'' ib), (''c'', node_with ''c'' ic)], w_backends = reachable\<rparr>"

lemma trio_owners [simp]: "Ring_Lookup flat_hash trio_ring key = [''a'', ''b'', ''c'']"
proof -
  have "Ring_Lookup flat_hash trio_ring key = Ring_Lookup flat_hash trio_ring []" by (simp add: Ring_Lookup_def flat_hash_def)
  also have "\<dots> = [''a'', ''b'', ''c'']" by code_simp
  finally show ?thesis .
qed

lemma hashKey_one [simp]: "shardCount dm = 1 \<Longrightarrow> hashKey dm key = 0"
  by (simp add: hashKey_def)

lemmas dist_eval = setImpl_def set_as_primary_def applySet_def applySet_local_def replicateTo_def ForwardSet_def forward_replica_set_def applyForwardedSet_def
  ownsKeyInternal_def lookupOwners_def recordOriginalPrimary_def handleForwardPrimary_def queueHint_def requiredAcks_def
  getImpl_def getWithConsistency_def fetchOwner_def ForwardGet_def backend_of_def repairStaleOwners_def repairLocalReplica_def
  repairRemoteReplica_def local_get_def dm_shardFor_def put_shard_def put_node_def node_get_def second_newer_def
  trio_def node_with_def an_item_def empty_shard_def NewMembership_def Let_def

lemma trio_ok:
  assumes "\<forall>(k, it) \<in> set (ia @ ib @ ic). Key it = k" "gm_wf ia" "gm_wf ib" "gm_wf ic"
  shows "world_ok (trio ia ib ic reachable) trio_ring"
  using assms by (auto simp: world_ok_def trio_def node_with_def shards_ok_def shard_ok_def empty_shard_def NewMembership_def)

section \<open>Reads and writes\<close>

text \<open>
  C17. When the write level of the primary and the read level of a node add up to more than the number of
  owners, a read that answers after a successful write through the primary never returns a copy older
  than the one written, whichever nodes are reachable by then and in whichever order owners answer.
\<close>

theorem quorum_read_sees_quorum_write:
  assumes "world_ok w r" "owners = Ring_Lookup xxh r (Key item)" "owners \<noteq> []" "hd owners = p"
    and "map_of (w_nodes w) p = Some dm" "setImpl xxh jl now w p item = (w1, None)"
    and "map_of (w_nodes w1) rd = Some reader" "readConsistency reader \<noteq> ConsistencyOne" "mset arrival = mset owners"
    and "length owners < requiredAcks (length owners) (writeConsistency dm) + requiredAcks (length owners) (readConsistency reader)"
    and "getImpl xxh (w1\<lparr>w_backends := reachable\<rparr>) rd (Key item) arrival = (w2, Some it)"
  shows "\<not> second_newer it (stamped dm now p item)"
proof -
  let ?w1 = "w1\<lparr>w_backends := reachable\<rparr>"
  have ring: "lookupOwners xxh dm (Key item) = owners" using assms(1,2,5) by (auto simp: world_ok_def lookupOwners_def)
  from assms(3-6) ring have set: "set_as_primary xxh jl now w p dm owners False item = (w1, None)"
    by (simp add: setImpl_def Let_def split: if_splits)
  have "p \<in> set owners" using assms(3,4) by auto
  from set_as_primary_acks [OF assms(1,5,2) this set] obtain A where A: "A \<subseteq> set owners" "world_ok w1 r"
    "requiredAcks (length owners) (writeConsistency dm) \<le> card A" "\<forall>a \<in> A. node_get w1 a (Key item) = Some (stamped dm now p item)"
    by auto
  have "lookupOwners xxh reader (Key item) = owners" using A(2) assms(2,7) by (auto simp: world_ok_def lookupOwners_def)
  with read_quorum [OF assms(11) _ assms(8), of owners] assms(7,9) obtain B where B: "B \<subseteq> set owners"
    "card B = requiredAcks (length owners) (readConsistency reader)"
    "\<forall>b \<in> B. \<exists>c. node_get ?w1 b (Key item) = Some c \<and> \<not> second_newer it c" by auto
  have "card (set owners) = length owners" using assms(2) by (simp add: distinct_card)
  with overlap [OF A(1) B(1)] A(3) B(2) assms(10) obtain x where "x \<in> A" "x \<in> B" by auto
  with A(4) B(3) show ?thesis by (fastforce simp: node_get_def)
qed



lemma fanout_set_self: "map_of (w_nodes (fanout_set xxh self item oids w)) self = map_of (w_nodes w) self"
proof (induction oids arbitrary: w)
  case (Cons oid oids)
  have "map_of (w_nodes (fst (forward_replica_set xxh w oid item))) self = map_of (w_nodes w) self" if "oid \<noteq> self"
    using that by (auto simp: forward_replica_set_def split: option.split)
  then show ?case using Cons by simp
qed simp

text \<open>
  A write that reaches its primary through another node is reported as a success whatever the write
  level, and the primary stores it as it came: no version is assigned and its counter stays.
\<close>

lemma forwarded_write_unstamped:
  assumes "world_ok w r" "owners = Ring_Lookup xxh r (Key item)" "owners \<noteq> []" "hd owners = p" "p \<noteq> self"
    and "map_of (w_nodes w) self = Some dm" "\<not> draining dm" "dm_transport dm" "backend_of w p = Some b"
  shows "snd (setImpl xxh jl now w self item) = None \<and>
    map_of (w_nodes (fst (setImpl xxh jl now w self item))) p = Some (applySet_local xxh b item) \<and>
    versionCounter (applySet_local xxh b item) = versionCounter b \<and> node_get (fst (setImpl xxh jl now w self item)) p (Key item) = Some item"
proof -
  have own: "lookupOwners xxh dm (Key item) = owners" using assms(1,2,6) by (auto simp: world_ok_def lookupOwners_def)
  note b = backend_of_ok [OF assms(1,9)]
  have "p \<in> set owners" using assms(3,4) by auto
  with b assms(2) have "ownsKeyInternal xxh b (Key item)" by (simp add: ownsKeyInternal_def lookupOwners_def Let_def)
  then have "ForwardSet xxh w p item True = (applySet xxh w p item True, None)"
    using assms(9) by (simp add: ForwardSet_def applyForwardedSet_def)
  then have eq: "setImpl xxh jl now w self item = (applySet xxh w p item True, None)"
    using assms(3-8) own by (simp add: setImpl_def handleForwardPrimary_def Let_def)
  have "map_of (w_nodes (applySet xxh w p item True)) p = Some (applySet_local xxh b item)"
    using b by (simp add: applySet_def Let_def fanout_set_self)
  with eq b show ?thesis by (simp add: node_get_def applySet_local_get) (simp add: applySet_local_def put_shard_def Let_def)
qed

text \<open>
  An acknowledged write is lost. All three owners hold version 1 of a key; while the third owner is
  unreachable a client writes through the second node and is told of success; once the third owner is
  back, a quorum read returns the old value.
\<close>

lemma forwarded_write_lost:
  "let old = an_item ''x'' 1 ''a'';
       (w1, e) = setImpl flat_hash no_json 7 (trio [(''k'', old)] [(''k'', old)] [(''k'', old)] [''a'', ''b'']) ''b'' (an_item ''y'' 0 [])
   in e = None \<and> snd (getImpl flat_hash (w1\<lparr>w_backends := [''a'', ''b'', ''c'']\<rparr>) ''a'' ''k'' [''c'', ''a'', ''b'']) = Some old"
  by (simp add: dist_eval)

text \<open>
  A replica that takes over for an unreachable primary numbers the write from its own counter. The
  write is acknowledged by a quorum and yet, when the old primary is back, a quorum read returns the
  older value, whose version is higher.
\<close>

lemma promoted_write_lost:
  "let old = an_item ''x'' 3 ''a'';
       (w1, e) = setImpl flat_hash no_json 7 (trio [(''k'', old)] [(''k'', old)] [(''k'', old)] [''b'', ''c'']) ''b'' (an_item ''y'' 0 [])
   in e = None \<and> snd (getImpl flat_hash (w1\<lparr>w_backends := [''a'', ''b'', ''c'']\<rparr>) ''c'' ''k'' [''a'', ''b'', ''c'']) = Some old"
  by (simp add: dist_eval)

section \<open>Witnesses\<close>

theorem quorum_read_sees_quorum_write_witness:
  "\<exists>w2 it. getImpl flat_hash ((fst (setImpl flat_hash no_json 7 (trio [] [] [] [''a'', ''b'']) ''a'' (an_item ''x'' 0 [])))\<lparr>w_backends := [''a'']\<rparr>)
     ''b'' ''k'' [''c'', ''b'', ''a''] = (w2, Some it) \<and> \<not> second_newer it (stamped (node_with ''a'' []) 7 ''a'' (an_item ''x'' 0 []))"
proof -
  let ?w = "trio [] [] [] [''a'', ''b'']" and ?it = "an_item ''x'' 0 []"
  let ?w1 = "fst (setImpl flat_hash no_json 7 ?w ''a'' ?it)"
  let ?b = "applySet_local flat_hash (node_with ''b'' []) (stamped (node_with ''a'' []) 7 ''a'' ?it)"
  have set: "setImpl flat_hash no_json 7 ?w ''a'' ?it = (?w1, None)" by (simp add: dist_eval)
  have b: "map_of (w_nodes ?w1) ''b'' = Some ?b" by (simp add: dist_eval stamped_def)
  have lvl: "readConsistency ?b = ConsistencyQuorum" "writeConsistency (node_with ''a'' []) = ConsistencyQuorum"
    by (simp_all add: applySet_local_def put_shard_def node_with_def Let_def)
  obtain w2 it where get: "getImpl flat_hash (?w1\<lparr>w_backends := [''a'']\<rparr>) ''b'' ''k'' [''c'', ''b'', ''a''] = (w2, Some it)"
    by (simp add: dist_eval)
  have "world_ok ?w trio_ring" by (rule trio_ok) simp_all
  from quorum_read_sees_quorum_write [OF this refl _ _ _ set b, of "node_with ''a'' []" "[''c'', ''b'', ''a'']" "[''a'']" w2 it] get lvl
  have "\<not> second_newer it (stamped (node_with ''a'' []) 7 ''a'' ?it)" by (simp add: requiredAcks_def trio_def an_item_def)
  with get show ?thesis by blast
qed



lemma forwarded_write_unstamped_example:
  "let w = trio [] [] [] [''a''] in
   snd (setImpl flat_hash no_json 7 w ''b'' (an_item ''x'' 0 [])) = None \<and>
   node_get (fst (setImpl flat_hash no_json 7 w ''b'' (an_item ''x'' 0 []))) ''a'' ''k'' = Some (an_item ''x'' 0 [])"
proof -
  let ?w = "trio [] [] [] [''a'']" and ?it = "an_item ''x'' 0 []"
  have "world_ok ?w trio_ring" by (rule trio_ok) simp_all
  moreover have "map_of (w_nodes ?w) ''b'' = Some (node_with ''b'' [])" "backend_of ?w ''a'' = Some (node_with ''a'' [])"
    by (simp_all add: trio_def backend_of_def)
  moreover have "\<not> draining (node_with ''b'' [])" "dm_transport (node_with ''b'' [])" "Key ?it = ''k''" by (simp_all add: node_with_def an_item_def)
  ultimately show ?thesis
    using forwarded_write_unstamped [of ?w trio_ring _ flat_hash ?it "''a''" "''b''" "node_with ''b'' []" "node_with ''a'' []" no_json 7]
    by (simp add: Let_def)
qed

section \<open>Removing a key\<close>

text \<open>
  C20. A removal of a key, from any node that is not draining, succeeds when the primary is the node itself
  or reachable; afterwards no reachable owner holds the key, and the primary keeps a tombstone one
  version ahead of the copy it removed.
\<close>

theorem Remove_reaches_owners:
  assumes "world_ok w r" "owners = Ring_Lookup xxh r key" "owners \<noteq> []" "hd owners = p"
    and "map_of (w_nodes w) self = Some dm" "\<not> draining dm" "dm_transport dm"
    and "map_of (w_nodes w) p = Some prim" "dm_transport prim" "p = self \<or> p \<in> set (w_backends w)"
  shows "\<exists>w' prim'. removeImpl xxh now w self [key] = (w', None) \<and>
    (\<forall>oid \<in> set owners. oid = p \<or> backend_of w oid \<noteq> None \<longrightarrow> node_get w' oid key = None) \<and>
    map_of (w_nodes w') p = Some prim' \<and>
    (\<exists>t. local_tomb prim' key = Some t \<and>
      (\<forall>it. local_get prim key = Some it \<longrightarrow> Version it + 1 \<noteq> 0 \<longrightarrow> tb_version t = Version it + 1))"
proof -
  have own: "lookupOwners xxh dm key = owners" using assms(1,2,5) by (auto simp: world_ok_def lookupOwners_def)
  have "removeImpl xxh now w self [key] = (applyRemove xxh now w p key True, None)"
  proof (cases "p = self")
    case True
    with own assms(3-6) show ?thesis by (simp add: removeImpl_def Let_def)
  next
    case False
    with assms(8,10) have "ForwardRemove xxh now w p key True = (applyRemove xxh now w p key True, None)"
      by (simp add: ForwardRemove_def backend_of_def)
    with False own assms(3-7) show ?thesis by (simp add: removeImpl_def forwardOrPromoteRemove_def Let_def)
  qed
  moreover note rem = applyRemove_owners [OF assms(1,8,2,9), of now]
  have "set owners = insert p (set (tl owners))" using assms(3,4) by (cases owners) auto
  with rem have "\<forall>oid \<in> set owners. oid = p \<or> backend_of w oid \<noteq> None \<longrightarrow> node_get (applyRemove xxh now w p key True) oid key = None" by auto
  moreover have "shards_ok prim" using assms(1,8) by (simp add: world_ok_def)
  note applyRemove_local_ok(6) [OF this, of now key]
  ultimately show ?thesis using rem by blast
qed

definition level_one :: "World \<Rightarrow> World" where
  "level_one w = w\<lparr>w_nodes := map (\<lambda>(n, dm). (n, dm\<lparr>readConsistency := ConsistencyOne\<rparr>)) (w_nodes w)\<rparr>"

text \<open>
  Tombstones do not protect a removed key. The third owner misses the removal and keeps version 1; a
  read at level one through the primary finds that copy and stores it again beside the tombstone of
  version 2.
\<close>

lemma removed_key_resurrected:
  "let old = an_item ''x'' 1 ''a'';
       (w1, e) = removeImpl flat_hash 7 (level_one (trio [(''k'', old)] [(''k'', old)] [(''k'', old)] [''a'', ''b''])) ''a'' [''k''];
       (w2, res) = getImpl flat_hash (w1\<lparr>w_backends := [''a'', ''b'', ''c'']\<rparr>) ''a'' ''k'' []
   in e = None \<and> node_get w1 ''a'' ''k'' = None \<and> res = Some old \<and> node_get w2 ''a'' ''k'' = Some old \<and>
      map_option (\<lambda>dm. map_option tb_version (local_tomb dm ''k'')) (map_of (w_nodes w2) ''a'') = Some (Some 2)"
  by (simp add: dist_eval removeImpl_def applyRemove_def applyRemove_local_def forward_replica_remove_def level_one_def
      tryLocalGet_def tryRemoteGet_def local_tomb_def)

theorem Remove_reaches_owners_witness:
  "\<exists>w'. removeImpl flat_hash 7 (trio [(''k'', an_item ''x'' 1 ''a'')] [] [(''k'', an_item ''x'' 1 ''a'')] [''a'', ''c'']) ''b'' [''k''] = (w', None) \<and>
     node_get w' ''a'' ''k'' = None \<and> node_get w' ''c'' ''k'' = None"
proof -
  let ?it = "an_item ''x'' 1 ''a''"
  let ?w = "trio [(''k'', ?it)] [] [(''k'', ?it)] [''a'', ''c'']"
  have "world_ok ?w trio_ring" by (rule trio_ok) (simp_all add: an_item_def)
  moreover have "map_of (w_nodes ?w) ''b'' = Some (node_with ''b'' [])" "map_of (w_nodes ?w) ''a'' = Some (node_with ''a'' [(''k'', ?it)])"
    "''a'' \<in> set (w_backends ?w)" "backend_of ?w ''c'' \<noteq> None" by (simp_all add: trio_def backend_of_def)
  moreover have "\<not> draining (node_with ''b'' [])" "dm_transport (node_with ''b'' [])" "dm_transport (node_with ''a'' [(''k'', ?it)])"
    by (simp_all add: node_with_def)
  ultimately show ?thesis
    using Remove_reaches_owners [of ?w trio_ring _ flat_hash "''k''" "''a''" "''b''" "node_with ''b'' []" "node_with ''a'' [(''k'', ?it)]" 7]
    by auto
qed

section \<open>Hints\<close>

text \<open>
  C23. A replay leaves in a node's hint queues exactly the entries that have not expired and whose target is
  unreachable; the bounds of the queues and the exactness of the two running totals are kept.
\<close>

theorem replayHints_drains:
  assumes "map_of (w_nodes w) self = Some dm" "dm_transport dm" "hints_ok dm" "hints_exact dm" "self \<notin> fst ` set (hints dm)"
  shows "\<exists>dm'. map_of (w_nodes (replayHints xxh now w self)) self = Some dm' \<and> hints_ok dm' \<and> hints_exact dm' \<and>
    (\<forall>n. map_of (hints dm') n = (case map_of (hints dm) n of None \<Rightarrow> None
       | Some q \<Rightarrow> if kept now w n q = [] then None else Some (kept now w n q)))"
proof -
  have "gm_wf (hints dm)" using assms(3) by (simp add: hints_ok_def)
  then have "distinct (map fst (hints dm))" "\<forall>(n, q) \<in> set (hints dm). map_of (hints dm) n = Some q"
    using gm_in_set_iff [of "hints dm"] by (fastforce simp: gm_wf_def)+
  from replay_nodes_effect [OF assms(1,3,4) this(1) assms(5) this(2), of xxh now] obtain dm' where
    dm': "map_of (w_nodes (replay_nodes xxh now self (hints dm) w)) self = Some dm'" "hints_ok dm'" "hints_exact dm'"
    "\<And>n. map_of (hints dm') n = (case map_of (hints dm) n of None \<Rightarrow> map_of (hints dm) n
       | Some q \<Rightarrow> if kept now w n q = [] then None else Some (kept now w n q))" by blast
  have "map_of (hints dm') n = (case map_of (hints dm) n of None \<Rightarrow> None
       | Some q \<Rightarrow> if kept now w n q = [] then None else Some (kept now w n q))" for n
    unfolding dm'(4) by (simp split: option.split)
  moreover have "replayHints xxh now w self = replay_nodes xxh now self (hints dm) w" using assms(1,2) by (simp add: replayHints_def)
  ultimately show ?thesis using dm'(1-3) by auto
qed

text \<open>
  Queueing a hint keeps the queues within their bound. The running totals stay exact, with one
  exception: when the queue of the target is full and a global cap then rejects the new hint, the oldest
  entry stays queued although it was subtracted, and the totals understate what is stored.
\<close>

lemma queueHint_accounting:
  assumes "hints_ok dm" "hints_exact dm" "0 < hintTTL dm" "dm' = queueHint jl now dm nid item src"
  shows "hints_ok dm' \<and>
    (if hint_full dm nid \<and> hint_capped (after_drop dm nid) (approxHintSize jl item)
     then hints dm' = hints dm \<and> hintTotal dm' = stored_count (hints dm') - 1 \<and>
       hintBytes dm' = stored_bytes (hints dm') - he_size (hd (hint_queue dm nid))
     else hints_exact dm')"
proof (cases "hint_full dm nid \<and> hint_capped (after_drop dm nid) (approxHintSize jl item)")
  case True
  then have "dm' = after_drop dm nid" using assms(3,4) by (simp add: queueHint_cases)
  with True after_drop_totals [OF assms(1,2), of nid] show ?thesis
    using queueHint_ok [OF assms(1), of jl now nid item src, folded assms(4)] by auto
next
  case False
  then have "hints_exact dm'" using queueHint_exact [OF assms(1,2)] assms(3,4) by blast
  with False queueHint_ok [OF assms(1), of jl now nid item src, folded assms(4)] show ?thesis by auto
qed

text \<open>A node that queues hints: one entry per target, ten bytes in all.\<close>

definition hinting :: DistMemory where
  "hinting = (node_with ''a'' [])\<lparr>hintTTL := 100, hintMaxPerNode := 1, hintMaxBytes := 10\<rparr>"

text \<open>With a small hint queued, an oversized one is rejected and the byte total drops to zero; a further
  hint of ten bytes is then accepted and the queues hold twelve.\<close>

lemma queueHint_accounting_example:
  "let dm = queueHint no_json 0 hinting ''b'' (an_item ''x'' 1 ''a'') hintSourceReplication;
       dm1 = queueHint no_json 1 dm ''b'' (an_item ''0123456789'' 2 ''a'') hintSourceReplication;
       dm2 = queueHint no_json 2 dm1 ''c'' (an_item ''012345678'' 3 ''a'') hintSourceReplication
   in hints dm1 = hints dm \<and> hintTotal dm1 = stored_count (hints dm1) - 1 \<and> hintBytes dm1 = stored_bytes (hints dm1) - 2 \<and>
      stored_bytes (hints dm2) = 12 \<and> hintMaxBytes dm2 = 10"
proof -
  let ?dm = "queueHint no_json 0 hinting ''b'' (an_item ''x'' 1 ''a'') hintSourceReplication"
  let ?it = "an_item ''0123456789'' 2 ''a''"
  let ?dm1 = "queueHint no_json 1 ?dm ''b'' ?it hintSourceReplication"
  note ev = queueHint_def hinting_def node_with_def an_item_def approxHintSize_def adjustHintAccounting_def hint_queue_def Let_def
  have "hints_ok ?dm" "hints_exact ?dm" "0 < hintTTL ?dm"
    by (simp_all add: ev hints_ok_def hints_exact_def queue_ok_def stored_count_def stored_bytes_def)
  moreover have "hint_full ?dm ''b''" "he_size (hd (hint_queue ?dm ''b'')) = 2" by (simp_all add: ev hint_full_def)
  moreover have "hint_capped (after_drop ?dm ''b'') (approxHintSize no_json ?it)" by (simp add: ev hint_capped_def after_drop_def hint_full_def)
  ultimately have "hints ?dm1 = hints ?dm \<and> hintTotal ?dm1 = stored_count (hints ?dm1) - 1 \<and> hintBytes ?dm1 = stored_bytes (hints ?dm1) - 2"
    using queueHint_accounting [of ?dm ?dm1 no_json 1 "''b''" ?it hintSourceReplication] by simp
  moreover have "stored_bytes (hints (queueHint no_json 2 ?dm1 ''c'' (an_item ''012345678'' 3 ''a'') hintSourceReplication)) = 12"
    "hintMaxBytes (queueHint no_json 2 ?dm1 ''c'' (an_item ''012345678'' 3 ''a'') hintSourceReplication) = 10"
    by (simp_all add: ev stored_bytes_def)
  ultimately show ?thesis by (simp only: Let_def)
qed

theorem replayHints_drains_witness:
  "let dm = queueHint no_json 0 (queueHint no_json 0 hinting ''b'' (an_item ''x'' 1 ''a'') hintSourceReplication) ''c'' (an_item ''x'' 1 ''a'') hintSourceReplication;
       w = put_node (trio [] [] [] [''b'']) ''a'' dm
   in \<exists>dm'. map_of (w_nodes (replayHints flat_hash 5 w ''a'')) ''a'' = Some dm' \<and> map_of (hints dm') ''b'' = None \<and> map_of (hints dm') ''c'' \<noteq> None \<and> hints_exact dm'"
proof -
  let ?dm = "queueHint no_json 0 (queueHint no_json 0 hinting ''b'' (an_item ''x'' 1 ''a'') hintSourceReplication) ''c'' (an_item ''x'' 1 ''a'') hintSourceReplication"
  let ?w = "put_node (trio [] [] [] [''b'']) ''a'' ?dm"
  note ev = queueHint_def hinting_def node_with_def an_item_def approxHintSize_def adjustHintAccounting_def hint_queue_def Let_def
  have a: "map_of (w_nodes ?w) ''a'' = Some ?dm" by simp
  have "dm_transport ?dm" "hints_ok ?dm" "hints_exact ?dm" "''a'' \<notin> fst ` set (hints ?dm)"
    by (simp_all add: ev hints_ok_def hints_exact_def queue_ok_def stored_count_def stored_bytes_def)
  from replayHints_drains [OF a this, of flat_hash 5] obtain dm' where
    dm': "map_of (w_nodes (replayHints flat_hash 5 ?w ''a'')) ''a'' = Some dm'" "hints_exact dm'"
    "\<And>n. map_of (hints dm') n = (case map_of (hints ?dm) n of None \<Rightarrow> None | Some q \<Rightarrow> if kept 5 ?w n q = [] then None else Some (kept 5 ?w n q))"
    by blast
  have bk: "backend_of ?w ''b'' \<noteq> None" "backend_of ?w ''c'' = None" by (simp_all add: backend_of_def trio_def)
  have "map_of (hints dm') ''b'' = None" "map_of (hints dm') ''c'' \<noteq> None"
    unfolding dm'(3) kept_def using bk by (simp_all add: ev)
  with dm'(1,2) show ?thesis by (simp only: Let_def) blast
qed

end
