(* ===== verification/DistMerkle.thy ===== *)
theory DistMerkle
  imports DistResults
begin

text \<open>
  Anti-entropy of \<open>pkg/backend/dist_memory.go\<close>: Merkle trees over key and version pairs, their
  comparison, and the synchronisation that pulls keys from a peer, with its adaptive backoff. The
  third-party \<open>sha256\<close> is the parameter \<open>sha\<close> from bytes to bytes, \<open>slices.SortFunc\<close> the parameter
  \<open>msort\<close>; the order in which Go walks a map is the order of the association list. Listing keys over
  HTTP, which only the HTTP transport does, is left out.
\<close>

section \<open>Trees\<close>

record merkleKV =
  mk_k :: string
  mk_v :: "64 word"

record MerkleTree =
  LeafHashes :: "string list"
  Root :: string
  ChunkSize :: nat

text \<open>\<open>strings.Compare\<close>.\<close>

definition str_Compare :: "string \<Rightarrow> string \<Rightarrow> int" where
  "str_Compare a b = (if a = b then 0 else if str_less a b then - 1 else 1)"

primrec encode_bytes :: "nat \<Rightarrow> 64 word \<Rightarrow> string" where
  "encode_bytes 0 v = []"
| "encode_bytes (Suc n) v = encode_bytes n (drop_bit 8 v) @ [char_of (unat (take_bit 8 v))]"

definition encodeUint64BigEndian :: "64 word \<Rightarrow> string" where
  "encodeUint64BigEndian v = encode_bytes 8 v"

definition merkleEntries :: "DistMemory \<Rightarrow> merkleKV list" where
  "merkleEntries dm = concat (map (\<lambda>s. map (\<lambda>(k, it). \<lparr>mk_k = k, mk_v = Version it\<rparr>) (ds_items s) @
     map (\<lambda>(k, ts). \<lparr>mk_k = k, mk_v = tb_version ts\<rparr>) (ds_tombs s)) (dm_shards dm))"

type_synonym msort = "(merkleKV \<Rightarrow> merkleKV \<Rightarrow> int) \<Rightarrow> merkleKV list \<Rightarrow> merkleKV list"

definition by_key :: "merkleKV \<Rightarrow> merkleKV \<Rightarrow> int" where
  "by_key a b = str_Compare (mk_k a) (mk_k b)"

definition sortedMerkleEntries :: "msort \<Rightarrow> DistMemory \<Rightarrow> merkleKV list" where
  "sortedMerkleEntries msort dm = msort by_key (merkleEntries dm)"

function chunks :: "nat \<Rightarrow> 'a list \<Rightarrow> 'a list list" where
  "chunks n xs = (if n = 0 \<or> xs = [] then [] else take n xs # chunks n (drop n xs))"
  by auto
termination by (relation "measure (\<lambda>(n, xs). length xs)") auto

declare chunks.simps [simp del]

text \<open>The bytes written into the hash for one chunk.\<close>

definition leaf_bytes :: "merkleKV list \<Rightarrow> string" where
  "leaf_bytes es = concat (map (\<lambda>e. mk_k e @ encodeUint64BigEndian (mk_v e)) es)"

fun merkle_level :: "(string \<Rightarrow> string) \<Rightarrow> string list \<Rightarrow> string list" where
  "merkle_level sha (a # b # rest) = sha (a @ b) # merkle_level sha rest"
| "merkle_level sha [a] = [a]"
| "merkle_level sha [] = []"

lemma length_merkle_level: "length (merkle_level sha xs) = (length xs + 1) div 2"
  by (induction sha xs rule: merkle_level.induct) auto

function foldMerkle :: "(string \<Rightarrow> string) \<Rightarrow> string list \<Rightarrow> string" where
  "foldMerkle sha leaves = (case leaves of [] \<Rightarrow> [] | [a] \<Rightarrow> a | _ \<Rightarrow> foldMerkle sha (merkle_level sha leaves))"
  by auto
termination by (relation "measure (\<lambda>(sha, xs). length xs)") (auto simp: length_merkle_level)

declare foldMerkle.simps [simp del]

definition defaultMerkleChunkSize :: int where
  "defaultMerkleChunkSize = 128"

definition chunk_size :: "DistMemory \<Rightarrow> nat" where
  "chunk_size dm = nat (if merkleChunkSize (dm_cfg dm) \<le> 0 then defaultMerkleChunkSize else merkleChunkSize (dm_cfg dm))"

definition BuildMerkleTree :: "(string \<Rightarrow> string) \<Rightarrow> msort \<Rightarrow> DistMemory \<Rightarrow> MerkleTree" where
  "BuildMerkleTree sha msort dm =
     (let leaves = map (\<lambda>c. sha (leaf_bytes c)) (chunks (chunk_size dm) (sortedMerkleEntries msort dm))
      in if merkleEntries dm = [] then \<lparr>LeafHashes = [], Root = [], ChunkSize = chunk_size dm\<rparr>
         else \<lparr>LeafHashes = leaves, Root = foldMerkle sha leaves, ChunkSize = chunk_size dm\<rparr>)"

fun equalBytes :: "string \<Rightarrow> string \<Rightarrow> bool" where
  "equalBytes a b = (if length a \<noteq> length b then False else list_all (\<lambda>i. a ! i = b ! i) [0..<length a])"

definition DiffLeafRanges :: "MerkleTree \<Rightarrow> MerkleTree \<Rightarrow> nat list" where
  "DiffLeafRanges mt other =
     (if length (LeafHashes mt) \<noteq> length (LeafHashes other) then [0..<length (LeafHashes mt)]
      else filter (\<lambda>i. \<not> equalBytes (LeafHashes mt ! i) (LeafHashes other ! i)) [0..<length (LeafHashes mt)])"

section \<open>Synchronisation\<close>

text \<open>What \<open>fetchAndAdopt\<close> does with the peer's answer, on the local shard of the key.\<close>

definition adopt_local :: "(string \<Rightarrow> 64 word) \<Rightarrow> int \<Rightarrow> DistMemory \<Rightarrow> string \<Rightarrow> Item option \<Rightarrow> DistMemory" where
  "adopt_local xxh now dm key remote =
     (let sh = dm_shardFor dm key in
      case remote of
        None \<Rightarrow>
          if map_of (ds_tombs sh) key \<noteq> None then dm
          else (case map_of (ds_items sh) key of
              None \<Rightarrow> dm
            | Some cur \<Rightarrow> put_shard dm key (sh\<lparr>ds_items := gm_del key (ds_items sh),
                ds_tombs := gm_set key \<lparr>tb_version = Version cur + 1, tb_origin = localID dm, tb_at = now\<rparr> (ds_tombs sh)\<rparr>))
      | Some it \<Rightarrow>
          let held = (case map_of (ds_tombs sh) key of None \<Rightarrow> False | Some tomb \<Rightarrow> tb_version tomb \<ge> Version it);
              dm1 = (if map_of (ds_tombs sh) key = None then dm else put_shard dm key (sh\<lparr>ds_tombs := gm_del key (ds_tombs sh)\<rparr>));
              newer = (case map_of (ds_items sh) key of None \<Rightarrow> True | Some cur \<Rightarrow> Version it > Version cur)
          in if held then dm else if newer then applySet_local xxh dm1 it else dm1)"

definition fetchAndAdopt :: "(string \<Rightarrow> 64 word) \<Rightarrow> int \<Rightarrow> World \<Rightarrow> string \<Rightarrow> string \<Rightarrow> string \<Rightarrow> World" where
  "fetchAndAdopt xxh now w self nid key = (case map_of (w_nodes w) self of
       None \<Rightarrow> w
     | Some dm \<Rightarrow>
         if \<not> dm_transport dm then w
         else (case ForwardGet w nid key of
             (_, Some _) \<Rightarrow> w
           | (remote, None) \<Rightarrow> put_node w self (adopt_local xxh now dm key remote)))"

primrec adopt_keys :: "(string \<Rightarrow> 64 word) \<Rightarrow> int \<Rightarrow> string \<Rightarrow> string \<Rightarrow> string list \<Rightarrow> World \<Rightarrow> World" where
  "adopt_keys xxh now self nid [] w = w"
| "adopt_keys xxh now self nid (k # ks) w = adopt_keys xxh now self nid ks (fetchAndAdopt xxh now w self nid k)"

definition diff_entries :: "merkleKV list \<Rightarrow> nat list \<Rightarrow> nat \<Rightarrow> merkleKV list" where
  "diff_entries entries diffs chunkSize = concat (map (\<lambda>ci. take chunkSize (drop (ci * chunkSize) entries)) diffs)"

definition applyMerkleDiffs :: "(string \<Rightarrow> 64 word) \<Rightarrow> int \<Rightarrow> World \<Rightarrow> string \<Rightarrow> string \<Rightarrow> merkleKV list \<Rightarrow> nat list \<Rightarrow> nat \<Rightarrow> World" where
  "applyMerkleDiffs xxh now w self nid entries diffs chunkSize =
     adopt_keys xxh now self nid (map mk_k (diff_entries entries diffs chunkSize)) w"

definition enumerateRemoteOnlyKeys :: "World \<Rightarrow> string \<Rightarrow> merkleKV list \<Rightarrow> string list" where
  "enumerateRemoteOnlyKeys w nid local = (case backend_of w nid of
       None \<Rightarrow> []
     | Some remote \<Rightarrow> filter (\<lambda>k. k \<notin> mk_k ` set local) (remdups (concat (map (\<lambda>s. map fst (ds_items s)) (dm_shards remote)))))"

definition errNoTransport :: sentinel where
  "errNoTransport = ErrText ''no transport''"

definition syncWithStatus :: "(string \<Rightarrow> 64 word) \<Rightarrow> (string \<Rightarrow> string) \<Rightarrow> msort \<Rightarrow> int \<Rightarrow> World \<Rightarrow> string \<Rightarrow> string
    \<Rightarrow> World \<times> (sentinel + bool)" where
  "syncWithStatus xxh sha msort now w self nid = (case map_of (w_nodes w) self of
       None \<Rightarrow> (w, Inl errNoTransport)
     | Some dm \<Rightarrow>
         if \<not> dm_transport dm then (w, Inl errNoTransport)
         else (case backend_of w nid of
             None \<Rightarrow> (w, Inl ErrBackendNotFound)
           | Some remote \<Rightarrow>
               let remoteTree = BuildMerkleTree sha msort remote;
                   localTree = BuildMerkleTree sha msort dm;
                   entries = sortedMerkleEntries msort dm;
                   diffs = DiffLeafRanges localTree remoteTree;
                   missing = enumerateRemoteOnlyKeys w nid entries;
                   w1 = applyMerkleDiffs xxh now w self nid entries diffs (ChunkSize localTree);
                   w2 = adopt_keys xxh now self nid missing w1
               in (w2, Inr (diffs = [] \<and> missing = []))))"

definition SyncWith :: "(string \<Rightarrow> 64 word) \<Rightarrow> (string \<Rightarrow> string) \<Rightarrow> msort \<Rightarrow> int \<Rightarrow> World \<Rightarrow> string \<Rightarrow> string \<Rightarrow> World \<times> sentinel option" where
  "SyncWith xxh sha msort now w self nid = (case syncWithStatus xxh sha msort now w self nid of
       (w1, Inl e) \<Rightarrow> (w1, Some e) | (w1, Inr _) \<Rightarrow> (w1, None))"

text \<open>One tick over the members: the members synced, whether any was dirty, and the last error.\<close>

primrec auto_sync_loop :: "(string \<Rightarrow> 64 word) \<Rightarrow> (string \<Rightarrow> string) \<Rightarrow> msort \<Rightarrow> int \<Rightarrow> string \<Rightarrow> string \<Rightarrow> int \<Rightarrow> string list
    \<Rightarrow> World \<Rightarrow> nat \<Rightarrow> bool \<Rightarrow> World \<times> nat \<times> bool" where
  "auto_sync_loop xxh sha msort now self selfCfg limit [] w synced dirty = (w, synced, dirty)"
| "auto_sync_loop xxh sha msort now self selfCfg limit (m # ms) w synced dirty =
     (if m = selfCfg then auto_sync_loop xxh sha msort now self selfCfg limit ms w synced dirty
      else if limit > 0 \<and> int synced \<ge> limit then (w, synced, dirty)
      else case syncWithStatus xxh sha msort now w self m of
          (w1, Inl _) \<Rightarrow> auto_sync_loop xxh sha msort now self selfCfg limit ms w1 (synced + 1) True
        | (w1, Inr clean) \<Rightarrow> auto_sync_loop xxh sha msort now self selfCfg limit ms w1 (synced + 1) (dirty \<or> \<not> clean))"

definition runAutoSyncTick :: "(string \<Rightarrow> 64 word) \<Rightarrow> (string \<Rightarrow> string) \<Rightarrow> msort \<Rightarrow> int \<Rightarrow> World \<Rightarrow> string \<Rightarrow> World \<times> bool" where
  "runAutoSyncTick xxh sha msort now w self = (case map_of (w_nodes w) self of
       None \<Rightarrow> (w, False)
     | Some dm \<Rightarrow> (case auto_sync_loop xxh sha msort now self (nodeID (dm_cfg dm)) (autoSyncPeersPerInterval (dm_cfg dm))
           (map node_ID (Membership_List (dm_membership dm))) w 0 False of
         (w1, synced, dirty) \<Rightarrow> (w1, synced > 0 \<and> \<not> dirty)))"

definition updateAutoSyncBackoff :: "DistMemory \<Rightarrow> bool \<Rightarrow> DistMemory" where
  "updateAutoSyncBackoff dm clean =
     (if autoSyncMaxBackoffFactor (dm_cfg dm) \<le> 1 then dm
      else dm\<lparr>autoSyncBackoffFactor :=
        if clean then min (autoSyncBackoffFactor dm * 2) (autoSyncMaxBackoffFactor (dm_cfg dm)) else 1\<rparr>)"

definition nextAutoSyncDelay :: "DistMemory \<Rightarrow> int \<Rightarrow> int" where
  "nextAutoSyncDelay dm interval =
     (if autoSyncMaxBackoffFactor (dm_cfg dm) \<le> 1 then interval else interval * max (autoSyncBackoffFactor dm) 1)"

section \<open>Comparing trees\<close>

lemma length_encode_bytes [simp]: "length (encode_bytes n v) = n"
  by (induction n arbitrary: v) simp_all

lemma encode_bytes_take: "encode_bytes n v = encode_bytes n w \<Longrightarrow> take_bit (8 * n) v = take_bit (8 * n) w"
proof (induction n arbitrary: v w)
  case (Suc n)
  from Suc.prems have "encode_bytes n (drop_bit 8 v) = encode_bytes n (drop_bit 8 w)"
    and c: "char_of (unat (take_bit 8 v)) = (char_of (unat (take_bit 8 w)) :: char)" by simp_all
  from Suc.IH [OF this(1)] have hi: "take_bit (8 * n) (drop_bit 8 v) = take_bit (8 * n) (drop_bit 8 w)" .
  have small: "unat (take_bit 8 x) < 256" for x :: "64 word"
    using take_bit_nat_less_exp [of 8 "unat x"] by (simp add: unsigned_take_bit_eq)
  from c have "of_char (char_of (unat (take_bit 8 v)) :: char) = (of_char (char_of (unat (take_bit 8 w)) :: char) :: nat)" by simp
  then have "unat (take_bit 8 v) = unat (take_bit 8 w)" using small [of v] small [of w] by (simp del: take_bit_eq_mod)
  then have lo: "take_bit 8 v = take_bit 8 w" by (rule unsigned_word_eqI)
  have "take_bit (8 * Suc n) x = or (push_bit 8 (take_bit (8 * n) (drop_bit 8 x))) (take_bit 8 x)" for x :: "64 word"
    by (rule bit_word_eqI) (auto simp: bit_simps)
  with hi lo show ?case by simp
qed simp

lemma encode_inj: "encodeUint64BigEndian v = encodeUint64BigEndian w \<longleftrightarrow> v = w"
proof
  assume "encodeUint64BigEndian v = encodeUint64BigEndian w"
  from encode_bytes_take [OF this [unfolded encodeUint64BigEndian_def]] have "take_bit 64 v = take_bit 64 w" by simp
  then show "v = w" using take_bit_length_eq [of v] take_bit_length_eq [of w] by simp
qed simp

lemma leaf_bytes_same_keys:
  "map mk_k es = map mk_k fs \<Longrightarrow> leaf_bytes es = leaf_bytes fs \<longleftrightarrow> es = (fs :: merkleKV list)"
proof (induction es arbitrary: fs)
  case (Cons e es)
  then obtain f fs' where fs: "fs = f # fs'" "mk_k e = mk_k f" "map mk_k es = map mk_k fs'" by (cases fs) auto
  have "leaf_bytes (e # es) = leaf_bytes fs \<longleftrightarrow> encodeUint64BigEndian (mk_v e) = encodeUint64BigEndian (mk_v f) \<and> leaf_bytes es = leaf_bytes fs'"
    using fs(1,2) by (simp add: leaf_bytes_def encodeUint64BigEndian_def)
  with Cons.IH [OF fs(3)] fs(1,2) show ?case by (auto simp: encode_inj)
qed simp

text \<open>Keys are not delimited: two entries encode like one entry with a longer key.\<close>

lemma leaf_encoding_ambiguous:
  "leaf_bytes [\<lparr>mk_k = k, mk_v = v\<rparr>, \<lparr>mk_k = l, mk_v = u\<rparr>] = leaf_bytes [\<lparr>mk_k = k @ encodeUint64BigEndian v @ l, mk_v = u\<rparr>]"
  by (simp add: leaf_bytes_def)

lemma equalBytes_eq [simp]: "equalBytes a b \<longleftrightarrow> a = b"
  by (auto simp: list_all_iff intro: nth_equalityI)

declare equalBytes.simps [simp del]

lemma chunks_map: "chunks n (map f xs) = map (map f) (chunks n xs)"
proof (induction n xs rule: chunks.induct)
  case (1 n xs)
  then show ?case by (subst (1 2) chunks.simps) (auto simp: take_map drop_map)
qed

lemma concat_chunks: "0 < n \<Longrightarrow> concat (chunks n xs) = xs"
proof (induction n xs rule: chunks.induct)
  case (1 n xs)
  then show ?case by (subst chunks.simps) auto
qed

lemma by_key_less: "by_key a b < 0 \<longleftrightarrow> str_less (mk_k a) (mk_k b)"
  by (auto simp: by_key_def str_Compare_def str_less_irrefl)

lemma by_key_weak: "strict_weak by_key"
  unfolding strict_weak_def by_key_less using str_less_irrefl str_less_trans str_less_neg_trans by blast

lemma sortedMerkleEntries_ok:
  assumes "sortFunc_ok msort"
  shows "mset (sortedMerkleEntries msort dm) = mset (merkleEntries dm)"
    "sorted_wrt (\<lambda>a b. \<not> str_less b a) (map mk_k (sortedMerkleEntries msort dm))"
  using assms by_key_weak unfolding sortFunc_ok_def sortedMerkleEntries_def by (auto simp: by_key_less sorted_wrt_map)

text \<open>A list of distinct keys in order is determined by the set of its keys.\<close>

lemma sorted_keys_unique:
  assumes "sorted_wrt (\<lambda>a b. \<not> str_less b a) xs" "sorted_wrt (\<lambda>a b. \<not> str_less b a) ys" "distinct xs" "distinct ys" "set xs = set ys"
  shows "xs = ys"
  using assms
proof (induction xs arbitrary: ys)
  case (Cons x xs)
  then obtain y ys' where ys: "ys = y # ys'" by (cases ys) auto
  have "x = y"
  proof (rule ccontr)
    assume "x \<noteq> y"
    then have "y \<in> set xs" "x \<in> set ys'" using Cons.prems(5) ys by auto
    then have "\<not> str_less y x" "\<not> str_less x y" using Cons.prems(1,2) ys by auto
    with \<open>x \<noteq> y\<close> str_less_total show False by blast
  qed
  moreover have "set xs = set ys'" using Cons.prems(3-5) ys \<open>x = y\<close> by auto
  ultimately show ?case using Cons.IH [of ys'] Cons.prems(1-4) ys by simp
qed simp

definition same_keys :: "DistMemory \<Rightarrow> DistMemory \<Rightarrow> bool" where
  "same_keys a b \<longleftrightarrow> distinct (map mk_k (merkleEntries a)) \<and> distinct (map mk_k (merkleEntries b)) \<and>
     mk_k ` set (merkleEntries a) = mk_k ` set (merkleEntries b)"

lemma same_keys_sorted:
  assumes "sortFunc_ok msort" "same_keys a b"
  shows "map mk_k (sortedMerkleEntries msort a) = map mk_k (sortedMerkleEntries msort b)"
proof (rule sorted_keys_unique)
  note o = sortedMerkleEntries_ok [OF assms(1)]
  have "mset (map mk_k (sortedMerkleEntries msort x)) = mset (map mk_k (merkleEntries x))" for x using o(1) by simp
  then show "distinct (map mk_k (sortedMerkleEntries msort a))" "distinct (map mk_k (sortedMerkleEntries msort b))"
    using assms(2) mset_eq_imp_distinct_iff unfolding same_keys_def by blast+
  show "set (map mk_k (sortedMerkleEntries msort a)) = set (map mk_k (sortedMerkleEntries msort b))"
    using assms(2) mset_eq_setD [OF o(1)] by (simp add: same_keys_def)
qed (rule sortedMerkleEntries_ok [OF assms(1)])+

text \<open>
  C22. Between two nodes that hold the same keys, each once, and use the same chunk size, the chunks
  reported as different are exactly those in which some version differs, provided the hash does not
  collide on what the two nodes feed it; so no difference is reported exactly when all versions agree.
\<close>

theorem DiffLeafRanges_exact:
  assumes "sortFunc_ok msort" "same_keys a b" "chunk_size a = chunk_size b" "0 < chunk_size a"
    and "ca = chunks (chunk_size a) (sortedMerkleEntries msort a)" "cb = chunks (chunk_size b) (sortedMerkleEntries msort b)"
    and "inj_on sha (leaf_bytes ` (set ca \<union> set cb))"
  shows "set (DiffLeafRanges (BuildMerkleTree sha msort a) (BuildMerkleTree sha msort b)) = {i. i < length ca \<and> ca ! i \<noteq> cb ! i} \<and>
    (DiffLeafRanges (BuildMerkleTree sha msort a) (BuildMerkleTree sha msort b) = [] \<longleftrightarrow> set (merkleEntries a) = set (merkleEntries b))"
proof -
  let ?ea = "sortedMerkleEntries msort a" and ?eb = "sortedMerkleEntries msort b"
  note o = sortedMerkleEntries_ok(1) [OF assms(1)]
  have keys: "map (map mk_k) ca = map (map mk_k) cb"
    using same_keys_sorted [OF assms(1,2)] assms(3,5,6) by (simp add: chunks_map [symmetric])
  then have len: "length ca = length cb" by (metis length_map)
  have leaves: "LeafHashes (BuildMerkleTree sha msort x) = map (\<lambda>c. sha (leaf_bytes c)) (chunks (chunk_size x) (sortedMerkleEntries msort x))" for x
  proof (cases "merkleEntries x = []")
    case True
    then have "sortedMerkleEntries msort x = []" using o [of x] by simp
    with True show ?thesis by (simp add: BuildMerkleTree_def Let_def chunks.simps)
  qed (simp add: BuildMerkleTree_def Let_def)
  have leaf: "sha (leaf_bytes (ca ! i)) = sha (leaf_bytes (cb ! i)) \<longleftrightarrow> ca ! i = cb ! i" if "i < length ca" for i
  proof -
    have "map mk_k (ca ! i) = map mk_k (cb ! i)" using keys that len by (metis nth_map)
    moreover have "leaf_bytes (ca ! i) \<in> leaf_bytes ` (set ca \<union> set cb)" "leaf_bytes (cb ! i) \<in> leaf_bytes ` (set ca \<union> set cb)"
      using that len by auto
    ultimately show ?thesis using assms(7) leaf_bytes_same_keys by (metis inj_onD)
  qed
  have set: "set (DiffLeafRanges (BuildMerkleTree sha msort a) (BuildMerkleTree sha msort b)) = {i. i < length ca \<and> ca ! i \<noteq> cb ! i}"
    using leaf len unfolding DiffLeafRanges_def leaves assms(5,6) [symmetric] by auto
  have "ca = cb \<longleftrightarrow> ?ea = ?eb" using assms(3-6) concat_chunks by metis
  also have "\<dots> \<longleftrightarrow> set (merkleEntries a) = set (merkleEntries b)"
  proof
    assume eq: "set (merkleEntries a) = set (merkleEntries b)"
    have inj: "inj_on mk_k (set ?ea)" using assms(2) mset_eq_setD [OF o [of a]] by (simp add: same_keys_def distinct_map)
    have "set ?ea = set ?eb" using eq mset_eq_setD [OF o [of a]] mset_eq_setD [OF o [of b]] by simp
    with same_keys_sorted [OF assms(1,2)] inj show "?ea = ?eb" by (metis map_inj_on Un_absorb)
  next
    assume "?ea = ?eb"
    then show "set (merkleEntries a) = set (merkleEntries b)" using mset_eq_setD [OF o [of a]] mset_eq_setD [OF o [of b]] by simp
  qed
  finally have "set (merkleEntries a) = set (merkleEntries b) \<longleftrightarrow> ca = cb" by (rule sym)
  also have "\<dots> \<longleftrightarrow> (\<forall>i < length ca. ca ! i = cb ! i)" using len by (simp add: list_eq_iff_nth_eq)
  finally have all: "set (merkleEntries a) = set (merkleEntries b) \<longleftrightarrow> (\<forall>i < length ca. ca ! i = cb ! i)" .
  show ?thesis
  proof (intro conjI set)
    show "DiffLeafRanges (BuildMerkleTree sha msort a) (BuildMerkleTree sha msort b) = [] \<longleftrightarrow> set (merkleEntries a) = set (merkleEntries b)"
      unfolding all set_empty [symmetric] set by simp
  qed
qed

section \<open>Adopting keys\<close>

definition tomb_holds :: "DistMemory \<Rightarrow> string \<Rightarrow> Item \<Rightarrow> bool" where
  "tomb_holds dm key it \<longleftrightarrow> (case local_tomb dm key of None \<Rightarrow> False | Some tomb \<Rightarrow> Version it \<le> tb_version tomb)"

definition newer_here :: "DistMemory \<Rightarrow> string \<Rightarrow> Item \<Rightarrow> bool" where
  "newer_here dm key it \<longleftrightarrow> (case local_get dm key of None \<Rightarrow> True | Some cur \<Rightarrow> Version cur < Version it)"

lemma shard_ok_clear_tomb: "shard_ok sh \<Longrightarrow> shard_ok (sh\<lparr>ds_tombs := gm_del key (ds_tombs sh)\<rparr>)"
  by (auto simp: shard_ok_def)

lemma local_tomb_put:
  assumes "shards_ok dm"
  shows "local_tomb (put_shard dm key sh) k = (if hashKey dm key = hashKey dm k then map_of (ds_tombs sh) k else local_tomb dm k)"
    "local_get (put_shard dm key sh) k = (if hashKey dm key = hashKey dm k then map_of (ds_items sh) k else local_get dm k)"
  using assms by (simp_all add: local_tomb_def local_get_def)

lemma same_shard: "hashKey dm key = hashKey dm k \<Longrightarrow> dm_shardFor dm key = dm_shardFor dm k"
  by (simp add: dm_shardFor_def)

text \<open>What clearing a tombstone and replacing an item by one leave of a key.\<close>

lemma put_same_shard:
  assumes "shards_ok dm" "map_of (ds_items sh) k = map_of (ds_items (dm_shardFor dm key)) k"
  shows "local_get (put_shard dm key sh) k = local_get dm k"
proof (cases "hashKey dm key = hashKey dm k")
  case True
  then show ?thesis using assms same_shard [OF True] by (simp add: local_tomb_put local_get_def)
qed (simp add: assms(1) local_tomb_put)

lemma put_same_tombs:
  assumes "shards_ok dm" "map_of (ds_tombs sh) k = map_of (ds_tombs (dm_shardFor dm key)) k"
  shows "local_tomb (put_shard dm key sh) k = local_tomb dm k"
proof (cases "hashKey dm key = hashKey dm k")
  case True
  then show ?thesis using assms same_shard [OF True] by (simp add: local_tomb_put local_tomb_def)
qed (simp add: assms(1) local_tomb_put)

lemma clear_tomb:
  assumes "shards_ok dm" "dm1 = put_shard dm key ((dm_shardFor dm key)\<lparr>ds_tombs := gm_del key (ds_tombs (dm_shardFor dm key))\<rparr>)"
  shows "shards_ok dm1" "local_get dm1 k = local_get dm k"
    "localID dm1 = localID dm" "dm_membership dm1 = dm_membership dm" "dm_transport dm1 = dm_transport dm"
  unfolding assms(2)
  using assms(1) shard_ok_clear_tomb [OF dm_shardFor_ok [OF assms(1), of key], of key] by (simp_all add: put_same_shard)

lemma bury:
  assumes "shards_ok dm" "dm1 = put_shard dm key ((dm_shardFor dm key)\<lparr>ds_items := gm_del key (ds_items (dm_shardFor dm key)), ds_tombs := gm_set key t (ds_tombs (dm_shardFor dm key))\<rparr>)"
  shows "shards_ok dm1" "local_get dm1 k = (if k = key then None else local_get dm k)"
    "localID dm1 = localID dm" "dm_membership dm1 = dm_membership dm" "dm_transport dm1 = dm_transport dm"
proof -
  show "shards_ok dm1" unfolding assms(2)
    using assms(1) shard_ok_remove [OF dm_shardFor_ok [OF assms(1), of key], of key t] by simp
  show "local_get dm1 k = (if k = key then None else local_get dm k)"
  proof (cases "k = key")
    case True
    then show ?thesis unfolding assms(2) by (simp add: local_tomb_put assms(1) gomap_simps)
  next
    case False
    then show ?thesis unfolding assms(2) by (simp add: put_same_shard assms(1) gomap_simps)
  qed
qed (simp_all add: assms(2))

lemma adopt_local_cases:
  assumes "shards_ok dm"
  shows "adopt_local xxh now dm key None = (case local_tomb dm key of Some _ \<Rightarrow> dm | None \<Rightarrow> (case local_get dm key of None \<Rightarrow> dm
      | Some cur \<Rightarrow> put_shard dm key ((dm_shardFor dm key)\<lparr>ds_items := gm_del key (ds_items (dm_shardFor dm key)),
          ds_tombs := gm_set key \<lparr>tb_version = Version cur + 1, tb_origin = localID dm, tb_at = now\<rparr> (ds_tombs (dm_shardFor dm key))\<rparr>)))"
    and "\<exists>dm1. adopt_local xxh now dm key (Some it) = (if tomb_holds dm key it then dm else if newer_here dm key it then applySet_local xxh dm1 it else dm1) \<and>
      (dm1 = dm \<or> dm1 = put_shard dm key ((dm_shardFor dm key)\<lparr>ds_tombs := gm_del key (ds_tombs (dm_shardFor dm key))\<rparr>))"
proof -
  let ?sh = "dm_shardFor dm key"
  let ?dm1 = "if map_of (ds_tombs ?sh) key = None then dm else put_shard dm key (?sh\<lparr>ds_tombs := gm_del key (ds_tombs ?sh)\<rparr>)"
  show "adopt_local xxh now dm key None = (case local_tomb dm key of Some _ \<Rightarrow> dm | None \<Rightarrow> (case local_get dm key of None \<Rightarrow> dm
      | Some cur \<Rightarrow> put_shard dm key (?sh\<lparr>ds_items := gm_del key (ds_items ?sh),
          ds_tombs := gm_set key \<lparr>tb_version = Version cur + 1, tb_origin = localID dm, tb_at = now\<rparr> (ds_tombs ?sh)\<rparr>)))"
    unfolding adopt_local_def Let_def local_tomb_def local_get_def by (cases "map_of (ds_tombs ?sh) key") simp_all
  have "adopt_local xxh now dm key (Some it) = (if tomb_holds dm key it then dm else if newer_here dm key it then applySet_local xxh ?dm1 it else ?dm1)"
    unfolding adopt_local_def Let_def local_tomb_def local_get_def tomb_holds_def newer_here_def by simp
  then show "\<exists>dm1. adopt_local xxh now dm key (Some it) = (if tomb_holds dm key it then dm else if newer_here dm key it then applySet_local xxh dm1 it else dm1) \<and>
      (dm1 = dm \<or> dm1 = put_shard dm key (?sh\<lparr>ds_tombs := gm_del key (ds_tombs ?sh)\<rparr>))"
    by (intro exI [of _ ?dm1] conjI) simp_all
qed

lemma adopt_local_effect:
  assumes "shards_ok dm" "\<And>it. remote = Some it \<Longrightarrow> Key it = key"
  shows "shards_ok (adopt_local xxh now dm key remote) \<and> localID (adopt_local xxh now dm key remote) = localID dm \<and>
    dm_membership (adopt_local xxh now dm key remote) = dm_membership dm \<and> dm_transport (adopt_local xxh now dm key remote) = dm_transport dm \<and>
    local_get (adopt_local xxh now dm key remote) k = (if k \<noteq> key then local_get dm k else case remote of
      None \<Rightarrow> (if local_tomb dm key \<noteq> None then local_get dm key else None)
    | Some it \<Rightarrow> (if \<not> tomb_holds dm key it \<and> newer_here dm key it then Some it else local_get dm key))"
proof (cases remote)
  case None
  show ?thesis
  proof (cases "local_tomb dm key = None \<and> local_get dm key \<noteq> None")
    case True
    then show ?thesis using adopt_local_cases(1) [OF assms(1), of xxh now key] bury [OF assms(1) refl, of key] None by auto
  next
    case False
    then show ?thesis using adopt_local_cases(1) [OF assms(1), of xxh now key] assms(1) None by (auto split: option.split)
  qed
next
  case (Some it)
  from adopt_local_cases(2) [OF assms(1), of xxh now key it] obtain dm1 where
    dm1: "adopt_local xxh now dm key (Some it) = (if tomb_holds dm key it then dm else if newer_here dm key it then applySet_local xxh dm1 it else dm1)"
    "dm1 = dm \<or> dm1 = put_shard dm key ((dm_shardFor dm key)\<lparr>ds_tombs := gm_del key (ds_tombs (dm_shardFor dm key))\<rparr>)" by blast
  have ok: "shards_ok dm1" "\<And>k. local_get dm1 k = local_get dm k" "localID dm1 = localID dm" "dm_membership dm1 = dm_membership dm" "dm_transport dm1 = dm_transport dm"
    using dm1(2) clear_tomb [OF assms(1) refl, of key] assms(1) by auto
  show ?thesis unfolding Some dm1(1) using ok assms(1,2) Some by (simp add: applySet_local_get)
qed

lemma adopt_local_tomb_other:
  assumes "shards_ok dm" "k \<noteq> key" "\<And>it. remote = Some it \<Longrightarrow> Key it = key"
  shows "local_tomb (adopt_local xxh now dm key remote) k = local_tomb dm k"
proof -
  have set: "local_tomb (applySet_local xxh d it) k = local_tomb d k" if "shards_ok d" for d it
    unfolding applySet_local_def Let_def using that by (intro put_same_tombs) simp_all
  have clear: "local_tomb (put_shard dm key ((dm_shardFor dm key)\<lparr>ds_tombs := gm_del key (ds_tombs (dm_shardFor dm key))\<rparr>)) k = local_tomb dm k"
    using assms(1,2) by (intro put_same_tombs) (simp_all add: gomap_simps)
  show ?thesis
  proof (cases remote)
    case None
    have "local_tomb (put_shard dm key ((dm_shardFor dm key)\<lparr>ds_items := gm_del key (ds_items (dm_shardFor dm key)), ds_tombs := gm_set key t (ds_tombs (dm_shardFor dm key))\<rparr>)) k
        = local_tomb dm k" for t
      using assms(1,2) by (intro put_same_tombs) (simp_all add: gomap_simps)
    with None show ?thesis unfolding None adopt_local_cases(1) [OF assms(1)] by (simp split: option.split)
  next
    case (Some it)
    from adopt_local_cases(2) [OF assms(1), of xxh now key it] obtain dm1 where
      dm1: "adopt_local xxh now dm key (Some it) = (if tomb_holds dm key it then dm else if newer_here dm key it then applySet_local xxh dm1 it else dm1)"
      "dm1 = dm \<or> dm1 = put_shard dm key ((dm_shardFor dm key)\<lparr>ds_tombs := gm_del key (ds_tombs (dm_shardFor dm key))\<rparr>)" by blast
    have "shards_ok dm1" "local_tomb dm1 k = local_tomb dm k" using dm1(2) clear clear_tomb(1) [OF assms(1) refl, of key] assms(1) by auto
    with set show ?thesis unfolding Some dm1(1) by simp
  qed
qed

section \<open>What a synchronisation does\<close>

text \<open>The keys adopted one after another from a peer that answers: other keys, the peer and the ring stay.\<close>

lemma remote_keyed: "world_ok w r \<Longrightarrow> backend_of w nid = Some remote \<Longrightarrow> local_get remote key = Some it \<Longrightarrow> Key it = key"
  using backend_of_ok local_get_key by blast

lemma fetchAndAdopt_step:
  assumes "world_ok w r" "self \<noteq> nid" "map_of (w_nodes w) self = Some dm" "dm_transport dm" "backend_of w nid = Some remote"
  shows "fetchAndAdopt xxh now w self nid key = put_node w self (adopt_local xxh now dm key (local_get remote key))"
    and "world_ok (fetchAndAdopt xxh now w self nid key) r" "backend_of (fetchAndAdopt xxh now w self nid key) nid = Some remote"
    and "dm_transport (adopt_local xxh now dm key (local_get remote key))"
proof -
  note rk = remote_keyed [OF assms(1,5), of key]
  have dm: "shards_ok dm" "localID dm = self" "mb_ring (dm_membership dm) = r" using assms(1,3) by (auto simp: world_ok_def)
  note e = adopt_local_effect [OF dm(1), of "local_get remote key" key xxh now, OF rk]
  show eq: "fetchAndAdopt xxh now w self nid key = put_node w self (adopt_local xxh now dm key (local_get remote key))"
    using assms(3-5) by (simp add: fetchAndAdopt_def ForwardGet_def)
  show "world_ok (fetchAndAdopt xxh now w self nid key) r" unfolding eq using assms(1) dm e by (intro world_ok_put) simp_all
  show "backend_of (fetchAndAdopt xxh now w self nid key) nid = Some remote" unfolding eq using assms(2,5) by (simp add: backend_of_def split: if_splits)
  show "dm_transport (adopt_local xxh now dm key (local_get remote key))" using e assms(4) by simp
qed

lemma adopt_keys_other:
  assumes "world_ok w r" "self \<noteq> nid" "map_of (w_nodes w) self = Some dm" "dm_transport dm" "backend_of w nid = Some remote"
  shows "\<exists>dm'. map_of (w_nodes (adopt_keys xxh now self nid ks w)) self = Some dm' \<and> dm_transport dm' \<and> shards_ok dm' \<and>
    world_ok (adopt_keys xxh now self nid ks w) r \<and> backend_of (adopt_keys xxh now self nid ks w) nid = Some remote \<and>
    (\<forall>k. k \<notin> set ks \<longrightarrow> local_get dm' k = local_get dm k \<and> local_tomb dm' k = local_tomb dm k)"
  using assms
proof (induction ks arbitrary: w dm)
  case Nil
  then show ?case by (simp add: world_ok_def)
next
  case (Cons key ks)
  note st = fetchAndAdopt_step [OF Cons.prems, of xxh now key] and rk = remote_keyed [OF Cons.prems(1,5), of key]
  have dm: "shards_ok dm" using Cons.prems(1,3) by (simp add: world_ok_def)
  have m: "map_of (w_nodes (fetchAndAdopt xxh now w self nid key)) self = Some (adopt_local xxh now dm key (local_get remote key))" unfolding st(1) by simp
  from Cons.IH [OF st(2) Cons.prems(2) m st(4,3)] obtain dm' where dm': "map_of (w_nodes (adopt_keys xxh now self nid (key # ks) w)) self = Some dm'"
    "dm_transport dm'" "shards_ok dm'" "world_ok (adopt_keys xxh now self nid (key # ks) w) r" "backend_of (adopt_keys xxh now self nid (key # ks) w) nid = Some remote"
    "\<forall>k. k \<notin> set ks \<longrightarrow> local_get dm' k = local_get (adopt_local xxh now dm key (local_get remote key)) k \<and>
       local_tomb dm' k = local_tomb (adopt_local xxh now dm key (local_get remote key)) k" by auto
  have "local_get (adopt_local xxh now dm key (local_get remote key)) k = local_get dm k \<and>
      local_tomb (adopt_local xxh now dm key (local_get remote key)) k = local_tomb dm k" if "k \<noteq> key" for k
    using that adopt_local_effect [OF dm, of "local_get remote key" key xxh now k, OF rk] adopt_local_tomb_other [OF dm that rk] by simp
  with dm' show ?case by (intro exI [of _ dm']) simp
qed

text \<open>A key the node lacks altogether is taken over from the peer.\<close>

lemma adopt_keys_takes:
  assumes "world_ok w r" "self \<noteq> nid" "map_of (w_nodes w) self = Some dm" "dm_transport dm" "backend_of w nid = Some remote"
    and "k \<in> set ks" "distinct ks" "local_get remote k = Some it" "local_get dm k = None" "local_tomb dm k = None"
  shows "node_get (adopt_keys xxh now self nid ks w) self k = Some it"
  using assms
proof (induction ks arbitrary: w dm)
  case (Cons key ks)
  note st = fetchAndAdopt_step [OF Cons.prems(1-5), of xxh now key] and rk = remote_keyed [OF Cons.prems(1,5), of key]
  let ?dm = "adopt_local xxh now dm key (local_get remote key)"
  have dm: "shards_ok dm" using Cons.prems(1,3) by (simp add: world_ok_def)
  have m: "map_of (w_nodes (fetchAndAdopt xxh now w self nid key)) self = Some ?dm" unfolding st(1) by simp
  show ?case
  proof (cases "k = key")
    case True
    have "k \<notin> set ks" using True Cons.prems(7) by simp
    moreover have "local_get ?dm k = Some it"
      using adopt_local_effect [OF dm, of "local_get remote key" key xxh now k, OF rk] True Cons.prems(8-10) by (simp add: tomb_holds_def newer_here_def)
    ultimately show ?thesis using adopt_keys_other [OF st(2) Cons.prems(2) m st(4,3), of xxh now ks] by (auto simp: node_get_def)
  next
    case False
    then have "local_get ?dm k = None" "local_tomb ?dm k = None"
      using adopt_local_effect [OF dm, of "local_get remote key" key xxh now k, OF rk] adopt_local_tomb_other [OF dm False rk] Cons.prems(9,10) by simp_all
    with Cons.IH [OF st(2) Cons.prems(2) m st(4,3)] Cons.prems(6-8) False show ?thesis by simp
  qed
qed simp

text \<open>No key goes back to an older version; it can only go away, and only when the peer lacks it.\<close>

definition no_rollback :: "Item \<Rightarrow> Item option \<Rightarrow> bool \<Rightarrow> bool" where
  "no_rollback it res peer_has \<longleftrightarrow> (case res of Some it' \<Rightarrow> Version it \<le> Version it' | None \<Rightarrow> \<not> peer_has)"

lemma adopt_keys_no_rollback:
  assumes "world_ok w r" "self \<noteq> nid" "map_of (w_nodes w) self = Some dm" "dm_transport dm" "backend_of w nid = Some remote"
    and "no_rollback it (local_get dm k) (local_get remote k \<noteq> None)"
  shows "no_rollback it (node_get (adopt_keys xxh now self nid ks w) self k) (local_get remote k \<noteq> None)"
  using assms
proof (induction ks arbitrary: w dm)
  case Nil
  then show ?case by (simp add: node_get_def)
next
  case (Cons key ks)
  note st = fetchAndAdopt_step [OF Cons.prems(1-5), of xxh now key] and rk = remote_keyed [OF Cons.prems(1,5), of key]
  let ?dm = "adopt_local xxh now dm key (local_get remote key)"
  have dm: "shards_ok dm" using Cons.prems(1,3) by (simp add: world_ok_def)
  have m: "map_of (w_nodes (fetchAndAdopt xxh now w self nid key)) self = Some ?dm" unfolding st(1) by simp
  have "no_rollback it (local_get ?dm k) (local_get remote k \<noteq> None)"
    using adopt_local_effect [OF dm, of "local_get remote key" key xxh now k, OF rk] Cons.prems(6)
    by (auto simp: no_rollback_def newer_here_def split: option.splits if_splits)
  from Cons.IH [OF st(2) Cons.prems(2) m st(4,3) this] show ?case by simp
qed

lemma in_merkleEntries:
  assumes "shards_ok dm"
  shows "local_get dm k = Some it \<Longrightarrow> k \<in> mk_k ` set (merkleEntries dm)" "local_tomb dm k = Some t \<Longrightarrow> k \<in> mk_k ` set (merkleEntries dm)"
proof -
  have sh: "dm_shardFor dm k \<in> set (dm_shards dm)" using hashKey_bound [OF assms] by (simp add: dm_shardFor_def)
  show "k \<in> mk_k ` set (merkleEntries dm)" if "local_get dm k = Some it"
    using map_of_SomeD [OF that [unfolded local_get_def]] sh by (force simp: merkleEntries_def)
  show "k \<in> mk_k ` set (merkleEntries dm)" if "local_tomb dm k = Some t"
    using map_of_SomeD [OF that [unfolded local_tomb_def]] sh by (force simp: merkleEntries_def)
qed

lemma in_remote_only:
  assumes "world_ok w r" "backend_of w nid = Some remote" "local_get remote k = Some it" "k \<notin> mk_k ` set entries"
  shows "k \<in> set (enumerateRemoteOnlyKeys w nid entries)"
proof -
  have "shards_ok remote" using backend_of_ok [OF assms(1,2)] by simp
  then have "dm_shardFor remote k \<in> set (dm_shards remote)" using hashKey_bound by (simp add: dm_shardFor_def)
  moreover have "k \<in> fst ` set (ds_items (dm_shardFor remote k))" using map_of_SomeD [OF assms(3) [unfolded local_get_def]] by force
  ultimately show ?thesis using assms(2,4) by (auto simp: enumerateRemoteOnlyKeys_def)
qed

text \<open>
  C21. A synchronisation with a reachable peer takes over every key of the peer for which the node has
  neither an item nor a tombstone, and never replaces an item by an older version. A key of the node can
  disappear, but only one that the peer does not hold. When nothing differs the node's data stay as they are.
\<close>

theorem sync_adopts_and_never_rolls_back:
  assumes "world_ok w r" "self \<noteq> nid" "map_of (w_nodes w) self = Some dm" "dm_transport dm" "backend_of w nid = Some remote" "sortFunc_ok msort"
  shows "\<exists>w' clean. syncWithStatus xxh sha msort now w self nid = (w', Inr clean) \<and>
    (\<forall>k it. local_get remote k = Some it \<longrightarrow> k \<notin> mk_k ` set (merkleEntries dm) \<longrightarrow> node_get w' self k = Some it) \<and>
    (\<forall>k it. local_get dm k = Some it \<longrightarrow> no_rollback it (node_get w' self k) (local_get remote k \<noteq> None)) \<and>
    (clean \<longrightarrow> w' = w)"
proof -
  let ?entries = "sortedMerkleEntries msort dm"
  let ?diffs = "DiffLeafRanges (BuildMerkleTree sha msort dm) (BuildMerkleTree sha msort remote)"
  let ?dk = "map mk_k (diff_entries ?entries ?diffs (ChunkSize (BuildMerkleTree sha msort dm)))"
  let ?missing = "enumerateRemoteOnlyKeys w nid ?entries"
  let ?w1 = "adopt_keys xxh now self nid ?dk w"
  let ?w2 = "adopt_keys xxh now self nid ?missing ?w1"
  have sync: "syncWithStatus xxh sha msort now w self nid = (?w2, Inr (?diffs = [] \<and> ?missing = []))"
    using assms(3-5) by (simp add: syncWithStatus_def applyMerkleDiffs_def Let_def)
  have keys: "mk_k ` set ?entries = mk_k ` set (merkleEntries dm)" using mset_eq_setD [OF sortedMerkleEntries_ok(1) [OF assms(6), of dm]] by simp
  from adopt_keys_other [OF assms(1-5), of xxh now ?dk] obtain dm1 where dm1: "map_of (w_nodes ?w1) self = Some dm1" "dm_transport dm1"
    "world_ok ?w1 r" "backend_of ?w1 nid = Some remote" "\<forall>k. k \<notin> set ?dk \<longrightarrow> local_get dm1 k = local_get dm k \<and> local_tomb dm1 k = local_tomb dm k" by blast
  have dk: "set ?dk \<subseteq> mk_k ` set ?entries" by (auto simp: diff_entries_def dest!: in_set_takeD in_set_dropD)
  have ok: "shards_ok dm" using assms(1,3) by (simp add: world_ok_def)
  have takes: "node_get ?w2 self k = Some it" if "local_get remote k = Some it" "k \<notin> mk_k ` set (merkleEntries dm)" for k it
  proof (rule adopt_keys_takes [OF dm1(3) assms(2) dm1(1,2,4)])
    show "k \<in> set ?missing" using in_remote_only [OF assms(1,5) that(1)] that(2) keys by simp
    show "distinct ?missing" using assms(5) by (simp add: enumerateRemoteOnlyKeys_def)
    have "k \<notin> set ?dk" using dk that(2) keys by blast
    with dm1(5) that(2) in_merkleEntries [OF ok] show "local_get dm1 k = None" "local_tomb dm1 k = None" by (metis option.exhaust)+
  qed fact
  have "no_rollback it (node_get ?w2 self k) (local_get remote k \<noteq> None)" if "local_get dm k = Some it" for k it
  proof (rule adopt_keys_no_rollback [OF dm1(3) assms(2) dm1(1,2,4)])
    have "no_rollback it (local_get dm k) (local_get remote k \<noteq> None)" using that by (simp add: no_rollback_def)
    from adopt_keys_no_rollback [OF assms(1-5) this, of xxh now ?dk] dm1(1) show "no_rollback it (local_get dm1 k) (local_get remote k \<noteq> None)"
      by (simp add: node_get_def)
  qed
  moreover have "?w2 = w" if "?diffs = [] \<and> ?missing = []" using that by (simp add: diff_entries_def)
  ultimately show ?thesis using takes sync by blast
qed

definition id_sha :: "string \<Rightarrow> string" where
  "id_sha s = s"


text \<open>The adaptive backoff stays between one and its cap, doubles on a clean tick and restarts on a dirty one.\<close>

lemma backoff_bounds:
  assumes "1 < autoSyncMaxBackoffFactor (dm_cfg dm)" "1 \<le> autoSyncBackoffFactor dm" "autoSyncBackoffFactor dm \<le> autoSyncMaxBackoffFactor (dm_cfg dm)"
  shows "let dm' = updateAutoSyncBackoff dm clean in 1 \<le> autoSyncBackoffFactor dm' \<and> autoSyncBackoffFactor dm' \<le> autoSyncMaxBackoffFactor (dm_cfg dm') \<and>
    nextAutoSyncDelay dm' interval = interval * autoSyncBackoffFactor dm' \<and> (\<not> clean \<longrightarrow> nextAutoSyncDelay dm' interval = interval)"
  using assms by (simp add: updateAutoSyncBackoff_def nextAutoSyncDelay_def Let_def)

section \<open>Witnesses\<close>

theorem DiffLeafRanges_exact_witness:
  "set (DiffLeafRanges (BuildMerkleTree id_sha insertion_sort (node_with ''a'' [(''k'', an_item ''x'' 1 ''a'')]))
     (BuildMerkleTree id_sha insertion_sort (node_with ''b'' [(''k'', an_item ''y'' 2 ''a'')]))) = {0}"
proof -
  let ?a = "node_with ''a'' [(''k'', an_item ''x'' 1 ''a'')]" and ?b = "node_with ''b'' [(''k'', an_item ''y'' 2 ''a'')]"
  note ev = merkleEntries_def node_with_def an_item_def empty_shard_def sortedMerkleEntries_def insertion_sort_def chunk_size_def plain_config_def chunks.simps
  have ca: "chunks (chunk_size ?a) (sortedMerkleEntries insertion_sort ?a) = [[\<lparr>mk_k = ''k'', mk_v = 1\<rparr>]]" by (simp add: ev)
  have cb: "chunks (chunk_size ?b) (sortedMerkleEntries insertion_sort ?b) = [[\<lparr>mk_k = ''k'', mk_v = 2\<rparr>]]" by (simp add: ev)
  have k: "same_keys ?a ?b" "chunk_size ?a = chunk_size ?b" "0 < chunk_size ?a" by (simp_all add: same_keys_def ev)
  have "inj_on id_sha S" for S by (simp add: inj_on_def id_sha_def)
  from conjunct1 [OF DiffLeafRanges_exact [OF insertion_sort_ok k refl refl this]]
  have "set (DiffLeafRanges (BuildMerkleTree id_sha insertion_sort ?a) (BuildMerkleTree id_sha insertion_sort ?b)) =
      {i. i < length [[\<lparr>mk_k = ''k'', mk_v = 1\<rparr>]] \<and> [[\<lparr>mk_k = ''k'', mk_v = 1\<rparr>]] ! i \<noteq> [[\<lparr>mk_k = ''k'', mk_v = 2\<rparr>]] ! i}"
    unfolding ca cb .
  also have "\<dots> = {0}" by auto
  finally show ?thesis .
qed

theorem sync_adopts_and_never_rolls_back_witness:
  "\<exists>w' clean. syncWithStatus flat_hash id_sha insertion_sort 8
     (trio [] [(''k'', an_item ''x'' 4 ''b'')] [] [''a'', ''b'']) ''a'' ''b'' = (w', Inr clean) \<and> node_get w' ''a'' ''k'' = Some (an_item ''x'' 4 ''b'')"
proof -
  let ?it = "an_item ''x'' 4 ''b''"
  let ?w = "trio [] [(''k'', ?it)] [] [''a'', ''b'']"
  have ok: "world_ok ?w trio_ring" by (rule trio_ok) (simp_all add: an_item_def)
  have a: "map_of (w_nodes ?w) ''a'' = Some (node_with ''a'' [])" "dm_transport (node_with ''a'' [])"
    "backend_of ?w ''b'' = Some (node_with ''b'' [(''k'', ?it)])" by (simp_all add: trio_def node_with_def backend_of_def)
  have ne: "''a'' \<noteq> ''b''" by simp
  have "local_get (node_with ''b'' [(''k'', ?it)]) ''k'' = Some ?it" "''k'' \<notin> mk_k ` set (merkleEntries (node_with ''a'' []))"
    by (simp_all add: local_get_def dm_shardFor_def node_with_def empty_shard_def merkleEntries_def)
  with sync_adopts_and_never_rolls_back [OF ok ne a insertion_sort_ok, of flat_hash id_sha 8] show ?thesis by blast
qed

end
