(* ===== verification/DistGossip.thy ===== *)
theory DistGossip
  imports DistResults
begin

text \<open>
  Gossip and failure detection of \<open>pkg/backend/dist_memory.go\<close> and the wire form of members in
  \<open>dist_transport.go\<close>. The answers of the transport's health probes and the random numbers drawn are
  parameters. Ring lookups and sorting are the parameters \<open>xxh\<close> and \<open>vsort\<close> of the membership.
\<close>

section \<open>Members on the wire\<close>

record GossipMember =
  gsm_ID :: string
  gsm_Address :: string
  gsm_State :: string
  gsm_Incarnation :: "64 word"

definition nodesToGossipMembers :: "ClusterNode list \<Rightarrow> GossipMember list" where
  "nodesToGossipMembers nodes = map (\<lambda>n. \<lparr>gsm_ID = node_ID n, gsm_Address = node_Address n,
     gsm_State = NodeState_String (node_State n), gsm_Incarnation = node_Incarnation n\<rparr>) nodes"

definition parseGossipState :: "string \<Rightarrow> NodeState" where
  "parseGossipState s = (if s = ''suspect'' then NodeSuspect else if s = ''dead'' then NodeDead else NodeAlive)"

definition gossipMembersToNodes :: "int \<Rightarrow> GossipMember list \<Rightarrow> ClusterNode list" where
  "gossipMembersToNodes now members = map (\<lambda>m. \<lparr>node_ID = gsm_ID m, node_Address = gsm_Address m,
     node_State = parseGossipState (gsm_State m), node_Incarnation = gsm_Incarnation m, node_LastSeen = now\<rparr>) members"

section \<open>Gossip\<close>

definition refuteIfSuspected :: "int \<Rightarrow> DistMemory \<Rightarrow> ClusterNode \<Rightarrow> DistMemory" where
  "refuteIfSuspected now dm claim =
     (if node_State claim = NodeAlive then dm
      else case map_of (mb_nodes (dm_membership dm)) (localID dm) of
          None \<Rightarrow> dm
        | Some me \<Rightarrow> if node_Incarnation claim < node_Incarnation me then dm
            else dm\<lparr>dm_membership := fst (Refute now (dm_membership dm) (localID dm))\<rparr>)"

definition accept_node :: "(string \<Rightarrow> 64 word) \<Rightarrow> vsort \<Rightarrow> int \<Rightarrow> ClusterNode \<Rightarrow> DistMemory \<Rightarrow> DistMemory" where
  "accept_node xxh vsort now node dm =
     (if node_ID node = localID dm then refuteIfSuspected now dm node
      else case map_of (mb_nodes (dm_membership dm)) (node_ID node) of
          None \<Rightarrow> dm\<lparr>dm_membership := Upsert xxh vsort now (dm_membership dm) node\<rparr>
        | Some cur \<Rightarrow> if node_Incarnation node > node_Incarnation cur
            then dm\<lparr>dm_membership := Upsert xxh vsort now (dm_membership dm) node\<rparr> else dm)"

definition acceptGossip :: "(string \<Rightarrow> 64 word) \<Rightarrow> vsort \<Rightarrow> int \<Rightarrow> DistMemory \<Rightarrow> ClusterNode list \<Rightarrow> DistMemory" where
  "acceptGossip xxh vsort now dm nodes = fold (accept_node xxh vsort now) nodes dm"

text \<open>One tick: the whole member list goes to one peer, drawn at random among those known.\<close>

definition runGossipTick :: "(string \<Rightarrow> 64 word) \<Rightarrow> vsort \<Rightarrow> int \<Rightarrow> World \<Rightarrow> string \<Rightarrow> nat option \<Rightarrow> World" where
  "runGossipTick xxh vsort now w self draw = (case map_of (w_nodes w) self of
       None \<Rightarrow> w
     | Some dm \<Rightarrow>
         let peers = Membership_List (dm_membership dm);
             candidates = filter (\<lambda>n. node_ID n \<noteq> self) peers
         in if \<not> dm_transport dm \<or> length peers \<le> 1 \<or> candidates = [] then w
            else (case draw of
                None \<Rightarrow> w
              | Some i \<Rightarrow> (case backend_of w (node_ID (candidates ! (i mod length candidates))) of
                  None \<Rightarrow> w
                | Some remote \<Rightarrow> put_node w (node_ID (candidates ! (i mod length candidates))) (acceptGossip xxh vsort now remote peers))))"

definition Transport_Gossip :: "(string \<Rightarrow> 64 word) \<Rightarrow> vsort \<Rightarrow> int \<Rightarrow> World \<Rightarrow> string \<Rightarrow> GossipMember list \<Rightarrow> World \<times> sentinel option" where
  "Transport_Gossip xxh vsort now w target members = (case backend_of w target of
       None \<Rightarrow> (w, Some ErrBackendNotFound)
     | Some b \<Rightarrow> (put_node w target (acceptGossip xxh vsort now b (gossipMembersToNodes now members)), None))"

section \<open>Heartbeat\<close>

text \<open>The first positions of a Fisher-Yates shuffle; a failed draw leaves its position as it is.\<close>

definition swap_at :: "nat \<Rightarrow> nat \<Rightarrow> 'a list \<Rightarrow> 'a list" where
  "swap_at i j xs = xs[i := xs ! j, j := xs ! i]"

primrec partial_shuffle :: "(nat \<Rightarrow> nat option) \<Rightarrow> nat \<Rightarrow> nat \<Rightarrow> 'a list \<Rightarrow> 'a list" where
  "partial_shuffle rnd 0 i xs = xs"
| "partial_shuffle rnd (Suc k) i xs = partial_shuffle rnd k (i + 1)
     (case rnd i of None \<Rightarrow> xs | Some r \<Rightarrow> swap_at i (i + r mod (length xs - i)) xs)"

definition pickIndirectRelays :: "(nat \<Rightarrow> nat option) \<Rightarrow> DistMemory \<Rightarrow> string \<Rightarrow> int \<Rightarrow> ClusterNode list" where
  "pickIndirectRelays rnd dm target k =
     (if k \<le> 0 then []
      else let candidates = filter (\<lambda>n. node_ID n \<noteq> localID dm \<and> node_ID n \<noteq> target \<and> node_State n = NodeAlive) (Membership_List (dm_membership dm))
           in if int (length candidates) \<le> k then candidates else take (nat k) (partial_shuffle rnd (nat k) 0 candidates))"

definition indirectProbeReachable :: "(nat \<Rightarrow> nat option) \<Rightarrow> (string \<Rightarrow> string \<Rightarrow> bool) \<Rightarrow> DistMemory \<Rightarrow> string \<Rightarrow> bool" where
  "indirectProbeReachable rnd indirect dm target =
     list_ex (\<lambda>relay. indirect (node_ID relay) target) (pickIndirectRelays rnd dm target (indirectProbeK (dm_cfg dm)))"

definition mark_in :: "int \<Rightarrow> DistMemory \<Rightarrow> string \<Rightarrow> NodeState \<Rightarrow> DistMemory" where
  "mark_in now dm nid st = dm\<lparr>dm_membership := fst (Mark now (dm_membership dm) nid st)\<rparr>"

definition handleProbeFailure :: "(nat \<Rightarrow> nat option) \<Rightarrow> (string \<Rightarrow> string \<Rightarrow> bool) \<Rightarrow> int \<Rightarrow> DistMemory \<Rightarrow> ClusterNode \<Rightarrow> DistMemory" where
  "handleProbeFailure rnd indirect now dm node =
     (if indirectProbeK (dm_cfg dm) > 0 \<and> indirectProbeReachable rnd indirect dm (node_ID node) then mark_in now dm (node_ID node) NodeAlive
      else if node_State node \<noteq> NodeAlive then dm
      else mark_in now dm (node_ID node) NodeSuspect)"

definition evaluateLiveness :: "(string \<Rightarrow> 64 word) \<Rightarrow> vsort \<Rightarrow> (nat \<Rightarrow> nat option) \<Rightarrow> (string \<Rightarrow> bool) \<Rightarrow> (string \<Rightarrow> string \<Rightarrow> bool)
    \<Rightarrow> int \<Rightarrow> DistMemory \<Rightarrow> ClusterNode \<Rightarrow> DistMemory" where
  "evaluateLiveness xxh vsort rnd health indirect now dm node =
     (let elapsed = time_Sub now (node_LastSeen node); cfg = dm_cfg dm in
      if hbDeadAfter cfg > 0 \<and> elapsed > hbDeadAfter cfg
      then dm\<lparr>dm_membership := fst (Membership_Remove xxh vsort (dm_membership dm) (node_ID node))\<rparr>
      else let dm1 = (if hbSuspectAfter cfg > 0 \<and> elapsed > hbSuspectAfter cfg \<and> node_State node = NodeAlive
                      then mark_in now dm (node_ID node) NodeSuspect else dm)
           in if \<not> dm_transport dm then dm1
              else if \<not> health (node_ID node) then handleProbeFailure rnd indirect now dm1 node
              else mark_in now dm1 (node_ID node) NodeAlive)"

definition runHeartbeatTick :: "(string \<Rightarrow> 64 word) \<Rightarrow> vsort \<Rightarrow> (nat \<Rightarrow> nat option) \<Rightarrow> (string \<Rightarrow> bool) \<Rightarrow> (string \<Rightarrow> string \<Rightarrow> bool)
    \<Rightarrow> int \<Rightarrow> DistMemory \<Rightarrow> DistMemory" where
  "runHeartbeatTick xxh vsort rnd health indirect now dm =
     (if \<not> dm_transport dm then dm
      else let peers = Membership_List (dm_membership dm);
               n = hbSampleSize (dm_cfg dm);
               probed = (if n > 0 \<and> n < int (length peers) then take (nat n) (partial_shuffle rnd (nat n) 0 peers) else peers)
           in fold (\<lambda>node dm. if node_ID node = localID dm then dm else evaluateLiveness xxh vsort rnd health indirect now dm node) probed dm)"

section \<open>Lemmas\<close>

lemma mb_nodes_Upsert [simp]: "mb_nodes (Upsert xxh vsort now m n) = gm_set (node_ID n) (n\<lparr>node_LastSeen := now\<rparr>) (mb_nodes m)"
  by (simp add: Upsert_def MembershipVersion_Next_def notify_def Let_def)

lemma mb_nodes_Refute: "mb_nodes (fst (Refute now m nid)) = (case map_of (mb_nodes m) nid of None \<Rightarrow> mb_nodes m
    | Some n \<Rightarrow> gm_set nid (n\<lparr>node_State := NodeAlive, node_Incarnation := node_Incarnation n + 1, node_LastSeen := now\<rparr>) (mb_nodes m))"
  by (simp add: Refute_def MembershipVersion_Next_def notify_def Let_def split: option.split)

lemma mb_nodes_Mark: "mb_nodes (fst (Mark now m nid st)) = (case map_of (mb_nodes m) nid of None \<Rightarrow> mb_nodes m
    | Some n \<Rightarrow> gm_set nid (if node_State n = st then n\<lparr>node_LastSeen := now\<rparr>
        else n\<lparr>node_State := st, node_Incarnation := node_Incarnation n + 1, node_LastSeen := now\<rparr>) (mb_nodes m))"
  by (simp add: Mark_def MembershipVersion_Next_def notify_def Let_def split: option.split)

lemma mb_nodes_Remove: "mb_nodes (fst (Membership_Remove xxh vsort m nid)) = gm_del nid (mb_nodes m)"
  by (simp add: Membership_Remove_def MembershipVersion_Next_def notify_def Let_def gm_del_absent)

definition view :: "DistMemory \<Rightarrow> string \<Rightarrow> ClusterNode option" where
  "view dm nid = map_of (mb_nodes (dm_membership dm)) nid"

text \<open>One member of a gossip message, seen from the entry of one peer.\<close>

lemma accept_node_same [simp]: "localID (accept_node xxh vsort now c dm) = localID dm"
  by (auto simp: accept_node_def refuteIfSuspected_def split: option.split)

lemma accept_node_view:
  assumes "nid \<noteq> localID dm"
  shows "view (accept_node xxh vsort now c dm) nid = (if node_ID c \<noteq> nid then view dm nid
    else case view dm nid of None \<Rightarrow> Some (c\<lparr>node_LastSeen := now\<rparr>)
      | Some cur \<Rightarrow> if node_Incarnation cur < node_Incarnation c then Some (c\<lparr>node_LastSeen := now\<rparr>) else Some cur)"
  using assms by (auto simp: view_def accept_node_def refuteIfSuspected_def mb_nodes_Refute gomap_simps split: option.split)

text \<open>Merging a message: the entry with the highest incarnation wins, and the old one unless beaten.\<close>

lemma acceptGossip_max:
  assumes "nid \<noteq> localID dm" "view (acceptGossip xxh vsort now dm claims) nid = Some n'"
  shows "(\<forall>n. view dm nid = Some n \<longrightarrow> node_Incarnation n \<le> node_Incarnation n') \<and>
    (\<forall>c \<in> set claims. node_ID c = nid \<longrightarrow> node_Incarnation c \<le> node_Incarnation n') \<and>
    (view dm nid = Some n' \<or> (\<exists>c \<in> set claims. node_ID c = nid \<and> n' = c\<lparr>node_LastSeen := now\<rparr>))"
  using assms
proof (induction claims arbitrary: dm)
  case Nil
  then show ?case by (simp add: acceptGossip_def)
next
  case (Cons c claims)
  let ?dm = "accept_node xxh vsort now c dm"
  from Cons.prems have "nid \<noteq> localID ?dm" "view (acceptGossip xxh vsort now ?dm claims) nid = Some n'" by (simp_all add: acceptGossip_def)
  note ih = Cons.IH [OF this]
  show ?case
  proof (cases "node_ID c = nid")
    case False
    then show ?thesis using ih accept_node_view [OF Cons.prems(1)] by simp
  next
    case True
    then show ?thesis using ih accept_node_view [OF Cons.prems(1), of xxh vsort now c]
      by (cases "view dm nid") (auto split: if_splits)
  qed
qed

lemma acceptGossip_known:
  assumes "nid \<noteq> localID dm"
  shows "view (acceptGossip xxh vsort now dm claims) nid = None \<longleftrightarrow> view dm nid = None \<and> nid \<notin> node_ID ` set claims"
  using assms
proof (induction claims arbitrary: dm)
  case (Cons c claims)
  have "view (accept_node xxh vsort now c dm) nid = None \<longleftrightarrow> view dm nid = None \<and> node_ID c \<noteq> nid"
    using accept_node_view [OF Cons.prems] by (auto split: option.split)
  with Cons show ?case by (auto simp: acceptGossip_def)
qed (simp add: acceptGossip_def)

lemma filter_snd_gm_set:
  assumes "\<not> P v" "\<forall>(k', u) \<in> set m. k' = k \<longrightarrow> \<not> P u"
  shows "filter P (map snd (gm_set k v m)) = filter P (map snd m)"
  using assms by (induction m) auto

lemma relays_after_mark:
  assumes "nodes_ok (mb_nodes (dm_membership dm))"
  shows "pickIndirectRelays rnd (mark_in now dm target st) target k = pickIndirectRelays rnd dm target k"
proof -
  let ?P = "\<lambda>n. node_ID n \<noteq> localID dm \<and> node_ID n \<noteq> target \<and> node_State n = NodeAlive"
  have "filter ?P (map snd (mb_nodes (fst (Mark now (dm_membership dm) target st)))) = filter ?P (map snd (mb_nodes (dm_membership dm)))"
  proof (cases "map_of (mb_nodes (dm_membership dm)) target")
    case (Some n)
    then have "node_ID n = target" using assms nodes_ok_ID by blast
    moreover have "\<forall>(k', u) \<in> set (mb_nodes (dm_membership dm)). k' = target \<longrightarrow> \<not> ?P u" using assms by (auto simp: nodes_ok_def)
    ultimately show ?thesis using Some by (simp add: mb_nodes_Mark filter_snd_gm_set)
  qed (simp add: mb_nodes_Mark)
  then show ?thesis by (simp add: pickIndirectRelays_def mark_in_def Membership_List_def Let_def)
qed

lemma mark_in_same [simp]:
  "dm_cfg (mark_in now dm nid st) = dm_cfg dm" "dm_transport (mark_in now dm nid st) = dm_transport dm" "localID (mark_in now dm nid st) = localID dm"
  by (simp_all add: mark_in_def)

lemma view_mark: "view dm nid = Some n \<Longrightarrow> view (mark_in now dm nid st) nid = Some (if node_State n = st then n\<lparr>node_LastSeen := now\<rparr>
    else n\<lparr>node_State := st, node_Incarnation := node_Incarnation n + 1, node_LastSeen := now\<rparr>)"
  by (simp add: view_def mark_in_def mb_nodes_Mark gomap_simps)

text \<open>The four outcomes of one evaluation: pruned, seen alive, newly suspected, or left as it was.\<close>

lemma evaluateLiveness_outcomes:
  assumes "view dm nid = Some node" "node_ID node = nid" "dm_transport dm" "nodes_ok (mb_nodes (dm_membership dm))"
    and "alive \<longleftrightarrow> health nid \<or> (indirectProbeK (dm_cfg dm) > 0 \<and> indirectProbeReachable rnd indirect dm nid)"
    and "res = view (evaluateLiveness xxh vsort rnd health indirect now dm node) nid"
  shows "if hbDeadAfter (dm_cfg dm) > 0 \<and> time_Sub now (node_LastSeen node) > hbDeadAfter (dm_cfg dm) then res = None
    else if alive then \<exists>n'. res = Some n' \<and> node_State n' = NodeAlive \<and> node_LastSeen n' = now
    else if node_State node = NodeAlive then res = Some (node\<lparr>node_State := NodeSuspect, node_Incarnation := node_Incarnation node + 1, node_LastSeen := now\<rparr>)
    else res = Some node"
proof -
  have relays: "indirectProbeReachable rnd indirect (mark_in now dm nid st) nid = indirectProbeReachable rnd indirect dm nid" for st
    using relays_after_mark [OF assms(4)] by (simp add: indirectProbeReachable_def)
  note v = view_mark [OF assms(1)]
  have vv: "view (mark_in now (mark_in now dm nid st) nid st') nid = Some (let n = (if node_State node = st then node\<lparr>node_LastSeen := now\<rparr>
      else node\<lparr>node_State := st, node_Incarnation := node_Incarnation node + 1, node_LastSeen := now\<rparr>) in
      if node_State n = st' then n\<lparr>node_LastSeen := now\<rparr> else n\<lparr>node_State := st', node_Incarnation := node_Incarnation n + 1, node_LastSeen := now\<rparr>)" for st st'
    by (simp add: view_mark [OF v] Let_def)
  have gone: "view (dm\<lparr>dm_membership := fst (Membership_Remove xxh vsort (dm_membership dm) nid)\<rparr>) nid = None"
    by (simp add: view_def mb_nodes_Remove gomap_simps)
  show ?thesis
    unfolding assms(5,6) evaluateLiveness_def handleProbeFailure_def Let_def assms(2)
    using assms(1,3) gone by (simp add: relays v vv Let_def) blast
qed

section \<open>Properties\<close>

text \<open>
  C24. Merging a gossip message is a join on incarnations: for every member but the node itself, the entry
  after the merge has the highest incarnation among the old entry and the claims about it, is one of them,
  and a member is known afterwards exactly when it was known or claimed.
\<close>

theorem gossip_highest_incarnation_wins:
  assumes "nid \<noteq> localID dm"
  shows "case view (acceptGossip xxh vsort now dm claims) nid of
      None \<Rightarrow> view dm nid = None \<and> nid \<notin> node_ID ` set claims
    | Some n' \<Rightarrow> (\<forall>n. view dm nid = Some n \<longrightarrow> node_Incarnation n \<le> node_Incarnation n') \<and>
        (\<forall>c \<in> set claims. node_ID c = nid \<longrightarrow> node_Incarnation c \<le> node_Incarnation n') \<and>
        (view dm nid = Some n' \<or> (\<exists>c \<in> set claims. node_ID c = nid \<and> n' = c\<lparr>node_LastSeen := now\<rparr>))"
  using acceptGossip_known [OF assms] acceptGossip_max [OF assms] by (auto split: option.split)

text \<open>
  A node that learns it is suspected raises its own incarnation by one. A peer that holds the
  suspicion at incarnation \<open>c\<close> accepts the refutation only if the node itself was at \<open>c\<close>; a node that
  was behind, as after a restart, stays suspected although it answered every claim.
\<close>

lemma refutation_accepted_iff:
  assumes "view dm (localID dm) = Some me" "node_ID me = localID dm" "node_Incarnation me \<noteq> - 1"
    and "node_ID claim = localID dm" "node_State claim \<noteq> NodeAlive" "node_Incarnation me \<le> node_Incarnation claim"
    and "localID peer \<noteq> localID dm" "view peer (localID dm) = Some claim"
    and "dm' = acceptGossip xxh vsort now dm [claim]" "view dm' (localID dm) = Some me'"
    and "peer' = acceptGossip xxh vsort now peer [me']"
  shows "(\<exists>n. view peer' (localID dm) = Some n \<and> node_State n = NodeAlive) \<longleftrightarrow> node_Incarnation claim = node_Incarnation me"
proof -
  have me': "me' = me\<lparr>node_State := NodeAlive, node_Incarnation := node_Incarnation me + 1, node_LastSeen := now\<rparr>"
    using assms(1,4,5,9,10) leD [OF assms(6)] by (simp add: acceptGossip_def accept_node_def refuteIfSuspected_def view_def mb_nodes_Refute gomap_simps)
  have "view peer' (localID dm) = (if node_Incarnation claim < node_Incarnation me + 1 then Some (me'\<lparr>node_LastSeen := now\<rparr>) else Some claim)"
    using accept_node_view [of "localID dm" peer xxh vsort now me'] assms(2,7,8,11) me' by (simp add: acceptGossip_def)
  moreover have "node_Incarnation claim < node_Incarnation me + 1 \<longleftrightarrow> node_Incarnation claim = node_Incarnation me"
  proof -
    have "1 + node_Incarnation me \<noteq> 0" using assms(3) by (metis add_eq_0_iff)
    from unatSuc [OF this] have "unat (node_Incarnation me + 1) = Suc (unat (node_Incarnation me))" by (simp add: add.commute)
    with assms(6) show ?thesis unfolding word_less_nat_alt word_le_nat_alt word_unat_eq_iff by linarith
  qed
  ultimately show ?thesis using assms(5) me' by auto
qed


text \<open>
  The wire form of a member list loses nothing but the time of the last contact, which the receiver
  sets.
\<close>

lemma gossip_members_round_trip:
  "gossipMembersToNodes now (nodesToGossipMembers nodes) = map (\<lambda>n. n\<lparr>node_LastSeen := now\<rparr>) nodes"
proof -
  have "parseGossipState (NodeState_String st) = st" for st by (cases st) (simp_all add: parseGossipState_def)
  then show ?thesis by (simp add: gossipMembersToNodes_def nodesToGossipMembers_def)
qed

section \<open>Witnesses\<close>

definition a_member :: "string \<Rightarrow> NodeState \<Rightarrow> 64 word \<Rightarrow> int \<Rightarrow> ClusterNode" where
  "a_member nid st inc seen = \<lparr>node_ID = nid, node_Address = nid, node_State = st, node_Incarnation = inc, node_LastSeen = seen\<rparr>"

definition knows :: "string \<Rightarrow> ClusterNode list \<Rightarrow> DistMemory" where
  "knows nid members = (node_with nid [])\<lparr>dm_membership := (NewMembership trio_ring)\<lparr>mb_nodes := map (\<lambda>n. (node_ID n, n)) members\<rparr>,
     dm_cfg := plain_config\<lparr>hbSuspectAfter := 10, hbDeadAfter := 30\<rparr>\<rparr>"

lemma knows_simps [simp]: "localID (knows nid ms) = nid" "view (knows nid ms) k = map_of (map (\<lambda>n. (node_ID n, n)) ms) k"
  "dm_transport (knows nid ms)" "dm_cfg (knows nid ms) = plain_config\<lparr>hbSuspectAfter := 10, hbDeadAfter := 30\<rparr>"
  by (simp_all add: knows_def view_def node_with_def NewMembership_def)

theorem gossip_highest_incarnation_wins_witness:
  "\<exists>n'. view (acceptGossip flat_hash insertion_sort 9 (knows ''a'' [a_member ''b'' NodeAlive 4 0]) [a_member ''b'' NodeDead 6 0, a_member ''b'' NodeAlive 5 0]) ''b'' = Some n' \<and>
     6 \<le> node_Incarnation n'"
  using gossip_highest_incarnation_wins [where nid = "''b''" and dm = "knows ''a'' [a_member ''b'' NodeAlive 4 0]" and xxh = flat_hash
      and vsort = insertion_sort and now = 9 and claims = "[a_member ''b'' NodeDead 6 0, a_member ''b'' NodeAlive 5 0]"]
  by (auto simp: a_member_def split: option.splits)

lemma refutation_accepted_iff_example:
  "let claim = a_member ''a'' NodeDead 5 0;
       dm' = acceptGossip flat_hash insertion_sort 9 (knows ''a'' [a_member ''a'' NodeAlive 1 0]) [claim]
   in \<exists>me'. view dm' ''a'' = Some me' \<and> node_State me' = NodeAlive \<and>
     \<not> (\<exists>n. view (acceptGossip flat_hash insertion_sort 9 (knows ''b'' [claim]) [me']) ''a'' = Some n \<and> node_State n = NodeAlive)"
proof -
  let ?claim = "a_member ''a'' NodeDead 5 0" and ?me = "a_member ''a'' NodeAlive 1 0"
  let ?dm = "knows ''a'' [?me]" and ?peer = "knows ''b'' [?claim]"
  obtain me' where me': "view (acceptGossip flat_hash insertion_sort 9 ?dm [?claim]) ''a'' = Some me'" "node_State me' = NodeAlive"
    by (simp add: acceptGossip_def accept_node_def refuteIfSuspected_def view_def mb_nodes_Refute knows_def node_with_def NewMembership_def a_member_def gomap_simps)
  have "view ?dm (localID ?dm) = Some ?me" "node_ID ?me = localID ?dm" "node_Incarnation ?me \<noteq> - 1" "node_ID ?claim = localID ?dm" "node_State ?claim \<noteq> NodeAlive"
    "node_Incarnation ?me \<le> node_Incarnation ?claim" "localID ?peer \<noteq> localID ?dm" "view ?peer (localID ?dm) = Some ?claim"
    by (simp_all add: a_member_def)
  from refutation_accepted_iff [OF this refl, of flat_hash insertion_sort 9 me' _] me'(1)
  have "\<not> (\<exists>n. view (acceptGossip flat_hash insertion_sort 9 ?peer [me']) ''a'' = Some n \<and> node_State n = NodeAlive)" by (simp add: a_member_def)
  with me' show ?thesis by (auto simp: Let_def)
qed


end
