(* ===== verification/DistRebalance.thy ===== *)
theory DistRebalance
  imports DistResults
begin

text \<open>
  Rebalancing of \<open>pkg/backend/dist_memory.go\<close>: keys whose ownership moved are migrated to their new
  primary, new replicas are filled, and copies that are no longer owned are shed. Batches of a migration
  run concurrently in the code; items have distinct keys, and the model takes them in order.
\<close>

section \<open>Candidates\<close>

definition record_removed :: "int \<Rightarrow> string \<Rightarrow> distShard \<Rightarrow> distShard" where
  "record_removed now key sh = (if map_of (removedAt sh) key = None then sh\<lparr>removedAt := gm_set key now (removedAt sh)\<rparr> else sh)"

definition shouldRebalance :: "(string \<Rightarrow> 64 word) \<Rightarrow> int \<Rightarrow> DistMemory \<Rightarrow> distShard \<Rightarrow> Item \<Rightarrow> distShard \<times> bool" where
  "shouldRebalance xxh now dm sh it =
     (if \<not> ownsKeyInternal xxh dm (Key it) then (if removalGracePeriod dm > 0 then record_removed now (Key it) sh else sh, True)
      else case lookupOwners xxh dm (Key it) of
          [] \<Rightarrow> (sh, False)
        | curPrimary # _ \<Rightarrow> (case map_of (originalPrimary sh) (Key it) of
            None \<Rightarrow> (sh, False)
          | Some prevPrimary \<Rightarrow> (sh, prevPrimary = localID dm \<and> curPrimary \<noteq> localID dm)))"

primrec collect_shard :: "(string \<Rightarrow> 64 word) \<Rightarrow> int \<Rightarrow> DistMemory \<Rightarrow> Item list \<Rightarrow> distShard \<Rightarrow> distShard \<times> Item list" where
  "collect_shard xxh now dm [] sh = (sh, [])"
| "collect_shard xxh now dm (it # its) sh = (case shouldRebalance xxh now dm sh it of
       (sh1, b) \<Rightarrow> (case collect_shard xxh now dm its sh1 of (sh2, out) \<Rightarrow> (sh2, if b then it # out else out)))"

definition collectRebalanceCandidates :: "(string \<Rightarrow> 64 word) \<Rightarrow> int \<Rightarrow> DistMemory \<Rightarrow> DistMemory \<times> Item list" where
  "collectRebalanceCandidates xxh now dm =
     (let rs = map (\<lambda>s. collect_shard xxh now dm (map snd (ds_items s)) s) (dm_shards dm)
      in (dm\<lparr>dm_shards := map fst rs\<rparr>, concat (map snd rs)))"

section \<open>Migration\<close>

text \<open>The bookkeeping of a migration on the old owner: the new primary is recorded, and the local copy is
  released at once, or after the grace period if there is one.\<close>

definition release :: "(string \<Rightarrow> 64 word) \<Rightarrow> int \<Rightarrow> DistMemory \<Rightarrow> string \<Rightarrow> string \<Rightarrow> DistMemory" where
  "release xxh now dm key primary =
     (let sh = dm_shardFor dm key;
          sh1 = sh\<lparr>originalPrimary := gm_set key primary (originalPrimary sh)\<rparr>
      in put_shard dm key
           (if ownsKeyInternal xxh dm key then sh1
            else if removalGracePeriod dm > 0 then record_removed now key sh1
            else sh1\<lparr>ds_items := gm_del key (ds_items sh1)\<rparr>))"

definition migrateIfNeeded :: "(string \<Rightarrow> 64 word) \<Rightarrow> (gval \<Rightarrow> nat option) \<Rightarrow> int \<Rightarrow> World \<Rightarrow> string \<Rightarrow> Item \<Rightarrow> World" where
  "migrateIfNeeded xxh jsonLen now w self item = (case map_of (w_nodes w) self of
       None \<Rightarrow> w
     | Some dm \<Rightarrow> (case lookupOwners xxh dm (Key item) of
         [] \<Rightarrow> w
       | primary # _ \<Rightarrow>
           if primary = self \<or> \<not> dm_transport dm then w
           else (case ForwardSet xxh w primary item True of (w1, err) \<Rightarrow>
             (case map_of (w_nodes w1) self of
                None \<Rightarrow> w1
              | Some dm1 \<Rightarrow>
                  let dm2 = (if err = None then dm1 else queueHint jsonLen now dm1 primary item hintSourceMigration)
                  in put_node w1 self (release xxh now dm2 (Key item) primary)))))"

primrec migrateItems :: "(string \<Rightarrow> 64 word) \<Rightarrow> (gval \<Rightarrow> nat option) \<Rightarrow> int \<Rightarrow> string \<Rightarrow> Item list \<Rightarrow> World \<Rightarrow> World" where
  "migrateItems xxh jsonLen now self [] w = w"
| "migrateItems xxh jsonLen now self (it # its) w = migrateItems xxh jsonLen now self its (migrateIfNeeded xxh jsonLen now w self it)"

section \<open>New replicas\<close>

definition ensureOwnerBaseline :: "distShard \<Rightarrow> string \<Rightarrow> string list \<Rightarrow> distShard \<times> bool" where
  "ensureOwnerBaseline sh key owners =
     (if map_of (originalOwners sh) key \<noteq> None then (sh, True)
      else (sh\<lparr>originalOwners := gm_set key owners (originalOwners sh)\<rparr>, False))"

definition computeNewReplicas :: "distShard \<Rightarrow> string \<Rightarrow> string list \<Rightarrow> string list" where
  "computeNewReplicas sh key owners =
     (let prev = (case map_of (originalOwners sh) key of None \<Rightarrow> [] | Some p \<Rightarrow> p)
      in filter (\<lambda>o'. o' \<notin> set prev) (tl owners))"

primrec sendReplicaDiff :: "(string \<Rightarrow> 64 word) \<Rightarrow> string \<Rightarrow> Item \<Rightarrow> string list \<Rightarrow> int \<Rightarrow> World \<Rightarrow> int \<Rightarrow> World \<times> int" where
  "sendReplicaDiff xxh self it [] limit w processed = (w, processed)"
| "sendReplicaDiff xxh self it (rid # rids) limit w processed =
     (if rid = self then sendReplicaDiff xxh self it rids limit w processed
      else let w1 = fst (ForwardSet xxh w rid it False) in
        if limit > 0 \<and> processed + 1 \<ge> limit then (w1, processed + 1)
        else sendReplicaDiff xxh self it rids limit w1 (processed + 1))"

definition setOwnerBaseline :: "distShard \<Rightarrow> string \<Rightarrow> string list \<Rightarrow> distShard" where
  "setOwnerBaseline sh key owners = sh\<lparr>originalOwners := gm_set key owners (originalOwners sh)\<rparr>"

definition maybeRecordRemoval :: "(string \<Rightarrow> 64 word) \<Rightarrow> int \<Rightarrow> DistMemory \<Rightarrow> distShard \<Rightarrow> string \<Rightarrow> distShard" where
  "maybeRecordRemoval xxh now dm sh key =
     (if removalGracePeriod dm \<le> 0 \<or> ownsKeyInternal xxh dm key then sh else record_removed now key sh)"

definition upd_shard :: "World \<Rightarrow> string \<Rightarrow> nat \<Rightarrow> (DistMemory \<Rightarrow> distShard \<Rightarrow> distShard) \<Rightarrow> World" where
  "upd_shard w self i f = (case map_of (w_nodes w) self of
       None \<Rightarrow> w
     | Some dm \<Rightarrow> put_node w self (dm\<lparr>dm_shards := (dm_shards dm)[i := f dm (dm_shards dm ! i)]\<rparr>))"

text \<open>One pass over the items of shard \<open>i\<close>, as they were when the pass began.\<close>

primrec replDiffShard :: "(string \<Rightarrow> 64 word) \<Rightarrow> int \<Rightarrow> string \<Rightarrow> nat \<Rightarrow> int \<Rightarrow> Item list \<Rightarrow> World \<Rightarrow> int \<Rightarrow> World \<times> int" where
  "replDiffShard xxh now self i limit [] w processed = (w, processed)"
| "replDiffShard xxh now self i limit (it # its) w processed =
     (if limit > 0 \<and> processed \<ge> limit then (w, processed)
      else case map_of (w_nodes w) self of
          None \<Rightarrow> (w, processed)
        | Some dm \<Rightarrow>
            let owners = lookupOwners xxh dm (Key it); sh = dm_shards dm ! i in
            if owners = [] \<or> hd owners \<noteq> self
            then replDiffShard xxh now self i limit its (upd_shard w self i (\<lambda>dm sh. maybeRecordRemoval xxh now dm sh (Key it))) processed
            else if \<not> snd (ensureOwnerBaseline sh (Key it) owners)
            then replDiffShard xxh now self i limit its (upd_shard w self i (\<lambda>_ sh. fst (ensureOwnerBaseline sh (Key it) owners))) processed
            else if computeNewReplicas sh (Key it) owners = []
            then replDiffShard xxh now self i limit its w processed
            else (case sendReplicaDiff xxh self it (computeNewReplicas sh (Key it) owners) limit w processed of
                (w1, processed1) \<Rightarrow>
                  replDiffShard xxh now self i limit its (upd_shard w1 self i (\<lambda>_ sh. setOwnerBaseline sh (Key it) owners)) processed1))"

primrec replicate_shards :: "(string \<Rightarrow> 64 word) \<Rightarrow> int \<Rightarrow> string \<Rightarrow> int \<Rightarrow> nat list \<Rightarrow> World \<Rightarrow> int \<Rightarrow> World" where
  "replicate_shards xxh now self limit [] w processed = w"
| "replicate_shards xxh now self limit (i # is) w processed = (case map_of (w_nodes w) self of
       None \<Rightarrow> w
     | Some dm \<Rightarrow> (case replDiffShard xxh now self i limit (map snd (ds_items (dm_shards dm ! i))) w processed of
         (w1, processed1) \<Rightarrow> if limit > 0 \<and> processed1 \<ge> limit then w1 else replicate_shards xxh now self limit is w1 processed1))"

definition replicateNewReplicas :: "(string \<Rightarrow> 64 word) \<Rightarrow> int \<Rightarrow> World \<Rightarrow> string \<Rightarrow> World" where
  "replicateNewReplicas xxh now w self = (case map_of (w_nodes w) self of
       None \<Rightarrow> w
     | Some dm \<Rightarrow> if \<not> dm_transport dm then w
         else replicate_shards xxh now self (replicaDiffMaxPerTick dm) [0..<length (dm_shards dm)] w 0)"

section \<open>Shedding\<close>

definition shedShard :: "(string \<Rightarrow> 64 word) \<Rightarrow> int \<Rightarrow> DistMemory \<Rightarrow> distShard \<Rightarrow> distShard" where
  "shedShard xxh now dm sh =
     (let due = (\<lambda>(k, at). time_Sub now at \<ge> removalGracePeriod dm);
          dels = map fst (filter due (removedAt sh))
      in sh\<lparr>removedAt := filter (\<lambda>e. \<not> due e) (removedAt sh),
            ds_items := fold (\<lambda>k its. if ownsKeyInternal xxh dm k then its else gm_del k its) dels (ds_items sh)\<rparr>)"

definition shedRemovedKeys :: "(string \<Rightarrow> 64 word) \<Rightarrow> int \<Rightarrow> DistMemory \<Rightarrow> DistMemory" where
  "shedRemovedKeys xxh now dm =
     (if removalGracePeriod dm \<le> 0 then dm else dm\<lparr>dm_shards := map (shedShard xxh now dm) (dm_shards dm)\<rparr>)"

definition runRebalanceTick :: "(string \<Rightarrow> 64 word) \<Rightarrow> (gval \<Rightarrow> nat option) \<Rightarrow> int \<Rightarrow> World \<Rightarrow> string \<Rightarrow> World" where
  "runRebalanceTick xxh jsonLen now w self = (case map_of (w_nodes w) self of
       None \<Rightarrow> w
     | Some dm \<Rightarrow> (case collectRebalanceCandidates xxh now dm of
         (dm1, candidates) \<Rightarrow>
           let w1 = migrateItems xxh jsonLen now self candidates (put_node w self dm1);
               w2 = replicateNewReplicas xxh now w1 self
           in (case map_of (w_nodes w2) self of None \<Rightarrow> w2 | Some dm2 \<Rightarrow> put_node w2 self (shedRemovedKeys xxh now dm2))))"

section \<open>What a migration leaves\<close>

lemma shard_ok_upd [simp]: "shard_ok (sh\<lparr>originalPrimary := p\<rparr>) = shard_ok sh" "shard_ok (sh\<lparr>removedAt := q\<rparr>) = shard_ok sh"
  by (simp_all add: shard_ok_def)

lemma record_removed_ok [simp]: "shard_ok (record_removed now key sh) = shard_ok sh" "ds_items (record_removed now key sh) = ds_items sh"
  by (simp_all add: record_removed_def)

lemma release_effect:
  assumes "shards_ok dm"
  shows "local_get (release xxh now dm key p) key = (if ownsKeyInternal xxh dm key \<or> 0 < removalGracePeriod dm then local_get dm key else None)"
    and "localID (release xxh now dm key p) = localID dm" "dm_membership (release xxh now dm key p) = dm_membership dm"
  using assms by (simp_all add: release_def local_get_def Let_def gomap_simps)

lemma fanout_set_other: "n \<notin> set oids \<Longrightarrow> map_of (w_nodes (fanout_set xxh self item oids w)) n = map_of (w_nodes w) n"
proof (induction oids arbitrary: w)
  case (Cons oid oids)
  then have "map_of (w_nodes (fst (forward_replica_set xxh w oid item))) n = map_of (w_nodes w) n"
    by (auto simp: forward_replica_set_def split: option.split)
  then show ?case using Cons by simp
qed simp

text \<open>
  C26. A key whose owners no longer include this node is migrated: when the new primary is reachable it
  holds the item afterwards; and the old copy is gone, unless a grace period keeps it.
\<close>

theorem migration_moves_item:
  assumes "world_ok w r" "map_of (w_nodes w) self = Some dm" "dm_transport dm" "owners = Ring_Lookup xxh r (Key item)" "owners \<noteq> []" "hd owners = p"
    and "self \<notin> set owners" "backend_of w p = Some b" "local_get dm (Key item) = Some item"
    and "w' = migrateIfNeeded xxh jl now w self item"
  shows "node_get w' p (Key item) = Some item \<and> node_get w' self (Key item) = (if 0 < removalGracePeriod dm then Some item else None)"
proof -
  have dm: "shards_ok dm" "mb_ring (dm_membership dm) = r" "localID dm = self" using assms(1,2) by (auto simp: world_ok_def)
  obtain rest where own: "lookupOwners xxh dm (Key item) = p # rest" using assms(4-6) dm(2) by (metis list.exhaust_sel lookupOwners_def)
  have ne: "p \<noteq> self" and po: "p \<in> set owners" using assms(5-7) by auto
  note b = backend_of_ok [OF assms(1,8)]
  have bo: "ownsKeyInternal xxh b (Key item)" using b po assms(4) by (simp add: ownsKeyInternal_def lookupOwners_def Let_def)
  then have fwd: "ForwardSet xxh w p item True = (applySet xxh w p item True, None)" using assms(8) by (simp add: ForwardSet_def applyForwardedSet_def)
  let ?w1 = "applySet xxh w p item True"
  have w1p: "map_of (w_nodes ?w1) p = Some (applySet_local xxh b item)" using b by (simp add: applySet_def Let_def fanout_set_self)
  have "self \<notin> set (tl (lookupOwners xxh b (Key item)))"
    using assms(4,7) b in_set_tl [of self "lookupOwners xxh b (Key item)"] by (auto simp: lookupOwners_def)
  then have w1s: "map_of (w_nodes ?w1) self = Some dm" using b ne assms(2) by (simp add: applySet_def Let_def fanout_set_other)
  have w': "w' = put_node ?w1 self (release xxh now dm (Key item) p)"
    using assms(2,3,10) own ne fwd w1s by (simp add: migrateIfNeeded_def)
  have "\<not> ownsKeyInternal xxh dm (Key item)" using assms(4,5,7) dm by (simp add: ownsKeyInternal_def lookupOwners_def Let_def)
  moreover have "node_get ?w1 p (Key item) = Some item" using w1p b by (simp add: node_get_def applySet_local_get)
  ultimately show ?thesis unfolding w' using ne assms(9) release_effect(1) [OF dm(1), of xxh now "Key item" p] by simp
qed

text \<open>
  A migration can lose the item. With hints disabled and no grace period, a node that fails to reach
  the new primary drops its copy all the same, and no other node changes: if it held the only copy, no copy is left.
\<close>

lemma migration_loses_item:
  assumes "world_ok w r" "map_of (w_nodes w) self = Some dm" "dm_transport dm" "owners = Ring_Lookup xxh r (Key item)" "owners \<noteq> []" "hd owners = p"
    and "self \<notin> set owners" "backend_of w p = None" "hintTTL dm \<le> 0" "removalGracePeriod dm \<le> 0"
    and "w' = migrateIfNeeded xxh jl now w self item"
  shows "node_get w' self (Key item) = None \<and> (\<forall>n. n \<noteq> self \<longrightarrow> map_of (w_nodes w') n = map_of (w_nodes w) n) \<and>
    (\<forall>dm'. map_of (w_nodes w') self = Some dm' \<longrightarrow> hints dm' = hints dm)"
proof -
  have dm: "shards_ok dm" "mb_ring (dm_membership dm) = r" "localID dm = self" using assms(1,2) by (auto simp: world_ok_def)
  obtain rest where own: "lookupOwners xxh dm (Key item) = p # rest" using assms(4-6) dm(2) by (metis list.exhaust_sel lookupOwners_def)
  have ne: "p \<noteq> self" using assms(5-7) by auto
  have w': "w' = put_node w self (release xxh now dm (Key item) p)"
    using assms(2,3,8,9,11) own ne by (simp add: migrateIfNeeded_def ForwardSet_def queueHint_def)
  have "\<not> ownsKeyInternal xxh dm (Key item)" using assms(4,5,7) dm by (simp add: ownsKeyInternal_def lookupOwners_def Let_def)
  then show ?thesis unfolding w' using release_effect(1) [OF dm(1), of xxh now "Key item" p] assms(10)
    by (simp add: release_def Let_def)
qed

definition limited :: DistMemory where
  "limited = (node_with ''a'' [])\<lparr>dm_shards := [empty_shard\<lparr>ds_items := [(''k'', an_item ''x'' 1 ''a'')], originalOwners := [(''k'', [''a''])]\<rparr>],
     replicaDiffMaxPerTick := 1\<rparr>"

definition starving :: World where
  "starving = put_node (trio [] [] [] [''a'', ''b'', ''c'']) ''a'' limited"

text \<open>
  The per-tick limit on new replicas starves replicas for good. The owner baseline of a key knows only
  the primary; two replicas are new and the limit is one. The tick fills the first and records both as
  known, so that neither it nor any later tick ever fills the second.
\<close>

lemma replica_diff_limit_starves:
  "let w1 = runRebalanceTick flat_hash no_json 7 starving ''a''
   in node_get w1 ''b'' ''k'' \<noteq> None \<and> node_get w1 ''c'' ''k'' = None \<and> (\<forall>t. runRebalanceTick flat_hash no_json t w1 ''a'' = w1)"
  by (simp add: dist_eval starving_def limited_def runRebalanceTick_def collectRebalanceCandidates_def shouldRebalance_def
      replicateNewReplicas_def ensureOwnerBaseline_def computeNewReplicas_def upd_shard_def setOwnerBaseline_def shedRemovedKeys_def)

section \<open>Witnesses\<close>

text \<open>A ring whose only node is \<open>b\<close>, and two nodes that know it; \<open>a\<close> still holds a key.\<close>

definition solo_ring :: Ring where
  "solo_ring = \<lparr>vnodes = [\<lparr>vn_hash = 2, vn_nid = ''b''\<rparr>], vnPerNode = 1, replication = 1\<rparr>"

lemma solo_owners [simp]: "Ring_Lookup flat_hash solo_ring key = [''b'']"
proof -
  have "Ring_Lookup flat_hash solo_ring key = Ring_Lookup flat_hash solo_ring []" by (simp add: Ring_Lookup_def flat_hash_def)
  also have "\<dots> = [''b'']" by code_simp
  finally show ?thesis .
qed

definition on_solo :: "string \<Rightarrow> (string, Item) gomap \<Rightarrow> DistMemory" where
  "on_solo nid its = (node_with nid its)\<lparr>dm_membership := NewMembership solo_ring\<rparr>"

definition moved :: "string list \<Rightarrow> World" where
  "moved reachable = \<lparr>w_nodes = [(''a'', on_solo ''a'' [(''k'', an_item ''x'' 1 ''a'')]), (''b'', on_solo ''b'' [])], w_backends = reachable\<rparr>"

lemma moved_ok: "world_ok (moved reachable) solo_ring"
  by (auto simp: world_ok_def moved_def on_solo_def node_with_def shards_ok_def shard_ok_def empty_shard_def NewMembership_def an_item_def)

lemma moved_a: "map_of (w_nodes (moved reachable)) ''a'' = Some (on_solo ''a'' [(''k'', an_item ''x'' 1 ''a'')])"
  "dm_transport (on_solo nid its)" "hintTTL (on_solo nid its) \<le> 0" "removalGracePeriod (on_solo nid its) = 0"
  "local_get (on_solo nid [(''k'', it)]) ''k'' = Some it"
  by (simp_all add: moved_def on_solo_def node_with_def local_get_def dm_shardFor_def empty_shard_def)

theorem migration_moves_item_witness:
  "let w' = migrateIfNeeded flat_hash no_json 7 (moved [''b'']) ''a'' (an_item ''x'' 1 ''a'')
   in node_get w' ''b'' ''k'' = Some (an_item ''x'' 1 ''a'') \<and> node_get w' ''a'' ''k'' = None"
proof -
  have "backend_of (moved [''b'']) ''b'' = Some (on_solo ''b'' [])" by (simp add: backend_of_def moved_def)
  moreover have "Key (an_item ''x'' 1 ''a'') = ''k''" by (simp add: an_item_def)
  ultimately show ?thesis
    using migration_moves_item [OF moved_ok moved_a(1,2) refl, of flat_hash "an_item ''x'' 1 ''a''" "''b''" "[''b'']" "on_solo ''b'' []" _ no_json 7]
      moved_a(4) [of "''a''"] moved_a(5) [of "''a''"] by (simp add: Let_def)
qed

lemma migration_loses_item_example:
  "let w' = migrateIfNeeded flat_hash no_json 7 (moved []) ''a'' (an_item ''x'' 1 ''a'')
   in node_get w' ''a'' ''k'' = None \<and> node_get w' ''b'' ''k'' = None"
proof -
  have "backend_of (moved []) ''b'' = None" by (simp add: backend_of_def moved_def)
  moreover have "Key (an_item ''x'' 1 ''a'') = ''k''" by (simp add: an_item_def)
  ultimately have "node_get (migrateIfNeeded flat_hash no_json 7 (moved []) ''a'' (an_item ''x'' 1 ''a'')) ''a'' ''k'' = None"
    "map_of (w_nodes (migrateIfNeeded flat_hash no_json 7 (moved []) ''a'' (an_item ''x'' 1 ''a''))) ''b'' = map_of (w_nodes (moved [])) ''b''"
    using migration_loses_item [OF moved_ok moved_a(1,2) refl, of flat_hash "an_item ''x'' 1 ''a''" "''b''" "[]" _ no_json 7] moved_a(3,4)
    by simp_all
  then show ?thesis by (simp add: Let_def node_get_def moved_def on_solo_def local_get_def dm_shardFor_def node_with_def empty_shard_def)
qed

end
