(* ===== verification/PathMatch.thy ===== *)
theory PathMatch
  imports Prelude
begin

text \<open>
  The part of Go's standard library that key patterns use: \<open>utf8.DecodeRuneInString\<close> and \<open>path.Match\<close>
  with its helpers. \<open>None\<close> stands for \<open>path.ErrBadPattern\<close>. The lemmas show that whether a pattern is
  malformed does not depend on the name it is matched against.
\<close>

section \<open>Runes\<close>

definition RuneError :: nat where
  "RuneError = 0xFFFD"

abbreviation cont :: "nat \<Rightarrow> bool" where
  "cont b \<equiv> 0x80 \<le> b \<and> b \<le> 0xBF"

text \<open>The bytes that may follow the first byte of a sequence of three or four.\<close>

definition second_ok :: "nat \<Rightarrow> nat \<Rightarrow> bool" where
  "second_ok a b \<longleftrightarrow>
     (if a = 0xE0 then 0xA0 \<le> b \<and> b \<le> 0xBF
      else if a = 0xED then 0x80 \<le> b \<and> b \<le> 0x9F
      else if a = 0xF0 then 0x90 \<le> b \<and> b \<le> 0xBF
      else if a = 0xF4 then 0x80 \<le> b \<and> b \<le> 0x8F
      else cont b)"

definition decode_bytes :: "nat list \<Rightarrow> nat \<times> nat" where
  "decode_bytes bs = (case bs of
       [] \<Rightarrow> (RuneError, 0)
     | a # as \<Rightarrow>
         if a < 0x80 then (a, 1)
         else if 0xC2 \<le> a \<and> a \<le> 0xDF \<and> 1 \<le> length as \<and> cont (as ! 0)
         then ((a - 0xC0) * 64 + (as ! 0 - 0x80), 2)
         else if 0xE0 \<le> a \<and> a \<le> 0xEF \<and> 2 \<le> length as \<and> second_ok a (as ! 0) \<and> cont (as ! 1)
         then ((a - 0xE0) * 4096 + (as ! 0 - 0x80) * 64 + (as ! 1 - 0x80), 3)
         else if 0xF0 \<le> a \<and> a \<le> 0xF4 \<and> 3 \<le> length as \<and> second_ok a (as ! 0) \<and> cont (as ! 1) \<and> cont (as ! 2)
         then ((a - 0xF0) * 262144 + (as ! 0 - 0x80) * 4096 + (as ! 1 - 0x80) * 64 + (as ! 2 - 0x80), 4)
         else (RuneError, 1))"

definition DecodeRuneInString :: "string \<Rightarrow> nat \<times> nat" where
  "DecodeRuneInString s = decode_bytes (map of_char s)"

lemma DecodeRune_width: "s \<noteq> [] \<Longrightarrow> 0 < snd (DecodeRuneInString s)"
  by (cases s) (simp_all add: DecodeRuneInString_def decode_bytes_def)

section \<open>Matching one chunk\<close>

definition getEsc :: "string \<Rightarrow> (nat \<times> string) option" where
  "getEsc chunk =
     (if chunk = [] \<or> hd chunk = CHR ''-'' \<or> hd chunk = CHR '']'' then None
      else let c1 = (if hd chunk = CHR 0x5C then tl chunk else chunk) in
        if c1 = [] then None
        else case DecodeRuneInString c1 of (r, n) \<Rightarrow>
          if r = RuneError \<and> n = 1 then None
          else if drop n c1 = [] then None else Some (r, drop n c1))"

lemma getEsc_shorter:
  assumes "getEsc chunk = Some (r, rest)"
  shows "length rest < length chunk"
proof -
  let ?c1 = "if hd chunk = CHR 0x5C then tl chunk else chunk"
  from assms have "?c1 \<noteq> []" and rest: "rest = drop (snd (DecodeRuneInString ?c1)) ?c1"
    by (auto simp: getEsc_def Let_def split: if_splits prod.splits)
  with DecodeRune_width [of ?c1] have "length rest < length ?c1" by simp
  also have "\<dots> \<le> length chunk" by simp
  finally show ?thesis .
qed

function class_loop :: "nat \<Rightarrow> bool \<Rightarrow> bool \<Rightarrow> string \<Rightarrow> (bool \<times> string) option" where
  "class_loop r matched first chunk =
     (if chunk \<noteq> [] \<and> hd chunk = CHR '']'' \<and> \<not> first then Some (matched, tl chunk)
      else case getEsc chunk of
        None \<Rightarrow> None
      | Some (lo, c1) \<Rightarrow>
          if hd c1 = CHR ''-'' then
            (case getEsc (tl c1) of
               None \<Rightarrow> None
             | Some (hi, c2) \<Rightarrow> class_loop r (matched \<or> lo \<le> r \<and> r \<le> hi) False c2)
          else class_loop r (matched \<or> lo \<le> r \<and> r \<le> lo) False c1)"
  by auto
termination
proof (relation "measure (\<lambda>(r, m, f, c). length c)", goal_cases)
  case (2 r m f chunk x2 lo c1 x2a hi c2)
  from 2(2,3) getEsc_shorter [of chunk lo c1] have "length c1 < length chunk" by simp
  moreover from 2(5,6) getEsc_shorter [of "tl c1" hi c2] have "length c2 < length (tl c1)" by simp
  ultimately show ?case by simp
next
  case (3 r m f chunk x2 lo c1)
  then show ?case using getEsc_shorter [of chunk lo c1] by simp
qed simp

declare class_loop.simps [simp del]

lemma class_loop_close: "chunk \<noteq> [] \<Longrightarrow> hd chunk = CHR '']'' \<Longrightarrow> class_loop r m False chunk = Some (m, tl chunk)"
  by (subst class_loop.simps) simp

lemma class_loop_bad:
  assumes "\<not> (chunk \<noteq> [] \<and> hd chunk = CHR '']'' \<and> \<not> f)" "getEsc chunk = None"
  shows "class_loop r m f chunk = None"
  by (subst class_loop.simps) (use assms in auto)

lemma class_loop_bad_range:
  assumes "\<not> (chunk \<noteq> [] \<and> hd chunk = CHR '']'' \<and> \<not> f)" "getEsc chunk = Some (lo, c1)" "hd c1 = CHR ''-''" "getEsc (tl c1) = None"
  shows "class_loop r m f chunk = None"
  by (subst class_loop.simps) (use assms in auto)

lemma class_loop_range:
  assumes "\<not> (chunk \<noteq> [] \<and> hd chunk = CHR '']'' \<and> \<not> f)" "getEsc chunk = Some (lo, c1)" "hd c1 = CHR ''-''" "getEsc (tl c1) = Some (hi, c2)"
  shows "class_loop r m f chunk = class_loop r (m \<or> lo \<le> r \<and> r \<le> hi) False c2"
  by (subst class_loop.simps) (use assms in auto)

lemma class_loop_single:
  assumes "\<not> (chunk \<noteq> [] \<and> hd chunk = CHR '']'' \<and> \<not> f)" "getEsc chunk = Some (lo, c1)" "hd c1 \<noteq> CHR ''-''"
  shows "class_loop r m f chunk = class_loop r (m \<or> lo \<le> r \<and> r \<le> lo) False c1"
  by (subst class_loop.simps) (use assms in auto)

text \<open>What is left of the chunk after a character class does not depend on the rune matched against it.\<close>

lemma class_loop_rest:
  "\<exists>out. (\<forall>r m. map_option snd (class_loop r m f chunk) = out) \<and> (\<forall>rest. out = Some rest \<longrightarrow> length rest < length chunk)"
proof (induction "length chunk" arbitrary: f chunk rule: less_induct)
  case less
  show ?case
  proof (cases "chunk \<noteq> [] \<and> hd chunk = CHR '']'' \<and> \<not> f")
    case True
    then show ?thesis by (intro exI [of _ "Some (tl chunk)"]) (auto simp: class_loop_close)
  next
    case open_class: False
    show ?thesis
    proof (cases "getEsc chunk")
      case None
      then show ?thesis by (auto simp: class_loop_bad [OF open_class])
    next
      case (Some p)
      obtain lo c1 where g: "getEsc chunk = Some (lo, c1)" using Some by (cases p) simp
      note short = getEsc_shorter [OF g]
      show ?thesis
      proof (cases "hd c1 = CHR ''-''")
        case False
        from less [OF short, of False] short show ?thesis unfolding class_loop_single [OF open_class g False] by fastforce
      next
        case True
        show ?thesis
        proof (cases "getEsc (tl c1)")
          case None
          then show ?thesis by (auto simp: class_loop_bad_range [OF open_class g True])
        next
          case (Some q)
          obtain hi c2 where g2: "getEsc (tl c1) = Some (hi, c2)" using Some by (cases q) simp
          have "length c2 < length chunk" using getEsc_shorter [OF g2] short by simp
          from less [OF this, of False] this show ?thesis unfolding class_loop_range [OF open_class g True g2] by fastforce
        qed
      qed
    qed
  qed
qed

lemma class_loop_shorter:
  assumes "class_loop r m f chunk = Some (m', rest)"
  shows "length rest < length chunk"
proof -
  obtain out where "\<forall>r m. map_option snd (class_loop r m f chunk) = out" and short: "\<forall>rest. out = Some rest \<longrightarrow> length rest < length chunk"
    using class_loop_rest by blast
  then have "map_option snd (class_loop r m f chunk) = out" by blast
  with assms short show ?thesis by auto
qed

lemma class_loop_same: "map_option snd (class_loop r m f chunk) = map_option snd (class_loop r' m' f chunk)"
proof -
  obtain out where "\<forall>r m. map_option snd (class_loop r m f chunk) = out" using class_loop_rest by blast
  then have "map_option snd (class_loop r m f chunk) = out" "map_option snd (class_loop r' m' f chunk) = out" by blast+
  then show ?thesis by simp
qed

lemma class_loop_Some:
  assumes "class_loop r m f chunk = Some (b, rest)"
  obtains b' where "class_loop r' m' f chunk = Some (b', rest)"
proof -
  have "map_option snd (class_loop r' m' f chunk) = Some rest" using class_loop_same [of r' m' f chunk r m] assms by simp
  with that show ?thesis by auto
qed

text \<open>
  \<open>matchChunk\<close>: \<open>None\<close> for a malformed chunk, otherwise the rest of the name when the chunk matches. After a
  mismatch the chunk is still read to its end.
\<close>

function matchChunk :: "bool \<Rightarrow> string \<Rightarrow> string \<Rightarrow> string option option" where
  "matchChunk failed [] s = Some (if failed then None else Some s)"
| "matchChunk failed (c # cs) s =
     (let failed1 = (failed \<or> s = []);
          (r, n) = (if failed1 then (0, 0) else DecodeRuneInString s);
          negated = (cs \<noteq> [] \<and> hd cs = CHR ''^'')
      in if c = CHR ''['' then
           (case class_loop r False True (if negated then tl cs else cs) of
              None \<Rightarrow> None
            | Some (matched, c2) \<Rightarrow> matchChunk (failed1 \<or> matched = negated) c2 (drop n s))
         else if c = CHR ''?'' then matchChunk (failed1 \<or> hd s = CHR ''/'') cs (drop n s)
         else if c = CHR 0x5C then
           (case cs of
              [] \<Rightarrow> None
            | d # ds \<Rightarrow> matchChunk (failed1 \<or> d \<noteq> hd s) ds (if failed1 then s else tl s))
         else matchChunk (failed1 \<or> c \<noteq> hd s) cs (if failed1 then s else tl s))"
  by pat_completeness auto
termination
proof (relation "measure (\<lambda>(f, c, s). length c)", goal_cases)
  case (2 failed c cs s failed1 p r n negated q matched c2)
  then have "length c2 < length (if negated then tl cs else cs)" using class_loop_shorter by metis
  moreover have "length (if negated then tl cs else cs) \<le> length cs" by simp
  ultimately show ?case by simp
qed simp_all

declare matchChunk.simps(2) [simp del]

text \<open>Whether a chunk is malformed depends on the chunk alone.\<close>

lemma matchChunk_None: "(matchChunk f chunk s = None) = (matchChunk f' chunk s' = None)"
proof (induction "length chunk" arbitrary: f f' chunk s s' rule: less_induct)
  case less
  show ?case
  proof (cases chunk)
    case (Cons c cs)
    let ?cl = "if cs \<noteq> [] \<and> hd cs = CHR ''^'' then tl cs else cs"
    consider "c = CHR ''[''" | "c = CHR ''?''" | "c = CHR 0x5C" "cs = []" | d ds where "c = CHR 0x5C" "cs = d # ds"
      | "c \<noteq> CHR ''[''" "c \<noteq> CHR ''?''" "c \<noteq> CHR 0x5C" by (cases cs) auto
    then show ?thesis
    proof cases
      case 1
      let ?g = "\<lambda>f s. fst (if f \<or> s = [] then (0, 0) else DecodeRuneInString s)"
      note same = class_loop_same [of "?g f s" False True ?cl "?g f' s'" False]
      show ?thesis
      proof (cases "class_loop (?g f s) False True ?cl")
        case None
        with same have "class_loop (?g f' s') False True ?cl = None" by simp
        with None 1 Cons show ?thesis by (simp add: matchChunk.simps(2) Let_def split_beta)
      next
        case (Some p)
        then obtain b c2 where a: "class_loop (?g f s) False True ?cl = Some (b, c2)" by (cases p) simp
        obtain b' where b: "class_loop (?g f' s') False True ?cl = Some (b', c2)" by (rule class_loop_Some [OF a])
        have "length c2 < length ?cl" by (rule class_loop_shorter [OF a])
        also have "\<dots> \<le> length cs" by simp
        finally have "length c2 < length chunk" using Cons by simp
        from less [OF this] 1 Cons a b show ?thesis by (simp add: matchChunk.simps(2) Let_def split_beta)
      qed
    next
      case 2
      with Cons less [of cs] show ?thesis by (simp add: matchChunk.simps(2) Let_def split_beta)
    next
      case 3
      with Cons show ?thesis by (simp add: matchChunk.simps(2) Let_def split_beta)
    next
      case (4 d ds)
      with Cons less [of ds] show ?thesis by (simp add: matchChunk.simps(2) Let_def split_beta)
    next
      case 5
      with Cons less [of cs] show ?thesis by (simp add: matchChunk.simps(2) Let_def split_beta)
    qed
  qed simp
qed

lemma matchChunk_good:
  assumes "matchChunk f chunk s \<noteq> None"
  obtains here where "matchChunk f' chunk s' = Some here"
  using assms matchChunk_None [of f chunk s f' s'] that by (cases "matchChunk f' chunk s'") simp_all

section \<open>Patterns\<close>

fun scan :: "bool \<Rightarrow> string \<Rightarrow> string \<times> string" where
  "scan inrange [] = ([], [])"
| "scan inrange (c # cs) =
     (if c = CHR 0x5C then
        (case cs of [] \<Rightarrow> ([c], []) | d # ds \<Rightarrow> (case scan inrange ds of (chunk, rest) \<Rightarrow> (c # d # chunk, rest)))
      else if c = CHR ''*'' \<and> \<not> inrange then ([], c # cs)
      else case scan (if c = CHR ''['' then True else if c = CHR '']'' then False else inrange) cs of
        (chunk, rest) \<Rightarrow> (c # chunk, rest))"

definition scanChunk :: "string \<Rightarrow> bool \<times> string \<times> string" where
  "scanChunk pattern = (pattern \<noteq> [] \<and> hd pattern = CHR ''*'', scan False (dropWhile (\<lambda>c. c = CHR ''*'') pattern))"

lemma scan_append: "scan inrange p = (chunk, rest) \<Longrightarrow> chunk @ rest = p"
  by (induction inrange p arbitrary: chunk rest rule: scan.induct) (auto split: if_splits list.splits prod.splits)

lemma scan_progress: "scan False p = (chunk, rest) \<Longrightarrow> p \<noteq> [] \<Longrightarrow> hd p \<noteq> CHR ''*'' \<Longrightarrow> chunk \<noteq> []"
  by (cases p) (auto split: if_splits list.splits prod.splits)

lemma scanChunk_shorter:
  assumes "scanChunk pattern = (star, chunk, rest)" "pattern \<noteq> []"
  shows "length rest < length pattern"
proof -
  let ?p = "dropWhile (\<lambda>c. c = CHR ''*'') pattern"
  from assms(1) have sc: "scan False ?p = (chunk, rest)" by (simp add: scanChunk_def)
  then have "length rest \<le> length ?p" using scan_append by (metis le_add2 length_append)
  moreover have "length ?p \<le> length pattern" by (rule length_dropWhile_le)
  moreover have "length rest < length pattern" if "hd pattern \<noteq> CHR ''*''"
  proof -
    have "?p = pattern" using that assms(2) by (cases pattern) auto
    with sc scan_progress [of pattern chunk rest] that assms(2) have "chunk \<noteq> []" "chunk @ rest = pattern"
      using scan_append [of False pattern chunk rest] by simp_all
    then show ?thesis by (metis length_append length_greater_0_conv less_add_same_cancel2)
  qed
  moreover have "length ?p < length pattern" if "hd pattern = CHR ''*''"
    using that assms(2) by (cases pattern) (simp_all add: le_imp_less_Suc length_dropWhile_le)
  ultimately show ?thesis by linarith
qed

text \<open>The check of the rest of the pattern before a mismatch is reported.\<close>

function chunks_ok :: "string \<Rightarrow> bool" where
  "chunks_ok pattern =
     (if pattern = [] then True
      else case scanChunk pattern of (star, chunk, rest) \<Rightarrow> matchChunk False chunk [] \<noteq> None \<and> chunks_ok rest)"
  by auto
termination by (relation "measure length") (auto intro: scanChunk_shorter [OF sym])

declare chunks_ok.simps [simp del]

text \<open>After a star: the first place where the chunk matches, not skipping over a slash.\<close>

primrec star_skip :: "string \<Rightarrow> bool \<Rightarrow> string \<Rightarrow> string option option" where
  "star_skip chunk is_last [] = Some None"
| "star_skip chunk is_last (c # cs) =
     (if c = CHR ''/'' then Some None
      else case matchChunk False chunk cs of
        None \<Rightarrow> None
      | Some None \<Rightarrow> star_skip chunk is_last cs
      | Some (Some t) \<Rightarrow> if is_last \<and> t \<noteq> [] then star_skip chunk is_last cs else Some (Some t))"

function path_Match :: "string \<Rightarrow> string \<Rightarrow> bool option" where
  "path_Match pattern nm =
     (if pattern = [] then Some (nm = [])
      else case scanChunk pattern of (star, chunk, rest) \<Rightarrow>
        if star \<and> chunk = [] then Some (CHR ''/'' \<notin> set nm)
        else case matchChunk False chunk nm of
          None \<Rightarrow> None
        | Some here \<Rightarrow>
            if here \<noteq> None \<and> (the here = [] \<or> rest \<noteq> []) then path_Match rest (the here)
            else (case (if star then star_skip chunk (rest = []) nm else Some None) of
                None \<Rightarrow> None
              | Some None \<Rightarrow> if chunks_ok rest then Some False else None
              | Some (Some t) \<Rightarrow> path_Match rest t))"
  by auto
termination by (relation "measure (\<lambda>(p, n). length p)") (auto intro: scanChunk_shorter [OF sym])

declare path_Match.simps [simp del]

lemma star_skip_ok: "matchChunk False chunk [] \<noteq> None \<Longrightarrow> star_skip chunk is_last nm \<noteq> None"
proof (induction nm)
  case (Cons c cs)
  obtain here where "matchChunk False chunk cs = Some here" by (rule matchChunk_good [OF Cons.prems])
  with Cons show ?case by (auto split: option.splits)
qed simp

text \<open>A pattern is malformed for one name exactly when it is malformed for every name.\<close>

lemma path_Match_None: "path_Match pattern nm = None \<longleftrightarrow> \<not> chunks_ok pattern"
proof (induction "length pattern" arbitrary: pattern nm rule: less_induct)
  case less
  show ?case
  proof (cases "pattern = []")
    case True
    then show ?thesis by (simp add: path_Match.simps chunks_ok.simps)
  next
    case False
    obtain star chunk rest where sc: "scanChunk pattern = (star, chunk, rest)" by (cases "scanChunk pattern") auto
    note IH = less [OF scanChunk_shorter [OF sc False]]
    have ok: "chunks_ok pattern \<longleftrightarrow> matchChunk False chunk [] \<noteq> None \<and> chunks_ok rest"
      using False sc by (subst chunks_ok.simps) simp
    show ?thesis
    proof (cases "star \<and> chunk = []")
      case True
      have "scan False (dropWhile (\<lambda>c. c = CHR ''*'') pattern) = ([], rest)" using sc True by (simp add: scanChunk_def)
      then have "dropWhile (\<lambda>c. c = CHR ''*'') pattern = []"
        using scan_progress hd_dropWhile [of "\<lambda>c. c = CHR ''*''" pattern] by metis
      with sc have "rest = []" by (simp add: scanChunk_def)
      with True False sc ok show ?thesis by (subst path_Match.simps) (simp add: chunks_ok.simps)
    next
      case chunk: False
      show ?thesis
      proof (cases "matchChunk False chunk [] = None")
        case True
        then have "matchChunk False chunk nm = None" using matchChunk_None [of False chunk nm False "[]"] by simp
        with True chunk False sc ok show ?thesis by (subst path_Match.simps) auto
      next
        case good: False
        obtain here where h: "matchChunk False chunk nm = Some here" by (rule matchChunk_good [OF good])
        obtain sk where "(if star then star_skip chunk (rest = []) nm else Some None) = Some sk"
          using star_skip_ok [OF good, of "rest = []" nm] by (cases star) auto
        with good chunk False sc ok h IH show ?thesis by (subst path_Match.simps) (auto split: option.splits)
      qed
    qed
  qed
qed

end
