(* ===== verification/DistKeys.thy ===== *)
theory DistKeys
  imports DistMerkle PathMatch
begin

text \<open>
  \<open>pkg/backend/dist_keys.go\<close>: the enumeration of the keys of a cluster by prefix or glob pattern. The peers
  are asked concurrently; \<open>order\<close> is the order in which their answers are merged.
\<close>

section \<open>Patterns\<close>

definition keyGlobMetacharacters :: string where
  "keyGlobMetacharacters = ''*?[''"

definition errBadGlob :: sentinel where
  "errBadGlob = ErrText ''list-keys: invalid glob pattern''"

definition buildKeyMatcher :: "string \<Rightarrow> sentinel + (string \<Rightarrow> bool)" where
  "buildKeyMatcher pattern =
     (if pattern = [] then Inr (\<lambda>_. True)
      else if \<not> list_ex (\<lambda>c. c \<in> set keyGlobMetacharacters) pattern then Inr (\<lambda>k. take (length pattern) k = pattern)
      else case path_Match pattern [] of
        None \<Rightarrow> Inl errBadGlob
      | Some _ \<Rightarrow> Inr (\<lambda>k. case path_Match pattern k of None \<Rightarrow> False | Some ok \<Rightarrow> ok))"

section \<open>Accumulation\<close>

record ListKeysResult =
  lk_Keys :: "string list"
  lk_Truncated :: bool
  lk_PartialNodes :: "string list"

record listKeysAccumulator =
  ka_dedup :: "string list"
  ka_maxKeys :: int
  ka_partial :: "string list"
  ka_truncated :: bool

primrec tryAdd :: "string list \<Rightarrow> listKeysAccumulator \<Rightarrow> listKeysAccumulator" where
  "tryAdd [] a = a"
| "tryAdd (k # ks) a =
     (if int (length (ka_dedup a)) \<ge> ka_maxKeys a then a\<lparr>ka_truncated := True\<rparr>
      else tryAdd ks (a\<lparr>ka_dedup := List.insert k (ka_dedup a)\<rparr>))"

definition markPartial :: "string \<Rightarrow> listKeysAccumulator \<Rightarrow> listKeysAccumulator" where
  "markPartial peer a = a\<lparr>ka_partial := ka_partial a @ [peer]\<rparr>"

definition acc_result :: "listKeysAccumulator \<Rightarrow> ListKeysResult" where
  "acc_result a = \<lparr>lk_Keys = insertion_sort str_Compare (ka_dedup a), lk_Truncated = ka_truncated a, lk_PartialNodes = ka_partial a\<rparr>"

section \<open>The fan-out\<close>

definition localMatchingKeys :: "DistMemory \<Rightarrow> (string \<Rightarrow> bool) \<Rightarrow> string list" where
  "localMatchingKeys dm matcher = concat (map (\<lambda>sh. filter matcher (map fst (ds_items sh))) (dm_shards dm))"

definition Transport_ListKeys :: "World \<Rightarrow> string \<Rightarrow> string \<Rightarrow> sentinel + string list" where
  "Transport_ListKeys w nid pattern = (case backend_of w nid of
       None \<Rightarrow> Inl ErrBackendNotFound
     | Some b \<Rightarrow> (case buildKeyMatcher pattern of
         Inl e \<Rightarrow> Inl e
       | Inr matcher \<Rightarrow> Inr (localMatchingKeys b matcher)))"

definition alivePeerIDs :: "DistMemory \<Rightarrow> string list" where
  "alivePeerIDs dm = map node_ID (filter (\<lambda>n. node_State n = NodeAlive) (Membership_List (dm_membership dm)))"

definition collectPeerKeys :: "World \<Rightarrow> DistMemory \<Rightarrow> string \<Rightarrow> (string \<Rightarrow> bool) \<Rightarrow> string \<Rightarrow> listKeysAccumulator \<Rightarrow> listKeysAccumulator" where
  "collectPeerKeys w dm pattern matcher peer acc =
     (if peer = localID dm then tryAdd (localMatchingKeys dm matcher) acc
      else if \<not> dm_transport dm then markPartial peer acc
      else case Transport_ListKeys w peer pattern of
        Inl _ \<Rightarrow> markPartial peer acc
      | Inr keys \<Rightarrow> tryAdd keys acc)"

definition defaultListKeysMax :: int where
  "defaultListKeysMax = 10000"

definition ListKeys :: "World \<Rightarrow> DistMemory \<Rightarrow> string \<Rightarrow> int \<Rightarrow> string list \<Rightarrow> sentinel + ListKeysResult" where
  "ListKeys w dm pattern maxResults order =
     (let maxKeys = (if maxResults \<le> 0 then defaultListKeysMax else maxResults) in
      case buildKeyMatcher pattern of
        Inl e \<Rightarrow> Inl e
      | Inr matcher \<Rightarrow> Inr (acc_result (fold (collectPeerKeys w dm pattern matcher) order
          \<lparr>ka_dedup = [], ka_maxKeys = maxKeys, ka_partial = [], ka_truncated = False\<rparr>)))"

section \<open>Lemmas\<close>

text \<open>What a pattern selects.\<close>

definition key_matches :: "string \<Rightarrow> string \<Rightarrow> bool" where
  "key_matches pattern k \<longleftrightarrow>
     (if set pattern \<inter> set keyGlobMetacharacters = {} then take (length pattern) k = pattern else path_Match pattern k = Some True)"

lemma buildKeyMatcher_cases:
  obtains (bad) "set pattern \<inter> set keyGlobMetacharacters \<noteq> {}" "\<And>k. path_Match pattern k = None" "buildKeyMatcher pattern = Inl errBadGlob"
  | (good) "buildKeyMatcher pattern = Inr (key_matches pattern)" "set pattern \<inter> set keyGlobMetacharacters = {} \<or> (\<forall>k. path_Match pattern k \<noteq> None)"
proof -
  have meta: "list_ex (\<lambda>c. c \<in> set keyGlobMetacharacters) pattern \<longleftrightarrow> set pattern \<inter> set keyGlobMetacharacters \<noteq> {}"
    by (auto simp: list_ex_iff)
  show thesis
  proof (cases "set pattern \<inter> set keyGlobMetacharacters = {}")
    case True
    then have "key_matches pattern = (\<lambda>k. take (length pattern) k = pattern)" by (simp add: key_matches_def fun_eq_iff)
    with True meta good show thesis by (cases "pattern = []") (simp_all add: buildKeyMatcher_def)
  next
    case False
    then have ne: "pattern \<noteq> []" by auto
    show thesis
    proof (cases "path_Match pattern []")
      case None
      then have "path_Match pattern k = None" for k using path_Match_None [of pattern] by blast
      with None False meta ne bad show thesis by (simp add: buildKeyMatcher_def)
    next
      case (Some ok)
      then have "path_Match pattern k \<noteq> None" for k using path_Match_None [of pattern] by (metis option.distinct(1))
      moreover have "key_matches pattern = (\<lambda>k. case path_Match pattern k of None \<Rightarrow> False | Some ok \<Rightarrow> ok)"
        using False by (auto simp: key_matches_def fun_eq_iff split: option.splits)
      ultimately show thesis using Some False meta ne good by (simp add: buildKeyMatcher_def)
    qed
  qed
qed

lemma set_localMatchingKeys: "set (localMatchingKeys dm m) = {k. m k \<and> (\<exists>sh \<in> set (dm_shards dm). k \<in> fst ` set (ds_items sh))}"
  by (auto simp: localMatchingKeys_def)

lemma tryAdd_spec:
  assumes "distinct (ka_dedup a)" "int (length (ka_dedup a)) \<le> ka_maxKeys a"
  shows "let a' = tryAdd ks a in distinct (ka_dedup a') \<and> int (length (ka_dedup a')) \<le> ka_maxKeys a \<and> ka_maxKeys a' = ka_maxKeys a \<and>
     ka_partial a' = ka_partial a \<and> set (ka_dedup a) \<subseteq> set (ka_dedup a') \<and> set (ka_dedup a') \<subseteq> set (ka_dedup a) \<union> set ks \<and>
     (ka_truncated a \<longrightarrow> ka_truncated a') \<and> (ka_truncated a' \<and> \<not> ka_truncated a \<longrightarrow> int (length (ka_dedup a')) = ka_maxKeys a) \<and>
     (\<not> ka_truncated a' \<longrightarrow> set ks \<subseteq> set (ka_dedup a'))"
  using assms
proof (induction ks arbitrary: a)
  case (Cons k ks)
  show ?case
  proof (cases "int (length (ka_dedup a)) \<ge> ka_maxKeys a")
    case True
    with Cons.prems show ?thesis by (auto simp: Let_def)
  next
    case False
    let ?a = "a\<lparr>ka_dedup := List.insert k (ka_dedup a)\<rparr>"
    have "distinct (ka_dedup ?a)" "int (length (ka_dedup ?a)) \<le> ka_maxKeys ?a" using Cons.prems False by (simp_all add: List.insert_def)
    note step = Cons.IH [OF this]
    have "tryAdd (k # ks) a = tryAdd ks ?a" using False by simp
    with step show ?thesis by (auto simp: Let_def)
  qed
qed (simp add: Let_def)

text \<open>The answer of one peer, if there is one.\<close>

definition peer_keys :: "World \<Rightarrow> DistMemory \<Rightarrow> string \<Rightarrow> string \<Rightarrow> string list option" where
  "peer_keys w dm pattern peer =
     (if peer = localID dm then Some (localMatchingKeys dm (key_matches pattern))
      else if \<not> dm_transport dm then None
      else map_option (\<lambda>b. localMatchingKeys b (key_matches pattern)) (backend_of w peer))"

lemma collectPeerKeys_eq:
  assumes "buildKeyMatcher pattern = Inr (key_matches pattern)"
  shows "collectPeerKeys w dm pattern (key_matches pattern) peer acc =
    (case peer_keys w dm pattern peer of None \<Rightarrow> markPartial peer acc | Some ks \<Rightarrow> tryAdd ks acc)"
  using assms by (simp add: collectPeerKeys_def peer_keys_def Transport_ListKeys_def split: option.splits)

definition answered :: "World \<Rightarrow> DistMemory \<Rightarrow> string \<Rightarrow> string list \<Rightarrow> string set" where
  "answered w dm pattern peers = {k. \<exists>p \<in> set peers. \<exists>ks. peer_keys w dm pattern p = Some ks \<and> k \<in> set ks}"

definition acc_inv :: "World \<Rightarrow> DistMemory \<Rightarrow> string \<Rightarrow> string list \<Rightarrow> listKeysAccumulator \<Rightarrow> bool" where
  "acc_inv w dm pattern peers a \<longleftrightarrow> distinct (ka_dedup a) \<and> int (length (ka_dedup a)) \<le> ka_maxKeys a \<and>
     set (ka_dedup a) \<subseteq> answered w dm pattern peers \<and> (\<not> ka_truncated a \<longrightarrow> answered w dm pattern peers \<subseteq> set (ka_dedup a)) \<and>
     (ka_truncated a \<longrightarrow> int (length (ka_dedup a)) = ka_maxKeys a) \<and>
     ka_partial a = filter (\<lambda>p. peer_keys w dm pattern p = None) peers"

lemma answered_snoc: "answered w dm pattern (ps @ [p]) =
    answered w dm pattern ps \<union> (case peer_keys w dm pattern p of None \<Rightarrow> {} | Some ks \<Rightarrow> set ks)"
  by (auto simp: answered_def split: option.splits)

lemma acc_inv_step:
  assumes "acc_inv w dm pattern ps a" "buildKeyMatcher pattern = Inr (key_matches pattern)"
  shows "acc_inv w dm pattern (ps @ [p]) (collectPeerKeys w dm pattern (key_matches pattern) p a) \<and>
    ka_maxKeys (collectPeerKeys w dm pattern (key_matches pattern) p a) = ka_maxKeys a"
proof (cases "peer_keys w dm pattern p")
  case None
  with assms(1) show ?thesis unfolding collectPeerKeys_eq [OF assms(2)] acc_inv_def answered_snoc by (simp add: markPartial_def)
next
  case (Some ks)
  let ?a = "tryAdd ks a"
  from assms(1) have a: "distinct (ka_dedup a)" "int (length (ka_dedup a)) \<le> ka_maxKeys a" by (simp_all add: acc_inv_def)
  note t = tryAdd_spec [OF this, of ks, unfolded Let_def]
  have "int (length (ka_dedup ?a)) = ka_maxKeys a" if "ka_truncated a"
  proof -
    have "card (set (ka_dedup a)) \<le> card (set (ka_dedup ?a))" using t by (intro card_mono) auto
    then have "length (ka_dedup a) \<le> length (ka_dedup ?a)" using a t by (simp add: distinct_card)
    with that assms(1) t show ?thesis by (simp add: acc_inv_def)
  qed
  with t Some assms(1) show ?thesis unfolding collectPeerKeys_eq [OF assms(2)] acc_inv_def answered_snoc by auto
qed

lemma acc_inv_fold:
  assumes "acc_inv w dm pattern ps a" "buildKeyMatcher pattern = Inr (key_matches pattern)"
  shows "acc_inv w dm pattern (ps @ qs) (fold (collectPeerKeys w dm pattern (key_matches pattern)) qs a) \<and>
    ka_maxKeys (fold (collectPeerKeys w dm pattern (key_matches pattern)) qs a) = ka_maxKeys a"
  using assms(1)
proof (induction qs arbitrary: ps a)
  case (Cons q qs)
  from acc_inv_step [OF Cons.prems assms(2), of q] Cons.IH [of "ps @ [q]"] show ?case by simp
qed simp

lemma str_Compare_less: "str_Compare a b < 0 \<longleftrightarrow> str_less a b"
  by (auto simp: str_Compare_def str_less_irrefl)

lemma sorted_distinct_keys:
  assumes "distinct ks"
  shows "sorted_wrt str_less (insertion_sort str_Compare ks)" "mset (insertion_sort str_Compare ks) = mset ks"
proof -
  let ?ys = "insertion_sort str_Compare ks"
  have "strict_weak str_Compare" unfolding strict_weak_def str_Compare_less
    using str_less_irrefl str_less_trans str_less_neg_trans by blast
  with insertion_sort_ok have m: "mset ?ys = mset ks" and s: "sorted_wrt (\<lambda>a b. \<not> str_Compare b a < 0) ?ys"
    by (auto simp: sortFunc_ok_def)
  show "mset ?ys = mset ks" by (rule m)
  from m assms have "distinct ?ys" by (metis mset_eq_imp_distinct_iff)
  have "sorted_wrt str_less ys" if "sorted_wrt (\<lambda>a b. \<not> str_less b a) ys" "distinct ys" for ys
    using that by (induction ys) (auto, metis str_less_total)
  with s \<open>distinct ?ys\<close> show "sorted_wrt str_less ?ys" unfolding str_Compare_less by blast
qed

section \<open>The enumeration\<close>

text \<open>
  C28. \<open>ListKeys\<close> fails exactly on a malformed glob pattern, whatever the keys are. Otherwise its keys are
  strictly sorted, no more than the limit, each held by a live peer that answered and selected by the
  pattern; the partial nodes are the live peers that could not be asked. Without the truncation flag no
  key of a peer that answered is missing, and the flag is set only when the limit is reached. The order
  in which the answers arrive does not matter for any of this.
\<close>

theorem ListKeys_exact:
  assumes "mset order = mset (alivePeerIDs dm)"
  shows "case ListKeys w dm pattern maxResults order of
      Inl e \<Rightarrow> set pattern \<inter> set keyGlobMetacharacters \<noteq> {} \<and> path_Match pattern k = None
    | Inr res \<Rightarrow> (set pattern \<inter> set keyGlobMetacharacters = {} \<or> path_Match pattern k \<noteq> None) \<and>
        sorted_wrt str_less (lk_Keys res) \<and>
        int (length (lk_Keys res)) \<le> (if maxResults \<le> 0 then 10000 else maxResults) \<and>
        set (lk_Keys res) \<subseteq> answered w dm pattern (alivePeerIDs dm) \<and>
        mset (lk_PartialNodes res) = mset (filter (\<lambda>p. peer_keys w dm pattern p = None) (alivePeerIDs dm)) \<and>
        (if lk_Truncated res then int (length (lk_Keys res)) = (if maxResults \<le> 0 then 10000 else maxResults)
         else set (lk_Keys res) = answered w dm pattern (alivePeerIDs dm))"
proof (cases rule: buildKeyMatcher_cases [of pattern])
  case bad
  then show ?thesis by (simp add: ListKeys_def)
next
  case good
  define mx where "mx = (if maxResults \<le> 0 then defaultListKeysMax else maxResults)"
  let ?a0 = "\<lparr>ka_dedup = [], ka_maxKeys = mx, ka_partial = [], ka_truncated = False\<rparr>"
  define a where "a = fold (collectPeerKeys w dm pattern (key_matches pattern)) order ?a0"
  have res: "ListKeys w dm pattern maxResults order = Inr (acc_result a)" using good(1) by (simp add: ListKeys_def Let_def a_def mx_def)
  have "acc_inv w dm pattern [] ?a0" by (simp add: acc_inv_def answered_def defaultListKeysMax_def mx_def)
  from acc_inv_fold [OF this good(1), where qs = order] have a: "acc_inv w dm pattern order a" "ka_maxKeys a = mx" by (simp_all add: a_def)
  from assms have "set order = set (alivePeerIDs dm)" by (metis set_mset_mset)
  then have same: "answered w dm pattern order = answered w dm pattern (alivePeerIDs dm)" by (simp add: answered_def)
  from a(1) have "distinct (ka_dedup a)" by (simp add: acc_inv_def)
  note srt = sorted_distinct_keys [OF this]
  then have len: "length (lk_Keys (acc_result a)) = length (ka_dedup a)" and set: "set (lk_Keys (acc_result a)) = set (ka_dedup a)"
    by (metis acc_result_def ListKeysResult.select_convs(1) size_mset, metis acc_result_def ListKeysResult.select_convs(1) set_mset_mset)
  have "mset (filter P order) = mset (filter P (alivePeerIDs dm))" for P using assms by (simp add: mset_filter)
  with a have part: "mset (lk_PartialNodes (acc_result a)) = mset (filter (\<lambda>p. peer_keys w dm pattern p = None) (alivePeerIDs dm))"
    by (simp add: acc_inv_def acc_result_def)
  have mx: "mx = (if maxResults \<le> 0 then 10000 else maxResults)" by (simp add: mx_def defaultListKeysMax_def)
  have "sorted_wrt str_less (lk_Keys (acc_result a))" "lk_Truncated (acc_result a) = ka_truncated a"
    using srt(1) by (simp_all add: acc_result_def)
  with a part len set same good(2) show ?thesis unfolding res mx [symmetric] by (auto simp: acc_inv_def)
qed

text \<open>The flag can be set although nothing is missing: a key a second peer repeats at the limit counts as cut off.\<close>

lemma duplicate_at_limit_truncates:
  "ka_truncated (tryAdd [''k''] (tryAdd [''k''] \<lparr>ka_dedup = [], ka_maxKeys = 1, ka_partial = [], ka_truncated = False\<rparr>))"
  by simp

section \<open>Witness\<close>

definition alive :: "string \<Rightarrow> ClusterNode" where
  "alive nid = \<lparr>node_ID = nid, node_Address = nid, node_State = NodeAlive, node_Incarnation = 1, node_LastSeen = 0\<rparr>"

definition asking :: DistMemory where
  "asking = (node_with ''a'' [(''k1'', an_item ''x'' 1 ''a'')])\<lparr>dm_membership :=
     (NewMembership trio_ring)\<lparr>mb_nodes := [(''a'', alive ''a''), (''b'', alive ''b''), (''c'', alive ''c'')]\<rparr>\<rparr>"

theorem ListKeys_exact_witness:
  "case ListKeys (trio [] [(''k1'', an_item ''x'' 1 ''a''), (''k2'', an_item ''x'' 1 ''a''), (''z'', an_item ''x'' 1 ''a'')] [] [''b'']) asking ''k'' 9 [''c'', ''b'', ''a''] of
     Inl e \<Rightarrow> False
   | Inr res \<Rightarrow> set (lk_Keys res) = {''k1'', ''k2''} \<and> lk_PartialNodes res = [''c''] \<and> length (lk_Keys res) = 2"
proof -
  let ?w = "trio [] [(''k1'', an_item ''x'' 1 ''a''), (''k2'', an_item ''x'' 1 ''a''), (''z'', an_item ''x'' 1 ''a'')] [] [''b'']"
  have alive: "alivePeerIDs asking = [''a'', ''b'', ''c'']" by (simp add: alivePeerIDs_def asking_def Membership_List_def alive_def)
  have no_meta: "set ''k'' \<inter> set keyGlobMetacharacters = {}" by (simp add: keyGlobMetacharacters_def)
  then have ks: "peer_keys ?w asking ''k'' ''a'' = Some [''k1'']" "peer_keys ?w asking ''k'' ''b'' = Some [''k1'', ''k2'']"
    "peer_keys ?w asking ''k'' ''c'' = None"
    by (simp_all add: peer_keys_def asking_def node_with_def localMatchingKeys_def key_matches_def empty_shard_def trio_def backend_of_def)
  have ans: "answered ?w asking ''k'' [''a'', ''b'', ''c''] = {''k1'', ''k2''}" by (auto simp: answered_def ks)
  have "mset [''c'', ''b'', ''a''] = mset (alivePeerIDs asking)" by (simp add: alive)
  note all = ListKeys_exact [OF this, where w = ?w and pattern = "''k''" and maxResults = 9, unfolded alive ans]
  show ?thesis
  proof (cases "ListKeys ?w asking ''k'' 9 [''c'', ''b'', ''a'']")
    case (Inl e)
    with all no_meta show ?thesis by simp
  next
    case (Inr res)
    with all ks have part: "mset (lk_PartialNodes res) = {#''c''#}" and srt: "sorted_wrt str_less (lk_Keys res)"
      and sub: "set (lk_Keys res) \<subseteq> {''k1'', ''k2''}"
      and t: "if lk_Truncated res then int (length (lk_Keys res)) = 9 else set (lk_Keys res) = {''k1'', ''k2''}" by simp_all
    have "distinct (lk_Keys res)" using srt str_less_irrefl by (metis distinct_conv_nth sorted_wrt_iff_nth_less linorder_neqE_nat)
    then have "length (lk_Keys res) = card (set (lk_Keys res))" by (simp add: distinct_card)
    moreover have "card (set (lk_Keys res)) \<le> card {''k1'', ''k2''}" using sub by (intro card_mono) auto
    ultimately have "length (lk_Keys res) \<le> 2" by simp
    with t have "set (lk_Keys res) = {''k1'', ''k2''}" by (auto split: if_splits)
    moreover from this \<open>length (lk_Keys res) = card (set (lk_Keys res))\<close> have "length (lk_Keys res) = 2" by simp
    moreover from part have "lk_PartialNodes res = [''c'']" by simp
    ultimately show ?thesis using Inr by simp
  qed
qed

end
