(* ===== verification/GoText.thy ===== *)
theory GoText
  imports Prelude
begin

text \<open>
  Text conversions of Go's standard library that the servers and options use: \<open>strconv.Itoa\<close>,
  \<open>strconv.Atoi\<close>, \<open>strconv.ParseBool\<close>, \<open>strconv.FormatBool\<close> and \<open>strings.Cut\<close>, with their round trips.
\<close>

section \<open>Decimal numbers\<close>

definition digit_char :: "nat \<Rightarrow> char" where
  "digit_char d = char_of (48 + d)"

fun Itoa_nat :: "nat \<Rightarrow> string" where
  "Itoa_nat n = (if n < 10 then [digit_char n] else Itoa_nat (n div 10) @ [digit_char (n mod 10)])"

declare Itoa_nat.simps [simp del]

definition Itoa :: "int \<Rightarrow> string" where
  "Itoa i = (if i < 0 then CHR ''-'' # Itoa_nat (nat (- i)) else Itoa_nat (nat i))"

definition is_digit :: "char \<Rightarrow> bool" where
  "is_digit c \<longleftrightarrow> 48 \<le> (of_char c :: nat) \<and> (of_char c :: nat) \<le> 57"

definition digits_value :: "string \<Rightarrow> nat" where
  "digits_value s = foldl (\<lambda>v c. 10 * v + (of_char c - 48)) 0 s"

definition Atoi :: "string \<Rightarrow> int option" where
  "Atoi s =
     (let neg = (s \<noteq> [] \<and> hd s = CHR ''-'');
          ds = (if s \<noteq> [] \<and> (hd s = CHR ''-'' \<or> hd s = CHR ''+'') then tl s else s);
          v = (if neg then - int (digits_value ds) else int (digits_value ds))
      in if ds = [] \<or> \<not> list_all is_digit ds \<or> v < - (2 ^ 63) \<or> 2 ^ 63 \<le> v then None else Some v)"

lemma of_digit_char: "d < 10 \<Longrightarrow> (of_char (digit_char d) :: nat) = 48 + d"
  by (simp add: digit_char_def)

lemma is_digit_char [simp]: "d < 10 \<Longrightarrow> is_digit (digit_char d)"
  by (simp add: is_digit_def of_digit_char)

lemma digits_value_snoc: "digits_value (s @ [c]) = 10 * digits_value s + (of_char c - 48)"
  by (simp add: digits_value_def)

lemma Itoa_nat_digits: "list_all is_digit (Itoa_nat n) \<and> Itoa_nat n \<noteq> [] \<and> digits_value (Itoa_nat n) = n"
proof (induction n rule: Itoa_nat.induct)
  case (1 n)
  show ?case
  proof (cases "n < 10")
    case True
    then show ?thesis by (subst (1 2 3) Itoa_nat.simps) (simp add: digits_value_def of_digit_char)
  next
    case False
    with 1 have "list_all is_digit (Itoa_nat (n div 10))" "digits_value (Itoa_nat (n div 10)) = n div 10" by simp_all
    with False show ?thesis by (subst (1 2 3) Itoa_nat.simps) (simp add: digits_value_snoc of_digit_char)
  qed
qed

lemma Itoa_nat_hd: "hd (Itoa_nat n) \<noteq> CHR ''-'' \<and> hd (Itoa_nat n) \<noteq> CHR ''+''"
proof -
  from Itoa_nat_digits [of n] obtain c cs where c: "Itoa_nat n = c # cs" "is_digit c" by (cases "Itoa_nat n") auto
  moreover have "\<not> is_digit (CHR ''-'')" "\<not> is_digit (CHR ''+'')" by (simp_all add: is_digit_def)
  ultimately show ?thesis by auto
qed

lemma Atoi_Itoa: "0 \<le> i \<Longrightarrow> i < 2 ^ 63 \<Longrightarrow> Atoi (Itoa i) = Some i"
  using Itoa_nat_digits [of "nat i"] Itoa_nat_hd [of "nat i"] by (simp add: Atoi_def Itoa_def Let_def)

lemma Itoa_nonempty: "Itoa i \<noteq> []"
  using Itoa_nat_digits by (simp add: Itoa_def)

lemma Itoa_inject: "0 \<le> i \<Longrightarrow> 0 \<le> j \<Longrightarrow> Itoa i = Itoa j \<Longrightarrow> i = j"
  using Itoa_nat_digits by (metis Itoa_def leD nat_eq_iff2)

section \<open>Booleans\<close>

definition FormatBool :: "bool \<Rightarrow> string" where
  "FormatBool b = (if b then ''true'' else ''false'')"

definition ParseBool :: "string \<Rightarrow> bool option" where
  "ParseBool s =
     (if s \<in> set [''1'', ''t'', ''T'', ''true'', ''TRUE'', ''True''] then Some True
      else if s \<in> set [''0'', ''f'', ''F'', ''false'', ''FALSE'', ''False''] then Some False
      else None)"

lemma ParseBool_FormatBool [simp]: "ParseBool (FormatBool b) = Some b"
  by (simp add: ParseBool_def FormatBool_def)

section \<open>Cutting\<close>

text \<open>\<open>strings.Cut\<close> at a single character.\<close>

definition str_Cut :: "string \<Rightarrow> char \<Rightarrow> (string \<times> string) option" where
  "str_Cut s sep = (if sep \<in> set s then Some (takeWhile (\<lambda>c. c \<noteq> sep) s, tl (dropWhile (\<lambda>c. c \<noteq> sep) s)) else None)"

lemma str_Cut_append: "sep \<notin> set a \<Longrightarrow> str_Cut (a @ sep # b) sep = Some (a, b)"
  by (auto simp: str_Cut_def takeWhile_append dropWhile_append)

section \<open>Trimming\<close>

text \<open>
  The UTF-8 encodings of the white-space runes of \<open>unicode.IsSpace\<close>; \<open>strings.TrimSpace\<close> removes them
  from both ends.
\<close>

definition space_encodings :: "nat list list" where
  "space_encodings = [[9], [10], [11], [12], [13], [32], [0xC2, 0x85], [0xC2, 0xA0], [0xE1, 0x9A, 0x80]] @
     map (\<lambda>c. [0xE2, 0x80, c]) [0x80..<0x8B] @ map (\<lambda>c. [0xE2, 0x80, c]) [0xA8, 0xA9, 0xAF] @ [[0xE2, 0x81, 0x9F], [0xE3, 0x80, 0x80]]"

function trim_left :: "nat list list \<Rightarrow> nat list \<Rightarrow> nat list" where
  "trim_left es s = (case find (\<lambda>e. e \<noteq> [] \<and> take (length e) s = e) es of None \<Rightarrow> s | Some e \<Rightarrow> trim_left es (drop (length e) s))"
  by auto
termination
proof (relation "measure (\<lambda>(es, s). length s)", goal_cases)
  case (2 es s e)
  then have "e \<noteq> []" "take (length e) s = e" by (auto simp: find_Some_iff)
  then have "length e \<le> length s" "0 < length e" by (metis length_take min.cobounded1, simp)
  then show ?case by (simp only: in_measure prod.case length_drop)
qed simp

declare trim_left.simps [simp del]

definition TrimSpace :: "string \<Rightarrow> string" where
  "TrimSpace s = map char_of (rev (trim_left (map rev space_encodings) (rev (trim_left space_encodings (map of_char s)))))"

definition graphic :: "string \<Rightarrow> bool" where
  "graphic s \<longleftrightarrow> list_all (\<lambda>c. 32 < (of_char c :: nat) \<and> (of_char c :: nat) < 128) s"

lemma trim_left_graphic:
  assumes "\<forall>b \<in> set s. 32 < b \<and> b < 128" "\<forall>e \<in> set es. e = [] \<or> hd e \<le> 32 \<or> 128 \<le> hd e"
  shows "trim_left es s = s"
proof -
  have "find (\<lambda>e. e \<noteq> [] \<and> take (length e) s = e) es = None"
  proof (rule ccontr)
    assume "find (\<lambda>e. e \<noteq> [] \<and> take (length e) s = e) es \<noteq> None"
    then obtain e where e: "e \<in> set es" "e \<noteq> []" "take (length e) s = e" by (auto simp: find_None_iff)
    then have "hd e \<in> set s" by (metis hd_in_set in_set_takeD)
    with e assms show False by fastforce
  qed
  then show ?thesis by (subst trim_left.simps) simp
qed

lemma TrimSpace_graphic:
  assumes "graphic s"
  shows "TrimSpace s = s"
proof -
  have b: "\<forall>b \<in> set (map of_char s :: nat list). 32 < b \<and> b < 128" using assms by (auto simp: graphic_def list_all_iff)
  then have r: "\<forall>b \<in> set (rev (map of_char s :: nat list)). 32 < b \<and> b < 128" by simp
  have "trim_left space_encodings (map of_char s) = map of_char s"
    by (rule trim_left_graphic [OF b]) (auto simp: space_encodings_def)
  moreover have "trim_left (map rev space_encodings) (rev (map of_char s)) = rev (map of_char s)"
    by (rule trim_left_graphic [OF r]) (auto simp: space_encodings_def)
  ultimately show ?thesis by (simp add: TrimSpace_def comp_def map_idI)
qed

section \<open>Base64\<close>

definition b64_alphabet :: string where
  "b64_alphabet = ''ABCDEFGHIJKLMNOPQRSTUVWXYZabcdefghijklmnopqrstuvwxyz0123456789+/''"

definition b64_chr :: "nat \<Rightarrow> char" where
  "b64_chr n = b64_alphabet ! n"

definition b64_val :: "char \<Rightarrow> nat option" where
  "b64_val c = find (\<lambda>i. b64_alphabet ! i = c) [0..<64]"

text \<open>\<open>base64.StdEncoding\<close>: groups of four with padding; the unused bits before the padding are not checked.\<close>

fun b64_quads :: "string \<Rightarrow> nat list option" where
  "b64_quads [] = Some []"
| "b64_quads (a # b # c # d # rest) = (case (b64_val a, b64_val b) of
       (Some x, Some y) \<Rightarrow>
         if c = CHR ''='' then (if d = CHR ''='' \<and> rest = [] then Some [x * 4 + y div 16] else None)
         else (case b64_val c of
             None \<Rightarrow> None
           | Some z \<Rightarrow>
               if d = CHR ''='' then (if rest = [] then Some [x * 4 + y div 16, y mod 16 * 16 + z div 4] else None)
               else (case (b64_val d, b64_quads rest) of
                   (Some v, Some bs) \<Rightarrow> Some ((x * 4 + y div 16) # (y mod 16 * 16 + z div 4) # (z mod 4 * 64 + v) # bs)
                 | _ \<Rightarrow> None))
     | _ \<Rightarrow> None)"
| "b64_quads _ = None"

definition DecodeString :: "string \<Rightarrow> string option" where
  "DecodeString s = map_option (map char_of) (b64_quads (filter (\<lambda>c. c \<noteq> CHR 0x0A \<and> c \<noteq> CHR 0x0D) s))"

fun b64_triples :: "nat list \<Rightarrow> string" where
  "b64_triples (a # b # c # rest) =
     b64_chr (a div 4) # b64_chr (a mod 4 * 16 + b div 16) # b64_chr (b mod 16 * 4 + c div 64) # b64_chr (c mod 64) # b64_triples rest"
| "b64_triples [a, b] = [b64_chr (a div 4), b64_chr (a mod 4 * 16 + b div 16), b64_chr (b mod 16 * 4), CHR ''='']"
| "b64_triples [a] = [b64_chr (a div 4), b64_chr (a mod 4 * 16), CHR ''='', CHR ''='']"
| "b64_triples [] = []"

definition EncodeToString :: "string \<Rightarrow> string" where
  "EncodeToString s = b64_triples (map of_char s)"

lemma b64_chr_facts: "n < 64 \<Longrightarrow> b64_val (b64_chr n) = Some n \<and> b64_chr n \<noteq> CHR ''='' \<and> graphic [b64_chr n]"
proof -
  have "list_all (\<lambda>n. b64_val (b64_chr n) = Some n \<and> b64_chr n \<noteq> CHR ''='' \<and> graphic [b64_chr n]) [0..<64]" by code_simp
  then show "n < 64 \<Longrightarrow> ?thesis" by (simp add: list_all_iff)
qed

lemma b64_round_trip: "\<forall>b \<in> set bs. b < 256 \<Longrightarrow> b64_quads (b64_triples bs) = Some bs"
proof (induction bs rule: b64_triples.induct)
  case (1 a b c rest)
  then have "a div 4 < 64" "a mod 4 * 16 + b div 16 < 64" "b mod 16 * 4 + c div 64 < 64" "c mod 64 < 64" by auto
  note f = this [THEN b64_chr_facts]
  have "a div 4 * 4 + (a mod 4 * 16 + b div 16) div 16 = a" "(a mod 4 * 16 + b div 16) mod 16 * 16 + (b mod 16 * 4 + c div 64) div 4 = b"
    "(b mod 16 * 4 + c div 64) mod 4 * 64 + c mod 64 = c" using 1 by auto
  with f 1 show ?case by simp
next
  case (2 a b)
  then have "a div 4 < 64" "a mod 4 * 16 + b div 16 < 64" "b mod 16 * 4 < 64" by auto
  note f = this [THEN b64_chr_facts]
  have "a div 4 * 4 + (a mod 4 * 16 + b div 16) div 16 = a" "(a mod 4 * 16 + b div 16) mod 16 * 16 + b mod 16 * 4 div 4 = b" using 2 by auto
  with f show ?case by simp
next
  case (3 a)
  then have "a div 4 < 64" "a mod 4 * 16 < 64" by auto
  note f = this [THEN b64_chr_facts]
  then show ?case by simp
qed simp

lemma b64_graphic: "\<forall>b \<in> set bs. b < 256 \<Longrightarrow> graphic (b64_triples bs)"
proof (induction bs rule: b64_triples.induct)
  case (1 a b c rest)
  then have "a div 4 < 64" "a mod 4 * 16 + b div 16 < 64" "b mod 16 * 4 + c div 64 < 64" "c mod 64 < 64" by auto
  from this [THEN b64_chr_facts] 1 show ?case by (simp add: graphic_def)
next
  case (2 a b)
  then have "a div 4 < 64" "a mod 4 * 16 + b div 16 < 64" "b mod 16 * 4 < 64" by auto
  from this [THEN b64_chr_facts] show ?case by (simp add: graphic_def)
next
  case (3 a)
  then have "a div 4 < 64" "a mod 4 * 16 < 64" by auto
  from this [THEN b64_chr_facts] show ?case by (simp add: graphic_def)
qed (simp add: graphic_def)

lemma EncodeToString_graphic: "graphic (EncodeToString s)"
  unfolding EncodeToString_def by (rule b64_graphic) auto

lemma graphic_no_newlines: "graphic s \<Longrightarrow> filter (\<lambda>c. c \<noteq> CHR 0x0A \<and> c \<noteq> CHR 0x0D) s = s"
  by (induction s) (auto simp: graphic_def)

lemma DecodeString_EncodeToString: "DecodeString (EncodeToString s) = Some s"
proof -
  have "b64_quads (b64_triples (map of_char s)) = Some (map of_char s)" by (rule b64_round_trip) auto
  then show ?thesis using graphic_no_newlines [OF EncodeToString_graphic] by (simp add: DecodeString_def EncodeToString_def comp_def map_idI)
qed

end
