(* ===== verification/DistHTTP.thy ===== *)
theory DistHTTP
  imports DistKeys DistGossip GoText
begin

text \<open>
  The HTTP side of the distributed backend: \<open>pkg/backend/dist_http_server.go\<close>, \<open>dist_http_types.go\<close> and
  \<open>dist_http_transport.go\<close>. A server is a function from the cluster and a request to the cluster and a
  response, a transport operation builds a request, lets it be served and reads the response. The JSON
  codec, gzip, the URL parser, the router's body decoding and who listens where are parameters, gathered
  in \<open>HttpEnv\<close>; message bodies have the type \<open>'b\<close>. Query strings are kept decoded, and the texts of
  error responses are cut to the status.
\<close>

section \<open>Messages\<close>

record httpSetRequest =
  sr_Key :: string
  sr_Value :: gval
  sr_Expiration :: int
  sr_Version :: "64 word"
  sr_Origin :: string
  sr_Replicate :: bool

record httpGetResponse =
  gr_Found :: bool
  gr_Item :: "Item option"

text \<open>The local type of \<open>decodeGetBody\<close>; its value stays a raw message.\<close>

record 'b getMirror =
  mi_Key :: string
  mi_Value :: 'b
  mi_Expiration :: int
  mi_Version :: "64 word"
  mi_Origin :: string

record keysPageResp =
  kp_Keys :: "string list"
  kp_NextCursor :: string
  kp_Truncated :: bool

record 'b http_request =
  hq_method :: string
  hq_path :: string
  hq_query :: "(string, string) gomap"
  hq_headers :: "(string, string) gomap"
  hq_body :: "'b option"

record 'b http_response =
  hs_status :: int
  hs_body :: 'b

definition query_get :: "'b http_request \<Rightarrow> string \<Rightarrow> string" where
  "query_get rq k = (case map_of (hq_query rq) k of None \<Rightarrow> [] | Some v \<Rightarrow> v)"

definition header_get :: "'b http_request \<Rightarrow> string \<Rightarrow> string" where
  "header_get rq k = (case map_of (hq_headers rq) k of None \<Rightarrow> [] | Some v \<Rightarrow> v)"

definition header_set :: "string \<Rightarrow> string \<Rightarrow> 'b http_request \<Rightarrow> 'b http_request" where
  "header_set k v rq = rq\<lparr>hq_headers := gm_set k v (hq_headers rq)\<rparr>"

text \<open>\<open>Duration.Milliseconds\<close> truncates towards zero; a number of milliseconds as a duration wraps.\<close>

definition dur_Milliseconds :: "int \<Rightarrow> int" where
  "dur_Milliseconds d = (if 0 \<le> d then d div 1000000 else - ((- d) div 1000000))"

definition from_Milliseconds :: "int \<Rightarrow> int" where
  "from_Milliseconds n = signed_take_bit 63 (n * 1000000)"

section \<open>Authentication\<close>

record 'b DistHTTPAuth =
  da_Token :: string
  da_ServerVerify :: "('b http_request \<Rightarrow> sentinel option) option"
  da_ClientSign :: "('b http_request \<Rightarrow> sentinel + 'b http_request) option"
  da_AllowAnonymousInbound :: bool

definition inboundConfigured :: "'b DistHTTPAuth \<Rightarrow> bool" where
  "inboundConfigured a \<longleftrightarrow> da_Token a \<noteq> [] \<or> da_ServerVerify a \<noteq> None"

definition auth_validate :: "'b DistHTTPAuth \<Rightarrow> sentinel option" where
  "auth_validate a =
     (let signOnly = (da_ClientSign a \<noteq> None \<and> \<not> inboundConfigured a) in
      if signOnly \<and> \<not> da_AllowAnonymousInbound a then Some ErrInsecureAuthConfig else None)"

definition auth_verify :: "'b DistHTTPAuth \<Rightarrow> 'b http_request \<Rightarrow> sentinel option" where
  "auth_verify a rq = (case da_ServerVerify a of
       Some f \<Rightarrow> f rq
     | None \<Rightarrow>
         if da_Token a = [] then None
         else if header_get rq ''Authorization'' \<noteq> ''Bearer '' @ da_Token a then Some ErrUnauthorized else None)"

definition auth_sign :: "'b DistHTTPAuth \<Rightarrow> 'b http_request \<Rightarrow> sentinel + 'b http_request" where
  "auth_sign a rq = (case da_ClientSign a of
       Some f \<Rightarrow> f rq
     | None \<Rightarrow> if da_Token a = [] then Inr rq else Inr (header_set ''Authorization'' (''Bearer '' @ da_Token a) rq))"

section \<open>Limits\<close>

record DistHTTPLimits =
  hl_BodyLimit :: int
  hl_ResponseLimit :: int
  hl_ReadTimeout :: int
  hl_WriteTimeout :: int
  hl_IdleTimeout :: int
  hl_Concurrency :: int
  hl_ClientTimeout :: int
  hl_TLSConfig :: bool
  hl_CompressionThreshold :: int

definition withDefaults :: "DistHTTPLimits \<Rightarrow> DistHTTPLimits" where
  "withDefaults l = l\<lparr>
     hl_BodyLimit := if hl_BodyLimit l \<le> 0 then 16 * 1024 * 1024 else hl_BodyLimit l,
     hl_ResponseLimit := if hl_ResponseLimit l \<le> 0 then 16 * 1024 * 1024 else hl_ResponseLimit l,
     hl_ReadTimeout := if hl_ReadTimeout l \<le> 0 then 5 * 1000000000 else hl_ReadTimeout l,
     hl_WriteTimeout := if hl_WriteTimeout l \<le> 0 then 5 * 1000000000 else hl_WriteTimeout l,
     hl_IdleTimeout := if hl_IdleTimeout l \<le> 0 then 60 * 1000000000 else hl_IdleTimeout l,
     hl_Concurrency := if hl_Concurrency l \<le> 0 then 256 * 1024 else hl_Concurrency l,
     hl_ClientTimeout := if hl_ClientTimeout l \<le> 0 then 5 * 1000000000 else hl_ClientTimeout l\<rparr>"

section \<open>Parameters\<close>

record 'b HttpEnv =
  hx_xxh :: "string \<Rightarrow> 64 word"
  hx_vsort :: vsort
  hx_sha :: "string \<Rightarrow> string"
  hx_msort :: msort
  hx_setJSON :: "httpSetRequest \<Rightarrow> 'b option"
  hx_setParse :: "'b \<Rightarrow> httpSetRequest option"
  hx_getJSON :: "httpGetResponse \<Rightarrow> 'b option"
  hx_rawMap :: "'b \<Rightarrow> (string, 'b) gomap option"
  hx_boolParse :: "'b \<Rightarrow> bool option"
  hx_mirrorParse :: "'b \<Rightarrow> 'b getMirror option"
  hx_rawValue :: "'b \<Rightarrow> gval"
  hx_keysJSON :: "keysPageResp \<Rightarrow> 'b"
  hx_keysParse :: "'b \<Rightarrow> keysPageResp option"
  hx_merkleJSON :: "MerkleTree \<Rightarrow> 'b"
  hx_merkleParse :: "'b \<Rightarrow> MerkleTree option"
  hx_gossipJSON :: "GossipMember list \<Rightarrow> 'b option"
  hx_gossipParse :: "'b \<Rightarrow> GossipMember list option"
  hx_text :: "string \<Rightarrow> 'b"
  hx_len :: "'b \<Rightarrow> int"
  hx_gzip :: "'b \<Rightarrow> 'b option"
  hx_Body :: "'b http_request \<Rightarrow> 'b"
  hx_urlParse :: "string \<Rightarrow> (string \<times> string) option"
  hx_listens :: "string \<Rightarrow> string option"
  hx_health :: "string \<Rightarrow> string \<Rightarrow> sentinel option"
  hx_auth :: "string \<Rightarrow> 'b DistHTTPAuth"

section \<open>The server\<close>

definition reply :: "'b HttpEnv \<Rightarrow> int \<Rightarrow> string \<Rightarrow> 'b http_response" where
  "reply E st msg = \<lparr>hs_status = st, hs_body = hx_text E msg\<rparr>"

text \<open>A body that cannot be encoded reaches the router's error handler.\<close>

definition reply_JSON :: "'b HttpEnv \<Rightarrow> 'b option \<Rightarrow> 'b http_response" where
  "reply_JSON E b = (case b of None \<Rightarrow> reply E 500 [] | Some body \<Rightarrow> \<lparr>hs_status = 200, hs_body = body\<rparr>)"

type_synonym 'b handler = "World \<Rightarrow> 'b http_request \<Rightarrow> World \<times> 'b http_response"

definition wrapAuth :: "'b HttpEnv \<Rightarrow> 'b DistHTTPAuth \<Rightarrow> 'b handler \<Rightarrow> 'b handler" where
  "wrapAuth E auth handler w rq =
     (if \<not> inboundConfigured auth then handler w rq
      else case auth_verify auth rq of
        Some e \<Rightarrow> (w, reply E 401 ''unauthorized'')
      | None \<Rightarrow> handler w rq)"

definition handleSet :: "'b HttpEnv \<Rightarrow> int \<Rightarrow> string \<Rightarrow> DistMemory \<Rightarrow> 'b handler" where
  "handleSet E now nid dm w rq = (case hx_setParse E (hx_Body E rq) of
       None \<Rightarrow> (w, reply E 400 ''invalid body'')
     | Some r \<Rightarrow>
         let it = \<lparr>Key = sr_Key r, Val = sr_Value r, LastAccess = now, LastUpdated = now, Size = 0,
                   Expiration = from_Milliseconds (sr_Expiration r), AccessCount = 0, Version = sr_Version r, Origin = sr_Origin r\<rparr>
         in (applyForwardedSet (hx_xxh E) w nid dm it (sr_Replicate r), reply E 200 ''{}''))"

definition handleGet :: "'b HttpEnv \<Rightarrow> DistMemory \<Rightarrow> 'b handler" where
  "handleGet E dm w rq =
     (let key = query_get rq ''key'' in
      if key = [] then (w, reply E 400 ''missing cache key'')
      else if lookupOwners (hx_xxh E) dm key = [] then (w, reply E 404 ''not owner'')
      else case map_of (ds_items (dm_shardFor dm key)) key of
        Some it \<Rightarrow> (w, reply_JSON E (hx_getJSON E \<lparr>gr_Found = True, gr_Item = Some it\<rparr>))
      | None \<Rightarrow> (w, reply_JSON E (hx_getJSON E \<lparr>gr_Found = False, gr_Item = None\<rparr>)))"

definition handleRemove :: "'b HttpEnv \<Rightarrow> int \<Rightarrow> string \<Rightarrow> 'b handler" where
  "handleRemove E now nid w rq =
     (let key = query_get rq ''key'';
          flag = (if query_get rq ''replicate'' = [] then ''false'' else query_get rq ''replicate'')
      in if key = [] then (w, reply E 400 ''missing cache key'')
         else case ParseBool flag of
           None \<Rightarrow> (w, reply E 400 ''invalid replicate'')
         | Some repl \<Rightarrow> (applyRemove (hx_xxh E) now w nid key repl, reply E 200 ''OK''))"

definition handleHealth :: "'b HttpEnv \<Rightarrow> DistMemory \<Rightarrow> 'b handler" where
  "handleHealth E dm w rq = (w, if draining dm then reply E 503 ''draining'' else reply E 200 ''ok'')"

definition handleDrain :: "'b HttpEnv \<Rightarrow> string \<Rightarrow> DistMemory \<Rightarrow> 'b handler" where
  "handleDrain E nid dm w rq = (put_node w nid (Drain dm), reply E 200 ''draining'')"

definition handleProbe :: "'b HttpEnv \<Rightarrow> string \<Rightarrow> DistMemory \<Rightarrow> 'b handler" where
  "handleProbe E nid dm w rq =
     (let target = query_get rq ''target'' in
      if target = [] then (w, reply E 400 ''missing target'')
      else if \<not> dm_transport dm then (w, reply E 503 [])
      else case hx_health E nid target of
        None \<Rightarrow> (w, reply E 200 ''ok'')
      | Some e \<Rightarrow> (w, reply E (if e = ErrBackendNotFound then 404 else 502) []))"

definition handleGossip :: "'b HttpEnv \<Rightarrow> int \<Rightarrow> string \<Rightarrow> DistMemory \<Rightarrow> 'b handler" where
  "handleGossip E now nid dm w rq = (case hx_gossipParse E (hx_Body E rq) of
       None \<Rightarrow> (w, reply E 400 ''invalid body'')
     | Some members \<Rightarrow>
         (put_node w nid (acceptGossip (hx_xxh E) (hx_vsort E) now dm (gossipMembersToNodes now members)), reply E 200 ''OK''))"

definition handleMerkle :: "'b HttpEnv \<Rightarrow> DistMemory \<Rightarrow> 'b handler" where
  "handleMerkle E dm w rq = (w, reply_JSON E (Some (hx_merkleJSON E (BuildMerkleTree (hx_sha E) (hx_msort E) dm))))"

text \<open>The loop of \<open>collectShardKeys\<close> over the keys of a shard.\<close>

primrec collect_keys :: "int \<Rightarrow> (string \<Rightarrow> bool) \<Rightarrow> string list \<Rightarrow> string list \<Rightarrow> string list \<times> bool" where
  "collect_keys limit matcher [] out = (out, False)"
| "collect_keys limit matcher (k # ks) out =
     (if \<not> matcher k then collect_keys limit matcher ks out
      else if limit > 0 \<and> int (length out) \<ge> limit then (out, True)
      else collect_keys limit matcher ks (out @ [k]))"

definition collectShardKeys :: "distShard \<Rightarrow> int \<Rightarrow> (string \<Rightarrow> bool) \<Rightarrow> string list \<times> bool" where
  "collectShardKeys sh limit matcher = collect_keys limit matcher (map fst (ds_items sh)) []"

text \<open>An absent number is zero, a negative or malformed one is rejected.\<close>

definition query_nat :: "string \<Rightarrow> int option" where
  "query_nat raw = (if raw = [] then Some 0 else case Atoi raw of None \<Rightarrow> None | Some n \<Rightarrow> if n < 0 then None else Some n)"

definition handleKeys :: "'b HttpEnv \<Rightarrow> DistMemory \<Rightarrow> 'b handler" where
  "handleKeys E dm w rq = (case query_nat (query_get rq ''cursor'') of
       None \<Rightarrow> (w, reply E 400 ''invalid cursor'')
     | Some cursor \<Rightarrow> (case query_nat (query_get rq ''limit'') of
         None \<Rightarrow> (w, reply E 400 ''invalid limit'')
       | Some limit \<Rightarrow> (case buildKeyMatcher (query_get rq ''q'') of
           Inl e \<Rightarrow> (w, reply E 400 ''invalid glob pattern'')
         | Inr matcher \<Rightarrow>
             if cursor \<ge> int (length (dm_shards dm))
             then (w, reply_JSON E (Some (hx_keysJSON E \<lparr>kp_Keys = [], kp_NextCursor = [], kp_Truncated = False\<rparr>)))
             else case collectShardKeys (dm_shards dm ! nat cursor) limit matcher of (keys, truncated) \<Rightarrow>
               let nextCursor = (if truncated then Itoa cursor
                                 else if cursor + 1 < int (length (dm_shards dm)) then Itoa (cursor + 1) else [])
               in (w, reply_JSON E (Some (hx_keysJSON E \<lparr>kp_Keys = keys, kp_NextCursor = nextCursor, kp_Truncated = truncated\<rparr>))))))"

text \<open>The routes that \<open>start\<close> registers.\<close>

definition route :: "'b HttpEnv \<Rightarrow> int \<Rightarrow> string \<Rightarrow> DistMemory \<Rightarrow> string \<Rightarrow> string \<Rightarrow> 'b handler option" where
  "route E now nid dm meth path =
     (if meth = ''POST'' \<and> path \<in> set [''/internal/cache/set'', ''/internal/set''] then Some (handleSet E now nid dm)
      else if meth = ''GET'' \<and> path \<in> set [''/internal/cache/get'', ''/internal/get''] then Some (handleGet E dm)
      else if meth = ''DELETE'' \<and> path \<in> set [''/internal/cache/remove'', ''/internal/del''] then Some (handleRemove E now nid)
      else if meth = ''GET'' \<and> path = ''/health'' then Some (handleHealth E dm)
      else if meth = ''POST'' \<and> path = ''/dist/drain'' then Some (handleDrain E nid dm)
      else if meth = ''GET'' \<and> path = ''/internal/probe'' then Some (handleProbe E nid dm)
      else if meth = ''POST'' \<and> path = ''/internal/gossip'' then Some (handleGossip E now nid dm)
      else if meth = ''GET'' \<and> path = ''/internal/merkle'' then Some (handleMerkle E dm)
      else if meth = ''GET'' \<and> path = ''/internal/keys'' then Some (handleKeys E dm)
      else None)"

definition serve :: "'b HttpEnv \<Rightarrow> int \<Rightarrow> string \<Rightarrow> 'b handler" where
  "serve E now nid w rq = (case map_of (w_nodes w) nid of
       None \<Rightarrow> (w, reply E 404 [])
     | Some dm \<Rightarrow> (case route E now nid dm (hq_method rq) (hq_path rq) of
         None \<Rightarrow> (w, reply E 404 [])
       | Some handler \<Rightarrow> wrapAuth E (hx_auth E nid) handler w rq))"

section \<open>The transport\<close>

record 'b DistHTTPTransport =
  ht_baseURLFn :: "string \<Rightarrow> string option"
  ht_respBodyLimit :: int
  ht_auth :: "'b DistHTTPAuth"
  ht_compressionThreshold :: int

definition NewDistHTTPTransportWithAuth :: "DistHTTPLimits \<Rightarrow> 'b DistHTTPAuth \<Rightarrow> (string \<Rightarrow> string option) \<Rightarrow> 'b DistHTTPTransport" where
  "NewDistHTTPTransportWithAuth limits auth resolver =
     (let limits = withDefaults limits in
      \<lparr>ht_baseURLFn = resolver, ht_respBodyLimit = hl_ResponseLimit limits, ht_auth = auth,
       ht_compressionThreshold = hl_CompressionThreshold limits\<rparr>)"

definition makePeerURLResolver :: "DistHTTPLimits \<Rightarrow> DistMemory \<Rightarrow> ClusterNode \<Rightarrow> string \<Rightarrow> string option" where
  "makePeerURLResolver limits dm localNode nid =
     (let scheme = (if hl_TLSConfig limits then ''https://'' else ''http://'') in
      case find (\<lambda>n. node_ID n = nid) (Membership_List (dm_membership dm)) of
        Some n \<Rightarrow> Some (scheme @ node_Address n)
      | None \<Rightarrow> if node_ID localNode = nid then Some (scheme @ node_Address localNode) else None)"

definition resolveBaseURL :: "'b HttpEnv \<Rightarrow> 'b DistHTTPTransport \<Rightarrow> string \<Rightarrow> sentinel + string" where
  "resolveBaseURL E t nid = (case ht_baseURLFn t nid of
       None \<Rightarrow> Inl ErrBackendNotFound
     | Some base \<Rightarrow> (case hx_urlParse E base of
         None \<Rightarrow> Inl (ErrText ''parse base url'')
       | Some (scheme, host) \<Rightarrow>
           if scheme = [] \<or> host = [] then Inl (ErrText ''invalid base url for node'')
           else if scheme \<in> set [''http'', ''https''] then Inr base
           else Inl (ErrText ''unsupported base url scheme'')))"

definition newNodeRequest :: "'b HttpEnv \<Rightarrow> 'b DistHTTPTransport \<Rightarrow> string \<Rightarrow> string \<Rightarrow> string \<Rightarrow> (string, string) gomap \<Rightarrow> 'b option
    \<Rightarrow> sentinel + string \<times> 'b http_request" where
  "newNodeRequest E t meth nid path query body = (case resolveBaseURL E t nid of
       Inl e \<Rightarrow> Inl e
     | Inr base \<Rightarrow> (case auth_sign (ht_auth t) \<lparr>hq_method = meth, hq_path = path, hq_query = query, hq_headers = [], hq_body = body\<rparr> of
         Inl e \<Rightarrow> Inl e
       | Inr rq \<Rightarrow> Inr (base, rq)))"

text \<open>Whoever listens at the base URL serves the request; nobody there is a failed connection.\<close>

definition doTrusted :: "'b HttpEnv \<Rightarrow> int \<Rightarrow> World \<Rightarrow> string \<times> 'b http_request \<Rightarrow> World \<times> (sentinel + 'b http_response)" where
  "doTrusted E now w hreq = (case hx_listens E (fst hreq) of
       None \<Rightarrow> (w, Inl (ErrText ''do request''))
     | Some nid \<Rightarrow> (case serve E now nid w (snd hreq) of (w1, resp) \<Rightarrow> (w1, Inr resp)))"

definition maybeGzip :: "'b HttpEnv \<Rightarrow> 'b DistHTTPTransport \<Rightarrow> 'b \<Rightarrow> sentinel + 'b \<times> bool" where
  "maybeGzip E t payload =
     (if ht_compressionThreshold t \<le> 0 \<or> hx_len E payload \<le> ht_compressionThreshold t then Inr (payload, False)
      else case hx_gzip E payload of None \<Rightarrow> Inl (ErrText ''gzip write'') | Some z \<Rightarrow> Inr (z, True))"

text \<open>Reading a bounded body.\<close>

definition limitedBody :: "'b HttpEnv \<Rightarrow> 'b DistHTTPTransport \<Rightarrow> 'b http_response \<Rightarrow> 'b option" where
  "limitedBody E t resp = (if ht_respBodyLimit t \<le> 0 \<or> hx_len E (hs_body resp) \<le> ht_respBodyLimit t then Some (hs_body resp) else None)"

definition readAndUnmarshal :: "'b HttpEnv \<Rightarrow> 'b DistHTTPTransport \<Rightarrow> ('b \<Rightarrow> 'a option) \<Rightarrow> 'b http_response \<Rightarrow> sentinel + 'a" where
  "readAndUnmarshal E t parse resp = (case limitedBody E t resp of
       None \<Rightarrow> Inl (ErrText ''read response body'')
     | Some buf \<Rightarrow> (case parse buf of None \<Rightarrow> Inl (ErrText ''unmarshal response body'') | Some v \<Rightarrow> Inr v))"

definition status_error :: "string \<Rightarrow> int \<Rightarrow> sentinel option" where
  "status_error what st =
     (if st = 404 then Some ErrBackendNotFound
      else if st \<ge> 300 then Some (ErrText (what @ Itoa st)) else None)"

definition HTTP_ForwardSet :: "'b HttpEnv \<Rightarrow> 'b DistHTTPTransport \<Rightarrow> int \<Rightarrow> World \<Rightarrow> string \<Rightarrow> Item \<Rightarrow> bool \<Rightarrow> World \<times> sentinel option" where
  "HTTP_ForwardSet E t now w nid item repl =
     (let r = \<lparr>sr_Key = Key item, sr_Value = Val item, sr_Expiration = dur_Milliseconds (Expiration item), sr_Version = Version item,
               sr_Origin = Origin item, sr_Replicate = repl\<rparr> in
      case hx_setJSON E r of
        None \<Rightarrow> (w, Some (ErrText ''marshal set request''))
      | Some payload \<Rightarrow> (case maybeGzip E t payload of
          Inl e \<Rightarrow> (w, Some e)
        | Inr (body, gzipped) \<Rightarrow> (case newNodeRequest E t ''POST'' nid ''/internal/set'' [] (Some body) of
            Inl e \<Rightarrow> (w, Some e)
          | Inr (base, rq) \<Rightarrow>
              let rq1 = header_set ''Content-Type'' ''application/json'' rq;
                  rq2 = (if gzipped then header_set ''Content-Encoding'' ''gzip'' rq1 else rq1)
              in case doTrusted E now w (base, rq2) of
                (w1, Inl e) \<Rightarrow> (w1, Some e)
              | (w1, Inr resp) \<Rightarrow> (w1, status_error ''forward set status '' (hs_status resp)))))"

definition decodeGetBody :: "'b HttpEnv \<Rightarrow> 'b DistHTTPTransport \<Rightarrow> int \<Rightarrow> 'b http_response \<Rightarrow> sentinel + Item option" where
  "decodeGetBody E t now resp = (case readAndUnmarshal E t (hx_rawMap E) resp of
       Inl e \<Rightarrow> Inl e
     | Inr raw \<Rightarrow>
         (case (case map_of raw ''found'' of None \<Rightarrow> Some False | Some fb \<Rightarrow> hx_boolParse E fb) of
            None \<Rightarrow> Inl (ErrText ''unmarshal found'')
          | Some False \<Rightarrow> Inr None
          | Some True \<Rightarrow>
              (case map_of raw ''item'' of
                 None \<Rightarrow> Inr (Some \<lparr>Key = [], Val = GNil, LastAccess = 0, LastUpdated = 0, Size = 0, Expiration = 0, AccessCount = 0, Version = 0, Origin = []\<rparr>)
               | Some ib \<Rightarrow>
                   if hx_len E ib \<le> 0
                   then Inr (Some \<lparr>Key = [], Val = GNil, LastAccess = 0, LastUpdated = 0, Size = 0, Expiration = 0, AccessCount = 0, Version = 0, Origin = []\<rparr>)
                   else (case hx_mirrorParse E ib of
                       None \<Rightarrow> Inl (ErrText ''unmarshal mirror'')
                     | Some m \<Rightarrow> Inr (Some \<lparr>Key = mi_Key m, Val = hx_rawValue E (mi_Value m), LastAccess = now, LastUpdated = now, Size = 0,
                         Expiration = from_Milliseconds (mi_Expiration m), AccessCount = 0, Version = mi_Version m, Origin = mi_Origin m\<rparr>)))))"

definition HTTP_ForwardGet :: "'b HttpEnv \<Rightarrow> 'b DistHTTPTransport \<Rightarrow> int \<Rightarrow> World \<Rightarrow> string \<Rightarrow> string \<Rightarrow> World \<times> (sentinel + Item option)" where
  "HTTP_ForwardGet E t now w nid key = (case newNodeRequest E t ''GET'' nid ''/internal/get'' [(''key'', key)] None of
       Inl e \<Rightarrow> (w, Inl e)
     | Inr hreq \<Rightarrow> (case doTrusted E now w hreq of
         (w1, Inl e) \<Rightarrow> (w1, Inl e)
       | (w1, Inr resp) \<Rightarrow> (w1,
           if hs_status resp = 404 then Inl ErrBackendNotFound
           else if hs_status resp \<noteq> 200 then Inl (ErrText (''forward get status '' @ Itoa (hs_status resp)))
           else decodeGetBody E t now resp)))"

text \<open>The operations that only look at the status of the answer.\<close>

definition status_call :: "'b HttpEnv \<Rightarrow> 'b DistHTTPTransport \<Rightarrow> int \<Rightarrow> World \<Rightarrow> string \<Rightarrow> sentinel + string \<times> 'b http_request \<Rightarrow> World \<times> sentinel option" where
  "status_call E t now w what req = (case req of
       Inl e \<Rightarrow> (w, Some e)
     | Inr hreq \<Rightarrow> (case doTrusted E now w hreq of
         (w1, Inl e) \<Rightarrow> (w1, Some e)
       | (w1, Inr resp) \<Rightarrow> (w1, status_error what (hs_status resp))))"

definition HTTP_ForwardRemove :: "'b HttpEnv \<Rightarrow> 'b DistHTTPTransport \<Rightarrow> int \<Rightarrow> World \<Rightarrow> string \<Rightarrow> string \<Rightarrow> bool \<Rightarrow> World \<times> sentinel option" where
  "HTTP_ForwardRemove E t now w nid key repl = status_call E t now w ''forward remove status ''
     (newNodeRequest E t ''DELETE'' nid ''/internal/del'' [(''key'', key), (''replicate'', FormatBool repl)] None)"

definition HTTP_Health :: "'b HttpEnv \<Rightarrow> 'b DistHTTPTransport \<Rightarrow> int \<Rightarrow> World \<Rightarrow> string \<Rightarrow> World \<times> sentinel option" where
  "HTTP_Health E t now w nid = status_call E t now w ''health status '' (newNodeRequest E t ''GET'' nid ''/health'' [] None)"

definition HTTP_IndirectHealth :: "'b HttpEnv \<Rightarrow> 'b DistHTTPTransport \<Rightarrow> int \<Rightarrow> World \<Rightarrow> string \<Rightarrow> string \<Rightarrow> World \<times> sentinel option" where
  "HTTP_IndirectHealth E t now w relay target = status_call E t now w ''indirect probe status ''
     (newNodeRequest E t ''GET'' relay ''/internal/probe'' [(''target'', target)] None)"

definition HTTP_Gossip :: "'b HttpEnv \<Rightarrow> 'b DistHTTPTransport \<Rightarrow> int \<Rightarrow> World \<Rightarrow> string \<Rightarrow> GossipMember list \<Rightarrow> World \<times> sentinel option" where
  "HTTP_Gossip E t now w nid members = (case hx_gossipJSON E members of
       None \<Rightarrow> (w, Some (ErrText ''marshal gossip payload''))
     | Some payload \<Rightarrow> status_call E t now w ''gossip status ''
         (case newNodeRequest E t ''POST'' nid ''/internal/gossip'' [] (Some payload) of
            Inl e \<Rightarrow> Inl e
          | Inr (base, rq) \<Rightarrow> Inr (base, header_set ''Content-Type'' ''application/json'' rq)))"

definition HTTP_FetchMerkle :: "'b HttpEnv \<Rightarrow> 'b DistHTTPTransport \<Rightarrow> int \<Rightarrow> World \<Rightarrow> string \<Rightarrow> World \<times> (sentinel + MerkleTree)" where
  "HTTP_FetchMerkle E t now w nid = (case newNodeRequest E t ''GET'' nid ''/internal/merkle'' [] None of
       Inl e \<Rightarrow> (w, Inl e)
     | Inr hreq \<Rightarrow> (case doTrusted E now w hreq of
         (w1, Inl e) \<Rightarrow> (w1, Inl e)
       | (w1, Inr resp) \<Rightarrow> (w1, case status_error ''fetch merkle status '' (hs_status resp) of
             Some e \<Rightarrow> Inl e
           | None \<Rightarrow> readAndUnmarshal E t (hx_merkleParse E) resp)))"

definition listKeysPage :: "'b HttpEnv \<Rightarrow> 'b DistHTTPTransport \<Rightarrow> int \<Rightarrow> World \<Rightarrow> string \<Rightarrow> string \<Rightarrow> string \<Rightarrow> World \<times> (sentinel + keysPageResp)" where
  "listKeysPage E t now w nid cursor pattern =
     (let query = (if cursor = [] then [] else [(''cursor'', cursor)]) @ (if pattern = [] then [] else [(''q'', pattern)]) in
      case newNodeRequest E t ''GET'' nid ''/internal/keys'' query None of
        Inl e \<Rightarrow> (w, Inl e)
      | Inr hreq \<Rightarrow> (case doTrusted E now w hreq of
          (w1, Inl e) \<Rightarrow> (w1, Inl e)
        | (w1, Inr resp) \<Rightarrow> (w1,
            if hs_status resp \<ge> 300 then Inl (ErrText (''list keys status '' @ Itoa (hs_status resp)))
            else readAndUnmarshal E t (hx_keysParse E) resp)))"

primrec listKeys_loop :: "nat \<Rightarrow> 'b HttpEnv \<Rightarrow> 'b DistHTTPTransport \<Rightarrow> int \<Rightarrow> World \<Rightarrow> string \<Rightarrow> string \<Rightarrow> string \<Rightarrow> string list
    \<Rightarrow> World \<times> (sentinel + string list)" where
  "listKeys_loop 0 E t now w nid cursor pattern all = (w, Inr all)"
| "listKeys_loop (Suc n) E t now w nid cursor pattern all = (case listKeysPage E t now w nid cursor pattern of
       (w1, Inl e) \<Rightarrow> (w1, Inl e)
     | (w1, Inr page) \<Rightarrow>
         if kp_NextCursor page = [] then (w1, Inr (all @ kp_Keys page))
         else if kp_NextCursor page = cursor then (w1, Inr (all @ kp_Keys page))
         else listKeys_loop n E t now w1 nid (kp_NextCursor page) pattern (all @ kp_Keys page))"

definition safetyLimit :: nat where
  "safetyLimit = 1024"

definition HTTP_ListKeys :: "'b HttpEnv \<Rightarrow> 'b DistHTTPTransport \<Rightarrow> int \<Rightarrow> World \<Rightarrow> string \<Rightarrow> string \<Rightarrow> World \<times> (sentinel + string list)" where
  "HTTP_ListKeys E t now w nid pattern = listKeys_loop safetyLimit E t now w nid [] pattern []"

end
