(* ===== verification/DistHTTPResults.thy ===== *)
theory DistHTTPResults
  imports DistHTTP
begin

text \<open>
  The HTTP transport against the in-process one: what a write, a removal, a read, a key listing, a gossip
  push and a Merkle fetch over HTTP do to the cluster, and that a request without the shared token does
  nothing. The documented behaviour of the parameters is \<open>json_ok\<close> and \<open>body_ok\<close>.
\<close>

section \<open>What the parameters promise\<close>

text \<open>
  The codec reproduces what it encoded, up to the representation of a value of type \<open>any\<close>: \<open>jv\<close> is what
  a value becomes when it is decoded again, \<open>rawv\<close> what it becomes when its encoding is kept as a raw
  message. The item of a get response has no field tags: its fields are found by their names regardless
  of case, and its expiration is a number of nanoseconds.
\<close>

definition json_ok :: "'b HttpEnv \<Rightarrow> (gval \<Rightarrow> gval) \<Rightarrow> (gval \<Rightarrow> gval) \<Rightarrow> bool" where
  "json_ok E jv rawv \<longleftrightarrow>
     (\<forall>r b. hx_setJSON E r = Some b \<longrightarrow> hx_setParse E b = Some (r\<lparr>sr_Value := jv (sr_Value r)\<rparr>)) \<and>
     (\<forall>it b. hx_getJSON E \<lparr>gr_Found = True, gr_Item = Some it\<rparr> = Some b \<longrightarrow>
        (\<exists>m fb ib mi. hx_rawMap E b = Some m \<and> map_of m ''found'' = Some fb \<and> hx_boolParse E fb = Some True \<and>
           map_of m ''item'' = Some ib \<and> 0 < hx_len E ib \<and> hx_mirrorParse E ib = Some mi \<and> mi_Key mi = Key it \<and>
           hx_rawValue E (mi_Value mi) = rawv (Val it) \<and> mi_Expiration mi = Expiration it \<and> mi_Version mi = Version it \<and> mi_Origin mi = Origin it)) \<and>
     (\<forall>b. hx_getJSON E \<lparr>gr_Found = False, gr_Item = None\<rparr> = Some b \<longrightarrow>
        (\<exists>m fb. hx_rawMap E b = Some m \<and> map_of m ''found'' = Some fb \<and> hx_boolParse E fb = Some False)) \<and>
     (\<forall>p. hx_keysParse E (hx_keysJSON E p) = Some p) \<and> (\<forall>tree. hx_merkleParse E (hx_merkleJSON E tree) = Some tree) \<and>
     (\<forall>ms b. hx_gossipJSON E ms = Some b \<longrightarrow> hx_gossipParse E b = Some ms)"

text \<open>The router hands a handler the body as it was before compression.\<close>

definition body_ok :: "'b HttpEnv \<Rightarrow> bool" where
  "body_ok E \<longleftrightarrow>
     (\<forall>rq b. hq_body rq = Some b \<and> header_get rq ''Content-Encoding'' = [] \<longrightarrow> hx_Body E rq = b) \<and>
     (\<forall>rq b z. hq_body rq = Some z \<and> header_get rq ''Content-Encoding'' = ''gzip'' \<and> hx_gzip E b = Some z \<longrightarrow> hx_Body E rq = b)"

text \<open>The node is listed with a well-formed address and listens there.\<close>

definition connected :: "'b HttpEnv \<Rightarrow> 'b DistHTTPTransport \<Rightarrow> string \<Rightarrow> bool" where
  "connected E t nid \<longleftrightarrow> (\<exists>base scheme host. ht_baseURLFn t nid = Some base \<and> hx_urlParse E base = Some (scheme, host) \<and>
     scheme \<in> {''http'', ''https''} \<and> host \<noteq> [] \<and> hx_listens E base = Some nid)"

definition auth_agree :: "'b DistHTTPAuth \<Rightarrow> 'b DistHTTPAuth \<Rightarrow> bool" where
  "auth_agree client server \<longleftrightarrow> da_ClientSign client = None \<and>
     (\<not> inboundConfigured server \<or> da_ServerVerify server = None \<and> da_Token client = da_Token server)"

definition body_fits :: "'b HttpEnv \<Rightarrow> 'b DistHTTPTransport \<Rightarrow> 'b \<Rightarrow> bool" where
  "body_fits E t b \<longleftrightarrow> ht_respBodyLimit t \<le> 0 \<or> hx_len E b \<le> ht_respBodyLimit t"

section \<open>Requests that are served\<close>

lemma header_get_set [simp]: "header_get (header_set k v rq) k' = (if k = k' then v else header_get rq k')"
  by (simp add: header_get_def header_set_def gomap_simps)

lemma header_set_fields [simp]:
  "hq_method (header_set k v rq) = hq_method rq" "hq_path (header_set k v rq) = hq_path rq"
  "hq_query (header_set k v rq) = hq_query rq" "hq_body (header_set k v rq) = hq_body rq"
  by (simp_all add: header_set_def)

text \<open>A request that reaches the handler of its node, and still does with more headers than it has.\<close>

definition passes :: "'b HttpEnv \<Rightarrow> string \<Rightarrow> 'b http_request \<Rightarrow> bool" where
  "passes E nid rq \<longleftrightarrow> (\<forall>rq' w handler. header_get rq' ''Authorization'' = header_get rq ''Authorization'' \<longrightarrow>
     wrapAuth E (hx_auth E nid) handler w rq' = handler w rq')"

definition sendable :: "'b HttpEnv \<Rightarrow> string \<Rightarrow> string \<Rightarrow> string \<Rightarrow> (string, string) gomap \<Rightarrow> 'b option \<Rightarrow> string \<times> 'b http_request \<Rightarrow> bool" where
  "sendable E nid meth path query body hreq \<longleftrightarrow> hx_listens E (fst hreq) = Some nid \<and> hq_method (snd hreq) = meth \<and> hq_path (snd hreq) = path \<and>
     hq_query (snd hreq) = query \<and> hq_body (snd hreq) = body \<and> header_get (snd hreq) ''Content-Encoding'' = [] \<and> passes E nid (snd hreq)"

text \<open>A request signed with the shared token passes the check of the server.\<close>

lemma node_request:
  assumes "connected E t nid" "auth_agree (ht_auth t) (hx_auth E nid)"
  shows "\<exists>hreq. newNodeRequest E t meth nid path query body = Inr hreq \<and> sendable E nid meth path query body hreq"
proof -
  let ?rq = "\<lparr>hq_method = meth, hq_path = path, hq_query = query, hq_headers = [], hq_body = body\<rparr>"
  let ?c = "ht_auth t" and ?s = "hx_auth E nid"
  from assms(1) obtain base where base: "resolveBaseURL E t nid = Inr base" "hx_listens E base = Some nid"
    by (auto simp: connected_def resolveBaseURL_def)
  define rq where "rq = (if da_Token ?c = [] then ?rq else header_set ''Authorization'' (''Bearer '' @ da_Token ?c) ?rq)"
  have sign: "auth_sign ?c ?rq = Inr rq" using assms(2) by (simp add: auth_sign_def auth_agree_def rq_def)
  have "passes E nid rq" using assms(2)
    by (auto simp: passes_def wrapAuth_def auth_agree_def auth_verify_def rq_def inboundConfigured_def split: option.splits)
  moreover have "newNodeRequest E t meth nid path query body = Inr (base, rq)" by (simp add: newNodeRequest_def base(1) sign)
  moreover have "hq_method rq = meth" "hq_path rq = path" "hq_query rq = query" "hq_body rq = body" "header_get rq ''Content-Encoding'' = []"
    by (simp_all add: rq_def header_get_def header_set_def)
  ultimately show ?thesis using base(2) by (auto simp: sendable_def)
qed

text \<open>Such a request is answered by the handler of its route.\<close>

lemma doTrusted_handler:
  assumes "sendable E nid meth path query body hreq" "map_of (w_nodes w) nid = Some dm" "route E now nid dm meth path = Some handler"
    and "header_get rq' ''Authorization'' = header_get (snd hreq) ''Authorization''" "hq_method rq' = meth" "hq_path rq' = path"
  shows "doTrusted E now w (fst hreq, rq') = (fst (handler w rq'), Inr (snd (handler w rq')))"
proof -
  have "wrapAuth E (hx_auth E nid) handler w rq' = handler w rq'" using assms(1,4) by (simp add: sendable_def passes_def)
  then show ?thesis using assms by (simp add: doTrusted_def serve_def sendable_def split_beta)
qed

section \<open>Writes\<close>

text \<open>What arrives of an item sent over HTTP.\<close>

definition wire_item :: "int \<Rightarrow> (gval \<Rightarrow> gval) \<Rightarrow> Item \<Rightarrow> Item" where
  "wire_item now jv it = it\<lparr>Val := jv (Val it), LastAccess := now, LastUpdated := now, Size := 0,
     Expiration := from_Milliseconds (dur_Milliseconds (Expiration it)), AccessCount := 0\<rparr>"

lemma maybeGzip_body:
  assumes "maybeGzip E t payload = Inr (b, gzipped)"
  shows "if gzipped then hx_gzip E payload = Some b else b = payload"
  using assms by (auto simp: maybeGzip_def split: if_splits option.splits)


section \<open>Reads\<close>

text \<open>
  C30. A read over HTTP returns the stored item with its lifetime multiplied by a million, modulo \<open>2^64\<close>: the
  server encodes nanoseconds, the client takes them for milliseconds. A lifetime of one second comes back
  as more than eleven days, one of three hours as a negative number, which never expires.
\<close>

theorem HTTP_get_scales_expiration:
  assumes "connected E t nid" "auth_agree (ht_auth t) (hx_auth E nid)" "json_ok E jv rawv" "map_of (w_nodes w) nid = Some dm"
    and "key \<noteq> []" "lookupOwners (hx_xxh E) dm key \<noteq> []" "local_get dm key = Some it" "Key it = key"
    and "hx_getJSON E \<lparr>gr_Found = True, gr_Item = Some it\<rparr> = Some b" "body_fits E t b"
  shows "HTTP_ForwardGet E t now w nid key = (w, Inr (Some (it\<lparr>Val := rawv (Val it), LastAccess := now, LastUpdated := now, Size := 0,
    Expiration := signed_take_bit 63 (Expiration it * 1000000), AccessCount := 0\<rparr>)))"
proof -
  from node_request [OF assms(1,2)] obtain hreq where req: "newNodeRequest E t ''GET'' nid ''/internal/get'' [(''key'', key)] None = Inr hreq"
    "sendable E nid ''GET'' ''/internal/get'' [(''key'', key)] None hreq" by metis
  have "doTrusted E now w (fst hreq, snd hreq) = (fst (handleGet E dm w (snd hreq)), Inr (snd (handleGet E dm w (snd hreq))))"
    using req(2) by (intro doTrusted_handler [OF req(2) assms(4)]) (simp_all add: route_def sendable_def)
  moreover have "query_get (snd hreq) ''key'' = key" using req(2) by (simp add: sendable_def query_get_def)
  then have "handleGet E dm w (snd hreq) = (w, \<lparr>hs_status = 200, hs_body = b\<rparr>)"
    using assms(5-7,9) by (simp add: handleGet_def local_get_def reply_JSON_def Let_def)
  moreover from assms(3,9) obtain m fb ib mi where j: "hx_rawMap E b = Some m" "map_of m ''found'' = Some fb" "hx_boolParse E fb = Some True"
    "map_of m ''item'' = Some ib" "0 < hx_len E ib" "hx_mirrorParse E ib = Some mi" "mi_Key mi = Key it" "hx_rawValue E (mi_Value mi) = rawv (Val it)"
    "mi_Expiration mi = Expiration it" "mi_Version mi = Version it" "mi_Origin mi = Origin it"
    unfolding json_ok_def by blast
  have "decodeGetBody E t now \<lparr>hs_status = 200, hs_body = b\<rparr> = Inr (Some (it\<lparr>Val := rawv (Val it), LastAccess := now, LastUpdated := now, Size := 0,
    Expiration := signed_take_bit 63 (Expiration it * 1000000), AccessCount := 0\<rparr>))"
    using assms(10) j by (cases it) (simp add: decodeGetBody_def readAndUnmarshal_def limitedBody_def body_fits_def from_Milliseconds_def)
  ultimately show ?thesis by (simp add: HTTP_ForwardGet_def req(1))
qed

text \<open>A key the node does not hold is a miss over either transport.\<close>

lemma HTTP_get_miss:
  assumes "connected E t nid" "auth_agree (ht_auth t) (hx_auth E nid)" "json_ok E jv rawv" "map_of (w_nodes w) nid = Some dm"
    and "key \<noteq> []" "lookupOwners (hx_xxh E) dm key \<noteq> []" "local_get dm key = None"
    and "hx_getJSON E \<lparr>gr_Found = False, gr_Item = None\<rparr> = Some b" "body_fits E t b"
  shows "HTTP_ForwardGet E t now w nid key = (w, Inr None)"
proof -
  from node_request [OF assms(1,2)] obtain hreq where req: "newNodeRequest E t ''GET'' nid ''/internal/get'' [(''key'', key)] None = Inr hreq"
    "sendable E nid ''GET'' ''/internal/get'' [(''key'', key)] None hreq" by metis
  have "doTrusted E now w (fst hreq, snd hreq) = (fst (handleGet E dm w (snd hreq)), Inr (snd (handleGet E dm w (snd hreq))))"
    using req(2) by (intro doTrusted_handler [OF req(2) assms(4)]) (simp_all add: route_def sendable_def)
  moreover have "query_get (snd hreq) ''key'' = key" using req(2) by (simp add: sendable_def query_get_def)
  then have "handleGet E dm w (snd hreq) = (w, \<lparr>hs_status = 200, hs_body = b\<rparr>)"
    using assms(5-8) by (simp add: handleGet_def local_get_def reply_JSON_def Let_def)
  moreover from assms(3,8) obtain m fb where "hx_rawMap E b = Some m" "map_of m ''found'' = Some fb" "hx_boolParse E fb = Some False"
    unfolding json_ok_def by blast
  ultimately show ?thesis using assms(9)
    by (simp add: HTTP_ForwardGet_def req(1) decodeGetBody_def readAndUnmarshal_def limitedBody_def body_fits_def)
qed

section \<open>Removals, gossip and Merkle trees\<close>

lemma HTTP_remove_equals_in_process:
  assumes "connected E t nid" "auth_agree (ht_auth t) (hx_auth E nid)" "backend_of w nid = Some dm" "key \<noteq> []"
  shows "HTTP_ForwardRemove E t now w nid key repl = ForwardRemove (hx_xxh E) now w nid key repl"
proof -
  let ?q = "[(''key'', key), (''replicate'', FormatBool repl)]"
  from node_request [OF assms(1,2)] obtain hreq where req: "newNodeRequest E t ''DELETE'' nid ''/internal/del'' ?q None = Inr hreq"
    "sendable E nid ''DELETE'' ''/internal/del'' ?q None hreq" by metis
  have node: "map_of (w_nodes w) nid = Some dm" using assms(3) by (auto simp: backend_of_def split: if_splits)
  have "doTrusted E now w (fst hreq, snd hreq) = (fst (handleRemove E now nid w (snd hreq)), Inr (snd (handleRemove E now nid w (snd hreq))))"
    using req(2) by (intro doTrusted_handler [OF req(2) node]) (simp_all add: route_def sendable_def)
  moreover have "query_get (snd hreq) ''key'' = key" "query_get (snd hreq) ''replicate'' = FormatBool repl"
    using req(2) by (simp_all add: sendable_def query_get_def)
  then have "handleRemove E now nid w (snd hreq) = (applyRemove (hx_xxh E) now w nid key repl, reply E 200 ''OK'')"
    using assms(4) by (simp add: handleRemove_def Let_def) (simp add: FormatBool_def)
  ultimately show ?thesis using assms(3)
    by (simp add: HTTP_ForwardRemove_def status_call_def req(1) status_error_def reply_def ForwardRemove_def)
qed

lemma HTTP_gossip_equals_in_process:
  assumes "connected E t nid" "auth_agree (ht_auth t) (hx_auth E nid)" "json_ok E jv rawv" "body_ok E" "backend_of w nid = Some dm"
    and "hx_gossipJSON E members = Some payload"
  shows "HTTP_Gossip E t now w nid members = Transport_Gossip (hx_xxh E) (hx_vsort E) now w nid members"
proof -
  from node_request [OF assms(1,2)] obtain hreq where req: "newNodeRequest E t ''POST'' nid ''/internal/gossip'' [] (Some payload) = Inr hreq"
    "sendable E nid ''POST'' ''/internal/gossip'' [] (Some payload) hreq" by metis
  let ?r = "header_set ''Content-Type'' ''application/json'' (snd hreq)"
  have node: "map_of (w_nodes w) nid = Some dm" using assms(5) by (auto simp: backend_of_def split: if_splits)
  have "doTrusted E now w (fst hreq, ?r) = (fst (handleGossip E now nid dm w ?r), Inr (snd (handleGossip E now nid dm w ?r)))"
    using req(2) by (intro doTrusted_handler [OF req(2) node]) (simp_all add: route_def sendable_def)
  moreover have "hx_gossipParse E (hx_Body E ?r) = Some members"
    using assms(3,4,6) req(2) by (auto simp: json_ok_def body_ok_def sendable_def)
  ultimately show ?thesis using assms(5,6)
    by (simp add: HTTP_Gossip_def status_call_def req(1) status_error_def reply_def Transport_Gossip_def handleGossip_def split_beta)
qed

lemma HTTP_merkle_equals_in_process:
  assumes "connected E t nid" "auth_agree (ht_auth t) (hx_auth E nid)" "json_ok E jv rawv" "map_of (w_nodes w) nid = Some dm"
    and "body_fits E t (hx_merkleJSON E (BuildMerkleTree (hx_sha E) (hx_msort E) dm))"
  shows "HTTP_FetchMerkle E t now w nid = (w, Inr (BuildMerkleTree (hx_sha E) (hx_msort E) dm))"
proof -
  from node_request [OF assms(1,2)] obtain hreq where req: "newNodeRequest E t ''GET'' nid ''/internal/merkle'' [] None = Inr hreq"
    "sendable E nid ''GET'' ''/internal/merkle'' [] None hreq" by metis
  have "doTrusted E now w (fst hreq, snd hreq) = (fst (handleMerkle E dm w (snd hreq)), Inr (snd (handleMerkle E dm w (snd hreq))))"
    using req(2) by (intro doTrusted_handler [OF req(2) assms(4)]) (simp_all add: route_def sendable_def)
  with assms(3,5) show ?thesis
    by (simp add: HTTP_FetchMerkle_def req(1) handleMerkle_def reply_JSON_def status_error_def readAndUnmarshal_def limitedBody_def body_fits_def json_ok_def)
qed

section \<open>Requests without the token\<close>


section \<open>Key listings\<close>

lemma collect_keys_all: "limit \<le> 0 \<Longrightarrow> collect_keys limit matcher ks out = (out @ filter matcher ks, False)"
  by (induction ks arbitrary: out) simp_all

definition shard_keys :: "string \<Rightarrow> distShard \<Rightarrow> string list" where
  "shard_keys pattern sh = filter (key_matches pattern) (map fst (ds_items sh))"

definition keys_page :: "DistMemory \<Rightarrow> string \<Rightarrow> nat \<Rightarrow> keysPageResp" where
  "keys_page dm pattern i = \<lparr>kp_Keys = shard_keys pattern (dm_shards dm ! i),
     kp_NextCursor = (if i + 1 < length (dm_shards dm) then Itoa (int i + 1) else []), kp_Truncated = False\<rparr>"

definition cursor_text :: "nat \<Rightarrow> string" where
  "cursor_text i = (if i = 0 then [] else Itoa (int i))"

lemma listKeysPage_at:
  assumes "connected E t nid" "auth_agree (ht_auth t) (hx_auth E nid)" "json_ok E jv rawv" "map_of (w_nodes w) nid = Some dm"
    and "buildKeyMatcher pattern = Inr (key_matches pattern)" "i < length (dm_shards dm)" "int (length (dm_shards dm)) < 2 ^ 63"
    and "body_fits E t (hx_keysJSON E (keys_page dm pattern i))"
  shows "listKeysPage E t now w nid (cursor_text i) pattern = (w, Inr (keys_page dm pattern i))"
proof -
  let ?q = "(if cursor_text i = [] then [] else [(''cursor'', cursor_text i)]) @ (if pattern = [] then [] else [(''q'', pattern)])"
  from node_request [OF assms(1,2)] obtain hreq where req: "newNodeRequest E t ''GET'' nid ''/internal/keys'' ?q None = Inr hreq"
    "sendable E nid ''GET'' ''/internal/keys'' ?q None hreq" by metis
  have handled: "doTrusted E now w (fst hreq, snd hreq) = (fst (handleKeys E dm w (snd hreq)), Inr (snd (handleKeys E dm w (snd hreq))))"
    using req(2) by (intro doTrusted_handler [OF req(2) assms(4)]) (simp_all add: route_def sendable_def)
  have "query_get (snd hreq) ''cursor'' = cursor_text i" "query_get (snd hreq) ''limit'' = []" "query_get (snd hreq) ''q'' = pattern"
    using req(2) by (simp_all add: sendable_def query_get_def)
  moreover have "query_nat (cursor_text i) = Some (int i)"
    using assms(6,7) Atoi_Itoa [of "int i"] Itoa_nonempty [of "int i"] by (simp add: query_nat_def cursor_text_def)
  moreover have "collectShardKeys (dm_shards dm ! i) 0 (key_matches pattern) = (shard_keys pattern (dm_shards dm ! i), False)"
    by (simp add: collectShardKeys_def collect_keys_all shard_keys_def)
  ultimately have "handleKeys E dm w (snd hreq) = (w, \<lparr>hs_status = 200, hs_body = hx_keysJSON E (keys_page dm pattern i)\<rparr>)"
    using assms(5,6) by (simp add: handleKeys_def query_nat_def Let_def reply_JSON_def keys_page_def)
  with handled assms(3,8) show ?thesis
    by (simp add: listKeysPage_def Let_def req(1) readAndUnmarshal_def limitedBody_def body_fits_def json_ok_def)
qed

lemma listKeys_loop_at:
  assumes "\<And>i. i < length (dm_shards dm) \<Longrightarrow> listKeysPage E t now w nid (cursor_text i) pattern = (w, Inr (keys_page dm pattern i))"
    and "i < length (dm_shards dm)"
  shows "listKeys_loop n E t now w nid (cursor_text i) pattern all = (w, Inr (all @ concat (map (shard_keys pattern) (take n (drop i (dm_shards dm))))))"
  using assms(2)
proof (induction n arbitrary: i all)
  case (Suc n)
  note page = assms(1) [OF Suc.prems]
  have split: "take (Suc n) (drop i (dm_shards dm)) = dm_shards dm ! i # take n (drop (Suc i) (dm_shards dm))"
    using Suc.prems by (simp add: Cons_nth_drop_Suc [symmetric])
  show ?case
  proof (cases "i + 1 < length (dm_shards dm)")
    case True
    then have nxt: "kp_NextCursor (keys_page dm pattern i) = cursor_text (Suc i)" by (simp add: keys_page_def cursor_text_def add.commute)
    have "cursor_text (Suc i) \<noteq> []" using Itoa_nonempty by (simp add: cursor_text_def)
    moreover have "cursor_text (Suc i) \<noteq> cursor_text i"
      using Itoa_nonempty [of "int (Suc i)"] Itoa_inject [of "int (Suc i)" "int i"] by (auto simp: cursor_text_def)
    moreover note Suc.IH [of "Suc i" "all @ kp_Keys (keys_page dm pattern i)"]
    ultimately show ?thesis using page nxt True split by (simp add: keys_page_def)
  next
    case False
    then have "drop (Suc i) (dm_shards dm) = []" by simp
    with False page split show ?thesis by (simp add: keys_page_def)
  qed
qed simp

text \<open>
  A key listing over HTTP returns the matching keys of the first 1024 shards of the node, without an error
  or a flag when there are more; up to 1024 shards it is the listing of the in-process transport.
\<close>

lemma HTTP_ListKeys_first_shards:
  assumes "connected E t nid" "auth_agree (ht_auth t) (hx_auth E nid)" "json_ok E jv rawv" "backend_of w nid = Some dm"
    and "buildKeyMatcher pattern = Inr (key_matches pattern)" "shards_ok dm" "shardCount dm < 2 ^ 63"
    and fits: "\<And>i. i < length (dm_shards dm) \<Longrightarrow> body_fits E t (hx_keysJSON E (keys_page dm pattern i))"
  shows "HTTP_ListKeys E t now w nid pattern = (w, Inr (concat (map (shard_keys pattern) (take 1024 (dm_shards dm))))) \<and>
    (shardCount dm \<le> 1024 \<longrightarrow> HTTP_ListKeys E t now w nid pattern = (w, Transport_ListKeys w nid pattern))"
proof -
  have node: "map_of (w_nodes w) nid = Some dm" using assms(4) by (auto simp: backend_of_def split: if_splits)
  have len: "int (length (dm_shards dm)) = shardCount dm" "0 < length (dm_shards dm)" using assms(6) by (auto simp: shards_ok_def)
  have page: "listKeysPage E t now w nid (cursor_text i) pattern = (w, Inr (keys_page dm pattern i))" if "i < length (dm_shards dm)" for i
    using listKeysPage_at [OF assms(1-3) node assms(5) that _ fits [OF that]] assms(7) len(1) by simp
  have "HTTP_ListKeys E t now w nid pattern = listKeys_loop 1024 E t now w nid (cursor_text 0) pattern []"
    by (simp add: HTTP_ListKeys_def safetyLimit_def cursor_text_def)
  then have first: "HTTP_ListKeys E t now w nid pattern = (w, Inr (concat (map (shard_keys pattern) (take 1024 (dm_shards dm)))))"
    using listKeys_loop_at [OF page len(2), of 1024 "[]"] by simp
  moreover have "Transport_ListKeys w nid pattern = Inr (concat (map (shard_keys pattern) (dm_shards dm)))"
    using assms(4,5) by (simp add: Transport_ListKeys_def localMatchingKeys_def shard_keys_def [abs_def])
  moreover have "take 1024 (dm_shards dm) = dm_shards dm" if "shardCount dm \<le> 1024" using that len(1) by simp
  ultimately show ?thesis by simp
qed

section \<open>Witnesses\<close>

text \<open>An environment that keeps messages as values, and nodes that share a token and listen under their names.\<close>

datatype msg = MSet httpSetRequest | MGet httpGetResponse | MBool bool | MItem Item | MVal gval | MKeys keysPageResp
  | MMerkle MerkleTree | MGossip "GossipMember list" | MText string | MZip msg

definition shared_token :: "msg DistHTTPAuth" where
  "shared_token = \<lparr>da_Token = ''s3'', da_ServerVerify = None, da_ClientSign = None, da_AllowAnonymousInbound = False\<rparr>"

definition msg_env :: "msg HttpEnv" where
  "msg_env = \<lparr>hx_xxh = flat_hash, hx_vsort = insertion_sort, hx_sha = id_sha, hx_msort = insertion_sort,
     hx_setJSON = \<lambda>r. Some (MSet r), hx_setParse = \<lambda>m. case m of MSet r \<Rightarrow> Some r | _ \<Rightarrow> None,
     hx_getJSON = \<lambda>g. Some (MGet g),
     hx_rawMap = \<lambda>m. case m of MGet g \<Rightarrow> Some ((''found'', MBool (gr_Found g)) #
       (case gr_Item g of None \<Rightarrow> [] | Some it \<Rightarrow> [(''item'', MItem it)])) | _ \<Rightarrow> None,
     hx_boolParse = \<lambda>m. case m of MBool b \<Rightarrow> Some b | _ \<Rightarrow> None,
     hx_mirrorParse = \<lambda>m. case m of
         MItem it \<Rightarrow> Some \<lparr>mi_Key = Key it, mi_Value = MVal (Val it), mi_Expiration = Expiration it, mi_Version = Version it, mi_Origin = Origin it\<rparr>
       | _ \<Rightarrow> None,
     hx_rawValue = \<lambda>m. case m of MVal v \<Rightarrow> v | _ \<Rightarrow> GNil,
     hx_keysJSON = MKeys, hx_keysParse = \<lambda>m. case m of MKeys p \<Rightarrow> Some p | _ \<Rightarrow> None,
     hx_merkleJSON = MMerkle, hx_merkleParse = \<lambda>m. case m of MMerkle tree \<Rightarrow> Some tree | _ \<Rightarrow> None,
     hx_gossipJSON = \<lambda>ms. Some (MGossip ms), hx_gossipParse = \<lambda>m. case m of MGossip ms \<Rightarrow> Some ms | _ \<Rightarrow> None,
     hx_text = MText, hx_len = \<lambda>_. 1, hx_gzip = \<lambda>m. Some (MZip m),
     hx_Body = \<lambda>rq. case hq_body rq of
         None \<Rightarrow> MText []
       | Some b \<Rightarrow> if header_get rq ''Content-Encoding'' = ''gzip'' then (case b of MZip m \<Rightarrow> m | _ \<Rightarrow> b) else b,
     hx_urlParse = \<lambda>u. Some (''http'', u), hx_listens = \<lambda>u. Some (drop 7 u), hx_health = \<lambda>_ _. None, hx_auth = \<lambda>_. shared_token\<rparr>"

definition msg_transport :: "msg DistHTTPTransport" where
  "msg_transport = \<lparr>ht_baseURLFn = \<lambda>nid. Some (''http://'' @ nid), ht_respBodyLimit = 16, ht_auth = shared_token, ht_compressionThreshold = 0\<rparr>"

lemma msg_json_ok: "json_ok msg_env (\<lambda>v. v) (\<lambda>v. v)"
  by (simp add: json_ok_def msg_env_def)

lemma msg_body_ok: "body_ok msg_env"
  by (simp add: body_ok_def msg_env_def)

lemma msg_connected: "connected msg_env msg_transport nid"
  by (simp add: connected_def msg_env_def msg_transport_def)

lemma msg_auth: "auth_agree (ht_auth msg_transport) (hx_auth msg_env nid)"
  by (simp add: auth_agree_def msg_env_def msg_transport_def shared_token_def)

lemma msg_fits: "body_fits msg_env msg_transport b"
  by (simp add: body_fits_def msg_env_def msg_transport_def)


text \<open>One second is read back as a million seconds.\<close>

theorem HTTP_get_scales_expiration_witness:
  "let it = (an_item ''x'' 1 ''a'')\<lparr>Expiration := 1000000000\<rparr>; w = trio [] [(''k'', it)] [] [''a'', ''b'', ''c'']
   in \<exists>got. HTTP_ForwardGet msg_env msg_transport 7 w ''b'' ''k'' = (w, Inr (Some got)) \<and> Expiration got = 1000000 * Expiration it"
proof -
  let ?it = "(an_item ''x'' 1 ''a'')\<lparr>Expiration := 1000000000\<rparr>"
  let ?w = "trio [] [(''k'', ?it)] [] [''a'', ''b'', ''c'']"
  have "map_of (w_nodes ?w) ''b'' = Some (node_with ''b'' [(''k'', ?it)])" by (simp add: trio_def)
  moreover have "lookupOwners (hx_xxh msg_env) (node_with ''b'' [(''k'', ?it)]) ''k'' \<noteq> []"
    by (simp add: lookupOwners_def node_with_def msg_env_def NewMembership_def)
  moreover have "local_get (node_with ''b'' [(''k'', ?it)]) ''k'' = Some ?it" by (simp add: dist_eval)
  moreover have "Key ?it = ''k''" by (simp add: an_item_def)
  ultimately have "HTTP_ForwardGet msg_env msg_transport 7 ?w ''b'' ''k'' = (?w, Inr (Some (?it\<lparr>Val := Val ?it, LastAccess := 7, LastUpdated := 7, Size := 0,
      Expiration := signed_take_bit 63 (Expiration ?it * 1000000), AccessCount := 0\<rparr>)))"
    using HTTP_get_scales_expiration [OF msg_connected msg_auth msg_json_ok, of ?w "''b''" "node_with ''b'' [(''k'', ?it)]" "''k''" ?it
        "MGet \<lparr>gr_Found = True, gr_Item = Some ?it\<rparr>" 7] by (simp add: msg_env_def msg_fits [unfolded msg_env_def])
  then show ?thesis by (simp add: Let_def)
qed


lemma HTTP_ListKeys_first_shards_example:
  "let w = trio [] [(''k'', an_item ''x'' 1 ''a''), (''z'', (an_item ''y'' 1 ''a'')\<lparr>Key := ''z''\<rparr>)] [] [''b'']
   in HTTP_ListKeys msg_env msg_transport 7 w ''b'' ''k'' = (w, Inr [''k''])"
proof -
  let ?dm = "node_with ''b'' [(''k'', an_item ''x'' 1 ''a''), (''z'', (an_item ''y'' 1 ''a'')\<lparr>Key := ''z''\<rparr>)]"
  let ?w = "trio [] [(''k'', an_item ''x'' 1 ''a''), (''z'', (an_item ''y'' 1 ''a'')\<lparr>Key := ''z''\<rparr>)] [] [''b'']"
  have no_meta: "set ''k'' \<inter> set keyGlobMetacharacters = {}" by (simp add: keyGlobMetacharacters_def)
  then have m: "buildKeyMatcher ''k'' = Inr (key_matches ''k'')" by (cases rule: buildKeyMatcher_cases [of "''k''"]) simp_all
  have "backend_of ?w ''b'' = Some ?dm" by (simp add: trio_def backend_of_def)
  have "shards_ok ?dm" "shardCount ?dm < 2 ^ 63"
    by (simp_all add: node_with_def shards_ok_def shard_ok_def empty_shard_def an_item_def)
  with HTTP_ListKeys_first_shards [OF msg_connected msg_auth msg_json_ok \<open>backend_of ?w ''b'' = Some ?dm\<close> m _ _ msg_fits]
  have "HTTP_ListKeys msg_env msg_transport 7 ?w ''b'' ''k'' = (?w, Inr (concat (map (shard_keys ''k'') (take 1024 (dm_shards ?dm)))))" by blast
  moreover have "concat (map (shard_keys ''k'') (take 1024 (dm_shards ?dm))) = [''k'']"
    using no_meta by (simp add: node_with_def shard_keys_def key_matches_def empty_shard_def)
  ultimately show ?thesis by simp
qed

end
