(* ===== verification/DistOptions.thy ===== *)
theory DistOptions
  imports DistHTTP
begin

text \<open>
  \<open>pkg/backend/dist_memory.go\<close>: construction of a node. Every \<open>WithDist\<close> option is a function on the
  node under construction; \<open>NewDistMemory\<close> applies them, checks the authentication settings, creates the
  shards, joins or creates the membership, starts the listener if needed and the repair queue.
  Background loops only call the ticks of the other theories, so starting them leaves no trace here, nor do
  logger, tracer and meter.
\<close>

section \<open>The node under construction\<close>

record 'b DistSetup =
  su_dm :: DistMemory
  su_membership :: "Membership option"
  su_localNode :: "ClusterNode option"
  su_httpLimits :: DistHTTPLimits
  su_httpAuth :: "'b DistHTTPAuth"

type_synonym 'b DistMemoryOption = "'b DistSetup \<Rightarrow> 'b DistSetup"

definition on_dm :: "(DistMemory \<Rightarrow> DistMemory) \<Rightarrow> 'b DistMemoryOption" where
  "on_dm f su = su\<lparr>su_dm := f (su_dm su)\<rparr>"

definition on_cfg :: "(DistConfig \<Rightarrow> DistConfig) \<Rightarrow> 'b DistMemoryOption" where
  "on_cfg f = on_dm (\<lambda>dm. dm\<lparr>dm_cfg := f (dm_cfg dm)\<rparr>)"

definition zero_config :: DistConfig where
  "zero_config = \<lparr>nodeID = [], nodeAddr = [], seeds = [], cfg_replication = 1, cfg_virtualNodes = 0, hbInterval = 0, hbSuspectAfter = 0, hbDeadAfter = 0,
     hbSampleSize = 0, indirectProbeK = 0, indirectProbeTimeout = 0, hintReplayInt = 0, gossipInterval = 0, merkleChunkSize = 0, listKeysMax = 0,
     autoSyncInterval = 0, autoSyncPeersPerInterval = 0, autoSyncMaxBackoffFactor = 0, tombstoneSweepInt = 0, rebalanceInterval = 0,
     rebalanceBatchSize = 0, rebalanceMaxConcurrent = 0, repairBatchInterval = 0, repairBatchSize = 0\<rparr>"

definition no_limits :: DistHTTPLimits where
  "no_limits = \<lparr>hl_BodyLimit = 0, hl_ResponseLimit = 0, hl_ReadTimeout = 0, hl_WriteTimeout = 0, hl_IdleTimeout = 0, hl_Concurrency = 0,
     hl_ClientTimeout = 0, hl_TLSConfig = False, hl_CompressionThreshold = 0\<rparr>"

definition no_auth :: "'b DistHTTPAuth" where
  "no_auth = \<lparr>da_Token = [], da_ServerVerify = None, da_ClientSign = None, da_AllowAnonymousInbound = False\<rparr>"

definition initial_setup :: "'b DistSetup" where
  "initial_setup = \<lparr>su_dm = \<lparr>dm_shards = [], shardCount = defaultDistShardCount, dm_capacity = 0, localID = [],
       dm_membership = NewMembership (NewRing []), dm_transport = False, dm_repairQueue = None, readConsistency = ConsistencyOne,
       writeConsistency = ConsistencyQuorum, versionCounter = 0, hintTTL = 0, hintMaxPerNode = 0, hintMaxTotal = 0, hintMaxBytes = 0, hints = [],
       hintTotal = 0, hintBytes = 0, parallelReads = False, tombVersionCounter = 0, tombstoneTTL = 0, removalGracePeriod = 0,
       replicaDiffMaxPerTick = 0, autoSyncBackoffFactor = 0, draining = False, dm_cfg = zero_config\<rparr>,
     su_membership = None, su_localNode = None, su_httpLimits = no_limits, su_httpAuth = no_auth\<rparr>"

section \<open>Options\<close>

definition WithDistReadConsistency :: "ConsistencyLevel \<Rightarrow> 'b DistMemoryOption" where
  "WithDistReadConsistency l = on_dm (\<lambda>dm. dm\<lparr>readConsistency := l\<rparr>)"

definition WithDistWriteConsistency :: "ConsistencyLevel \<Rightarrow> 'b DistMemoryOption" where
  "WithDistWriteConsistency l = on_dm (\<lambda>dm. dm\<lparr>writeConsistency := l\<rparr>)"

definition WithDistTombstoneTTL :: "int \<Rightarrow> 'b DistMemoryOption" where
  "WithDistTombstoneTTL d = on_dm (\<lambda>dm. dm\<lparr>tombstoneTTL := d\<rparr>)"

definition WithDistTombstoneSweep :: "int \<Rightarrow> 'b DistMemoryOption" where
  "WithDistTombstoneSweep interval = on_cfg (\<lambda>c. c\<lparr>tombstoneSweepInt := interval\<rparr>)"

definition WithDistShardCount :: "int \<Rightarrow> 'b DistMemoryOption" where
  "WithDistShardCount n = on_dm (\<lambda>dm. if n > 0 then dm\<lparr>shardCount := n\<rparr> else dm)"

definition WithDistMerkleChunkSize :: "int \<Rightarrow> 'b DistMemoryOption" where
  "WithDistMerkleChunkSize n = on_cfg (\<lambda>c. if n > 0 then c\<lparr>merkleChunkSize := n\<rparr> else c)"

definition WithDistMerkleAutoSync :: "int \<Rightarrow> 'b DistMemoryOption" where
  "WithDistMerkleAutoSync interval = on_cfg (\<lambda>c. c\<lparr>autoSyncInterval := interval\<rparr>)"

definition WithDistMerkleAdaptiveBackoff :: "int \<Rightarrow> 'b DistMemoryOption" where
  "WithDistMerkleAdaptiveBackoff maxFactor = on_cfg (\<lambda>c. c\<lparr>autoSyncMaxBackoffFactor := if maxFactor < 1 then 0 else maxFactor\<rparr>)"

definition WithDistMerkleAutoSyncPeers :: "int \<Rightarrow> 'b DistMemoryOption" where
  "WithDistMerkleAutoSyncPeers n = on_cfg (\<lambda>c. c\<lparr>autoSyncPeersPerInterval := n\<rparr>)"

definition WithDistListKeysCap :: "int \<Rightarrow> 'b DistMemoryOption" where
  "WithDistListKeysCap n = on_cfg (\<lambda>c. if n \<ge> 0 then c\<lparr>listKeysMax := n\<rparr> else c)"

definition WithDistRebalanceInterval :: "int \<Rightarrow> 'b DistMemoryOption" where
  "WithDistRebalanceInterval d = on_cfg (\<lambda>c. c\<lparr>rebalanceInterval := d\<rparr>)"

definition WithDistRebalanceBatchSize :: "int \<Rightarrow> 'b DistMemoryOption" where
  "WithDistRebalanceBatchSize n = on_cfg (\<lambda>c. if n > 0 then c\<lparr>rebalanceBatchSize := n\<rparr> else c)"

definition WithDistRebalanceMaxConcurrent :: "int \<Rightarrow> 'b DistMemoryOption" where
  "WithDistRebalanceMaxConcurrent n = on_cfg (\<lambda>c. if n > 0 then c\<lparr>rebalanceMaxConcurrent := n\<rparr> else c)"

definition WithDistReplicaDiffMaxPerTick :: "int \<Rightarrow> 'b DistMemoryOption" where
  "WithDistReplicaDiffMaxPerTick n = on_dm (\<lambda>dm. if n > 0 then dm\<lparr>replicaDiffMaxPerTick := n\<rparr> else dm)"

definition WithDistRemovalGrace :: "int \<Rightarrow> 'b DistMemoryOption" where
  "WithDistRemovalGrace d = on_dm (\<lambda>dm. if d > 0 then dm\<lparr>removalGracePeriod := d\<rparr> else dm)"

definition WithDistCapacity :: "int \<Rightarrow> 'b DistMemoryOption" where
  "WithDistCapacity capacity = on_dm (\<lambda>dm. dm\<lparr>dm_capacity := capacity\<rparr>)"

definition WithDistMembership :: "Membership option \<Rightarrow> ClusterNode option \<Rightarrow> 'b DistMemoryOption" where
  "WithDistMembership m node su = (if m \<noteq> None then su\<lparr>su_membership := m, su_localNode := node\<rparr> else su)"

definition WithDistTransport :: "bool \<Rightarrow> 'b DistMemoryOption" where
  "WithDistTransport t = on_dm (\<lambda>dm. dm\<lparr>dm_transport := t\<rparr>)"

definition WithDistHeartbeatSample :: "int \<Rightarrow> 'b DistMemoryOption" where
  "WithDistHeartbeatSample k = on_cfg (\<lambda>c. c\<lparr>hbSampleSize := k\<rparr>)"

definition WithDistHeartbeat :: "int \<Rightarrow> int \<Rightarrow> int \<Rightarrow> 'b DistMemoryOption" where
  "WithDistHeartbeat interval suspectAfter deadAfter =
     on_cfg (\<lambda>c. c\<lparr>hbInterval := interval, hbSuspectAfter := suspectAfter, hbDeadAfter := deadAfter\<rparr>)"

definition WithDistIndirectProbes :: "int \<Rightarrow> int \<Rightarrow> 'b DistMemoryOption" where
  "WithDistIndirectProbes k timeout = on_cfg (\<lambda>c. c\<lparr>indirectProbeK := if k < 0 then 0 else k, indirectProbeTimeout := timeout\<rparr>)"

definition WithDistReplication :: "int \<Rightarrow> 'b DistMemoryOption" where
  "WithDistReplication n = on_cfg (\<lambda>c. if n > 0 then c\<lparr>cfg_replication := n\<rparr> else c)"

definition WithDistVirtualNodes :: "int \<Rightarrow> 'b DistMemoryOption" where
  "WithDistVirtualNodes n = on_cfg (\<lambda>c. if n > 0 then c\<lparr>cfg_virtualNodes := n\<rparr> else c)"

definition WithDistHintTTL :: "int \<Rightarrow> 'b DistMemoryOption" where
  "WithDistHintTTL d = on_dm (\<lambda>dm. dm\<lparr>hintTTL := d\<rparr>)"

definition WithDistHintReplayInterval :: "int \<Rightarrow> 'b DistMemoryOption" where
  "WithDistHintReplayInterval d = on_cfg (\<lambda>c. c\<lparr>hintReplayInt := d\<rparr>)"

definition WithDistHintMaxPerNode :: "int \<Rightarrow> 'b DistMemoryOption" where
  "WithDistHintMaxPerNode n = on_dm (\<lambda>dm. if n > 0 then dm\<lparr>hintMaxPerNode := n\<rparr> else dm)"

definition WithDistHintMaxTotal :: "int \<Rightarrow> 'b DistMemoryOption" where
  "WithDistHintMaxTotal n = on_dm (\<lambda>dm. if n > 0 then dm\<lparr>hintMaxTotal := n\<rparr> else dm)"

definition WithDistHintMaxBytes :: "int \<Rightarrow> 'b DistMemoryOption" where
  "WithDistHintMaxBytes b = on_dm (\<lambda>dm. if b > 0 then dm\<lparr>hintMaxBytes := b\<rparr> else dm)"

definition WithDistParallelReads :: "bool \<Rightarrow> 'b DistMemoryOption" where
  "WithDistParallelReads enable = on_dm (\<lambda>dm. dm\<lparr>parallelReads := enable\<rparr>)"

definition WithDistGossipInterval :: "int \<Rightarrow> 'b DistMemoryOption" where
  "WithDistGossipInterval d = on_cfg (\<lambda>c. c\<lparr>gossipInterval := d\<rparr>)"

definition WithDistNode :: "string \<Rightarrow> string \<Rightarrow> 'b DistMemoryOption" where
  "WithDistNode nid address = on_cfg (\<lambda>c. (if address \<noteq> [] then c\<lparr>nodeAddr := address\<rparr> else c)\<lparr>nodeID := nid\<rparr>)"

definition WithDistSeeds :: "string list \<Rightarrow> 'b DistMemoryOption" where
  "WithDistSeeds addresses = on_cfg (\<lambda>c. c\<lparr>seeds := filter (\<lambda>a. a \<noteq> []) addresses\<rparr>)"

definition WithDistHTTPLimits :: "DistHTTPLimits \<Rightarrow> 'b DistMemoryOption" where
  "WithDistHTTPLimits limits su = su\<lparr>su_httpLimits := limits\<rparr>"

definition WithDistHTTPAuth :: "'b DistHTTPAuth \<Rightarrow> 'b DistMemoryOption" where
  "WithDistHTTPAuth auth su = su\<lparr>su_httpAuth := auth\<rparr>"

definition WithDistReadRepairBatch :: "int \<Rightarrow> int \<Rightarrow> 'b DistMemoryOption" where
  "WithDistReadRepairBatch interval maxBatchSize = on_cfg (\<lambda>c.
     if interval \<le> 0 \<or> maxBatchSize \<le> 0 then c\<lparr>repairBatchInterval := 0, repairBatchSize := 0\<rparr>
     else c\<lparr>repairBatchInterval := interval, repairBatchSize := maxBatchSize\<rparr>)"

section \<open>Construction\<close>

definition parseSeedSpec :: "string \<Rightarrow> string \<times> string" where
  "parseSeedSpec raw = (case str_Cut raw (CHR ''@'') of None \<Rightarrow> ([], raw) | Some (nid, addr) \<Rightarrow> (nid, addr))"

definition add_seed :: "(string \<Rightarrow> 64 word) \<Rightarrow> vsort \<Rightarrow> int \<Rightarrow> ClusterNode \<Rightarrow> string \<Rightarrow> Membership \<Rightarrow> Membership" where
  "add_seed xxh vsort now localNode raw m = (case parseSeedSpec raw of (nid, addr) \<Rightarrow>
     if addr = node_Address localNode then m
     else if nid = node_ID localNode then m
     else Upsert xxh vsort now m (NewNode xxh now nid addr))"

definition initStandaloneMembership :: "(string \<Rightarrow> 64 word) \<Rightarrow> vsort \<Rightarrow> int \<Rightarrow> 'b DistSetup \<Rightarrow> 'b DistSetup" where
  "initStandaloneMembership xxh vsort now su =
     (let cfg = dm_cfg (su_dm su);
          ring = NewRing ((if cfg_replication cfg > 0 then [WithReplication (cfg_replication cfg)] else []) @
                          (if cfg_virtualNodes cfg > 0 then [WithVirtualNodes (cfg_virtualNodes cfg)] else []));
          localNode = (case su_localNode su of
              Some n \<Rightarrow> n
            | None \<Rightarrow> NewNode xxh now (nodeID cfg) (if nodeAddr cfg = [] then ''local'' else nodeAddr cfg));
          membership = fold (add_seed xxh vsort now localNode) (seeds cfg) (Upsert xxh vsort now (NewMembership ring) localNode)
      in su\<lparr>su_membership := Some membership, su_localNode := Some localNode\<rparr>)"

text \<open>The observer that feeds the event bus is number zero.\<close>

definition installEventBusObserver :: "'b DistSetup \<Rightarrow> 'b DistSetup" where
  "installEventBusObserver su = su\<lparr>su_membership := map_option (OnStateChange 0) (su_membership su)\<rparr>"

definition initMembershipIfNeeded :: "(string \<Rightarrow> 64 word) \<Rightarrow> vsort \<Rightarrow> int \<Rightarrow> 'b DistSetup \<Rightarrow> 'b DistSetup" where
  "initMembershipIfNeeded xxh vsort now su = (case su_membership su of
       None \<Rightarrow> installEventBusObserver (initStandaloneMembership xxh vsort now su)
     | Some m \<Rightarrow>
         let localNode = (case su_localNode su of None \<Rightarrow> NewNode xxh now [] ''local'' | Some n \<Rightarrow> n);
             su1 = su\<lparr>su_membership := Some (Upsert xxh vsort now m localNode), su_localNode := Some localNode\<rparr>
         in installEventBusObserver (on_cfg (\<lambda>c. if nodeAddr c = [] then c\<lparr>nodeAddr := node_Address localNode\<rparr> else c) su1))"

text \<open>\<open>binds\<close> tells whether a listener can be bound to an address.\<close>

definition tryStartHTTP :: "(string \<Rightarrow> bool) \<Rightarrow> DistMemory \<Rightarrow> DistMemory" where
  "tryStartHTTP binds dm =
     (if dm_transport dm \<or> nodeAddr (dm_cfg dm) = [] then dm
      else if binds (nodeAddr (dm_cfg dm)) then dm\<lparr>dm_transport := True\<rparr> else dm)"

definition startRebalancerIfEnabled :: "DistMemory \<Rightarrow> DistMemory" where
  "startRebalancerIfEnabled dm =
     (if rebalanceInterval (dm_cfg dm) \<le> 0 then dm
      else dm\<lparr>dm_cfg := (dm_cfg dm)\<lparr>
        rebalanceBatchSize := if rebalanceBatchSize (dm_cfg dm) \<le> 0 then 128 else rebalanceBatchSize (dm_cfg dm),
        rebalanceMaxConcurrent := if rebalanceMaxConcurrent (dm_cfg dm) \<le> 0 then 2 else rebalanceMaxConcurrent (dm_cfg dm)\<rparr>\<rparr>)"

definition startRepairQueueIfEnabled :: "DistMemory \<Rightarrow> DistMemory" where
  "startRepairQueueIfEnabled dm =
     (if repairBatchInterval (dm_cfg dm) \<le> 0 \<or> repairBatchSize (dm_cfg dm) \<le> 0 then dm
      else dm\<lparr>dm_repairQueue := Some \<lparr>rq_maxBatchSize = repairBatchSize (dm_cfg dm), rq_entries = []\<rparr>\<rparr>)"

text \<open>The first action of the auto-sync loop.\<close>

definition startAutoSyncIfEnabled :: "DistMemory \<Rightarrow> DistMemory" where
  "startAutoSyncIfEnabled dm =
     (if autoSyncInterval (dm_cfg dm) \<le> 0 then dm
      else if autoSyncMaxBackoffFactor (dm_cfg dm) > 1 then dm\<lparr>autoSyncBackoffFactor := 1\<rparr> else dm)"

definition NewDistMemory :: "(string \<Rightarrow> 64 word) \<Rightarrow> vsort \<Rightarrow> int \<Rightarrow> (string \<Rightarrow> bool) \<Rightarrow> 'b DistMemoryOption list \<Rightarrow> sentinel + DistMemory" where
  "NewDistMemory xxh vsort now binds opts =
     (let su = fold (\<lambda>opt s. opt s) opts initial_setup in
      case auth_validate (su_httpAuth su) of
        Some e \<Rightarrow> Inl e
      | None \<Rightarrow>
          let su1 = initMembershipIfNeeded xxh vsort now (on_dm ensureShardConfig su);
              dm = (su_dm su1)\<lparr>localID := node_ID (the (su_localNode su1)), dm_membership := the (su_membership su1)\<rparr>
          in Inr (startRepairQueueIfEnabled (startRebalancerIfEnabled (startAutoSyncIfEnabled (tryStartHTTP binds dm)))))"

text \<open>
  The configuration is copied only if its dynamic type is the struct type declared inside
  \<open>NewDistMemoryWithConfig\<close>, which no caller can name.
\<close>

record minimalConfig =
  mc_NodeID :: string
  mc_BindAddr :: string
  mc_AdvertiseAddr :: string
  mc_Seeds :: "string list"
  mc_Replication :: int
  mc_VirtualNodes :: int
  mc_ReadConsistency :: int
  mc_WriteConsistency :: int
  mc_HintTTL :: int
  mc_HintReplay :: int
  mc_HintMaxPerNode :: int

datatype anyConfig = LocalMinimalConfig minimalConfig | DistConfigValue minimalConfig

definition zero_minimal :: minimalConfig where
  "zero_minimal = \<lparr>mc_NodeID = [], mc_BindAddr = [], mc_AdvertiseAddr = [], mc_Seeds = [], mc_Replication = 0, mc_VirtualNodes = 0,
     mc_ReadConsistency = 0, mc_WriteConsistency = 0, mc_HintTTL = 0, mc_HintReplay = 0, mc_HintMaxPerNode = 0\<rparr>"

definition level_of :: "int \<Rightarrow> ConsistencyLevel" where
  "level_of n = (if n = 0 then ConsistencyOne else ConsistencyQuorum)"

definition distOptionsFromMinimal :: "minimalConfig \<Rightarrow> 'b DistMemoryOption list" where
  "distOptionsFromMinimal mc =
     (if mc_NodeID mc \<noteq> [] \<or> mc_AdvertiseAddr mc \<noteq> [] then [WithDistNode (mc_NodeID mc) (mc_AdvertiseAddr mc)] else []) @
     (if mc_Seeds mc \<noteq> [] then [WithDistSeeds (mc_Seeds mc)] else []) @
     (if mc_Replication mc > 0 then [WithDistReplication (mc_Replication mc)] else []) @
     (if mc_VirtualNodes mc > 0 then [WithDistVirtualNodes (mc_VirtualNodes mc)] else []) @
     (if mc_ReadConsistency mc \<ge> 0 \<and> mc_ReadConsistency mc \<le> 1 then [WithDistReadConsistency (level_of (mc_ReadConsistency mc))] else []) @
     (if mc_WriteConsistency mc \<ge> 0 \<and> mc_WriteConsistency mc \<le> 1 then [WithDistWriteConsistency (level_of (mc_WriteConsistency mc))] else []) @
     (if mc_HintTTL mc > 0 then [WithDistHintTTL (mc_HintTTL mc)] else []) @
     (if mc_HintReplay mc > 0 then [WithDistHintReplayInterval (mc_HintReplay mc)] else []) @
     (if mc_HintMaxPerNode mc > 0 then [WithDistHintMaxPerNode (mc_HintMaxPerNode mc)] else [])"

definition NewDistMemoryWithConfig :: "(string \<Rightarrow> 64 word) \<Rightarrow> vsort \<Rightarrow> int \<Rightarrow> (string \<Rightarrow> bool) \<Rightarrow> anyConfig \<Rightarrow> 'b DistMemoryOption list
    \<Rightarrow> sentinel + DistMemory" where
  "NewDistMemoryWithConfig xxh vsort now binds cfg opts =
     (let mc = (case cfg of LocalMinimalConfig asserted \<Rightarrow> asserted | DistConfigValue _ \<Rightarrow> zero_minimal)
      in NewDistMemory xxh vsort now binds (distOptionsFromMinimal mc @ opts))"

section \<open>Operations on a running node\<close>

definition SetTransport :: "bool \<Rightarrow> DistMemory \<Rightarrow> DistMemory" where
  "SetTransport t dm = dm\<lparr>dm_transport := t\<rparr>"

definition SetLocalNode :: "(string \<Rightarrow> 64 word) \<Rightarrow> vsort \<Rightarrow> int \<Rightarrow> ClusterNode \<Rightarrow> DistMemory \<Rightarrow> DistMemory" where
  "SetLocalNode xxh vsort now node dm =
     dm\<lparr>localID := node_ID node,
       dm_cfg := if nodeAddr (dm_cfg dm) = [] then (dm_cfg dm)\<lparr>nodeAddr := node_Address node\<rparr> else dm_cfg dm,
       dm_membership := Upsert xxh vsort now (dm_membership dm) node\<rparr>"

definition DebugOwners :: "(string \<Rightarrow> 64 word) \<Rightarrow> DistMemory \<Rightarrow> string \<Rightarrow> string list" where
  "DebugOwners xxh dm key = Ring_Lookup xxh (mb_ring (dm_membership dm)) key"

definition IsOwner :: "(string \<Rightarrow> 64 word) \<Rightarrow> DistMemory \<Rightarrow> string \<Rightarrow> bool" where
  "IsOwner xxh dm key = ownsKeyInternal xxh dm key"

definition AddPeer :: "(string \<Rightarrow> 64 word) \<Rightarrow> vsort \<Rightarrow> int \<Rightarrow> ClusterNode \<Rightarrow> DistMemory \<Rightarrow> string \<Rightarrow> DistMemory" where
  "AddPeer xxh vsort now localNode dm address =
     (if address = [] \<or> node_Address localNode = address then dm
      else if list_ex (\<lambda>n. node_Address n = address) (Membership_List (dm_membership dm)) then dm
      else dm\<lparr>dm_membership := Upsert xxh vsort now (dm_membership dm) (NewNode xxh now [] address)\<rparr>)"

definition RemovePeer :: "(string \<Rightarrow> 64 word) \<Rightarrow> vsort \<Rightarrow> DistMemory \<Rightarrow> string \<Rightarrow> DistMemory" where
  "RemovePeer xxh vsort dm address =
     (if address = [] then dm
      else case find (\<lambda>n. node_Address n = address) (Membership_List (dm_membership dm)) of
        None \<Rightarrow> dm
      | Some n \<Rightarrow> dm\<lparr>dm_membership := fst (Membership_Remove xxh vsort (dm_membership dm) (node_ID n))\<rparr>)"

text \<open>\<open>Stop\<close> flushes the repair queue a last time and drops it.\<close>

definition DistMemory_Stop :: "(string \<Rightarrow> 64 word) \<Rightarrow> World \<Rightarrow> string \<Rightarrow> World" where
  "DistMemory_Stop xxh w self =
     (let w1 = flushAll xxh w self in
      case map_of (w_nodes w1) self of None \<Rightarrow> w1 | Some dm \<Rightarrow> put_node w1 self (dm\<lparr>dm_repairQueue := None\<rparr>))"

section \<open>Every node is well formed\<close>

text \<open>
  The options a caller can pass. A membership that is passed in has well-formed entries and a ring with
  positive settings, and a local node passed along with it is not dead.
\<close>

definition membership_ok :: "Membership \<Rightarrow> bool" where
  "membership_ok m \<longleftrightarrow> nodes_ok (mb_nodes m) \<and> 0 < vnPerNode (mb_ring m) \<and> 0 < replication (mb_ring m)"

inductive dist_option :: "'b DistMemoryOption \<Rightarrow> bool" where
  "dist_option (WithDistReadConsistency l)"
| "dist_option (WithDistWriteConsistency l)"
| "dist_option (WithDistTombstoneTTL d)"
| "dist_option (WithDistTombstoneSweep d)"
| "dist_option (WithDistShardCount n)"
| "dist_option (WithDistMerkleChunkSize n)"
| "dist_option (WithDistMerkleAutoSync d)"
| "dist_option (WithDistMerkleAdaptiveBackoff n)"
| "dist_option (WithDistMerkleAutoSyncPeers n)"
| "dist_option (WithDistListKeysCap n)"
| "dist_option (WithDistRebalanceInterval d)"
| "dist_option (WithDistRebalanceBatchSize n)"
| "dist_option (WithDistRebalanceMaxConcurrent n)"
| "dist_option (WithDistReplicaDiffMaxPerTick n)"
| "dist_option (WithDistRemovalGrace d)"
| "dist_option (WithDistCapacity n)"
| "membership_ok m \<Longrightarrow> (\<And>n. node = Some n \<Longrightarrow> node_State n \<noteq> NodeDead) \<Longrightarrow> dist_option (WithDistMembership (Some m) node)"
| "dist_option (WithDistMembership None node)"
| "dist_option (WithDistTransport b)"
| "dist_option (WithDistHeartbeatSample n)"
| "dist_option (WithDistHeartbeat d s e)"
| "dist_option (WithDistIndirectProbes n d)"
| "dist_option (WithDistReplication n)"
| "dist_option (WithDistVirtualNodes n)"
| "dist_option (WithDistHintTTL d)"
| "dist_option (WithDistHintReplayInterval d)"
| "dist_option (WithDistHintMaxPerNode n)"
| "dist_option (WithDistHintMaxTotal n)"
| "dist_option (WithDistHintMaxBytes n)"
| "dist_option (WithDistParallelReads b)"
| "dist_option (WithDistGossipInterval d)"
| "dist_option (WithDistNode nid address)"
| "dist_option (WithDistSeeds addresses)"
| "dist_option (WithDistHTTPLimits limits)"
| "dist_option (WithDistHTTPAuth auth)"
| "dist_option (WithDistReadRepairBatch d n)"

definition setup_ok :: "'b DistSetup \<Rightarrow> bool" where
  "setup_ok su \<longleftrightarrow> dm_shards (su_dm su) = [] \<and> hints (su_dm su) = [] \<and> hintTotal (su_dm su) = 0 \<and> hintBytes (su_dm su) = 0 \<and>
     (\<forall>m. su_membership su = Some m \<longrightarrow> membership_ok m) \<and> (\<forall>n. su_localNode su = Some n \<longrightarrow> node_State n \<noteq> NodeDead)"

lemmas option_defs = on_dm_def on_cfg_def WithDistReadConsistency_def WithDistWriteConsistency_def WithDistTombstoneTTL_def
  WithDistTombstoneSweep_def WithDistShardCount_def WithDistMerkleChunkSize_def WithDistMerkleAutoSync_def WithDistMerkleAdaptiveBackoff_def
  WithDistMerkleAutoSyncPeers_def WithDistListKeysCap_def WithDistRebalanceInterval_def WithDistRebalanceBatchSize_def
  WithDistRebalanceMaxConcurrent_def WithDistReplicaDiffMaxPerTick_def WithDistRemovalGrace_def WithDistCapacity_def WithDistMembership_def
  WithDistTransport_def WithDistHeartbeatSample_def WithDistHeartbeat_def WithDistIndirectProbes_def WithDistReplication_def
  WithDistVirtualNodes_def WithDistHintTTL_def WithDistHintReplayInterval_def WithDistHintMaxPerNode_def WithDistHintMaxTotal_def
  WithDistHintMaxBytes_def WithDistParallelReads_def WithDistGossipInterval_def WithDistNode_def WithDistSeeds_def WithDistHTTPLimits_def
  WithDistHTTPAuth_def WithDistReadRepairBatch_def

lemma option_keeps_setup: "dist_option opt \<Longrightarrow> setup_ok su \<Longrightarrow> setup_ok (opt su)"
  by (induction rule: dist_option.induct) (simp_all add: option_defs setup_ok_def)

lemma options_keep_setup: "(\<And>opt. opt \<in> set opts \<Longrightarrow> dist_option opt) \<Longrightarrow> setup_ok su \<Longrightarrow> setup_ok (fold (\<lambda>opt s. opt s) opts su)"
  by (induction opts arbitrary: su) (simp_all add: option_keeps_setup)

lemma initial_setup_ok: "setup_ok initial_setup"
  by (simp add: setup_ok_def initial_setup_def)

text \<open>A node joined, a membership stays in order and knows the node as live.\<close>

definition joined :: "(string \<Rightarrow> 64 word) \<Rightarrow> vsort \<Rightarrow> ClusterNode \<Rightarrow> Membership \<Rightarrow> bool" where
  "joined xxh vsort n m \<longleftrightarrow> membership_ok m \<and> mb_ring m = Ring_Build xxh vsort (mb_ring m) (ring_nodes m) \<and>
     (\<exists>n'. map_of (mb_nodes m) (node_ID n) = Some n' \<and> node_State n' \<noteq> NodeDead)"

lemma Ring_Build_keeps: "vnPerNode (Ring_Build xxh vsort r nodes) = vnPerNode r" "replication (Ring_Build xxh vsort r nodes) = replication r"
  "Ring_Build xxh vsort (Ring_Build xxh vsort r nodes) nodes' = Ring_Build xxh vsort r nodes'"
  by (simp_all add: Ring_Build_def Let_def)

lemma Upsert_parts: "mb_nodes (Upsert xxh vsort now m n) = gm_set (node_ID n) (n\<lparr>node_LastSeen := now\<rparr>) (mb_nodes m)"
  "mb_ring (Upsert xxh vsort now m n) = Ring_Build xxh vsort (mb_ring m) (ring_nodes (Upsert xxh vsort now m n))"
  by (simp_all add: membership_defs ring_nodes_def)

lemma Upsert_membership_ok: "membership_ok m \<Longrightarrow> membership_ok (Upsert xxh vsort now m n)"
  by (simp add: membership_ok_def Upsert_parts Ring_Build_keeps)

lemma Upsert_joined:
  assumes "membership_ok m" "node_State n \<noteq> NodeDead"
  shows "joined xxh vsort n (Upsert xxh vsort now m n)"
proof -
  have "map_of (mb_nodes (Upsert xxh vsort now m n)) (node_ID n) = Some (n\<lparr>node_LastSeen := now\<rparr>)" by (simp add: Upsert_parts gomap_simps)
  moreover have "mb_ring (Upsert xxh vsort now m n) = Ring_Build xxh vsort (mb_ring (Upsert xxh vsort now m n)) (ring_nodes (Upsert xxh vsort now m n))"
    by (metis Upsert_parts(2) Ring_Build_keeps(3))
  ultimately show ?thesis using assms Upsert_membership_ok unfolding joined_def by fastforce
qed

lemma Upsert_keeps_joined:
  assumes "joined xxh vsort n m" "node_State p \<noteq> NodeDead"
  shows "joined xxh vsort n (Upsert xxh vsort now m p)"
proof -
  have "mb_ring (Upsert xxh vsort now m p) = Ring_Build xxh vsort (mb_ring (Upsert xxh vsort now m p)) (ring_nodes (Upsert xxh vsort now m p))"
    by (metis Upsert_parts(2) Ring_Build_keeps(3))
  moreover have "\<exists>n'. map_of (mb_nodes (Upsert xxh vsort now m p)) (node_ID n) = Some n' \<and> node_State n' \<noteq> NodeDead"
    using assms by (auto simp: joined_def Upsert_parts(1) gomap_simps)
  ultimately show ?thesis using assms(1) Upsert_membership_ok unfolding joined_def by blast
qed

lemma add_seeds_joined: "joined xxh vsort n m \<Longrightarrow> joined xxh vsort n (fold (add_seed xxh vsort now l) raws m)"
  by (induction raws arbitrary: m) (auto simp: add_seed_def Upsert_keeps_joined NewNode_def split: prod.splits)

lemma NewRing_positive: "0 < vnPerNode (NewRing ((if a > 0 then [WithReplication a] else []) @ (if b > 0 then [WithVirtualNodes b] else [])))"
  "0 < replication (NewRing ((if a > 0 then [WithReplication a] else []) @ (if b > 0 then [WithVirtualNodes b] else [])))"
  by (auto simp: NewRing_def WithReplication_def WithVirtualNodes_def defaultVirtualNodes_def)

lemma initMembership_joined:
  assumes "\<And>m. su_membership su = Some m \<Longrightarrow> membership_ok m" "\<And>n. su_localNode su = Some n \<Longrightarrow> node_State n \<noteq> NodeDead"
    and "initMembershipIfNeeded xxh vsort now su = su1"
  shows "\<exists>m n. su_membership su1 = Some m \<and> su_localNode su1 = Some n \<and> joined xxh vsort n m"
proof (cases "su_membership su")
  case None
  let ?ring = "NewRing ((if cfg_replication (dm_cfg (su_dm su)) > 0 then [WithReplication (cfg_replication (dm_cfg (su_dm su)))] else []) @
    (if cfg_virtualNodes (dm_cfg (su_dm su)) > 0 then [WithVirtualNodes (cfg_virtualNodes (dm_cfg (su_dm su)))] else []))"
  have "membership_ok (NewMembership ?ring)" using NewRing_positive by (simp add: membership_ok_def NewMembership_def nodes_ok_def)
  from Upsert_joined [OF this] have "node_State l \<noteq> NodeDead \<Longrightarrow>
      joined xxh vsort l (fold (add_seed xxh vsort now l) raws (Upsert xxh vsort now (NewMembership ?ring) l))" for l raws
    by (intro add_seeds_joined) blast
  moreover have "joined xxh vsort n (OnStateChange 0 m) = joined xxh vsort n m" for n m
    by (simp add: joined_def OnStateChange_def membership_ok_def ring_nodes_def)
  ultimately show ?thesis using None assms
    by (auto simp: initMembershipIfNeeded_def initStandaloneMembership_def installEventBusObserver_def Let_def NewNode_def split: option.splits)
next
  case (Some m)
  have "joined xxh vsort n (OnStateChange 0 m) = joined xxh vsort n m" for n m
    by (simp add: joined_def OnStateChange_def membership_ok_def ring_nodes_def)
  moreover have "membership_ok m" using Some assms(1) by simp
  ultimately show ?thesis using Some assms Upsert_joined [of m]
    by (auto simp: initMembershipIfNeeded_def installEventBusObserver_def Let_def NewNode_def on_cfg_def on_dm_def split: option.splits)
qed

lemma joined_owners:
  assumes "joined xxh vsort n m" "sortFunc_ok vsort"
  shows "Ring_Lookup xxh (mb_ring m) key \<noteq> []" "set (Ring_Lookup xxh (mb_ring m) key) \<subseteq> fst ` set (mb_nodes m)"
proof -
  let ?c = "clockwise (xxh key) (vnodes (Ring_Build xxh vsort (mb_ring m) (ring_nodes m)))"
  from assms(1) have ring: "mb_ring m = Ring_Build xxh vsort (mb_ring m) (ring_nodes m)" and ok: "membership_ok m"
    and member: "\<exists>n'. map_of (mb_nodes m) (node_ID n) = Some n' \<and> node_State n' \<noteq> NodeDead" by (simp_all add: joined_def)
  have c: "set ?c = set (ring_nodes m)" using vnode_owners [OF assms(2), of "mb_ring m" xxh "ring_nodes m"] ok by (simp add: membership_ok_def)
  have ids: "\<And>k n. (k, n) \<in> set (mb_nodes m) \<Longrightarrow> node_ID n = k" using ok by (auto simp: membership_ok_def nodes_ok_def)
  have "set (ring_nodes m) \<subseteq> fst ` set (mb_nodes m)" using ids by (force simp: ring_nodes_def)
  moreover have look: "Ring_Lookup xxh (mb_ring m) key = take (nat (replication (mb_ring m))) ?c"
    by (subst ring) (simp add: Build_Lookup [OF assms(2)])
  ultimately show "set (Ring_Lookup xxh (mb_ring m) key) \<subseteq> fst ` set (mb_nodes m)"
    unfolding look using c set_take_subset [of "nat (replication (mb_ring m))" ?c] by (metis order.trans)
  obtain n' where "n' \<in> set (map snd (mb_nodes m))" "node_State n' \<noteq> NodeDead" using member by (force dest: map_of_SomeD)
  then have "ring_nodes m \<noteq> []" by (auto simp: ring_nodes_def filter_empty_conv)
  then have "?c \<noteq> []" using c by (metis set_empty)
  with look ok show "Ring_Lookup xxh (mb_ring m) key \<noteq> []" by (simp add: membership_ok_def)
qed

lemma initMembership_dm:
  assumes "initMembershipIfNeeded xxh vsort now su = su1"
  shows "su_dm su1 = (su_dm su)\<lparr>dm_cfg := dm_cfg (su_dm su1)\<rparr>"
  using assms by (auto simp: initMembershipIfNeeded_def initStandaloneMembership_def installEventBusObserver_def on_cfg_def on_dm_def Let_def split: option.splits)

lemma start_same [simp]:
  "dm_shards (startRepairQueueIfEnabled dm) = dm_shards dm" "shardCount (startRepairQueueIfEnabled dm) = shardCount dm"
  "hints (startRepairQueueIfEnabled dm) = hints dm" "hintTotal (startRepairQueueIfEnabled dm) = hintTotal dm"
  "hintBytes (startRepairQueueIfEnabled dm) = hintBytes dm" "localID (startRepairQueueIfEnabled dm) = localID dm"
  "dm_membership (startRepairQueueIfEnabled dm) = dm_membership dm"
  "dm_shards (startRebalancerIfEnabled dm) = dm_shards dm" "shardCount (startRebalancerIfEnabled dm) = shardCount dm"
  "hints (startRebalancerIfEnabled dm) = hints dm" "hintTotal (startRebalancerIfEnabled dm) = hintTotal dm"
  "hintBytes (startRebalancerIfEnabled dm) = hintBytes dm" "localID (startRebalancerIfEnabled dm) = localID dm"
  "dm_membership (startRebalancerIfEnabled dm) = dm_membership dm"
  "dm_shards (startAutoSyncIfEnabled dm) = dm_shards dm" "shardCount (startAutoSyncIfEnabled dm) = shardCount dm"
  "hints (startAutoSyncIfEnabled dm) = hints dm" "hintTotal (startAutoSyncIfEnabled dm) = hintTotal dm"
  "hintBytes (startAutoSyncIfEnabled dm) = hintBytes dm" "localID (startAutoSyncIfEnabled dm) = localID dm"
  "dm_membership (startAutoSyncIfEnabled dm) = dm_membership dm"
  "dm_shards (tryStartHTTP binds dm) = dm_shards dm" "shardCount (tryStartHTTP binds dm) = shardCount dm"
  "hints (tryStartHTTP binds dm) = hints dm" "hintTotal (tryStartHTTP binds dm) = hintTotal dm"
  "hintBytes (tryStartHTTP binds dm) = hintBytes dm" "localID (tryStartHTTP binds dm) = localID dm"
  "dm_membership (tryStartHTTP binds dm) = dm_membership dm"
  by (simp_all add: startRepairQueueIfEnabled_def startRebalancerIfEnabled_def startAutoSyncIfEnabled_def tryStartHTTP_def)

lemma ensureShardConfig_same [simp]:
  "hints (ensureShardConfig dm) = hints dm" "hintTotal (ensureShardConfig dm) = hintTotal dm" "hintBytes (ensureShardConfig dm) = hintBytes dm"
  by (simp_all add: ensureShardConfig_def Let_def)

text \<open>
  C32. Whatever options it gets, \<open>NewDistMemory\<close> fails only when requests are signed but incoming ones are not
  checked, and this was not asked for. Otherwise the node has its shards, empty, and consistent hint
  totals; it is a live member of its own membership; and every key has owners, all of them members.
\<close>

theorem NewDistMemory_well_formed:
  assumes "\<And>opt. opt \<in> set opts \<Longrightarrow> dist_option opt" "sortFunc_ok vsort"
  shows "case NewDistMemory xxh vsort now binds opts of
      Inl e \<Rightarrow> e = ErrInsecureAuthConfig \<and> (let a = su_httpAuth (fold (\<lambda>opt s. opt s) opts initial_setup) in
        da_ClientSign a \<noteq> None \<and> \<not> inboundConfigured a \<and> \<not> da_AllowAnonymousInbound a)
    | Inr dm \<Rightarrow> shards_ok dm \<and> DistMemory_List dm = [] \<and> hints_ok dm \<and> hints_exact dm \<and>
        (\<exists>n. map_of (mb_nodes (dm_membership dm)) (localID dm) = Some n \<and> node_State n \<noteq> NodeDead) \<and>
        lookupOwners xxh dm key \<noteq> [] \<and> set (lookupOwners xxh dm key) \<subseteq> fst ` set (mb_nodes (dm_membership dm))"
proof -
  define su where "su = fold (\<lambda>opt s. opt s) opts initial_setup"
  have ok: "setup_ok su" unfolding su_def by (rule options_keep_setup [OF assms(1) initial_setup_ok])
  show ?thesis
  proof (cases "auth_validate (su_httpAuth su)")
    case (Some e)
    then show ?thesis by (auto simp: NewDistMemory_def su_def [symmetric] auth_validate_def Let_def split: if_splits)
  next
    case None
    define su1 where "su1 = initMembershipIfNeeded xxh vsort now (on_dm ensureShardConfig su)"
    have "\<exists>m n. su_membership su1 = Some m \<and> su_localNode su1 = Some n \<and> joined xxh vsort n m"
      using ok by (intro initMembership_joined [OF _ _ su1_def [symmetric]]) (simp_all add: on_dm_def setup_ok_def)
    then obtain m n where m: "su_membership su1 = Some m" "su_localNode su1 = Some n" "joined xxh vsort n m" by blast
    obtain c where dm: "su_dm su1 = (ensureShardConfig (su_dm su))\<lparr>dm_cfg := c\<rparr>"
      using initMembership_dm [OF su1_def [symmetric]] by (metis on_dm_def DistSetup.select_convs(1) DistSetup.surjective DistSetup.update_convs(1))
    let ?dm0 = "(su_dm su1)\<lparr>localID := node_ID n, dm_membership := m\<rparr>"
    define dm' where "dm' = startRepairQueueIfEnabled (startRebalancerIfEnabled (startAutoSyncIfEnabled (tryStartHTTP binds ?dm0)))"
    have res: "NewDistMemory xxh vsort now binds opts = Inr dm'"
      using None m(1,2) by (simp add: NewDistMemory_def su_def [symmetric] su1_def [symmetric] dm'_def Let_def)
    have shards: "dm_shards dm' = dm_shards (ensureShardConfig (su_dm su))" "shardCount dm' = shardCount (ensureShardConfig (su_dm su))"
      "hints dm' = []" "hintTotal dm' = 0" "hintBytes dm' = 0" "localID dm' = node_ID n" "dm_membership dm' = m"
      using ok dm by (simp_all add: dm'_def setup_ok_def)
    have "dm_shards (su_dm su) = []" using ok by (simp add: setup_ok_def)
    from ensureShardConfig_ok [OF this] shards have "shards_ok dm'" "DistMemory_List dm' = []"
      by (simp_all add: shards_ok_def DistMemory_List_def)
    moreover have "hints_ok dm'" "hints_exact dm'" using shards by (simp_all add: hints_ok_def hints_exact_def stored_count_def stored_bytes_def)
    moreover have "\<exists>n'. map_of (mb_nodes m) (node_ID n) = Some n' \<and> node_State n' \<noteq> NodeDead" using m(3) by (simp add: joined_def)
    moreover note joined_owners [OF m(3) assms(2), of key]
    ultimately show ?thesis using shards by (simp add: res lookupOwners_def)
  qed
qed

text \<open>
  A configuration passed to \<open>NewDistMemoryWithConfig\<close> is ignored, whatever it says: no caller can name the
  type it is compared with. The zero values used in its place even replace the default write level, so
  that writes need one acknowledgement instead of a quorum, unless an option says otherwise.
\<close>

lemma config_is_ignored:
  "NewDistMemoryWithConfig xxh vsort now binds (DistConfigValue cfg) opts =
     NewDistMemory xxh vsort now binds (WithDistReadConsistency ConsistencyOne # WithDistWriteConsistency ConsistencyOne # opts)"
  by (simp add: NewDistMemoryWithConfig_def distOptionsFromMinimal_def zero_minimal_def level_of_def)

text \<open>A seed of the form \<open>id@addr\<close> is split at the first at-sign.\<close>

lemma parseSeedSpec_round_trip: "CHR ''@'' \<notin> set nid \<Longrightarrow> parseSeedSpec (nid @ CHR ''@'' # addr) = (nid, addr)"
  by (simp add: parseSeedSpec_def str_Cut_append)

text \<open>A peer added by address is known and can be removed again.\<close>

lemma AddPeer_known:
  assumes "address \<noteq> []" "node_Address localNode \<noteq> address"
  shows "list_ex (\<lambda>n. node_Address n = address) (Membership_List (dm_membership (AddPeer xxh vsort now localNode dm address)))"
proof (cases "list_ex (\<lambda>n. node_Address n = address) (Membership_List (dm_membership dm))")
  case True
  then show ?thesis by (simp add: AddPeer_def)
next
  case False
  let ?n = "NewNode xxh now [] address"
  have "map_of (gm_set (node_ID ?n) (?n\<lparr>node_LastSeen := now\<rparr>) (mb_nodes (dm_membership dm))) (node_ID ?n) = Some (?n\<lparr>node_LastSeen := now\<rparr>)"
    by (simp add: gomap_simps)
  then have "(node_ID ?n, ?n\<lparr>node_LastSeen := now\<rparr>) \<in> set (gm_set (node_ID ?n) (?n\<lparr>node_LastSeen := now\<rparr>) (mb_nodes (dm_membership dm)))"
    by (rule map_of_SomeD)
  with False assms show ?thesis by (force simp: AddPeer_def Membership_List_def list_ex_iff Upsert_parts NewNode_def)
qed

section \<open>Witness\<close>

theorem NewDistMemory_well_formed_witness:
  "\<exists>dm. NewDistMemory (\<lambda>_. 0) insertion_sort 5 (\<lambda>_. True) ([WithDistNode ''a'' ''h:1'', WithDistSeeds [''b@h:2'', ''c@h:3''],
      WithDistReplication 2, WithDistShardCount 4] :: unit DistMemoryOption list) = Inr dm \<and> shards_ok dm \<and> lookupOwners (\<lambda>_. 0) dm ''k'' \<noteq> []"
proof -
  let ?opts = "[WithDistNode ''a'' ''h:1'', WithDistSeeds [''b@h:2'', ''c@h:3''], WithDistReplication 2, WithDistShardCount 4] :: unit DistMemoryOption list"
  have opts: "dist_option opt" if "opt \<in> set ?opts" for opt using that by (auto intro: dist_option.intros)
  have "su_httpAuth (fold (\<lambda>opt s. opt s) ?opts initial_setup) = no_auth" by (simp add: option_defs initial_setup_def)
  then have "\<not> (\<exists>e. NewDistMemory (\<lambda>_. 0) insertion_sort 5 (\<lambda>_. True) ?opts = Inl e)"
    by (simp add: NewDistMemory_def Let_def auth_validate_def no_auth_def)
  then obtain dm where "NewDistMemory (\<lambda>_. 0) insertion_sort 5 (\<lambda>_. True) ?opts = Inr dm" by (meson sum.exhaust)
  with NewDistMemory_well_formed [where opts = ?opts and xxh = "\<lambda>_. 0" and now = 5 and binds = "\<lambda>_. True" and key = "''k''", OF opts insertion_sort_ok] show ?thesis by auto
qed

end
