(* ===== verification/DistCache.thy ===== *)
theory DistCache
  imports CacheResults DistResults
begin

text \<open>
  The cache of \<^verbatim>\<open>hypercache.go\<close> over the distributed backend of \<^verbatim>\<open>pkg/backend/dist_memory.go\<close>, which is what
  the server runs: the operations of a node as a backend whose state is the whole cluster, and the
  background expiration on top of it.
\<close>

section \<open>A node as a backend\<close>

text \<open>
  The methods of \<open>DistMemory\<close> as a record of operations, for the node \<open>self\<close> at time \<open>now\<close>; \<open>arrival\<close> is
  the order in which owners answer a parallel read. \<open>List\<close> takes its filters and drops them. The stamps
  that \<open>Set\<close> leaves on the caller's item are left out, since the cache does not read them.
\<close>

definition DistMemory_backend :: "(string \<Rightarrow> 64 word) \<Rightarrow> (gval \<Rightarrow> nat option) \<Rightarrow> int \<Rightarrow> string \<Rightarrow> (string \<Rightarrow> string list) \<Rightarrow> World IBackend" where
  "DistMemory_backend xxh jsonLen now self arrival =
     \<lparr>bk_Get = \<lambda>w key. Some (getImpl xxh w self key (arrival key)),
      bk_Set = \<lambda>w item. (case DistMemory_Set xxh jsonLen now w self item of (w1, err) \<Rightarrow> Some (w1, fst (Item_Valid item), err)),
      bk_Capacity = \<lambda>w. (case map_of (w_nodes w) self of None \<Rightarrow> 0 | Some dm \<Rightarrow> dm_capacity dm),
      bk_SetCapacity = \<lambda>w c. (case map_of (w_nodes w) self of None \<Rightarrow> w | Some dm \<Rightarrow> put_node w self (DistMemory_SetCapacity dm c)),
      bk_Count = \<lambda>w. (case map_of (w_nodes w) self of None \<Rightarrow> 0 | Some dm \<Rightarrow> int (DistMemory_Count dm)),
      bk_Remove = \<lambda>ctx w keys. Some (removeImpl xxh now w self keys),
      bk_List = \<lambda>w filters. Some (Inr (case map_of (w_nodes w) self of None \<Rightarrow> [] | Some dm \<Rightarrow> DistMemory_List dm)),
      bk_Clear = \<lambda>ctx w. (case map_of (w_nodes w) self of
          None \<Rightarrow> Some (w, None)
        | Some dm \<Rightarrow> (case DistMemory_Clear ctx dm of (dm1, err) \<Rightarrow> Some (put_node w self dm1, err))),
      bk_Touch = Some (\<lambda>t w key. (case map_of (w_nodes w) self of
          None \<Rightarrow> Some (w, False)
        | Some dm \<Rightarrow> (case DistMemory_Touch t dm key of (dm1, ok) \<Rightarrow> Some (put_node w self dm1, ok)))),
      bk_Serializer = None\<rparr>"

section \<open>The frame of a removal\<close>

text \<open>What a removal of \<open>key\<close> leaves of a node: its settings and every other key.\<close>

definition loses :: "string \<Rightarrow> DistMemory \<Rightarrow> DistMemory \<Rightarrow> bool" where
  "loses key dm dm' \<longleftrightarrow> draining dm' = draining dm \<and> dm_transport dm' = dm_transport dm \<and> readConsistency dm' = readConsistency dm \<and>
     (\<forall>k. k \<noteq> key \<longrightarrow> local_get dm' k = local_get dm k) \<and> (local_get dm key = None \<longrightarrow> local_get dm' key = None)"

definition world_loses :: "string \<Rightarrow> World \<Rightarrow> World \<Rightarrow> bool" where
  "world_loses key w w' \<longleftrightarrow> w_backends w' = w_backends w \<and>
     (\<forall>x. rel_option (loses key) (map_of (w_nodes w) x) (map_of (w_nodes w') x))"

lemma loses_refl [simp]: "loses key dm dm"
  by (simp add: loses_def)

lemma loses_trans: "loses key a b \<Longrightarrow> loses key b c \<Longrightarrow> loses key a c"
  by (simp add: loses_def)

lemma world_loses_refl [simp]: "world_loses key w w"
  by (simp add: world_loses_def option.rel_refl)

lemma world_loses_node: "world_loses key w w' \<Longrightarrow> map_of (w_nodes w) x = Some dm \<Longrightarrow> \<exists>dm'. map_of (w_nodes w') x = Some dm' \<and> loses key dm dm'"
  unfolding world_loses_def by (metis option_rel_Some1)

lemma world_loses_trans:
  assumes "world_loses key a b" "world_loses key b c"
  shows "world_loses key a c"
proof -
  have "rel_option (loses key) (map_of (w_nodes a) x) (map_of (w_nodes c) x)" for x
  proof (cases "map_of (w_nodes a) x")
    case None
    then have "map_of (w_nodes b) x = None" using assms(1) by (simp add: world_loses_def) (metis option.rel_sel)
    then have "map_of (w_nodes c) x = None" using assms(2) by (simp add: world_loses_def) (metis option.rel_sel)
    with None show ?thesis by simp
  next
    case (Some dm)
    then obtain d1 where d1: "map_of (w_nodes b) x = Some d1" "loses key dm d1" using world_loses_node [OF assms(1)] by blast
    then obtain d2 where "map_of (w_nodes c) x = Some d2" "loses key d1 d2" using world_loses_node [OF assms(2)] by blast
    with Some d1 show ?thesis by (simp add: loses_trans [of key dm d1 d2])
  qed
  with assms show ?thesis by (simp add: world_loses_def)
qed

lemma loses_local: "shards_ok dm \<Longrightarrow> loses key dm (applyRemove_local now dm key)"
  by (simp add: loses_def applyRemove_local_ok) (simp add: applyRemove_local_def put_shard_def Let_def split: option.split)

lemma world_loses_put:
  assumes "map_of (w_nodes w) nid = Some dm" "shards_ok dm"
  shows "world_loses key w (put_node w nid (applyRemove_local now dm key))"
  using assms loses_local [OF assms(2), of key now] by (auto simp: world_loses_def option.rel_refl)

lemma fanout_remove_loses: "world_ok w r \<Longrightarrow> world_loses key w (fanout_remove now self key oids w)"
proof (induction oids arbitrary: w)
  case (Cons oid oids)
  let ?w = "if oid = self then w else fst (forward_replica_remove now w oid key)"
  have "world_ok ?w r \<and> world_loses key w ?w"
  proof (cases "oid = self \<or> backend_of w oid = None")
    case True
    then show ?thesis using Cons.prems by (auto simp: forward_replica_remove_def)
  next
    case False
    then obtain b where b: "backend_of w oid = Some b" "oid \<noteq> self" by auto
    note bo = backend_of_ok [OF Cons.prems b(1)]
    then have "?w = put_node w oid (applyRemove_local now b key)" using b by (simp add: forward_replica_remove_def)
    moreover have "world_ok (put_node w oid (applyRemove_local now b key)) r"
      using bo Cons.prems by (intro world_ok_put) (simp_all add: applyRemove_local_ok)
    ultimately show ?thesis using bo b by (simp add: world_loses_put)
  qed
  then have "world_loses key w (fanout_remove now self key oids ?w)" using Cons.IH [of ?w] world_loses_trans by blast
  then show ?case by simp
qed simp

lemma applyRemove_frame:
  assumes "world_ok w r" "map_of (w_nodes w) nid = Some dm"
  shows "world_ok (applyRemove xxh now w nid key True) r \<and> world_loses key w (applyRemove xxh now w nid key True)"
proof -
  let ?w1 = "put_node w nid (applyRemove_local now dm key)"
  have dm: "shards_ok dm" "localID dm = nid" "mb_ring (dm_membership dm) = r" using assms by (auto simp: world_ok_def)
  then have w1: "world_ok ?w1 r" "world_loses key w ?w1"
    using assms by (auto intro!: world_ok_put world_loses_put simp: applyRemove_local_ok)
  have "world_ok (fanout_remove now nid key oids ?w1) r" "world_loses key w (fanout_remove now nid key oids ?w1)" for oids
    using fanout_remove_ok [OF w1(1) refl] world_loses_trans [OF w1(2) fanout_remove_loses [OF w1(1)]] by simp_all
  with w1 assms(2) show ?thesis by (simp add: applyRemove_def Let_def)
qed

text \<open>A node that can remove a key: it has a primary that is itself or within reach.\<close>

definition removable :: "(string \<Rightarrow> 64 word) \<Rightarrow> Ring \<Rightarrow> World \<Rightarrow> string \<Rightarrow> string \<Rightarrow> bool" where
  "removable xxh r w self key \<longleftrightarrow> (let owners = Ring_Lookup xxh r key in owners \<noteq> [] \<and>
     (hd owners = self \<or> hd owners \<in> set (w_backends w)) \<and>
     (\<exists>prim. map_of (w_nodes w) (hd owners) = Some prim \<and> dm_transport prim))"

definition gone :: "(string \<Rightarrow> 64 word) \<Rightarrow> Ring \<Rightarrow> World \<Rightarrow> string \<Rightarrow> bool" where
  "gone xxh r w key \<longleftrightarrow> (\<forall>oid \<in> set (Ring_Lookup xxh r key). oid = hd (Ring_Lookup xxh r key) \<or> backend_of w oid \<noteq> None \<longrightarrow> node_get w oid key = None)"

lemma world_loses_removable: "world_loses key w w' \<Longrightarrow> removable xxh r w self k \<Longrightarrow> removable xxh r w' self k"
proof -
  assume l: "world_loses key w w'" and "removable xxh r w self k"
  then obtain prim where p: "Ring_Lookup xxh r k \<noteq> []" "hd (Ring_Lookup xxh r k) = self \<or> hd (Ring_Lookup xxh r k) \<in> set (w_backends w)"
    "map_of (w_nodes w) (hd (Ring_Lookup xxh r k)) = Some prim" "dm_transport prim" by (auto simp: removable_def Let_def)
  moreover obtain prim' where "map_of (w_nodes w') (hd (Ring_Lookup xxh r k)) = Some prim'" "loses key prim prim'"
    using world_loses_node [OF l p(3)] by blast
  moreover have "w_backends w' = w_backends w" using l by (simp add: world_loses_def)
  ultimately show "removable xxh r w' self k" by (simp add: removable_def loses_def)
qed

lemma world_loses_get:
  assumes "world_loses key w w'"
  shows "k \<noteq> key \<Longrightarrow> node_get w' x k = node_get w x k" "node_get w x k = None \<Longrightarrow> node_get w' x k = None"
    "backend_of w' x = None \<longleftrightarrow> backend_of w x = None"
proof -
  have r: "rel_option (loses key) (map_of (w_nodes w) x) (map_of (w_nodes w') x)" "w_backends w' = w_backends w"
    using assms by (simp_all add: world_loses_def)
  show "k \<noteq> key \<Longrightarrow> node_get w' x k = node_get w x k" "node_get w x k = None \<Longrightarrow> node_get w' x k = None"
    "backend_of w' x = None \<longleftrightarrow> backend_of w x = None"
    using r(1) by (cases rule: option.rel_cases; cases "k = key"; simp add: node_get_def loses_def backend_of_def r(2))+
qed

lemma world_loses_gone: "world_loses key w w' \<Longrightarrow> gone xxh r w k \<Longrightarrow> gone xxh r w' k"
  by (auto simp: gone_def world_loses_get)

lemma removeImpl_at_primary:
  assumes "world_ok w r" "map_of (w_nodes w) self = Some dm" "\<not> draining dm" "dm_transport dm" "removable xxh r w self key"
  shows "\<exists>w'. removeImpl xxh now w self [key] = (w', None) \<and> world_ok w' r \<and> world_loses key w w' \<and> gone xxh r w' key"
proof -
  let ?o = "Ring_Lookup xxh r key"
  let ?p = "hd ?o"
  let ?w = "applyRemove xxh now w ?p key True"
  obtain prim where p: "?o \<noteq> []" "?p = self \<or> ?p \<in> set (w_backends w)" "map_of (w_nodes w) ?p = Some prim" "dm_transport prim"
    using assms(5) by (auto simp: removable_def Let_def)
  have own: "lookupOwners xxh dm key = ?o" using assms(1,2) by (auto simp: world_ok_def lookupOwners_def)
  have "removeImpl xxh now w self [key] = (?w, None)"
  proof (cases "?p = self")
    case True
    with own p assms(2,3) show ?thesis by (simp add: removeImpl_def Let_def)
  next
    case False
    with p have "ForwardRemove xxh now w ?p key True = (?w, None)" by (simp add: ForwardRemove_def backend_of_def)
    with False own p assms(2-4) show ?thesis by (simp add: removeImpl_def forwardOrPromoteRemove_def Let_def)
  qed
  moreover note frame = applyRemove_frame [OF assms(1) p(3), of xxh now key]
  moreover note rem = applyRemove_owners [OF assms(1) p(3) refl p(4), of xxh now key]
  have "gone xxh r ?w key"
    unfolding gone_def
  proof (intro ballI impI)
    fix oid
    assume "oid \<in> set ?o" "oid = ?p \<or> backend_of ?w oid \<noteq> None"
    moreover have "set ?o = insert ?p (set (tl ?o))" using p(1) by (cases ?o) auto
    ultimately show "node_get ?w oid key = None" using rem world_loses_get(3) [OF conjunct2 [OF frame]] by auto
  qed
  ultimately show ?thesis by blast
qed

section \<open>Expiration\<close>

text \<open>Every item sits in the shard its key hashes to.\<close>

definition placed :: "DistMemory \<Rightarrow> bool" where
  "placed dm \<longleftrightarrow> (\<forall>i < length (dm_shards dm). \<forall>(k, it) \<in> set (ds_items (dm_shards dm ! i)). hashKey dm k = i)"

lemma shard_item:
  assumes "shards_ok dm" "i < length (dm_shards dm)" "(k, it) \<in> set (ds_items (dm_shards dm ! i))"
  shows "Key it = k \<and> map_of (ds_items (dm_shards dm ! i)) k = Some it"
  using assms by (auto simp: shards_ok_def shard_ok_def gm_wf_def map_of_eq_Some_iff)

lemma DistMemory_List_iff:
  assumes "shards_ok dm" "placed dm"
  shows "it \<in> set (DistMemory_List dm) \<longleftrightarrow> local_get dm (Key it) = Some it"
proof
  assume "it \<in> set (DistMemory_List dm)"
  then obtain s k where "s \<in> set (dm_shards dm)" "(k, it) \<in> set (ds_items s)" by (auto simp: DistMemory_List_def)
  then obtain i where i: "i < length (dm_shards dm)" "(k, it) \<in> set (ds_items (dm_shards dm ! i))" by (metis in_set_conv_nth)
  with assms(2) have "hashKey dm k = i" by (auto simp: placed_def)
  with shard_item [OF assms(1) i] show "local_get dm (Key it) = Some it" by (simp add: local_get_def dm_shardFor_def)
next
  assume "local_get dm (Key it) = Some it"
  then have "(Key it, it) \<in> set (ds_items (dm_shards dm ! hashKey dm (Key it)))"
    by (auto simp: local_get_def dm_shardFor_def dest: map_of_SomeD)
  with hashKey_bound [OF assms(1)] show "it \<in> set (DistMemory_List dm)"
    by (force simp: DistMemory_List_def)
qed

lemma distinct_concat_tagged:
  assumes "\<And>i. i < length xss \<Longrightarrow> distinct (xss ! i) \<and> (\<forall>x \<in> set (xss ! i). f x = i + n)"
  shows "distinct (concat xss) \<and> (\<forall>x \<in> set (concat xss). n \<le> f x)"
  using assms
proof (induction xss arbitrary: n)
  case (Cons xs xss)
  have "distinct (xss ! i) \<and> (\<forall>x \<in> set (xss ! i). f x = i + Suc n)" if "i < length xss" for i
    using Cons.prems [of "Suc i"] that by simp
  from Cons.IH [OF this] have "distinct (concat xss)" "\<forall>x \<in> set (concat xss). Suc n \<le> f x" by blast+
  moreover have "distinct xs" "\<forall>x \<in> set xs. f x = n" using Cons.prems [of 0] by auto
  ultimately show ?case by fastforce
qed simp

lemma DistMemory_List_distinct:
  assumes "shards_ok dm" "placed dm"
  shows "distinct (map Key (DistMemory_List dm))"
proof -
  have keys: "map (\<lambda>x. Key (snd x)) (ds_items s) = map fst (ds_items s)" if "s \<in> set (dm_shards dm)" for s
    using assms(1) that by (fastforce simp: shards_ok_def shard_ok_def)
  then have "map Key (DistMemory_List dm) = concat (map (\<lambda>s. map fst (ds_items s)) (dm_shards dm))"
    by (simp add: DistMemory_List_def map_concat comp_def cong: map_cong)
  moreover have "distinct (concat (map (\<lambda>s. map fst (ds_items s)) (dm_shards dm)))"
  proof (rule conjunct1 [OF distinct_concat_tagged [where f = "hashKey dm" and n = 0]])
    fix i
    assume "i < length (map (\<lambda>s. map fst (ds_items s)) (dm_shards dm))"
    then have i: "i < length (dm_shards dm)" by simp
    then have "distinct (map fst (ds_items (dm_shards dm ! i)))" using assms(1) by (auto simp: shards_ok_def shard_ok_def gm_wf_def)
    moreover have "\<forall>(k, it) \<in> set (ds_items (dm_shards dm ! i)). hashKey dm k = i" using i assms(2) by (simp add: placed_def)
    ultimately show "distinct (map (\<lambda>s. map fst (ds_items s)) (dm_shards dm) ! i) \<and>
        (\<forall>x \<in> set (map (\<lambda>s. map fst (ds_items s)) (dm_shards dm) ! i). hashKey dm x = i + 0)" using i by fastforce
  qed
  ultimately show ?thesis by simp
qed

text \<open>A node whose cache can work through its items: reads are local, and every item can be removed.\<close>

definition ready :: "(string \<Rightarrow> 64 word) \<Rightarrow> Ring \<Rightarrow> World \<Rightarrow> string \<Rightarrow> DistMemory \<Rightarrow> bool" where
  "ready xxh r w self dm \<longleftrightarrow> world_ok w r \<and> map_of (w_nodes w) self = Some dm \<and> \<not> draining dm \<and> dm_transport dm \<and>
     readConsistency dm = ConsistencyOne"

lemma dist_Remove_one:
  assumes "env_backend E = DistMemory_backend xxh jl now self arrival" "ready xxh r (hc_backend hc) self dm"
    and "local_get dm key = Some it" "removable xxh r (hc_backend hc) self key" "ev_inv (env_hash E) (evictionAlgorithm hc)"
  shows "\<exists>hc' dm'. hc_Remove E ctx hc [key] = Some (hc', None) \<and> ready xxh r (hc_backend hc') self dm' \<and> loses key dm dm' \<and>
    world_loses key (hc_backend hc) (hc_backend hc') \<and> gone xxh r (hc_backend hc') key \<and>
    ev_inv (env_hash E) (evictionAlgorithm hc') \<and> StatsCollector hc' = StatsCollector hc"
proof -
  let ?w = "hc_backend hc"
  have w: "world_ok ?w r" "map_of (w_nodes ?w) self = Some dm" "\<not> draining dm" "dm_transport dm" "readConsistency dm = ConsistencyOne"
    using assms(2) by (auto simp: ready_def)
  obtain w' where w': "removeImpl xxh now ?w self [key] = (w', None)" "world_ok w' r" "world_loses key ?w w'" "gone xxh r w' key"
    using removeImpl_at_primary [OF w(1-4) assms(4)] by blast
  obtain dm' where dm': "map_of (w_nodes w') self = Some dm'" "loses key dm dm'" using world_loses_node [OF w'(3) w(2)] by blast
  obtain a where a: "ev_Delete (env_hash E) (evictionAlgorithm hc) key = Some a" "ev_inv (env_hash E) a"
    using ev.delete_law [OF assms(5)] by blast
  have "getImpl xxh ?w self key (arrival key) = (?w, Some it)" using w assms(3) by (simp add: getImpl_def Let_def)
  then have "hc_Remove E ctx hc [key] = Some ((addMemory (- Size it) hc)\<lparr>evictionAlgorithm := a, hc_backend := w'\<rparr>, None)"
    using assms(1) a(1) w'(1) by (simp add: hc_Remove_def DistMemory_backend_def addMemory_def)
  moreover have "ready xxh r w' self dm'" using w w'(2) dm' by (simp add: ready_def loses_def)
  ultimately show ?thesis using w' dm' a(2) by (auto simp: addMemory_def)
qed

lemma dist_expire_loop:
  assumes "env_backend E = DistMemory_backend xxh jl now self arrival" "ready xxh r (hc_backend hc) self dm" "distinct (map Key xs)"
    and "\<forall>x \<in> set xs. local_get dm (Key x) = Some x \<and> removable xxh r (hc_backend hc) self (Key x)"
    and "ev_inv (env_hash E) (evictionAlgorithm hc)" "stats_ok (StatsCollector hc)"
  shows "\<exists>hc'. expire_loop xs E ctx hc n = Some (hc', n + int (length xs), None) \<and> stats_ok (StatsCollector hc') \<and>
    (\<forall>x. backend_of (hc_backend hc') x = None \<longleftrightarrow> backend_of (hc_backend hc) x = None) \<and>
    (\<forall>k. gone xxh r (hc_backend hc) k \<longrightarrow> gone xxh r (hc_backend hc') k) \<and> (\<forall>x \<in> set xs. gone xxh r (hc_backend hc') (Key x))"
  using assms(2-)
proof (induction xs arbitrary: hc dm n)
  case (Cons x xs)
  have x: "local_get dm (Key x) = Some x" "removable xxh r (hc_backend hc) self (Key x)" using Cons.prems(3) by simp_all
  obtain h1 d1 where h1: "hc_Remove E (ctx (length xs)) hc [Key x] = Some (h1, None)" "ready xxh r (hc_backend h1) self d1" "loses (Key x) dm d1"
    "world_loses (Key x) (hc_backend hc) (hc_backend h1)" "gone xxh r (hc_backend h1) (Key x)" "ev_inv (env_hash E) (evictionAlgorithm h1)"
    "StatsCollector h1 = StatsCollector hc"
    using dist_Remove_one [OF assms(1) Cons.prems(1) x Cons.prems(4)] by blast
  obtain c where c: "incrStat ''item_expired_count'' 1 h1 = Some (h1\<lparr>StatsCollector := c\<rparr>)" "stats_ok c"
    using statistics_ok(1) [of h1] h1(7) Cons.prems(5) by auto
  have "local_get d1 (Key y) = Some y \<and> removable xxh r (hc_backend h1) self (Key y)" if "y \<in> set xs" for y
  proof -
    have "Key x \<notin> Key ` set xs" using Cons.prems(2) by simp
    with that have "Key y \<noteq> Key x" by (metis imageI)
    moreover have "local_get dm (Key y) = Some y" "removable xxh r (hc_backend hc) self (Key y)" using that Cons.prems(3) by simp_all
    ultimately show ?thesis using h1(3) world_loses_removable [OF h1(4)] by (simp add: loses_def)
  qed
  then obtain h2 where h2: "expire_loop xs E ctx (h1\<lparr>StatsCollector := c\<rparr>) (n + 1) = Some (h2, n + 1 + int (length xs), None)"
    "stats_ok (StatsCollector h2)" "\<forall>x. backend_of (hc_backend h2) x = None \<longleftrightarrow> backend_of (hc_backend h1) x = None"
    "\<forall>k. gone xxh r (hc_backend h1) k \<longrightarrow> gone xxh r (hc_backend h2) k" "\<forall>x \<in> set xs. gone xxh r (hc_backend h2) (Key x)"
    using Cons.IH [of "h1\<lparr>StatsCollector := c\<rparr>" d1 "n + 1"] Cons.prems(2) h1(2,6) c(2) by auto
  have "expire_loop (x # xs) E ctx hc n = Some (h2, n + int (length (x # xs)), None)" using h1(1) c(1) h2(1) by simp
  with h2 h1(5) world_loses_get(3) [OF h1(4)] world_loses_gone [OF h1(4)] show ?case by simp
qed simp

text \<open>
  C35. Background expiration on a node of the distributed backend does not look at lifetimes.  The listing
  ignores the filter that selects the expired items, so one pass removes every item the node holds,
  also those that never expire, from its primary and from every owner within reach, and reports success.
\<close>

theorem expiration_pass_wipes_node:
  assumes "env_backend E = DistMemory_backend xxh jl now self arrival" "hc_backend hc = w"
    and "world_ok w r" "map_of (w_nodes w) self = Some dm" "\<not> draining dm" "dm_transport dm" "readConsistency dm = ConsistencyOne" "placed dm"
    and "\<forall>k. local_get dm k \<noteq> None \<longrightarrow> removable xxh r w self k"
    and "ev_inv (env_hash E) (evictionAlgorithm hc)" "stats_ok (StatsCollector hc)"
  shows "\<exists>hc'. expirationJob E ctx now hc = Some (hc', None) \<and>
    (\<forall>k. local_get dm k \<noteq> None \<longrightarrow> (\<forall>oid \<in> set (Ring_Lookup xxh r k).
       oid = hd (Ring_Lookup xxh r k) \<or> backend_of w oid \<noteq> None \<longrightarrow> node_get (hc_backend hc') oid k = None))"
proof -
  let ?xs = "DistMemory_List dm"
  have sh: "shards_ok dm" using assms(3,4) by (auto simp: world_ok_def)
  obtain c where c: "incrStat ''expiration_loop_count'' 1 hc = Some (hc\<lparr>StatsCollector := c\<rparr>)" "stats_ok c"
    using statistics_ok(1) [OF assms(11)] by blast
  let ?h = "hc\<lparr>StatsCollector := c\<rparr>"
  have "ready xxh r (hc_backend ?h) self dm" using assms(2-7) by (simp add: ready_def)
  moreover have "\<forall>x \<in> set ?xs. local_get dm (Key x) = Some x \<and> removable xxh r (hc_backend ?h) self (Key x)"
    using DistMemory_List_iff [OF sh assms(8)] assms(2,9) by auto
  ultimately obtain h1 where h1: "expire_loop ?xs E ctx ?h 0 = Some (h1, int (length ?xs), None)" "stats_ok (StatsCollector h1)"
    "\<forall>x. backend_of (hc_backend h1) x = None \<longleftrightarrow> backend_of w x = None" "\<forall>x \<in> set ?xs. gone xxh r (hc_backend h1) (Key x)"
    using dist_expire_loop [OF assms(1) _ DistMemory_List_distinct [OF sh assms(8)], where hc = ?h and r = r and dm = dm and ctx = ctx and n = 0] assms(2,10) c(2) by auto
  obtain c2 where c2: "gaugeStat ''item_count'' (hc_Count E h1) h1 = Some (h1\<lparr>StatsCollector := c2\<rparr>)" "stats_ok c2"
    using statistics_ok(2) [OF h1(2)] by blast
  obtain c3 where c3: "gaugeStat ''expired_item_count'' (int (length ?xs)) (h1\<lparr>StatsCollector := c2\<rparr>) = Some (h1\<lparr>StatsCollector := c3\<rparr>)" "stats_ok c3"
    using statistics_ok(2) [of "h1\<lparr>StatsCollector := c2\<rparr>"] c2(2) by fastforce
  obtain c4 where c4: "timingStat ''expiration_loop_duration'' (UnixNano now) (h1\<lparr>StatsCollector := c3\<rparr>) = Some (h1\<lparr>StatsCollector := c4\<rparr>)"
    using statistics_ok(3) [of "h1\<lparr>StatsCollector := c3\<rparr>"] c3(2) by fastforce
  have "hc_List E ?h fs = Some (Inr ?xs)" for fs using assms(1,2,4) by (simp add: hc_List_def DistMemory_backend_def)
  then have "expirationJob E ctx now hc = Some (h1\<lparr>StatsCollector := c4\<rparr>, None)"
    by (simp add: expirationJob_def c(1) h1(1) c2(1) c3(1) c4)
  moreover have "gone xxh r (hc_backend h1) k" if "local_get dm k \<noteq> None" for k
  proof -
    from that obtain it where it: "local_get dm k = Some it" by blast
    then have "(k, it) \<in> set (ds_items (dm_shards dm ! hashKey dm k))" by (auto simp: local_get_def dm_shardFor_def dest: map_of_SomeD)
    from shard_item [OF sh hashKey_bound [OF sh] this] it h1(4) DistMemory_List_iff [OF sh assms(8), of it] show ?thesis by auto
  qed
  ultimately show ?thesis using h1(3) by (auto simp: gone_def)
qed

text \<open>The cache of node \<open>a\<close> in the cluster of three, with default settings.\<close>

definition trio_env :: "int \<Rightarrow> World Env" where
  "trio_env now = \<lparr>env_backend = DistMemory_backend flat_hash no_json now ''a'' (\<lambda>_. []), env_hash = (\<lambda>_. 0), env_cborLen = (\<lambda>_. Some 1),
     env_toU32 = (\<lambda>n. if 0 \<le> n \<and> n < 2 ^ 32 then Some (word_of_int n) else None),
     env_toUint = (\<lambda>n. if 0 \<le> n \<and> n < 2 ^ 64 then Some (word_of_int n) else None),
     env_toInt = (\<lambda>w. if uint w < 2 ^ 63 then Some (uint w) else None),
     env_toInt64 = (\<lambda>n. if - (2 ^ 63) \<le> n \<and> n < 2 ^ 63 then Some n else None)\<rparr>"

theorem expiration_pass_wipes_node_witness:
  "let it = an_item ''x'' 1 ''a'';
       w = level_one (trio [(''k'', it)] [(''k'', it)] [(''k'', it)] [''a'', ''b'', ''c''])
   in Expiration it = 0 \<and>
      (\<exists>hc'. expirationJob (trio_env 9) (\<lambda>_. False) 9 (newHyperCacheBase w) = Some (hc', None) \<and>
         node_get (hc_backend hc') ''a'' ''k'' = None \<and> node_get (hc_backend hc') ''b'' ''k'' = None)"
proof -
  let ?it = "an_item ''x'' 1 ''a''"
  let ?w = "level_one (trio [(''k'', ?it)] [(''k'', ?it)] [(''k'', ?it)] [''a'', ''b'', ''c''])"
  let ?dm = "(node_with ''a'' [(''k'', ?it)])\<lparr>readConsistency := ConsistencyOne\<rparr>"
  let ?hc = "newHyperCacheBase ?w"
  have w: "world_ok ?w trio_ring"
    by (auto simp: world_ok_def level_one_def trio_def node_with_def shards_ok_def shard_ok_def empty_shard_def NewMembership_def an_item_def)
  have n: "map_of (w_nodes ?w) ''a'' = Some ?dm" "\<not> draining ?dm" "dm_transport ?dm" "readConsistency ?dm = ConsistencyOne" "placed ?dm"
    "local_get ?dm ''k'' = Some ?it" "backend_of ?w ''b'' \<noteq> None"
    by (simp_all add: level_one_def trio_def node_with_def placed_def empty_shard_def local_get_def dm_shardFor_def backend_of_def)
  then have "\<forall>k. local_get ?dm k \<noteq> None \<longrightarrow> removable flat_hash trio_ring ?w ''a'' k" by (simp add: removable_def)
  note rm = this
  have i: "ev_inv (env_hash (trio_env 9)) (evictionAlgorithm ?hc)" "stats_ok (StatsCollector ?hc)" "hc_backend ?hc = ?w"
    using lru_rel_new [of 0] by (auto simp: newHyperCacheBase_def nilAlgorithm_def NewLRUAlgorithm_def stats_ok_new)
  have e: "env_backend (trio_env 9) = DistMemory_backend flat_hash no_json 9 ''a'' (\<lambda>_. [])" by (simp add: trio_env_def)
  from expiration_pass_wipes_node [OF e i(3) w n(1-5) rm i(1,2), of "\<lambda>_. False"] obtain hc' where
    "expirationJob (trio_env 9) (\<lambda>_. False) 9 ?hc = Some (hc', None)"
    "\<forall>k. local_get ?dm k \<noteq> None \<longrightarrow> (\<forall>oid \<in> set (Ring_Lookup flat_hash trio_ring k).
       oid = hd (Ring_Lookup flat_hash trio_ring k) \<or> backend_of ?w oid \<noteq> None \<longrightarrow> node_get (hc_backend hc') oid k = None)" by blast
  then show ?thesis using n(6,7) by (auto simp: Let_def an_item_def)
qed

end
