(* ===== verification/HttpAuth.thy ===== *)
theory HttpAuth
  imports GoText
begin

text \<open>
  The authentication policy of the client API, \<^verbatim>\<open>pkg/httpauth/policy.go\<close>, and its loader,
  \<^verbatim>\<open>pkg/httpauth/loader.go\<close>: resolution of a caller from a bearer token, Basic credentials, a verified
  certificate or a hook; scope checks; validation; and the configuration file.  The bcrypt library, the
  YAML decoder and the environment are parameters.
\<close>

section \<open>Identities and policies\<close>

type_synonym Scope = string

definition ScopeRead :: Scope where "ScopeRead = ''read''"
definition ScopeWrite :: Scope where "ScopeWrite = ''write''"
definition ScopeAdmin :: Scope where "ScopeAdmin = ''admin''"

lemmas scope_defs = ScopeRead_def ScopeWrite_def ScopeAdmin_def

record Identity =
  id_ID :: string
  id_Scopes :: "Scope list"

definition HasScope :: "Identity \<Rightarrow> Scope \<Rightarrow> bool" where
  "HasScope i s \<longleftrightarrow> s \<in> set (id_Scopes i)"

definition Capabilities :: "Identity \<Rightarrow> string list" where
  "Capabilities i = (if id_Scopes i = [] then [] else map (\<lambda>s. ''cache.'' @ s) (id_Scopes i))"

definition HasCapability :: "Identity \<Rightarrow> string \<Rightarrow> bool" where
  "HasCapability i name \<longleftrightarrow> name \<in> set (Capabilities i)"

record TokenIdentity =
  ti_ID :: string
  ti_Token :: string
  ti_Scopes :: "Scope list"

record CertIdentity =
  ci_SubjectCN :: string
  ci_Scopes :: "Scope list"

record BasicIdentity =
  bi_Username :: string
  bi_PasswordBcrypt :: string
  bi_ID :: string
  bi_Scopes :: "Scope list"

text \<open>
  What the policy sees of a request: the \<^verbatim>\<open>Authorization\<close> header, the TLS state with the common names of
  the verified chains (\<^const>\<open>None\<close> on a plaintext connection), the identity local, and the rest of it,
  which only the hook reads.
\<close>

record 'x FiberCtx =
  cx_Authorization :: string
  cx_TLS :: "string list list option"
  cx_identity :: "Identity option"
  cx_rest :: 'x

record 'x Policy =
  po_Tokens :: "TokenIdentity list"
  po_BasicIdentities :: "BasicIdentity list"
  po_CertIdentities :: "CertIdentity list"
  po_ServerVerify :: "('x FiberCtx \<Rightarrow> Identity option) option"
  po_AllowAnonymous :: bool
  po_AllowBasicWithoutTLS :: bool

definition zero_policy :: "'x Policy" where
  "zero_policy = \<lparr>po_Tokens = [], po_BasicIdentities = [], po_CertIdentities = [], po_ServerVerify = None,
     po_AllowAnonymous = False, po_AllowBasicWithoutTLS = False\<rparr>"

definition IsConfigured :: "'x Policy \<Rightarrow> bool" where
  "IsConfigured p \<longleftrightarrow> 0 < length (po_Tokens p) \<or> 0 < length (po_BasicIdentities p) \<or>
     0 < length (po_CertIdentities p) \<or> po_ServerVerify p \<noteq> None"

section \<open>Validation\<close>

text \<open>The messages wrapped around \<^const>\<open>ErrInsecureAuthConfig\<close>.\<close>

datatype policyError =
    EmptyToken string | EmptyTokenID
  | EmptyUsername | EmptyBasicID string | EmptyPassword string | BadBcrypt string
  | EmptySubjectCN

text \<open>The third-party password hash: the cost it extracts from a hash, and whether a password fits one.\<close>

record Bcrypt =
  bc_Cost :: "string \<Rightarrow> nat option"
  bc_Compare :: "string \<Rightarrow> string \<Rightarrow> bool"

definition validateBasicIdentity :: "Bcrypt \<Rightarrow> BasicIdentity \<Rightarrow> policyError option" where
  "validateBasicIdentity bc b =
     (if bi_Username b = [] then Some EmptyUsername
      else if bi_ID b = [] then Some (EmptyBasicID (bi_Username b))
      else if bi_PasswordBcrypt b = [] then Some (EmptyPassword (bi_Username b))
      else if bc_Cost bc (bi_PasswordBcrypt b) = None then Some (BadBcrypt (bi_Username b))
      else None)"

fun validate_tokens :: "TokenIdentity list \<Rightarrow> policyError option" where
  "validate_tokens [] = None"
| "validate_tokens (t # ts) =
     (if ti_Token t = [] then Some (EmptyToken (ti_ID t))
      else if ti_ID t = [] then Some EmptyTokenID
      else validate_tokens ts)"

fun validate_users :: "Bcrypt \<Rightarrow> BasicIdentity list \<Rightarrow> policyError option" where
  "validate_users bc [] = None"
| "validate_users bc (b # bs) = (case validateBasicIdentity bc b of Some e \<Rightarrow> Some e | None \<Rightarrow> validate_users bc bs)"

fun validate_certs :: "CertIdentity list \<Rightarrow> policyError option" where
  "validate_certs [] = None"
| "validate_certs (c # cs) = (if ci_SubjectCN c = [] then Some EmptySubjectCN else validate_certs cs)"

definition Validate :: "Bcrypt \<Rightarrow> 'x Policy \<Rightarrow> policyError option" where
  "Validate bc p =
     (case validate_tokens (po_Tokens p) of
        Some e \<Rightarrow> Some e
      | None \<Rightarrow> (case validate_users bc (po_BasicIdentities p) of
            Some e \<Rightarrow> Some e
          | None \<Rightarrow> validate_certs (po_CertIdentities p)))"

section \<open>Resolution\<close>

text \<open>The loop over the tokens keeps the index of the last match.\<close>

fun bearer_loop :: "string \<Rightarrow> nat \<Rightarrow> TokenIdentity list \<Rightarrow> int \<Rightarrow> int" where
  "bearer_loop got i [] matched = matched"
| "bearer_loop got i (t # ts) matched =
     bearer_loop got (Suc i) ts (if got = ''Bearer '' @ ti_Token t then int i else matched)"

definition resolveBearer :: "'x Policy \<Rightarrow> string \<Rightarrow> Identity option" where
  "resolveBearer p authHeader =
     (if authHeader = [] \<or> length (po_Tokens p) = 0 then None
      else let matched = bearer_loop authHeader 0 (po_Tokens p) (- 1) in
        if matched < 0 then None
        else let t = po_Tokens p ! nat matched in Some \<lparr>id_ID = ti_ID t, id_Scopes = ti_Scopes t\<rparr>)"

record basicCreds =
  cr_Username :: string
  cr_Password :: string

definition parseBasicHeader :: "string \<Rightarrow> basicCreds option" where
  "parseBasicHeader authHeader =
     (let prefix = ''Basic '' in
      if take (length prefix) authHeader \<noteq> prefix then None
      else let encoded = TrimSpace (drop (length prefix) authHeader) in
        if encoded = [] then None
        else case DecodeString encoded of
            None \<Rightarrow> None
          | Some decoded \<Rightarrow> (case str_Cut decoded (CHR '':'') of
                None \<Rightarrow> None
              | Some (user, pass) \<Rightarrow> Some \<lparr>cr_Username = user, cr_Password = pass\<rparr>))"

fun basic_loop :: "Bcrypt \<Rightarrow> basicCreds \<Rightarrow> BasicIdentity list \<Rightarrow> Identity option" where
  "basic_loop bc creds [] = None"
| "basic_loop bc creds (b # bs) =
     (if bi_Username b \<noteq> cr_Username creds then basic_loop bc creds bs
      else if \<not> bc_Compare bc (bi_PasswordBcrypt b) (cr_Password creds) then None
      else Some \<lparr>id_ID = bi_ID b, id_Scopes = bi_Scopes b\<rparr>)"

definition resolveBasic :: "Bcrypt \<Rightarrow> 'x Policy \<Rightarrow> 'x FiberCtx \<Rightarrow> Identity option" where
  "resolveBasic bc p c =
     (if length (po_BasicIdentities p) = 0 then None
      else case parseBasicHeader (cx_Authorization c) of
          None \<Rightarrow> None
        | Some creds \<Rightarrow>
            if \<not> po_AllowBasicWithoutTLS p \<and> cx_TLS c = None then None
            else basic_loop bc creds (po_BasicIdentities p))"

definition resolveCert :: "'x Policy \<Rightarrow> 'x FiberCtx \<Rightarrow> Identity option" where
  "resolveCert p c =
     (if length (po_CertIdentities p) = 0 then None
      else case cx_TLS c of
          Some ((cn # _) # _) \<Rightarrow>
            if cn = [] then None
            else map_option (\<lambda>ci. \<lparr>id_ID = cn, id_Scopes = ci_Scopes ci\<rparr>)
              (find (\<lambda>ci. ci_SubjectCN ci = cn) (po_CertIdentities p))
        | _ \<Rightarrow> None)"

definition anonymous :: Identity where
  "anonymous = \<lparr>id_ID = ''anonymous'', id_Scopes = [ScopeRead, ScopeWrite, ScopeAdmin]\<rparr>"

definition resolve :: "Bcrypt \<Rightarrow> 'x Policy \<Rightarrow> 'x FiberCtx \<Rightarrow> Identity option" where
  "resolve bc p c =
     (case resolveBearer p (cx_Authorization c) of Some i \<Rightarrow> Some i
      | None \<Rightarrow> (case resolveBasic bc p c of Some i \<Rightarrow> Some i
      | None \<Rightarrow> (case resolveCert p c of Some i \<Rightarrow> Some i
      | None \<Rightarrow> (case (case po_ServerVerify p of None \<Rightarrow> None | Some hook \<Rightarrow> hook c) of Some i \<Rightarrow> Some i
      | None \<Rightarrow> if po_AllowAnonymous p then Some anonymous else None))))"

text \<open>An error carries the status that fiber answers; success stores the identity in the request's locals.\<close>

definition Verify :: "Bcrypt \<Rightarrow> 'x Policy \<Rightarrow> 'x FiberCtx \<Rightarrow> Scope \<Rightarrow> nat + 'x FiberCtx" where
  "Verify bc p c required =
     (case resolve bc p c of
        None \<Rightarrow> Inl 401
      | Some identity \<Rightarrow>
          if required \<noteq> [] \<and> \<not> HasScope identity required then Inl 403
          else Inr (c\<lparr>cx_identity := Some identity\<rparr>))"

definition Middleware :: "Bcrypt \<Rightarrow> 'x Policy \<Rightarrow> Scope \<Rightarrow> ('x FiberCtx \<Rightarrow> nat + 'r) \<Rightarrow> 'x FiberCtx \<Rightarrow> nat + 'r" where
  "Middleware bc p required next c = (case Verify bc p c required of Inl e \<Rightarrow> Inl e | Inr c' \<Rightarrow> next c')"

section \<open>The loader\<close>

record tokenFile =
  tf_ID :: string
  tf_Token :: string
  tf_Scopes :: "string list"

record userFile =
  uf_ID :: string
  uf_Username :: string
  uf_PasswordBcrypt :: string
  uf_Scopes :: "string list"

record certFile =
  cf_SubjectCN :: string
  cf_Scopes :: "string list"

record fileSchema =
  fs_Tokens :: "tokenFile list"
  fs_Users :: "userFile list"
  fs_CertIdentities :: "certFile list"
  fs_AllowAnonymous :: bool
  fs_AllowBasicWithoutTLS :: bool

datatype scopeError = EmptyScopes | UnknownScope string

datatype loadError =
    OpenFailed | ParseFailed
  | BadScopes string nat string scopeError
  | InvalidPolicy policyError

fun scopes_loop :: "string list \<Rightarrow> scopeError + Scope list" where
  "scopes_loop [] = Inr []"
| "scopes_loop (name # raw) =
     (if name = ScopeRead \<or> name = ScopeWrite \<or> name = ScopeAdmin
      then (case scopes_loop raw of Inl e \<Rightarrow> Inl e | Inr out \<Rightarrow> Inr (name # out))
      else Inl (UnknownScope name))"

definition parseScopes :: "string list \<Rightarrow> scopeError + Scope list" where
  "parseScopes raw = (if raw = [] then Inl EmptyScopes else scopes_loop raw)"

text \<open>The three loops of \<open>schemaToPolicy\<close> have one shape: parse the scopes, stop at the first error.\<close>

fun lift_rows :: "string \<Rightarrow> ('f \<Rightarrow> string) \<Rightarrow> ('f \<Rightarrow> string list) \<Rightarrow> ('f \<Rightarrow> Scope list \<Rightarrow> 'i) \<Rightarrow> nat \<Rightarrow> 'f list \<Rightarrow> loadError + 'i list" where
  "lift_rows section label scopes build i [] = Inr []"
| "lift_rows section label scopes build i (f # fs) =
     (case parseScopes (scopes f) of
        Inl e \<Rightarrow> Inl (BadScopes section i (label f) e)
      | Inr ss \<Rightarrow> (case lift_rows section label scopes build (Suc i) fs of
            Inl e \<Rightarrow> Inl e
          | Inr out \<Rightarrow> Inr (build f ss # out)))"

definition schemaToPolicy :: "fileSchema \<Rightarrow> loadError + 'x Policy" where
  "schemaToPolicy s =
     (case lift_rows ''tokens'' tf_ID tf_Scopes
             (\<lambda>t ss. \<lparr>ti_ID = tf_ID t, ti_Token = tf_Token t, ti_Scopes = ss\<rparr>) 0 (fs_Tokens s) of
        Inl e \<Rightarrow> Inl e
      | Inr tokens \<Rightarrow>
     (case lift_rows ''users'' uf_Username uf_Scopes
             (\<lambda>u ss. \<lparr>bi_Username = uf_Username u, bi_PasswordBcrypt = uf_PasswordBcrypt u, bi_ID = uf_ID u, bi_Scopes = ss\<rparr>)
             0 (fs_Users s) of
        Inl e \<Rightarrow> Inl e
      | Inr users \<Rightarrow>
     (case lift_rows ''cert_identities'' cf_SubjectCN cf_Scopes
             (\<lambda>c ss. \<lparr>ci_SubjectCN = cf_SubjectCN c, ci_Scopes = ss\<rparr>) 0 (fs_CertIdentities s) of
        Inl e \<Rightarrow> Inl e
      | Inr certs \<Rightarrow>
          Inr \<lparr>po_Tokens = tokens, po_BasicIdentities = users, po_CertIdentities = certs, po_ServerVerify = None,
            po_AllowAnonymous = fs_AllowAnonymous s, po_AllowBasicWithoutTLS = fs_AllowBasicWithoutTLS s\<rparr>)))"

text \<open>\<open>files path\<close> is what opening and strictly decoding the file gives.\<close>

definition loadFromFile :: "Bcrypt \<Rightarrow> (string \<Rightarrow> loadError + fileSchema) \<Rightarrow> string \<Rightarrow> loadError + 'x Policy" where
  "loadFromFile bc files path =
     (case files path of
        Inl e \<Rightarrow> Inl e
      | Inr schema \<Rightarrow> (case schemaToPolicy schema of
            Inl e \<Rightarrow> Inl e
          | Inr policy \<Rightarrow> (case Validate bc policy of
                Some e \<Rightarrow> Inl (InvalidPolicy e)
              | None \<Rightarrow> Inr policy)))"

definition synthesizeLegacyPolicy :: "string \<Rightarrow> 'x Policy" where
  "synthesizeLegacyPolicy token =
     zero_policy\<lparr>po_Tokens := [\<lparr>ti_ID = ''default'', ti_Token = token, ti_Scopes = [ScopeRead, ScopeWrite, ScopeAdmin]\<rparr>]\<rparr>"

definition EnvAuthConfig :: string where "EnvAuthConfig = ''HYPERCACHE_AUTH_CONFIG''"
definition EnvAuthToken :: string where "EnvAuthToken = ''HYPERCACHE_AUTH_TOKEN''"

definition LoadFromEnv :: "Bcrypt \<Rightarrow> (string \<Rightarrow> loadError + fileSchema) \<Rightarrow> (string \<Rightarrow> string) \<Rightarrow> loadError + 'x Policy" where
  "LoadFromEnv bc files getenv =
     (let configPath = getenv EnvAuthConfig; legacyToken = getenv EnvAuthToken in
      if configPath \<noteq> [] then loadFromFile bc files configPath
      else if legacyToken \<noteq> [] then Inr (synthesizeLegacyPolicy legacyToken)
      else Inr zero_policy)"

section \<open>What resolution accepts\<close>

text \<open>
  The credentials that stand for an identity under a policy, independently of the order in which the
  code looks for them.  A user name selects its first row; the last row with a token decides its scopes.
\<close>

inductive credential :: "Bcrypt \<Rightarrow> 'x Policy \<Rightarrow> 'x FiberCtx \<Rightarrow> Identity \<Rightarrow> bool" for bc p c where
  bearer: "t \<in> set (po_Tokens p) \<Longrightarrow> cx_Authorization c = ''Bearer '' @ ti_Token t \<Longrightarrow>
     credential bc p c \<lparr>id_ID = ti_ID t, id_Scopes = ti_Scopes t\<rparr>"
| basic: "parseBasicHeader (cx_Authorization c) = Some creds \<Longrightarrow>
     po_AllowBasicWithoutTLS p \<or> cx_TLS c \<noteq> None \<Longrightarrow>
     find (\<lambda>b. bi_Username b = cr_Username creds) (po_BasicIdentities p) = Some b \<Longrightarrow>
     bc_Compare bc (bi_PasswordBcrypt b) (cr_Password creds) \<Longrightarrow>
     credential bc p c \<lparr>id_ID = bi_ID b, id_Scopes = bi_Scopes b\<rparr>"
| cert: "cx_TLS c = Some ((cn # certs) # others) \<Longrightarrow> cn \<noteq> [] \<Longrightarrow>
     find (\<lambda>ci. ci_SubjectCN ci = cn) (po_CertIdentities p) = Some ci \<Longrightarrow>
     credential bc p c \<lparr>id_ID = cn, id_Scopes = ci_Scopes ci\<rparr>"
| hook: "po_ServerVerify p = Some f \<Longrightarrow> f c = Some i \<Longrightarrow> credential bc p c i"
| open_mode: "po_AllowAnonymous p \<Longrightarrow> credential bc p c anonymous"

lemma bearer_loop_result:
  "bearer_loop got i ts m = m \<or>
   (\<exists>j < length ts. bearer_loop got i ts m = int (i + j) \<and> got = ''Bearer '' @ ti_Token (ts ! j))"
proof (induction ts arbitrary: i m)
  case (Cons t ts)
  let ?m = "if got = ''Bearer '' @ ti_Token t then int i else m"
  from Cons [of "Suc i" ?m] show ?case
  proof (elim disjE exE conjE)
    assume "bearer_loop got (Suc i) ts ?m = ?m"
    then show ?thesis by (cases "got = ''Bearer '' @ ti_Token t") (auto intro!: exI [of _ 0])
  next
    fix j
    assume "j < length ts" "bearer_loop got (Suc i) ts ?m = int (Suc i + j)" "got = ''Bearer '' @ ti_Token (ts ! j)"
    then show ?thesis by (intro disjI2 exI [of _ "Suc j"]) simp
  qed
qed simp

lemma bearer_loop_keeps: "0 \<le> m \<Longrightarrow> 0 \<le> bearer_loop got i ts m"
  by (induction ts arbitrary: i m) simp_all

lemma bearer_loop_finds: "t \<in> set ts \<Longrightarrow> got = ''Bearer '' @ ti_Token t \<Longrightarrow> 0 \<le> bearer_loop got i ts m"
  by (induction ts arbitrary: i m) (auto simp: bearer_loop_keeps)

lemma resolveBearer_Some:
  assumes "resolveBearer p h = Some i"
  shows "\<exists>t \<in> set (po_Tokens p). h = ''Bearer '' @ ti_Token t \<and> i = \<lparr>id_ID = ti_ID t, id_Scopes = ti_Scopes t\<rparr>"
proof -
  let ?m = "bearer_loop h 0 (po_Tokens p) (- 1)"
  from assms have m: "0 \<le> ?m" "i = \<lparr>id_ID = ti_ID (po_Tokens p ! nat ?m), id_Scopes = ti_Scopes (po_Tokens p ! nat ?m)\<rparr>"
    by (auto simp: resolveBearer_def Let_def split: if_splits)
  with bearer_loop_result [of h 0 "po_Tokens p" "- 1"]
  obtain j where "j < length (po_Tokens p)" "?m = int j" "h = ''Bearer '' @ ti_Token (po_Tokens p ! j)" by auto
  with m show ?thesis by (intro bexI [of _ "po_Tokens p ! j"]) simp_all
qed

lemma resolveBearer_None:
  assumes "resolveBearer p h = None" "t \<in> set (po_Tokens p)"
  shows "h \<noteq> ''Bearer '' @ ti_Token t"
  using assms bearer_loop_finds [of t "po_Tokens p" h 0 "- 1"] by (auto simp: resolveBearer_def Let_def split: if_splits)

lemma basic_loop_find:
  "basic_loop bc creds bs = (case find (\<lambda>b. bi_Username b = cr_Username creds) bs of
     None \<Rightarrow> None
   | Some b \<Rightarrow> if bc_Compare bc (bi_PasswordBcrypt b) (cr_Password creds)
       then Some \<lparr>id_ID = bi_ID b, id_Scopes = bi_Scopes b\<rparr> else None)"
  by (induction bs) auto

lemma resolveBasic_Some:
  "resolveBasic bc p c = Some i \<longleftrightarrow>
   (\<exists>creds b. parseBasicHeader (cx_Authorization c) = Some creds \<and> (po_AllowBasicWithoutTLS p \<or> cx_TLS c \<noteq> None) \<and>
     find (\<lambda>b. bi_Username b = cr_Username creds) (po_BasicIdentities p) = Some b \<and>
     bc_Compare bc (bi_PasswordBcrypt b) (cr_Password creds) \<and> i = \<lparr>id_ID = bi_ID b, id_Scopes = bi_Scopes b\<rparr>)"
  by (auto simp: resolveBasic_def basic_loop_find split: option.splits)

lemma resolveCert_Some:
  "resolveCert p c = Some i \<longleftrightarrow>
   (\<exists>cn certs others ci. cx_TLS c = Some ((cn # certs) # others) \<and> cn \<noteq> [] \<and>
     find (\<lambda>ci. ci_SubjectCN ci = cn) (po_CertIdentities p) = Some ci \<and> i = \<lparr>id_ID = cn, id_Scopes = ci_Scopes ci\<rparr>)"
  by (auto simp: resolveCert_def split: option.splits list.splits)

lemma resolve_credential: "resolve bc p c = Some i \<Longrightarrow> credential bc p c i"
proof (cases "resolveBearer p (cx_Authorization c)")
  case (Some j)
  assume "resolve bc p c = Some i"
  with Some have "i = j" by (simp add: resolve_def)
  with resolveBearer_Some [OF Some] show ?thesis by (auto intro: credential.bearer)
next
  case None
  assume r: "resolve bc p c = Some i"
  then consider "resolveBasic bc p c = Some i" | "resolveCert p c = Some i"
    | "po_ServerVerify p \<noteq> None" "the (po_ServerVerify p) c = Some i" | "po_AllowAnonymous p" "i = anonymous"
    using None by (auto simp: resolve_def split: option.splits if_splits)
  then show ?thesis
    by cases (auto simp: resolveBasic_Some resolveCert_Some intro: credential.intros)
qed

lemma credential_resolves: "credential bc p c i \<Longrightarrow> \<exists>j. resolve bc p c = Some j"
proof (induction rule: credential.induct)
  case (bearer t)
  then have "resolveBearer p (cx_Authorization c) \<noteq> None" using resolveBearer_None by blast
  then show ?case by (auto simp: resolve_def)
next
  case (basic creds b)
  then have "resolveBasic bc p c = Some \<lparr>id_ID = bi_ID b, id_Scopes = bi_Scopes b\<rparr>" by (subst resolveBasic_Some) blast
  then show ?case by (auto simp: resolve_def split: option.split)
next
  case (cert cn certs others ci)
  then have "resolveCert p c = Some \<lparr>id_ID = cn, id_Scopes = ci_Scopes ci\<rparr>" by (subst resolveCert_Some) blast
  then show ?case by (auto simp: resolve_def split: option.split)
qed (auto simp: resolve_def split: option.split)

lemma resolve_None: "resolve bc p c = None \<longleftrightarrow> \<not> (\<exists>i. credential bc p c i)"
  using resolve_credential credential_resolves by (metis not_None_eq)


section \<open>Basic credentials\<close>

lemma EncodeToString_nonempty: "s \<noteq> [] \<Longrightarrow> EncodeToString s \<noteq> []"
proof (cases "map of_char s :: nat list" rule: b64_triples.cases)
qed (auto simp: EncodeToString_def)

text \<open>
  A header built from a user name without a colon and any password, as RFC 7617 prescribes, parses
  back to that user name and password, whatever bytes they hold.
\<close>

lemma Basic_round_trip:
  assumes "CHR '':'' \<notin> set user"
  shows "parseBasicHeader (''Basic '' @ EncodeToString (user @ CHR '':'' # pass)) = Some \<lparr>cr_Username = user, cr_Password = pass\<rparr>"
  using TrimSpace_graphic [OF EncodeToString_graphic, of "user @ CHR '':'' # pass"] EncodeToString_nonempty [of "user @ CHR '':'' # pass"]
  by (simp add: parseBasicHeader_def Let_def DecodeString_EncodeToString str_Cut_append [OF assms])

lemma Basic_round_trip_example:
  "parseBasicHeader (''Basic '' @ EncodeToString (''alice'' @ CHR '':'' # ''a:b'')) = Some \<lparr>cr_Username = ''alice'', cr_Password = ''a:b''\<rparr>"
  by (rule Basic_round_trip) simp

section \<open>Loaded policies\<close>

definition known_scopes :: "Scope list \<Rightarrow> bool" where
  "known_scopes ss \<longleftrightarrow> ss \<noteq> [] \<and> set ss \<subseteq> {ScopeRead, ScopeWrite, ScopeAdmin}"

lemma scopes_loop_known: "scopes_loop raw = Inr ss \<Longrightarrow> ss = raw \<and> set ss \<subseteq> {ScopeRead, ScopeWrite, ScopeAdmin}"
  by (induction raw arbitrary: ss) (auto split: if_splits sum.splits)

lemma parseScopes_known: "parseScopes raw = Inr ss \<Longrightarrow> ss = raw \<and> known_scopes ss"
  using scopes_loop_known by (auto simp: parseScopes_def known_scopes_def split: if_splits)

lemma lift_rows_build:
  "lift_rows s l scopes build i fs = Inr out \<Longrightarrow>
     out = map (\<lambda>f. build f (scopes f)) fs \<and> (\<forall>f \<in> set fs. known_scopes (scopes f))"
proof (induction fs arbitrary: i out)
  case (Cons f fs)
  then obtain ss rest where f: "parseScopes (scopes f) = Inr ss" "lift_rows s l scopes build (Suc i) fs = Inr rest" "out = build f ss # rest"
    by (auto split: sum.splits)
  with Cons.IH [OF f(2)] parseScopes_known [OF f(1)] show ?case by auto
qed simp

definition policy_scopes_ok :: "'x Policy \<Rightarrow> bool" where
  "policy_scopes_ok p \<longleftrightarrow> (\<forall>t \<in> set (po_Tokens p). known_scopes (ti_Scopes t)) \<and>
     (\<forall>b \<in> set (po_BasicIdentities p). known_scopes (bi_Scopes b)) \<and> (\<forall>ci \<in> set (po_CertIdentities p). known_scopes (ci_Scopes ci))"

lemma schemaToPolicy_ok:
  assumes "schemaToPolicy s = Inr p"
  shows "policy_scopes_ok p \<and> po_ServerVerify p = None \<and> po_AllowAnonymous p = fs_AllowAnonymous s"
  using assms unfolding schemaToPolicy_def policy_scopes_ok_def
  by (auto dest!: lift_rows_build split: sum.splits)

lemma validate_users_None: "validate_users bc bs = None \<longleftrightarrow> (\<forall>b \<in> set bs. validateBasicIdentity bc b = None)"
  by (induction bs) (auto split: option.splits)

lemma validate_tokens_None: "validate_tokens ts = None \<longleftrightarrow> (\<forall>t \<in> set ts. ti_Token t \<noteq> [] \<and> ti_ID t \<noteq> [])"
  by (induction ts) auto

lemma validate_certs_None: "validate_certs cs = None \<longleftrightarrow> (\<forall>c \<in> set cs. ci_SubjectCN c \<noteq> [])"
  by (induction cs) auto

lemma Validate_None:
  "Validate bc p = None \<longleftrightarrow>
     (\<forall>t \<in> set (po_Tokens p). ti_Token t \<noteq> [] \<and> ti_ID t \<noteq> []) \<and>
     (\<forall>b \<in> set (po_BasicIdentities p). validateBasicIdentity bc b = None) \<and>
     (\<forall>c \<in> set (po_CertIdentities p). ci_SubjectCN c \<noteq> [])"
  unfolding Validate_def validate_users_None [symmetric] validate_tokens_None [symmetric] validate_certs_None [symmetric]
  by (simp split: option.split)

lemma known_all [simp]: "known_scopes [ScopeRead, ScopeWrite, ScopeAdmin]"
  by (auto simp: known_scopes_def)

lemma LoadFromEnv_ok:
  assumes "LoadFromEnv bc files getenv = Inr p"
  shows "Validate bc p = None \<and> policy_scopes_ok p \<and> po_ServerVerify p = None"
proof -
  consider "loadFromFile bc files (getenv EnvAuthConfig) = Inr p" | "p = synthesizeLegacyPolicy (getenv EnvAuthToken)" "getenv EnvAuthToken \<noteq> []"
    | "p = zero_policy"
    using assms unfolding LoadFromEnv_def Let_def by (metis sum.inject(2))
  then show ?thesis
  proof cases
    case 1
    then obtain s where "schemaToPolicy s = Inr p" "Validate bc p = None"
      by (auto simp: loadFromFile_def split: sum.split_asm option.split_asm)
    with schemaToPolicy_ok show ?thesis by blast
  qed (auto simp: Validate_None policy_scopes_ok_def synthesizeLegacyPolicy_def zero_policy_def)
qed

lemma find_in_set: "find P xs = Some x \<Longrightarrow> x \<in> set xs"
  by (auto simp: find_Some_iff)

lemma loaded_credential_scopes:
  assumes "policy_scopes_ok p" "po_ServerVerify p = None" "credential bc p c i"
  shows "known_scopes (id_Scopes i)"
  using assms(3) assms(1,2)
  by cases (auto simp: policy_scopes_ok_def anonymous_def dest: find_in_set)

text \<open>
  C34. Whatever the environment holds, a policy the loader returns is valid, and a caller it lets in has
  at least one scope and none but read, write and admin.  A request without a header over a plain
  connection gets in only if the file asked for anonymous access.
\<close>

theorem LoadFromEnv_policies:
  assumes "LoadFromEnv bc files getenv = Inr p"
  shows "Validate bc p = None \<and>
    (\<forall>c'. Verify bc p c required = Inr c' \<longrightarrow>
       (\<exists>i. cx_identity c' = Some i \<and> id_Scopes i \<noteq> [] \<and> set (id_Scopes i) \<subseteq> {''read'', ''write'', ''admin''})) \<and>
    (cx_Authorization c = [] \<and> cx_TLS c = None \<and> \<not> po_AllowAnonymous p \<longrightarrow> Verify bc p c required = Inl 401)"
proof (intro conjI allI impI)
  note ok = LoadFromEnv_ok [OF assms]
  then show "Validate bc p = None" by simp
  show "\<exists>i. cx_identity c' = Some i \<and> id_Scopes i \<noteq> [] \<and> set (id_Scopes i) \<subseteq> {''read'', ''write'', ''admin''}"
    if "Verify bc p c required = Inr c'" for c'
  proof -
    from that obtain i where i: "resolve bc p c = Some i" "c' = c\<lparr>cx_identity := Some i\<rparr>"
      by (auto simp: Verify_def split: option.splits if_splits)
    with loaded_credential_scopes [OF _ _ resolve_credential] ok have "known_scopes (id_Scopes i)" by blast
    with i show ?thesis by (simp add: known_scopes_def scope_defs)
  qed
  show "Verify bc p c required = Inl 401" if "cx_Authorization c = [] \<and> cx_TLS c = None \<and> \<not> po_AllowAnonymous p"
    using that ok by (simp add: Verify_def resolve_def resolveBearer_def resolveBasic_def resolveCert_def parseBasicHeader_def)
qed

definition plain_request :: "unit FiberCtx" where
  "plain_request = \<lparr>cx_Authorization = [], cx_TLS = None, cx_identity = None, cx_rest = ()\<rparr>"

definition one_user :: fileSchema where
  "one_user = \<lparr>fs_Tokens = [\<lparr>tf_ID = ''app'', tf_Token = ''s3cret'', tf_Scopes = [''read'']\<rparr>],
     fs_Users = [\<lparr>uf_ID = ''ops'', uf_Username = ''alice'', uf_PasswordBcrypt = ''$2a$'', uf_Scopes = [''read'', ''write'']\<rparr>],
     fs_CertIdentities = [], fs_AllowAnonymous = False, fs_AllowBasicWithoutTLS = True\<rparr>"

definition toy_bcrypt :: Bcrypt where
  "toy_bcrypt = \<lparr>bc_Cost = \<lambda>h. Some 10, bc_Compare = \<lambda>h p. p = ''pw''\<rparr>"

definition one_user_policy :: "unit Policy" where
  "one_user_policy = \<lparr>po_Tokens = [\<lparr>ti_ID = ''app'', ti_Token = ''s3cret'', ti_Scopes = [''read'']\<rparr>],
     po_BasicIdentities = [\<lparr>bi_Username = ''alice'', bi_PasswordBcrypt = ''$2a$'', bi_ID = ''ops'', bi_Scopes = [''read'', ''write'']\<rparr>],
     po_CertIdentities = [], po_ServerVerify = None, po_AllowAnonymous = False, po_AllowBasicWithoutTLS = True\<rparr>"

definition one_env :: "string \<Rightarrow> string" where
  "one_env k = (if k = EnvAuthConfig then ''auth.yaml'' else [])"

lemma one_user_loads: "LoadFromEnv toy_bcrypt (\<lambda>_. Inr one_user) one_env = Inr one_user_policy"
  by (simp add: LoadFromEnv_def one_env_def loadFromFile_def one_user_def schemaToPolicy_def parseScopes_def scope_defs
      Validate_def validateBasicIdentity_def toy_bcrypt_def one_user_policy_def EnvAuthConfig_def)

theorem LoadFromEnv_policies_witness:
  "Validate toy_bcrypt one_user_policy = None \<and>
   (\<exists>c' i. Verify toy_bcrypt one_user_policy (plain_request\<lparr>cx_Authorization := ''Bearer s3cret''\<rparr>) ''read'' = Inr c' \<and>
      cx_identity c' = Some i \<and> set (id_Scopes i) \<subseteq> {''read'', ''write'', ''admin''}) \<and>
   Verify toy_bcrypt one_user_policy plain_request ''read'' = Inl 401"
proof -
  let ?c = "plain_request\<lparr>cx_Authorization := ''Bearer s3cret''\<rparr>"
  have v: "Verify toy_bcrypt one_user_policy ?c ''read'' = Inr (?c\<lparr>cx_identity := Some \<lparr>id_ID = ''app'', id_Scopes = [''read'']\<rparr>\<rparr>)"
    by (simp add: Verify_def resolve_def resolveBearer_def one_user_policy_def HasScope_def)
  have "cx_Authorization plain_request = [] \<and> cx_TLS plain_request = None \<and> \<not> po_AllowAnonymous one_user_policy"
    by (simp add: plain_request_def one_user_policy_def)
  with v LoadFromEnv_policies [OF one_user_loads, of ?c "''read''"] LoadFromEnv_policies [OF one_user_loads, of plain_request "''read''"]
  show ?thesis by blast
qed

text \<open>
  The two defaults differ from their documentation.  The zero policy, documented as letting every
  request pass, refuses every request with 401.  A policy with nothing but \<open>AllowAnonymous\<close>, documented
  as giving callers no scopes, gives any caller that no credential identifies, also one with a wrong
  token, all three scopes on every route.
\<close>

lemma policy_defaults:
  "Verify bc zero_policy c required = Inl 401 \<and>
   Verify bc (zero_policy\<lparr>po_AllowAnonymous := True\<rparr>) c ScopeAdmin =
     Inr (c\<lparr>cx_identity := Some \<lparr>id_ID = ''anonymous'', id_Scopes = [''read'', ''write'', ''admin'']\<rparr>\<rparr>)"
  by (simp add: Verify_def resolve_def resolveBearer_def resolveBasic_def resolveCert_def zero_policy_def anonymous_def
      HasScope_def scope_defs)

text \<open>A capability is a scope behind its prefix.\<close>

lemma HasCapability_scope: "HasCapability i (''cache.'' @ s) \<longleftrightarrow> HasScope i s"
  by (auto simp: HasCapability_def Capabilities_def HasScope_def)

end
