(* ===== verification/GoParse.thy ===== *)
theory GoParse
  imports GoText
begin

text \<open>
  More text functions of Go's standard library, used by the server: \<open>time.ParseDuration\<close>,
  \<open>strings.Split\<close> at a character and \<open>strings.Fields\<close>. The floating-point product that scales a fraction
  of a duration is taken exactly and cut to an integer.
\<close>

section \<open>Durations\<close>

text \<open>\<open>leadingInt\<close>: \<^const>\<open>None\<close> on overflow, otherwise the number and the rest.\<close>

fun leadingInt :: "nat \<Rightarrow> string \<Rightarrow> (nat \<times> string) option" where
  "leadingInt x [] = Some (x, [])"
| "leadingInt x (c # s) =
     (if \<not> is_digit c then Some (x, c # s)
      else if x > 2 ^ 63 div 10 then None
      else let y = x * 10 + (of_char c - 48) in if y > 2 ^ 63 then None else leadingInt y s)"

text \<open>\<open>leadingFraction\<close> drops the digits that would overflow; it returns the digits, their scale and the rest.\<close>

fun leadingFraction :: "bool \<Rightarrow> nat \<Rightarrow> nat \<Rightarrow> string \<Rightarrow> nat \<times> nat \<times> string" where
  "leadingFraction overflow x scale [] = (x, scale, [])"
| "leadingFraction overflow x scale (c # s) =
     (if \<not> is_digit c then (x, scale, c # s)
      else if overflow \<or> x > (2 ^ 63 - 1) div 10 then leadingFraction True x scale s
      else let y = x * 10 + (of_char c - 48) in
        if y > 2 ^ 63 then leadingFraction True x scale s else leadingFraction False y (scale * 10) s)"

text \<open>The units; the micro sign and the Greek letter are given by their UTF-8 bytes.\<close>

definition unitMap :: "(string, nat) gomap" where
  "unitMap = [(''ns'', 1), (''us'', 1000), ([CHR 0xC2, CHR 0xB5, CHR ''s''], 1000), ([CHR 0xCE, CHR 0xBC, CHR ''s''], 1000),
     (''ms'', 1000000), (''s'', 1000000000), (''m'', 60 * 1000000000), (''h'', 3600 * 1000000000)]"

definition unit_end :: "char \<Rightarrow> bool" where
  "unit_end c \<longleftrightarrow> c = CHR ''.'' \<or> is_digit c"

text \<open>One number with its unit: the amount and the rest.\<close>

definition duration_part :: "string \<Rightarrow> (nat \<times> string) option" where
  "duration_part s =
     (if s = [] \<or> \<not> unit_end (hd s) then None
      else case leadingInt 0 s of
        None \<Rightarrow> None
      | Some (v, s1) \<Rightarrow>
          let pre = length s1 \<noteq> length s;
              (f, scale, s2) = (if s1 \<noteq> [] \<and> hd s1 = CHR ''.'' then leadingFraction False 0 1 (tl s1) else (0, 1, s1));
              post = (s1 \<noteq> [] \<and> hd s1 = CHR ''.'' \<and> length s2 \<noteq> length (tl s1));
              u = takeWhile (\<lambda>c. \<not> unit_end c) s2; s3 = dropWhile (\<lambda>c. \<not> unit_end c) s2
          in if \<not> pre \<and> \<not> post then None
             else if u = [] then None
             else case map_of unitMap u of
               None \<Rightarrow> None
             | Some unit \<Rightarrow>
                 if v > 2 ^ 63 div unit then None
                 else let d = v * unit + (if f > 0 then f * unit div scale else 0) in
                   if f > 0 \<and> d > 2 ^ 63 then None else Some (d, s3))"

text \<open>The loop over the parts; a part consumes at least its unit.\<close>

primrec duration_loop :: "nat \<Rightarrow> string \<Rightarrow> nat \<Rightarrow> nat option" where
  "duration_loop 0 s d = (if s = [] then Some d else None)"
| "duration_loop (Suc n) s d =
     (if s = [] then Some d
      else case duration_part s of
        None \<Rightarrow> None
      | Some (v, s1) \<Rightarrow> if d + v > 2 ^ 63 then None else duration_loop n s1 (d + v))"

definition ParseDuration :: "string \<Rightarrow> int option" where
  "ParseDuration orig =
     (let signed = (orig \<noteq> [] \<and> (hd orig = CHR ''-'' \<or> hd orig = CHR ''+''));
          neg = (signed \<and> hd orig = CHR ''-'');
          s = (if signed then tl orig else orig)
      in if s = ''0'' then Some 0
         else if s = [] then None
         else case duration_loop (length s) s 0 of
           None \<Rightarrow> None
         | Some d \<Rightarrow> if neg then Some (- int d) else if d > 2 ^ 63 - 1 then None else Some (int d))"

lemma leadingInt_rest: "leadingInt x s = Some (v, s1) \<Longrightarrow> length s1 \<le> length s"
  by (induction x s rule: leadingInt.induct) (fastforce simp: Let_def split: if_splits)+

lemma leadingFraction_rest: "leadingFraction ov x sc s = (f, sc', s1) \<Longrightarrow> length s1 \<le> length s"
  by (induction ov x sc s rule: leadingFraction.induct) (fastforce simp: Let_def split: if_splits)+

lemma duration_part_shrinks:
  assumes "duration_part s = Some (v, s1)"
  shows "length s1 < length s"
proof -
  obtain x t where t: "leadingInt 0 s = Some (x, t)" using assms by (auto simp: duration_part_def split: if_splits option.splits)
  define q where "q = (if t \<noteq> [] \<and> hd t = CHR ''.'' then leadingFraction False 0 1 (tl t) else (0, 1, t))"
  obtain f sc s2 where q: "q = (f, sc, s2)" by (cases q)
  have "length s2 \<le> length t" using q leadingFraction_rest [of False 0 1 "tl t" f sc s2] by (auto simp: q_def split: if_splits)
  moreover have "takeWhile (\<lambda>c. \<not> unit_end c) s2 \<noteq> [] \<and> s1 = dropWhile (\<lambda>c. \<not> unit_end c) s2"
    using assms q by (auto simp: duration_part_def t q_def [symmetric] Let_def split: if_splits option.splits)
  moreover have "length s2 = length (takeWhile (\<lambda>c. \<not> unit_end c) s2) + length (dropWhile (\<lambda>c. \<not> unit_end c) s2)"
    by (metis length_append takeWhile_dropWhile_id)
  ultimately show ?thesis using leadingInt_rest [OF t] by (cases "takeWhile (\<lambda>c. \<not> unit_end c) s2") auto
qed

text \<open>The fuel, the length of the text, is enough: more never changes the result.\<close>

lemma duration_loop_fuel: "length s \<le> n \<Longrightarrow> duration_loop (n + m) s d = duration_loop n s d"
proof (induction n arbitrary: s d)
  case (Suc n)
  then show ?case using duration_part_shrinks by (fastforce split: option.splits)
next
  case 0
  then show ?case by (cases m) simp_all
qed

lemma ParseDuration_examples:
  "ParseDuration ''30s'' = Some 30000000000 \<and> ParseDuration ''1h15m'' = Some 4500000000000 \<and> ParseDuration ''-1.5ms'' = Some (- 1500000) \<and>
   ParseDuration ''10'' = None \<and> ParseDuration ''0'' = Some 0"
  by (simp add: ParseDuration_def duration_part_def unit_end_def is_digit_def unitMap_def)

section \<open>Splitting\<close>

fun str_Split :: "char \<Rightarrow> string \<Rightarrow> string list" where
  "str_Split sep [] = [[]]"
| "str_Split sep (c # s) = (if c = sep then [] # str_Split sep s else (case str_Split sep s of p # ps \<Rightarrow> (c # p) # ps | [] \<Rightarrow> [[c]]))"

lemma str_Split_nonempty: "str_Split sep s \<noteq> []"
  by (induction s) (auto split: list.splits)

text \<open>\<open>strings.Fields\<close>: the text is cut at the encodings of white space and empty pieces are dropped.\<close>

function fields_loop :: "nat list \<Rightarrow> nat list \<Rightarrow> nat list list" where
  "fields_loop acc s = (case s of
       [] \<Rightarrow> if acc = [] then [] else [rev acc]
     | c # rest \<Rightarrow> (case find (\<lambda>e. e \<noteq> [] \<and> take (length e) s = e) space_encodings of
         None \<Rightarrow> fields_loop (c # acc) rest
       | Some e \<Rightarrow> (if acc = [] then [] else [rev acc]) @ fields_loop [] (drop (length e) s)))"
  by auto
termination
  by (relation "measure (\<lambda>(acc, s). length s)") (auto simp: find_Some_iff)

declare fields_loop.simps [simp del]

definition str_Fields :: "string \<Rightarrow> string list" where
  "str_Fields s = map (map char_of) (fields_loop [] (map of_char s))"

lemma str_Fields_example: "str_Fields '' read  write'' = [''read'', ''write'']"
  by (simp add: str_Fields_def fields_loop.simps space_encodings_def) code_simp

end
