(* ===== verification/ServerConfig.thy ===== *)
theory ServerConfig
  imports DistOptions HttpAuth GoParse
begin

text \<open>
  The start of the server, \<^verbatim>\<open>cmd/hypercache-server/main.go\<close> and \<^verbatim>\<open>oidc.go\<close>: configuration from the
  environment, the verifier of OpenID tokens, the policy that guards the client and management APIs, and
  the options of the node. The environment, the host name, discovery and verification of tokens by
  \<^verbatim>\<open>go-oidc\<close> are parameters. Log level and logger are left out.
\<close>

section \<open>Environment\<close>

definition envOr :: "(string \<Rightarrow> string) \<Rightarrow> string \<Rightarrow> string \<Rightarrow> string" where
  "envOr getenv key fallback = (if getenv key \<noteq> [] then getenv key else fallback)"

definition envInt :: "(string \<Rightarrow> string) \<Rightarrow> string \<Rightarrow> int \<Rightarrow> int" where
  "envInt getenv key fallback =
     (let v = getenv key in if v = [] then fallback else case Atoi v of None \<Rightarrow> fallback | Some n \<Rightarrow> n)"

definition envDuration :: "(string \<Rightarrow> string) \<Rightarrow> string \<Rightarrow> int \<Rightarrow> int" where
  "envDuration getenv key fallback =
     (let v = getenv key in if v = [] then fallback else case ParseDuration v of None \<Rightarrow> fallback | Some d \<Rightarrow> d)"

definition splitCSV :: "string \<Rightarrow> string list" where
  "splitCSV s = (if s = [] then [] else filter (\<lambda>t. t \<noteq> []) (map TrimSpace (str_Split (CHR '','') s)))"

definition hostnameOrDefault :: "string option \<Rightarrow> string" where
  "hostnameOrDefault h = (case h of None \<Rightarrow> ''node'' | Some n \<Rightarrow> if n = [] then ''node'' else n)"

record 'x envConfig =
  ec_NodeID :: string
  ec_APIAddr :: string
  ec_MgmtAddr :: string
  ec_DistAddr :: string
  ec_Seeds :: "string list"
  ec_Replication :: int
  ec_Capacity :: int
  ec_AuthPolicy :: "'x Policy"
  ec_APITLSCert :: string
  ec_APITLSKey :: string
  ec_APITLSCA :: string
  ec_HintTTL :: int
  ec_HintReplay :: int
  ec_Heartbeat :: int
  ec_IndirectK :: int
  ec_RebalanceInt :: int
  ec_GossipInt :: int
  ec_OIDCIssuer :: string
  ec_OIDCAudience :: string
  ec_OIDCIdentityClaim :: string
  ec_OIDCScopeClaim :: string

datatype configError = AuthPolicyError loadError | OIDCMissingAudience | OIDCMissingIssuer | OIDCDiscovery

definition validateOIDCConfig :: "'x envConfig \<Rightarrow> configError option" where
  "validateOIDCConfig cfg =
     (if ec_OIDCIssuer cfg \<noteq> [] \<and> ec_OIDCAudience cfg = [] then Some OIDCMissingAudience
      else if ec_OIDCAudience cfg \<noteq> [] \<and> ec_OIDCIssuer cfg = [] then Some OIDCMissingIssuer
      else None)"

definition loadConfig :: "Bcrypt \<Rightarrow> (string \<Rightarrow> loadError + fileSchema) \<Rightarrow> (string \<Rightarrow> string) \<Rightarrow> string option \<Rightarrow> configError + 'x envConfig" where
  "loadConfig bc files getenv hostname =
     (case LoadFromEnv bc files getenv of
        Inl e \<Rightarrow> Inl (AuthPolicyError e)
      | Inr policy \<Rightarrow>
          let cfg = \<lparr>ec_NodeID = envOr getenv ''HYPERCACHE_NODE_ID'' (hostnameOrDefault hostname),
                ec_APIAddr = envOr getenv ''HYPERCACHE_API_ADDR'' '':8080'',
                ec_MgmtAddr = envOr getenv ''HYPERCACHE_MGMT_ADDR'' '':8081'',
                ec_DistAddr = envOr getenv ''HYPERCACHE_DIST_ADDR'' '':7946'',
                ec_Seeds = splitCSV (getenv ''HYPERCACHE_SEEDS''),
                ec_Replication = envInt getenv ''HYPERCACHE_REPLICATION'' 3,
                ec_Capacity = envInt getenv ''HYPERCACHE_CAPACITY'' 100000,
                ec_AuthPolicy = policy,
                ec_APITLSCert = getenv ''HYPERCACHE_API_TLS_CERT'',
                ec_APITLSKey = getenv ''HYPERCACHE_API_TLS_KEY'',
                ec_APITLSCA = getenv ''HYPERCACHE_API_TLS_CLIENT_CA'',
                ec_HintTTL = envDuration getenv ''HYPERCACHE_HINT_TTL'' (30 * 1000000000),
                ec_HintReplay = envDuration getenv ''HYPERCACHE_HINT_REPLAY'' (200 * 1000000),
                ec_Heartbeat = envDuration getenv ''HYPERCACHE_HEARTBEAT'' 1000000000,
                ec_IndirectK = envInt getenv ''HYPERCACHE_INDIRECT_PROBE_K'' 2,
                ec_RebalanceInt = envDuration getenv ''HYPERCACHE_REBALANCE_INTERVAL'' (250 * 1000000),
                ec_GossipInt = envDuration getenv ''HYPERCACHE_GOSSIP_INTERVAL'' 1000000000,
                ec_OIDCIssuer = getenv ''HYPERCACHE_OIDC_ISSUER'',
                ec_OIDCAudience = getenv ''HYPERCACHE_OIDC_AUDIENCE'',
                ec_OIDCIdentityClaim = envOr getenv ''HYPERCACHE_OIDC_IDENTITY_CLAIM'' ''sub'',
                ec_OIDCScopeClaim = envOr getenv ''HYPERCACHE_OIDC_SCOPE_CLAIM'' ''scope''\<rparr>
          in case validateOIDCConfig cfg of Some e \<Rightarrow> Inl e | None \<Rightarrow> Inr cfg)"

section \<open>OpenID tokens\<close>

text \<open>A decoded claim: a string, an array or anything else.\<close>

datatype claim = ClaimString string | ClaimArray "claim list" | ClaimOther

definition bearerFromHeader :: "string \<Rightarrow> string option" where
  "bearerFromHeader header =
     (let prefix = ''Bearer '' in
      if take (length prefix) header \<noteq> prefix then None
      else let token = drop (length prefix) header in if token = [] then None else Some token)"

definition extractIdentityClaim :: "(string, claim) gomap \<Rightarrow> string \<Rightarrow> string option" where
  "extractIdentityClaim claims c = (case map_of claims c of
       Some (ClaimString i) \<Rightarrow> if i = [] then None else Some i
     | _ \<Rightarrow> None)"

definition extractScopeClaim :: "(string, claim) gomap \<Rightarrow> string \<Rightarrow> Scope list" where
  "extractScopeClaim claims c =
     (let tokens = (case map_of claims c of
          Some (ClaimString v) \<Rightarrow> str_Fields v
        | Some (ClaimArray vs) \<Rightarrow> concat (map (\<lambda>item. case item of ClaimString s \<Rightarrow> [s] | _ \<Rightarrow> []) vs)
        | _ \<Rightarrow> [])
      in filter (\<lambda>t. t = ScopeRead \<or> t = ScopeWrite \<or> t = ScopeAdmin) tokens)"

record oidcVerifierOptions =
  ov_IDTokenVerifier :: "string \<Rightarrow> (string, claim) gomap option"
  ov_IdentityClaim :: string
  ov_ScopeClaim :: string

definition verifyAndExtract :: "oidcVerifierOptions \<Rightarrow> string \<Rightarrow> Identity option" where
  "verifyAndExtract opts raw = (case ov_IDTokenVerifier opts raw of
       None \<Rightarrow> None
     | Some claims \<Rightarrow> (case extractIdentityClaim claims (ov_IdentityClaim opts) of
         None \<Rightarrow> None
       | Some i \<Rightarrow> Some \<lparr>id_ID = i, id_Scopes = extractScopeClaim claims (ov_ScopeClaim opts)\<rparr>))"

definition makeOIDCServerVerify :: "oidcVerifierOptions \<Rightarrow> 'x FiberCtx \<Rightarrow> Identity option" where
  "makeOIDCServerVerify opts c = (case bearerFromHeader (cx_Authorization c) of
       None \<Rightarrow> None
     | Some raw \<Rightarrow> verifyAndExtract opts raw)"

text \<open>\<open>discover issuer audience\<close> is the verifier that discovery gives, if it succeeds.\<close>

type_synonym discovery = "string \<Rightarrow> string \<Rightarrow> (string \<Rightarrow> (string, claim) gomap option) option"

definition buildOIDCVerifier :: "discovery \<Rightarrow> 'x envConfig \<Rightarrow> ('x FiberCtx \<Rightarrow> Identity option) option" where
  "buildOIDCVerifier discover cfg = (case discover (ec_OIDCIssuer cfg) (ec_OIDCAudience cfg) of
       None \<Rightarrow> None
     | Some v \<Rightarrow> Some (makeOIDCServerVerify \<lparr>ov_IDTokenVerifier = v, ov_IdentityClaim = ec_OIDCIdentityClaim cfg,
         ov_ScopeClaim = ec_OIDCScopeClaim cfg\<rparr>))"

definition attachOIDCVerifier :: "discovery \<Rightarrow> 'x envConfig \<Rightarrow> 'x envConfig option" where
  "attachOIDCVerifier discover cfg =
     (if ec_OIDCIssuer cfg = [] then Some cfg
      else case buildOIDCVerifier discover cfg of
        None \<Rightarrow> None
      | Some verifier \<Rightarrow> Some (cfg\<lparr>ec_AuthPolicy := (ec_AuthPolicy cfg)\<lparr>po_ServerVerify := Some verifier\<rparr>\<rparr>))"

section \<open>Start\<close>

text \<open>The first half of \<open>run\<close>: the configuration with which both APIs are built.\<close>

definition run_config :: "Bcrypt \<Rightarrow> (string \<Rightarrow> loadError + fileSchema) \<Rightarrow> (string \<Rightarrow> string) \<Rightarrow> string option \<Rightarrow> discovery \<Rightarrow> configError + 'x envConfig" where
  "run_config bc files getenv hostname discover =
     (case loadConfig bc files getenv hostname of
        Inl e \<Rightarrow> Inl e
      | Inr cfg \<Rightarrow>
          let cfg1 = (if \<not> IsConfigured (ec_AuthPolicy cfg) then cfg\<lparr>ec_AuthPolicy := (ec_AuthPolicy cfg)\<lparr>po_AllowAnonymous := True\<rparr>\<rparr> else cfg)
          in case attachOIDCVerifier discover cfg1 of None \<Rightarrow> Inl OIDCDiscovery | Some cfg2 \<Rightarrow> Inr cfg2)"

text \<open>
  The options that \<open>buildHyperCache\<close> gives to the node; a duration times a constant wraps, and dividing
  the heartbeat by two truncates towards zero.
\<close>

definition buildHyperCache_options :: "(string \<Rightarrow> string) \<Rightarrow> 'x envConfig \<Rightarrow> 'b DistMemoryOption list" where
  "buildHyperCache_options getenv cfg =
     (let peerToken = getenv EnvAuthToken in
      [WithDistNode (ec_NodeID cfg) (ec_DistAddr cfg),
       WithDistSeeds (ec_Seeds cfg),
       WithDistReplication (ec_Replication cfg),
       WithDistVirtualNodes 64,
       WithDistReadConsistency ConsistencyOne,
       WithDistWriteConsistency ConsistencyQuorum,
       WithDistHeartbeat (ec_Heartbeat cfg) (signed_take_bit 63 (3 * ec_Heartbeat cfg)) (signed_take_bit 63 (6 * ec_Heartbeat cfg)),
       WithDistIndirectProbes (ec_IndirectK cfg) (sgn (ec_Heartbeat cfg) * (\<bar>ec_Heartbeat cfg\<bar> div 2)),
       WithDistGossipInterval (ec_GossipInt cfg),
       WithDistHintTTL (ec_HintTTL cfg),
       WithDistHintReplayInterval (ec_HintReplay cfg),
       WithDistRebalanceInterval (ec_RebalanceInt cfg)] @
      (if peerToken \<noteq> [] then [WithDistHTTPAuth (no_auth\<lparr>da_Token := peerToken\<rparr>)] else []))"

section \<open>What the settings amount to\<close>

text \<open>
  C36. A server whose only authentication is OpenID is open to everyone.  With neither a policy file nor a
  token in the environment, the start allows anonymous callers before it attaches the token verifier, and
  leaves them allowed: a request without a token, or with one that the issuer does not accept, gets all
  three scopes on every route of the client and the management API.
\<close>

theorem OIDC_only_is_open:
  assumes "run_config bc files getenv hostname discover = Inr cfg" "getenv EnvAuthConfig = []" "getenv EnvAuthToken = []"
    and "\<forall>raw v. bearerFromHeader (cx_Authorization c) = Some raw \<longrightarrow>
           discover (getenv ''HYPERCACHE_OIDC_ISSUER'') (getenv ''HYPERCACHE_OIDC_AUDIENCE'') = Some v \<longrightarrow> v raw = None"
    and "required \<in> {''read'', ''write'', ''admin''}"
  shows "Verify bc (ec_AuthPolicy cfg) c required =
    Inr (c\<lparr>cx_identity := Some \<lparr>id_ID = ''anonymous'', id_Scopes = [''read'', ''write'', ''admin'']\<rparr>\<rparr>)"
proof -
  obtain cfg0 where l1: "loadConfig bc files getenv hostname = Inr (cfg0 :: 'a envConfig)"
    using assms(1) by (auto simp: run_config_def split: sum.splits)
  have "LoadFromEnv bc files getenv = (Inr zero_policy :: loadError + 'a Policy)" using assms(2,3) by (simp add: LoadFromEnv_def)
  then have l: "loadConfig bc files getenv hostname = Inr cfg0" "ec_AuthPolicy cfg0 = zero_policy"
    "ec_OIDCIssuer cfg0 = getenv ''HYPERCACHE_OIDC_ISSUER''" "ec_OIDCAudience cfg0 = getenv ''HYPERCACHE_OIDC_AUDIENCE''"
    using l1 by (auto simp: loadConfig_def Let_def split: option.splits)
  let ?p = "zero_policy\<lparr>po_AllowAnonymous := True\<rparr> :: 'a Policy"
  have "IsConfigured (zero_policy :: 'a Policy) = False" by (simp add: IsConfigured_def zero_policy_def)
  then have a: "attachOIDCVerifier discover (cfg0\<lparr>ec_AuthPolicy := ?p\<rparr>) = Some cfg"
    using assms(1) l(1,2) by (auto simp: run_config_def Let_def split: option.splits)
  have "ec_AuthPolicy cfg = ?p \<or> (\<exists>v o1. discover (getenv ''HYPERCACHE_OIDC_ISSUER'') (getenv ''HYPERCACHE_OIDC_AUDIENCE'') = Some v \<and>
      ov_IDTokenVerifier o1 = v \<and> ec_AuthPolicy cfg = ?p\<lparr>po_ServerVerify := Some (makeOIDCServerVerify o1)\<rparr>)"
  proof (cases "ec_OIDCIssuer cfg0 = []")
    case True
    then show ?thesis using a by (auto simp: attachOIDCVerifier_def)
  next
    case False
    let ?o = "\<lambda>v. \<lparr>ov_IDTokenVerifier = v, ov_IdentityClaim = ec_OIDCIdentityClaim cfg0, ov_ScopeClaim = ec_OIDCScopeClaim cfg0\<rparr>"
    from False a obtain v where "discover (ec_OIDCIssuer cfg0) (ec_OIDCAudience cfg0) = Some v"
      "ec_AuthPolicy cfg = ?p\<lparr>po_ServerVerify := Some (makeOIDCServerVerify (?o v))\<rparr>"
      by (auto simp: attachOIDCVerifier_def buildOIDCVerifier_def split: option.splits)
    then show ?thesis unfolding l(3,4) by (intro disjI2 exI [of _ v] exI [of _ "?o v"]) simp
  qed
  then have "resolve bc (ec_AuthPolicy cfg) c = Some anonymous"
  proof (elim disjE exE conjE)
    fix v o1
    assume v: "discover (getenv ''HYPERCACHE_OIDC_ISSUER'') (getenv ''HYPERCACHE_OIDC_AUDIENCE'') = Some v" "ov_IDTokenVerifier o1 = v"
      and p: "ec_AuthPolicy cfg = ?p\<lparr>po_ServerVerify := Some (makeOIDCServerVerify o1)\<rparr>"
    have "makeOIDCServerVerify o1 c = None"
      using assms(4) v by (auto simp: makeOIDCServerVerify_def verifyAndExtract_def split: option.split)
    then show ?thesis unfolding p by (simp add: resolve_def resolveBearer_def resolveBasic_def resolveCert_def zero_policy_def)
  qed (simp add: resolve_def resolveBearer_def resolveBasic_def resolveCert_def zero_policy_def)
  then show ?thesis using assms(5) by (auto simp: Verify_def anonymous_def HasScope_def scope_defs)
qed

definition oidc_only :: "string \<Rightarrow> string" where
  "oidc_only k = (if k = ''HYPERCACHE_OIDC_ISSUER'' then ''https://idp'' else if k = ''HYPERCACHE_OIDC_AUDIENCE'' then ''cache'' else [])"

theorem OIDC_only_is_open_witness:
  "\<exists>cfg. run_config toy_bcrypt (\<lambda>_. Inl OpenFailed) oidc_only None (\<lambda>_ _. Some (\<lambda>_. None)) = Inr cfg \<and>
     po_ServerVerify (ec_AuthPolicy cfg) \<noteq> None \<and>
     Verify toy_bcrypt (ec_AuthPolicy cfg) plain_request ''admin'' =
       Inr (plain_request\<lparr>cx_identity := Some \<lparr>id_ID = ''anonymous'', id_Scopes = [''read'', ''write'', ''admin'']\<rparr>\<rparr>)"
proof -
  have "run_config toy_bcrypt (\<lambda>_. Inl OpenFailed) oidc_only None (\<lambda>_ _. Some (\<lambda>_. None)) \<noteq> (Inl e :: configError + unit envConfig)" for e
    by (simp add: run_config_def loadConfig_def LoadFromEnv_def oidc_only_def EnvAuthConfig_def EnvAuthToken_def validateOIDCConfig_def
        attachOIDCVerifier_def buildOIDCVerifier_def IsConfigured_def zero_policy_def)
  then obtain cfg :: "unit envConfig" where
    cfg: "run_config toy_bcrypt (\<lambda>_. Inl OpenFailed) oidc_only None (\<lambda>_ _. Some (\<lambda>_. None)) = Inr cfg" by (meson sumE)
  then have "po_ServerVerify (ec_AuthPolicy cfg) \<noteq> None"
    by (auto simp: run_config_def loadConfig_def LoadFromEnv_def oidc_only_def EnvAuthConfig_def EnvAuthToken_def validateOIDCConfig_def
        attachOIDCVerifier_def buildOIDCVerifier_def IsConfigured_def zero_policy_def)
  moreover have "Verify toy_bcrypt (ec_AuthPolicy cfg) plain_request ''admin'' =
      Inr (plain_request\<lparr>cx_identity := Some \<lparr>id_ID = ''anonymous'', id_Scopes = [''read'', ''write'', ''admin'']\<rparr>\<rparr>)"
    by (rule OIDC_only_is_open [OF cfg]) (simp_all add: oidc_only_def EnvAuthConfig_def EnvAuthToken_def)
  ultimately show ?thesis using cfg by blast
qed

text \<open>The settings of a node that construction takes from the options.\<close>

definition node_settings :: "DistMemory \<Rightarrow> ConsistencyLevel \<times> ConsistencyLevel \<times> int \<times> int \<times> bool" where
  "node_settings dm = (readConsistency dm, writeConsistency dm, dm_capacity dm, hintTTL dm, draining dm)"

lemma construction_settings [simp]:
  "node_settings (startRepairQueueIfEnabled dm) = node_settings dm" "node_settings (startRebalancerIfEnabled dm) = node_settings dm"
  "node_settings (startAutoSyncIfEnabled dm) = node_settings dm" "node_settings (tryStartHTTP binds dm) = node_settings dm"
  "node_settings (su_dm (initMembershipIfNeeded xxh vsort now su)) = node_settings (su_dm su)"
  "node_settings (su_dm (on_dm ensureShardConfig su)) = node_settings (su_dm su)"
  "node_settings (dm\<lparr>localID := i, dm_membership := m\<rparr>) = node_settings dm"
  by (simp_all add: node_settings_def startRepairQueueIfEnabled_def startRebalancerIfEnabled_def startAutoSyncIfEnabled_def tryStartHTTP_def
      initMembershipIfNeeded_def initStandaloneMembership_def installEventBusObserver_def on_cfg_def on_dm_def ensureShardConfig_def Let_def
      split: option.split)


end
