(* ===== verification/ClientAPI.thy ===== *)
theory ClientAPI
  imports DistCache ServerConfig
begin

text \<open>
  The client REST API of the server, \<^verbatim>\<open>cmd/hypercache-server/main.go\<close>, on a cache over the distributed
  backend: routes with their scopes, single-key and batch handlers, key listing and introspection of the
  caller, and the accessors of \<^verbatim>\<open>hypercache_dist.go\<close> that they use. A path is the list of the segments
  that the router hands out. Responses keep their structure: JSON bodies are records, times are instants and the texts of
  errors are cut to their codes. The JSON library is a parameter.
\<close>

section \<open>Requests and responses\<close>

record api_request =
  rq_method :: string
  rq_path :: "string list"
  rq_query :: "(string, string) gomap"
  rq_Accept :: string
  rq_body :: string

definition api_Query :: "api_request FiberCtx \<Rightarrow> string \<Rightarrow> string" where
  "api_Query c k = (case map_of (rq_query (cx_rest c)) k of None \<Rightarrow> [] | Some v \<Rightarrow> v)"

record putResponse =
  pr_Key :: string
  pr_Stored :: bool
  pr_TTLMs :: int
  pr_Bytes :: nat
  pr_Node :: string
  pr_Owners :: "string list"

record deleteResponse =
  dr_Key :: string
  dr_Deleted :: bool
  dr_Node :: string
  dr_Owners :: "string list"

record ownersResponse =
  or_Key :: string
  or_Owners :: "string list"
  or_Node :: string

record listKeysResponse =
  lr_Keys :: "string list"
  lr_NextCursor :: string
  lr_TotalMatched :: nat
  lr_Truncated :: bool
  lr_Node :: string
  lr_PartialNodes :: "string list"

record itemEnvelope =
  ie_Key :: string
  ie_Value :: string
  ie_ValueEncoding :: string
  ie_TTLMs :: int
  ie_ExpiresAt :: "int option"
  ie_Version :: "64 word"
  ie_Origin :: string
  ie_LastUpdated :: "int option"
  ie_Node :: string
  ie_Owners :: "string list"

record batchGetResult =
  bg_Key :: string
  bg_Found :: bool
  bg_Value :: string
  bg_ValueEncoding :: string
  bg_TTLMs :: int
  bg_ExpiresAt :: "int option"
  bg_Version :: "64 word"
  bg_Origin :: string
  bg_LastUpdated :: "int option"
  bg_Owners :: "string list"

record batchPutItem =
  bp_Key :: string
  bp_Value :: string
  bp_ValueEncoding :: string
  bp_TTLMs :: int

text \<open>The error of a batch entry is kept as its code.\<close>

record batchPutResult =
  bo_Key :: string
  bo_Stored :: bool
  bo_Bytes :: nat
  bo_Owners :: "string list"
  bo_Code :: string

record batchDeleteResult =
  bd_Key :: string
  bd_Deleted :: bool
  bd_Owners :: "string list"
  bd_Code :: string

record meResponse =
  me_ID :: string
  me_Scopes :: "string list"
  me_Capabilities :: "string list"

record canResponse =
  ca_Capability :: string
  ca_Allowed :: bool

datatype header_value = HText string | HTime int

datatype api_body =
    NoBody
  | RawBody string
  | JSONBody string
  | ErrorBody string
  | PutBody putResponse
  | DeleteBody deleteResponse
  | OwnersBody ownersResponse
  | ListKeysBody listKeysResponse
  | EnvelopeBody itemEnvelope
  | BatchGetBody "batchGetResult list" string
  | BatchPutBody "batchPutResult list" string
  | BatchDeleteBody "batchDeleteResult list" string
  | MeBody meResponse
  | CanBody canResponse

record api_response =
  as_status :: nat
  as_headers :: "(string, header_value) gomap"
  as_body :: api_body

definition respond :: "nat \<Rightarrow> api_body \<Rightarrow> api_response" where
  "respond st b = \<lparr>as_status = st, as_headers = [], as_body = b\<rparr>"

definition jsonErr :: "nat \<Rightarrow> string \<Rightarrow> api_response" where
  "jsonErr st code = respond st (ErrorBody code)"

definition codeBadRequest :: string where "codeBadRequest = ''BAD_REQUEST''"
definition codeNotFound :: string where "codeNotFound = ''NOT_FOUND''"
definition codeDraining :: string where "codeDraining = ''DRAINING''"
definition codeInternal :: string where "codeInternal = ''INTERNAL''"

definition classifyErrCode :: "sentinel \<Rightarrow> string" where
  "classifyErrCode e = (if e = ErrDraining then codeDraining else if e = ErrNotOwner then codeInternal else codeInternal)"

definition classifyAndRespond :: "sentinel \<Rightarrow> api_response" where
  "classifyAndRespond e =
     (if e = ErrDraining then jsonErr 503 codeDraining
      else if e = ErrNotOwner then jsonErr 503 codeInternal
      else jsonErr 500 codeInternal)"

section \<open>The node behind the API\<close>

text \<open>
  What a request runs on: the cache's functions and backend at the time of the request, the hash, the
  node, the state of the request's context and the order in which peers answer a key listing.
\<close>

record nodeContext =
  nc_env :: "World Env"
  nc_xxh :: "string \<Rightarrow> 64 word"
  nc_self :: string
  nc_nodeID :: string
  nc_now :: int
  nc_ctx :: bool
  nc_order :: "string list"

text \<open>The JSON library: the three batch requests, raw messages, strings in them, and encoding; and the embedded API description.\<close>

record ApiEnv =
  ae_getRequest :: "string \<Rightarrow> string list option"
  ae_putRequest :: "string \<Rightarrow> batchPutItem list option"
  ae_deleteRequest :: "string \<Rightarrow> string list option"
  ae_rawMessage :: "gval \<Rightarrow> string option"
  ae_unquote :: "string \<Rightarrow> string option"
  ae_marshal :: "gval \<Rightarrow> string option"
  ae_openapiSpec :: string

type_synonym api_handler = "World HyperCache \<Rightarrow> api_request FiberCtx \<Rightarrow> (World HyperCache \<times> api_response) option"

definition ClusterOwners :: "nodeContext \<Rightarrow> World HyperCache \<Rightarrow> string \<Rightarrow> string list" where
  "ClusterOwners nc hc key = (case map_of (w_nodes (hc_backend hc)) (nc_self nc) of None \<Rightarrow> [] | Some dm \<Rightarrow> DebugOwners (nc_xxh nc) dm key)"

definition ClusterKeys :: "nodeContext \<Rightarrow> World HyperCache \<Rightarrow> string \<Rightarrow> int \<Rightarrow> (sentinel + ListKeysResult) option" where
  "ClusterKeys nc hc pattern maxResults =
     map_option (\<lambda>dm. ListKeys (hc_backend hc) dm pattern maxResults (nc_order nc)) (map_of (w_nodes (hc_backend hc)) (nc_self nc))"

definition DistDrain :: "nodeContext \<Rightarrow> World HyperCache \<Rightarrow> World HyperCache" where
  "DistDrain nc hc = (case map_of (w_nodes (hc_backend hc)) (nc_self nc) of
       None \<Rightarrow> hc
     | Some dm \<Rightarrow> hc\<lparr>hc_backend := put_node (hc_backend hc) (nc_self nc) (Drain dm)\<rparr>)"

section \<open>Values\<close>

definition bytes_text :: "8 word list \<Rightarrow> string" where
  "bytes_text bs = map (\<lambda>b. char_of (unat b)) bs"

definition text_to_bytes :: "string \<Rightarrow> 8 word list" where
  "text_to_bytes s = map of_char s"

definition decodeBase64Bytes :: "string \<Rightarrow> string option" where
  "decodeBase64Bytes s =
     (if length s < 4 \<or> length s mod 4 \<noteq> 0 then None
      else case DecodeString s of None \<Rightarrow> None | Some out \<Rightarrow> if out = [] then None else Some out)"

definition text_bytes :: "string \<Rightarrow> string" where
  "text_bytes x = (case decodeBase64Bytes x of Some decoded \<Rightarrow> decoded | None \<Rightarrow> x)"

definition itemValueAsBytes :: "ApiEnv \<Rightarrow> gval \<Rightarrow> string" where
  "itemValueAsBytes A v = (case v of
       GBytes x \<Rightarrow> bytes_text x
     | GString x \<Rightarrow> text_bytes x
     | _ \<Rightarrow> (case ae_rawMessage A v of
         Some x \<Rightarrow> (case ae_unquote A x of Some s \<Rightarrow> text_bytes s | None \<Rightarrow> x)
       | None \<Rightarrow> (case ae_marshal A v of None \<Rightarrow> [] | Some raw \<Rightarrow> raw)))"

definition writeRawJSON :: "ApiEnv \<Rightarrow> string \<Rightarrow> api_response" where
  "writeRawJSON A raw = respond 200 (case ae_unquote A raw of Some s \<Rightarrow> RawBody (text_bytes s) | None \<Rightarrow> JSONBody raw)"

definition writeValue :: "ApiEnv \<Rightarrow> gval \<Rightarrow> api_response" where
  "writeValue A v = (case v of
       GBytes x \<Rightarrow> respond 200 (RawBody (bytes_text x))
     | GString x \<Rightarrow> respond 200 (RawBody (text_bytes x))
     | _ \<Rightarrow> (case ae_rawMessage A v of
         Some raw \<Rightarrow> writeRawJSON A raw
       | None \<Rightarrow> (case ae_marshal A v of None \<Rightarrow> respond 500 NoBody | Some raw \<Rightarrow> respond 200 (JSONBody raw))))"

definition itemRemainingTTL :: "int \<Rightarrow> Item \<Rightarrow> int \<times> int option" where
  "itemRemainingTTL now it =
     (if Expiration it \<le> 0 then (0, None)
      else let expiry = LastAccess it + Expiration it in (max (dur_Milliseconds (time_Sub expiry now)) 0, Some expiry))"

definition nonzero_time :: "int \<Rightarrow> int option" where
  "nonzero_time t = (if t = 0 then None else Some t)"

definition buildEnvelope :: "ApiEnv \<Rightarrow> nodeContext \<Rightarrow> World HyperCache \<Rightarrow> string \<Rightarrow> Item \<Rightarrow> itemEnvelope" where
  "buildEnvelope A nc hc key it =
     (let bytes = itemValueAsBytes A (Val it); (ttlMs, expiresAt) = itemRemainingTTL (nc_now nc) it in
      \<lparr>ie_Key = key, ie_Value = EncodeToString bytes, ie_ValueEncoding = ''base64'', ie_TTLMs = ttlMs, ie_ExpiresAt = expiresAt,
       ie_Version = Version it, ie_Origin = Origin it, ie_LastUpdated = nonzero_time (LastUpdated it),
       ie_Node = nc_nodeID nc, ie_Owners = ClusterOwners nc hc key\<rparr>)"

definition str_Join :: "string list \<Rightarrow> string" where
  "str_Join ss = (case ss of [] \<Rightarrow> [] | s # rest \<Rightarrow> s @ concat (map (\<lambda>t. CHR '','' # t) rest))"

definition setItemHeaders :: "nodeContext \<Rightarrow> World HyperCache \<Rightarrow> string \<Rightarrow> Item \<Rightarrow> (string, header_value) gomap" where
  "setItemHeaders nc hc key it =
     (let (ttlMs, expiresAt) = itemRemainingTTL (nc_now nc) it; owners = ClusterOwners nc hc key in
      [(''X-Cache-Version'', HText (Itoa (uint (Version it))))] @
      (if Origin it \<noteq> [] then [(''X-Cache-Origin'', HText (Origin it))] else []) @
      (if LastUpdated it \<noteq> 0 then [(''X-Cache-Last-Updated'', HTime (LastUpdated it))] else []) @
      (if ttlMs > 0 then [(''X-Cache-TTL-Ms'', HText (Itoa ttlMs)), (''X-Cache-Expires-At'', case expiresAt of None \<Rightarrow> HText [] | Some t \<Rightarrow> HTime t)] else []) @
      (if owners \<noteq> [] then [(''X-Cache-Owners'', HText (str_Join owners))] else []) @
      [(''X-Cache-Node'', HText (nc_nodeID nc))])"

section \<open>Single keys\<close>

definition handlePut :: "nodeContext \<Rightarrow> string \<Rightarrow> api_handler" where
  "handlePut nc key hc c =
     (if key = [] then Some (hc, jsonErr 400 codeBadRequest)
      else let raw = api_Query c ''ttl'' in
        case (if raw = [] then Some 0 else ParseDuration raw) of
          None \<Rightarrow> Some (hc, jsonErr 400 codeBadRequest)
        | Some ttl \<Rightarrow> do {
            let value = text_to_bytes (rq_body (cx_rest c));
            (hc1, err) \<leftarrow> hc_Set (nc_env nc) (nc_ctx nc) (nc_now nc) hc key (GBytes value) ttl;
            Some (hc1, case err of
                Some e \<Rightarrow> classifyAndRespond e
              | None \<Rightarrow> respond 200 (PutBody \<lparr>pr_Key = key, pr_Stored = True, pr_TTLMs = dur_Milliseconds ttl, pr_Bytes = length value,
                  pr_Node = nc_nodeID nc, pr_Owners = ClusterOwners nc hc1 key\<rparr>))
          })"

fun str_Contains :: "string \<Rightarrow> string \<Rightarrow> bool" where
  "str_Contains [] sub = (sub = [])"
| "str_Contains (c # s) sub = (take (length sub) (c # s) = sub \<or> str_Contains s sub)"

definition wantsJSON :: "api_request FiberCtx \<Rightarrow> bool" where
  "wantsJSON c = (let accept = rq_Accept (cx_rest c) in if accept = [] then False else str_Contains accept ''application/json'')"

definition client_handleGet :: "ApiEnv \<Rightarrow> nodeContext \<Rightarrow> string \<Rightarrow> api_handler" where
  "client_handleGet A nc key hc c =
     (if key = [] then Some (hc, jsonErr 400 codeBadRequest)
      else do {
        (hc1, r) \<leftarrow> GetWithInfo (nc_env nc) (nc_now nc) hc key;
        Some (hc1, case r of
            None \<Rightarrow> jsonErr 404 codeNotFound
          | Some it \<Rightarrow> if wantsJSON c then respond 200 (EnvelopeBody (buildEnvelope A nc hc1 key it)) else writeValue A (Val it))
      })"

definition handleHead :: "nodeContext \<Rightarrow> string \<Rightarrow> api_handler" where
  "handleHead nc key hc c =
     (if key = [] then Some (hc, respond 400 NoBody)
      else do {
        (hc1, r) \<leftarrow> GetWithInfo (nc_env nc) (nc_now nc) hc key;
        Some (hc1, case r of
            None \<Rightarrow> respond 404 NoBody
          | Some it \<Rightarrow> \<lparr>as_status = 200, as_headers = setItemHeaders nc hc1 key it, as_body = NoBody\<rparr>)
      })"

definition handleDelete :: "nodeContext \<Rightarrow> string \<Rightarrow> api_handler" where
  "handleDelete nc key hc c =
     (if key = [] then Some (hc, jsonErr 400 codeBadRequest)
      else do {
        let owners = ClusterOwners nc hc key;
        (hc1, err) \<leftarrow> hc_Remove (nc_env nc) (nc_ctx nc) hc [key];
        Some (hc1, case err of
            Some e \<Rightarrow> classifyAndRespond e
          | None \<Rightarrow> respond 200 (DeleteBody \<lparr>dr_Key = key, dr_Deleted = True, dr_Node = nc_nodeID nc, dr_Owners = owners\<rparr>))
      })"

definition handleOwners :: "nodeContext \<Rightarrow> string \<Rightarrow> api_handler" where
  "handleOwners nc key hc c = Some (hc,
     if key = [] then jsonErr 400 codeBadRequest
     else respond 200 (OwnersBody \<lparr>or_Key = key, or_Owners = ClusterOwners nc hc key, or_Node = nc_nodeID nc\<rparr>))"

section \<open>Batches\<close>

definition missing_result :: "string \<Rightarrow> batchGetResult" where
  "missing_result key = \<lparr>bg_Key = key, bg_Found = False, bg_Value = [], bg_ValueEncoding = [], bg_TTLMs = 0, bg_ExpiresAt = None,
     bg_Version = 0, bg_Origin = [], bg_LastUpdated = None, bg_Owners = []\<rparr>"

definition batchGetResultFromItem :: "ApiEnv \<Rightarrow> nodeContext \<Rightarrow> World HyperCache \<Rightarrow> string \<Rightarrow> Item \<Rightarrow> batchGetResult" where
  "batchGetResultFromItem A nc hc key it =
     (let bytes = itemValueAsBytes A (Val it); (ttlMs, expiresAt) = itemRemainingTTL (nc_now nc) it in
      \<lparr>bg_Key = key, bg_Found = True, bg_Value = EncodeToString bytes, bg_ValueEncoding = ''base64'', bg_TTLMs = ttlMs, bg_ExpiresAt = expiresAt,
       bg_Version = Version it, bg_Origin = Origin it, bg_LastUpdated = nonzero_time (LastUpdated it), bg_Owners = ClusterOwners nc hc key\<rparr>)"

primrec batchGet_loop :: "ApiEnv \<Rightarrow> nodeContext \<Rightarrow> World HyperCache \<Rightarrow> string list \<Rightarrow> (World HyperCache \<times> batchGetResult list) option" where
  "batchGet_loop A nc hc [] = Some (hc, [])"
| "batchGet_loop A nc hc (key # keys) = do {
     (hc1, r) \<leftarrow> (if key = [] then Some (hc, None) else GetWithInfo (nc_env nc) (nc_now nc) hc key);
     let res = (case r of None \<Rightarrow> missing_result key | Some it \<Rightarrow> batchGetResultFromItem A nc hc1 key it);
     (hc2, results) \<leftarrow> batchGet_loop A nc hc1 keys;
     Some (hc2, res # results)
   }"

definition handleBatchGet :: "ApiEnv \<Rightarrow> nodeContext \<Rightarrow> api_handler" where
  "handleBatchGet A nc hc c = (case ae_getRequest A (rq_body (cx_rest c)) of
       None \<Rightarrow> Some (hc, jsonErr 400 codeBadRequest)
     | Some keys \<Rightarrow> map_option (\<lambda>(hc1, results). (hc1, respond 200 (BatchGetBody results (nc_nodeID nc)))) (batchGet_loop A nc hc keys))"

definition decodeBatchPutValue :: "batchPutItem \<Rightarrow> string option" where
  "decodeBatchPutValue item = (if bp_ValueEncoding item \<noteq> ''base64'' then Some (bp_Value item) else DecodeString (bp_Value item))"

definition put_failed :: "string \<Rightarrow> string \<Rightarrow> batchPutResult" where
  "put_failed key code = \<lparr>bo_Key = key, bo_Stored = False, bo_Bytes = 0, bo_Owners = [], bo_Code = code\<rparr>"

definition applyBatchPutItem :: "nodeContext \<Rightarrow> World HyperCache \<Rightarrow> batchPutItem \<Rightarrow> (World HyperCache \<times> batchPutResult) option" where
  "applyBatchPutItem nc hc item =
     (if bp_Key item = [] then Some (hc, put_failed (bp_Key item) codeBadRequest)
      else case decodeBatchPutValue item of
        None \<Rightarrow> Some (hc, put_failed (bp_Key item) codeBadRequest)
      | Some value \<Rightarrow> do {
          (hc1, err) \<leftarrow> hc_Set (nc_env nc) (nc_ctx nc) (nc_now nc) hc (bp_Key item) (GBytes (text_to_bytes value)) (from_Milliseconds (bp_TTLMs item));
          Some (hc1, case err of
              Some e \<Rightarrow> put_failed (bp_Key item) (classifyErrCode e)
            | None \<Rightarrow> \<lparr>bo_Key = bp_Key item, bo_Stored = True, bo_Bytes = length value, bo_Owners = ClusterOwners nc hc1 (bp_Key item), bo_Code = []\<rparr>)
        })"

primrec batchPut_loop :: "nodeContext \<Rightarrow> World HyperCache \<Rightarrow> batchPutItem list \<Rightarrow> (World HyperCache \<times> batchPutResult list) option" where
  "batchPut_loop nc hc [] = Some (hc, [])"
| "batchPut_loop nc hc (item # items) = do {
     (hc1, res) \<leftarrow> applyBatchPutItem nc hc item;
     (hc2, results) \<leftarrow> batchPut_loop nc hc1 items;
     Some (hc2, res # results)
   }"

definition handleBatchPut :: "ApiEnv \<Rightarrow> nodeContext \<Rightarrow> api_handler" where
  "handleBatchPut A nc hc c = (case ae_putRequest A (rq_body (cx_rest c)) of
       None \<Rightarrow> Some (hc, jsonErr 400 codeBadRequest)
     | Some items \<Rightarrow> map_option (\<lambda>(hc1, results). (hc1, respond 200 (BatchPutBody results (nc_nodeID nc)))) (batchPut_loop nc hc items))"

primrec batchDelete_loop :: "nodeContext \<Rightarrow> World HyperCache \<Rightarrow> string list \<Rightarrow> (World HyperCache \<times> batchDeleteResult list) option" where
  "batchDelete_loop nc hc [] = Some (hc, [])"
| "batchDelete_loop nc hc (key # keys) = do {
     let owners = (if key = [] then [] else ClusterOwners nc hc key);
     (hc1, code) \<leftarrow> (if key = [] then Some (hc, Some codeBadRequest)
                     else map_option (\<lambda>(h, err). (h, map_option classifyErrCode err)) (hc_Remove (nc_env nc) (nc_ctx nc) hc [key]));
     let res = (case code of
         Some e \<Rightarrow> \<lparr>bd_Key = key, bd_Deleted = False, bd_Owners = owners, bd_Code = e\<rparr>
       | None \<Rightarrow> \<lparr>bd_Key = key, bd_Deleted = True, bd_Owners = owners, bd_Code = []\<rparr>);
     (hc2, results) \<leftarrow> batchDelete_loop nc hc1 keys;
     Some (hc2, res # results)
   }"

definition handleBatchDelete :: "ApiEnv \<Rightarrow> nodeContext \<Rightarrow> api_handler" where
  "handleBatchDelete A nc hc c = (case ae_deleteRequest A (rq_body (cx_rest c)) of
       None \<Rightarrow> Some (hc, jsonErr 400 codeBadRequest)
     | Some keys \<Rightarrow> map_option (\<lambda>(hc1, results). (hc1, respond 200 (BatchDeleteBody results (nc_nodeID nc)))) (batchDelete_loop nc hc keys))"

section \<open>Key listing and introspection\<close>

record listKeysParams =
  lp_Pattern :: string
  lp_Cursor :: int
  lp_Limit :: int
  lp_MaxResults :: int

definition parseBoundedPositiveInt :: "api_request FiberCtx \<Rightarrow> string \<Rightarrow> int \<Rightarrow> int \<Rightarrow> int option" where
  "parseBoundedPositiveInt c name def hardMax =
     (let v = api_Query c name in
      if v = [] then Some def
      else case Atoi v of None \<Rightarrow> None | Some n \<Rightarrow> if n \<le> 0 then None else Some (if n > hardMax then hardMax else n))"

definition parseListKeysQuery :: "api_request FiberCtx \<Rightarrow> listKeysParams option" where
  "parseListKeysQuery c = do {
     cursor \<leftarrow> query_nat (api_Query c ''cursor'');
     limit \<leftarrow> parseBoundedPositiveInt c ''limit'' 100 500;
     maxResults \<leftarrow> parseBoundedPositiveInt c ''max'' 10000 50000;
     Some \<lparr>lp_Pattern = api_Query c ''q'', lp_Cursor = cursor, lp_Limit = limit, lp_MaxResults = maxResults\<rparr>
   }"

definition handleListKeys :: "nodeContext \<Rightarrow> api_handler" where
  "handleListKeys nc hc c = Some (hc, case parseListKeysQuery c of
       None \<Rightarrow> jsonErr 400 codeBadRequest
     | Some params \<Rightarrow> (case ClusterKeys nc hc (lp_Pattern params) (lp_MaxResults params) of
         None \<Rightarrow> jsonErr 501 codeInternal
       | Some (Inl e) \<Rightarrow> jsonErr 400 codeBadRequest
       | Some (Inr res) \<Rightarrow>
           let total = int (length (lk_Keys res)); start = min (lp_Cursor params) total; stop = min (start + lp_Limit params) total;
               page = take (nat (stop - start)) (drop (nat start) (lk_Keys res))
           in respond 200 (ListKeysBody \<lparr>lr_Keys = page, lr_NextCursor = if stop < total then Itoa stop else [],
                lr_TotalMatched = length (lk_Keys res), lr_Truncated = lk_Truncated res, lr_Node = nc_nodeID nc,
                lr_PartialNodes = lk_PartialNodes res\<rparr>)))"

definition handleMe :: api_handler where
  "handleMe hc c = Some (hc, case cx_identity c of
       None \<Rightarrow> jsonErr 500 codeInternal
     | Some identity \<Rightarrow> respond 200 (MeBody \<lparr>me_ID = id_ID identity, me_Scopes = id_Scopes identity, me_Capabilities = Capabilities identity\<rparr>))"

definition isKnownCapability :: "string \<Rightarrow> bool" where
  "isKnownCapability s \<longleftrightarrow> s \<in> set [''cache.read'', ''cache.write'', ''cache.admin'']"

definition handleCan :: api_handler where
  "handleCan hc c = Some (hc,
     let capability = api_Query c ''capability'' in
     if capability = [] then jsonErr 400 codeBadRequest
     else if \<not> isKnownCapability capability then jsonErr 400 codeBadRequest
     else case cx_identity c of
       None \<Rightarrow> jsonErr 500 codeInternal
     | Some identity \<Rightarrow> respond 200 (CanBody \<lparr>ca_Capability = capability, ca_Allowed = HasCapability identity capability\<rparr>))"

section \<open>Routes\<close>

datatype route_kind = Public api_response | Guarded Scope api_handler

text \<open>The routes in the order of registration, matched by method and segments.\<close>

definition registerClientRoutes :: "ApiEnv \<Rightarrow> nodeContext \<Rightarrow> string \<Rightarrow> string list \<Rightarrow> route_kind option" where
  "registerClientRoutes A nc meth path =
     (if meth = ''GET'' \<and> path = [''healthz''] then Some (Public (respond 200 (RawBody ''ok'')))
      else if meth = ''GET'' \<and> path = [''v1'', ''openapi.yaml''] then Some (Public (respond 200 (RawBody (ae_openapiSpec A))))
      else if meth = ''GET'' \<and> path = [''v1'', ''cache'', ''keys''] then Some (Guarded ScopeRead (handleListKeys nc))
      else if meth = ''PUT'' \<and> length path = 3 \<and> take 2 path = [''v1'', ''cache''] then Some (Guarded ScopeWrite (handlePut nc (path ! 2)))
      else if meth = ''GET'' \<and> length path = 3 \<and> take 2 path = [''v1'', ''cache''] then Some (Guarded ScopeRead (client_handleGet A nc (path ! 2)))
      else if meth = ''HEAD'' \<and> length path = 3 \<and> take 2 path = [''v1'', ''cache''] then Some (Guarded ScopeRead (handleHead nc (path ! 2)))
      else if meth = ''DELETE'' \<and> length path = 3 \<and> take 2 path = [''v1'', ''cache''] then Some (Guarded ScopeWrite (handleDelete nc (path ! 2)))
      else if meth = ''GET'' \<and> length path = 3 \<and> take 2 path = [''v1'', ''owners''] then Some (Guarded ScopeRead (handleOwners nc (path ! 2)))
      else if meth = ''GET'' \<and> path = [''v1'', ''me''] then Some (Guarded ScopeRead handleMe)
      else if meth = ''GET'' \<and> path = [''v1'', ''me'', ''can''] then Some (Guarded ScopeRead handleCan)
      else if meth = ''POST'' \<and> path = [''v1'', ''cache'', ''batch'', ''get''] then Some (Guarded ScopeRead (handleBatchGet A nc))
      else if meth = ''POST'' \<and> path = [''v1'', ''cache'', ''batch'', ''put''] then Some (Guarded ScopeWrite (handleBatchPut A nc))
      else if meth = ''POST'' \<and> path = [''v1'', ''cache'', ''batch'', ''delete''] then Some (Guarded ScopeWrite (handleBatchDelete A nc))
      else None)"

text \<open>A request through the router: the policy's middleware runs before a guarded handler.\<close>

definition serve_client :: "Bcrypt \<Rightarrow> api_request Policy \<Rightarrow> ApiEnv \<Rightarrow> nodeContext \<Rightarrow> api_handler" where
  "serve_client bc policy A nc hc c = (case registerClientRoutes A nc (rq_method (cx_rest c)) (rq_path (cx_rest c)) of
       None \<Rightarrow> Some (hc, respond 404 NoBody)
     | Some (Public r) \<Rightarrow> Some (hc, r)
     | Some (Guarded scope handler) \<Rightarrow> (case Middleware bc policy scope (\<lambda>c'. Inr (handler hc c')) c of
         Inl st \<Rightarrow> Some (hc, respond st NoBody)
       | Inr res \<Rightarrow> res))"


section \<open>Values come back as they were put\<close>

lemma bytes_text_inverse [simp]: "bytes_text (text_to_bytes s) = s"
proof -
  have "char_of (unat (of_char c :: 8 word)) = c" for c :: char
  proof -
    have "(of_char c :: nat) < 256" by simp
    then have "unat (of_nat (of_char c) :: 8 word) = (of_char c :: nat)" by (simp only: unat_of_nat) simp
    then have "unat (of_char c :: 8 word) = (of_char c :: nat)" by (simp only: of_nat_of_char)
    then show ?thesis by simp
  qed
  then show ?thesis by (simp add: bytes_text_def text_to_bytes_def comp_def)
qed

lemma b64_triples_length: "length (b64_triples bs) mod 4 = 0 \<and> (bs \<noteq> [] \<longrightarrow> 4 \<le> length (b64_triples bs))"
  by (induction bs rule: b64_triples.induct) auto

lemma text_bytes_Encode [simp]: "text_bytes (EncodeToString s) = s"
proof (cases "s = []")
  case True
  then show ?thesis by (simp add: text_bytes_def decodeBase64Bytes_def EncodeToString_def)
next
  case False
  have "decodeBase64Bytes (EncodeToString s) = Some s"
    using b64_triples_length [of "map of_char s"] False DecodeString_EncodeToString [of s]
    by (simp add: decodeBase64Bytes_def EncodeToString_def)
  then show ?thesis by (simp add: text_bytes_def)
qed

text \<open>
  C40. A value written through the client API reads back byte for byte in every shape in which a node may
  hold it: the bytes of the writer, the base64 string that a replica decodes from its JSON, and the raw
  JSON that a non-owner gets from its peer.  The raw response and the base64 of the envelope both carry it.
\<close>

theorem value_bytes_round_trip:
  assumes "v = GBytes (text_to_bytes body) \<or> v = GString (EncodeToString body) \<or>
      (\<exists>n raw. v = GOther n \<and> ae_rawMessage A v = Some raw \<and> ae_unquote A raw = Some (EncodeToString body))"
    and "Val it = v"
  shows "writeValue A v = respond 200 (RawBody body) \<and>
    DecodeString (ie_Value (buildEnvelope A nc hc key it)) = Some body \<and>
    decodeBatchPutValue \<lparr>bp_Key = key, bp_Value = bg_Value (batchGetResultFromItem A nc hc key it),
      bp_ValueEncoding = bg_ValueEncoding (batchGetResultFromItem A nc hc key it), bp_TTLMs = ttl\<rparr> = Some body"
proof -
  have "writeValue A v = respond 200 (RawBody body)" using assms(1) by (auto simp: writeValue_def writeRawJSON_def)
  moreover have "itemValueAsBytes A v = body" using assms(1) by (auto simp: itemValueAsBytes_def)
  ultimately show ?thesis
    using assms(2)
    by (simp add: buildEnvelope_def batchGetResultFromItem_def decodeBatchPutValue_def DecodeString_EncodeToString Let_def split: prod.split)
qed


section \<open>A put and the read that follows\<close>

lemma queueHint_readConsistency [simp]: "readConsistency (queueHint jl now dm nid item src) = readConsistency dm"
  by (simp add: queueHint_def adjustHintAccounting_def Let_def)

lemma replicateTo_loop_self:
  assumes "map_of (w_nodes w) self = Some d"
  shows "\<exists>d'. map_of (w_nodes (fst (replicateTo_loop xxh jl now self item oids w n))) self = Some d' \<and> readConsistency d' = readConsistency d"
  using assms
proof (induction oids arbitrary: w d n)
  case (Cons oid oids)
  obtain w1 e where f: "ForwardSet xxh w oid item False = (w1, e)" by fastforce
  show ?case
  proof (cases "oid = self")
    case True
    then show ?thesis using Cons by simp
  next
    case False
    then have "map_of (w_nodes w1) self = Some d"
      using f Cons.prems by (auto simp: ForwardSet_def applyForwardedSet_def applySet_def Let_def split: option.splits if_splits)
    with Cons.IH [of w1 d "n + 1"] Cons.IH [of "put_node w1 self (queueHint jl now d oid item hintSourceReplication)" _ n] False f
    show ?thesis by (cases e) simp_all
  qed
qed simp

lemma set_as_primary_self:
  assumes "map_of (w_nodes w) self = Some dm" "set_as_primary xxh jl now w self dm owners promoted item = (w', e)"
  shows "\<exists>d'. map_of (w_nodes w') self = Some d' \<and> readConsistency d' = readConsistency dm"
proof -
  let ?v = "versionCounter dm + 1"
  let ?it = "item\<lparr>Version := ?v, Origin := self, LastUpdated := now\<rparr>"
  let ?w2 = "applySet xxh (put_node w self (dm\<lparr>versionCounter := ?v\<rparr>)) self ?it False"
  have "map_of (w_nodes ?w2) self = Some (applySet_local xxh (dm\<lparr>versionCounter := ?v\<rparr>) ?it)" by (simp add: applySet_def)
  moreover have "readConsistency (applySet_local xxh (dm\<lparr>versionCounter := ?v\<rparr>) ?it) = readConsistency dm"
    by (simp add: applySet_local_def put_shard_def Let_def)
  moreover obtain w3 n where rep: "replicateTo xxh jl now ?w2 self (dm_transport dm) ?it (if promoted then owners else tl owners) = (w3, n)"
    by fastforce
  then have "w3 = ?w2 \<or> w3 = fst (replicateTo_loop xxh jl now self ?it (if promoted then owners else tl owners) ?w2 0)"
    by (cases "dm_transport dm") (simp_all add: replicateTo_def)
  ultimately have "\<exists>d'. map_of (w_nodes w3) self = Some d' \<and> readConsistency d' = readConsistency dm"
    using replicateTo_loop_self [of ?w2 self "applySet_local xxh (dm\<lparr>versionCounter := ?v\<rparr>) ?it" xxh jl now ?it
        "if promoted then owners else tl owners" 0] by (elim disjE) simp_all
  moreover have "w' = w3" using assms(2) rep by (simp add: set_as_primary_def Let_def)
  ultimately show ?thesis by simp
qed

lemma set_at_primary_readable:
  assumes "ready xxh r w self dm" "Ring_Lookup xxh r (Key item) \<noteq> []" "hd (Ring_Lookup xxh r (Key item)) = self"
    and "setImpl xxh jl now w self item = (w', e)"
  shows "getImpl xxh w' self (Key item) arrival = (w', Some (stamped dm now self item))"
proof -
  have w: "world_ok w r" "map_of (w_nodes w) self = Some dm" "\<not> draining dm" "readConsistency dm = ConsistencyOne"
    using assms(1) by (auto simp: ready_def)
  let ?o = "Ring_Lookup xxh r (Key item)"
  have "lookupOwners xxh dm (Key item) = ?o" using w by (auto simp: world_ok_def lookupOwners_def)
  then have set: "set_as_primary xxh jl now w self dm ?o False item = (w', e)" using assms(2-4) w by (simp add: setImpl_def Let_def)
  have "self \<in> set ?o" using assms(2,3) by (metis hd_in_set)
  from set_as_primary_acks [OF w(1,2) refl this set] have "node_get w' self (Key item) = Some (stamped dm now self item)" by blast
  moreover obtain d' where "map_of (w_nodes w') self = Some d'" "readConsistency d' = ConsistencyOne"
    using set_as_primary_self [OF w(2) set] w(4) by auto
  ultimately show ?thesis by (simp add: getImpl_def node_get_def Let_def)
qed


lemma buildEnvelope_fields:
  "ie_Value (buildEnvelope A nc hc key it) = EncodeToString (itemValueAsBytes A (Val it))"
  "ie_Version (buildEnvelope A nc hc key it) = Version it" "ie_Origin (buildEnvelope A nc hc key it) = Origin it"
  by (simp_all add: buildEnvelope_def Let_def split: prod.split)

definition put_item :: "int \<Rightarrow> string \<Rightarrow> 8 word list \<Rightarrow> int \<Rightarrow> Item" where
  "put_item now key v ttl = (newItem now key (GBytes v) ttl)\<lparr>Size := int (length v)\<rparr>"

lemma dist_hc_Set:
  assumes "env_backend E = DistMemory_backend xxh jl now self arrival" "hc_Set E ctx now hc key (GBytes v) ttl = Some (hc1, None)" "\<not> shouldEvict hc"
  shows "setImpl xxh jl now (hc_backend hc) self (put_item now key v ttl) = (hc_backend hc1, None)"
proof -
  let ?it = "put_item now key v ttl" and ?hc = "addMemory (int (length v)) hc"
  have sz: "setItemSize E (newItem now key (GBytes v) ttl) = Inr ?it"
    using assms(1) by (simp add: setItemSize_def DistMemory_backend_def Item_SetSize_def newItem_def put_item_def)
  obtain w1 e where s: "DistMemory_Set xxh jl now (hc_backend hc) self ?it = (w1, e)" by fastforce
  have ins: "insertItem E ctx hc key ?it = Some (hc1, None)" using assms(2) sz by (simp add: hc_Set_def)
  have "\<not> (maxCacheSize ?hc > 0 \<and> Allocation ?hc > maxCacheSize ?hc)"
    using ins by (auto simp: insertItem_def put_item_def newItem_def Let_def)
  moreover have "bk_Set (env_backend E) (hc_backend ?hc) ?it = Some (w1, fst (Item_Valid ?it), e)"
    using s assms(1) by (simp add: DistMemory_backend_def addMemory_def)
  ultimately have e: "e = None \<and> hc_backend hc1 = w1"
    using ins assms(3) by (cases e) (auto simp: insertItem_def put_item_def addMemory_def Let_def bind_eq_Some_conv)
  with s show ?thesis by (simp add: DistMemory_Set_def Item_Valid_def split: if_splits)
qed

lemma dist_GetWithInfo:
  assumes "env_backend E = DistMemory_backend xxh jl t self arrival" "getImpl xxh (hc_backend hc) self key (arrival key) = (hc_backend hc, Some it)"
    and "\<not> Item_Expired now it"
  shows "\<exists>hc'. GetWithInfo E now hc key = Some (hc', Some (Item_Touch now it))"
  using assms
  by (auto simp: GetWithInfo_def DistMemory_backend_def touchItem_def split: option.splits prod.splits)

lemma handlePut_acked:
  assumes "(if api_Query c ''ttl'' = [] then Some 0 else ParseDuration (api_Query c ''ttl'')) = Some ttl"
    and "handlePut nc key hc c = Some (hc1, resp)" "as_status resp = 200"
  shows "key \<noteq> [] \<and> hc_Set (nc_env nc) (nc_ctx nc) (nc_now nc) hc key (GBytes (text_to_bytes (rq_body (cx_rest c)))) ttl = Some (hc1, None)"
proof -
  let ?r = "hc_Set (nc_env nc) (nc_ctx nc) (nc_now nc) hc key (GBytes (text_to_bytes (rq_body (cx_rest c)))) ttl"
  have key: "key \<noteq> []" using assms(2,3) by (auto simp: handlePut_def jsonErr_def respond_def)
  then obtain err where r: "?r = Some (hc1, err)" "\<forall>e. err = Some e \<longrightarrow> resp = classifyAndRespond e"
    using assms(1,2) by (cases ?r) (auto simp: handlePut_def Let_def)
  have "as_status (classifyAndRespond e) \<noteq> 200" for e by (simp add: classifyAndRespond_def jsonErr_def respond_def)
  with r(2) assms(3) have "err = None" by (cases err) auto
  with key r(1) show ?thesis by simp
qed

text \<open>
  C39. A put that a primary acknowledges is what the next read of the key on that node returns, at read
  level ONE and until its time to live has passed since the write: the body as raw bytes, or in the
  envelope with the version and origin that the node stamped on it.
\<close>

theorem PUT_then_GET:
  assumes "env_backend (nc_env nc) = DistMemory_backend xxh jl (nc_now nc) self arrival"
    and "ready xxh r (hc_backend hc) self dm" "Ring_Lookup xxh r key \<noteq> []" "hd (Ring_Lookup xxh r key) = self" "\<not> shouldEvict hc"
    and "(if api_Query c ''ttl'' = [] then Some 0 else ParseDuration (api_Query c ''ttl'')) = Some ttl"
    and "handlePut nc key hc c = Some (hc1, resp)" "as_status resp = 200"
    and "env_backend (nc_env nc') = DistMemory_backend xxh jl' (nc_now nc') self arrival'" "ttl > 0 \<longrightarrow> time_Sub (nc_now nc') (nc_now nc) \<le> ttl"
  shows "\<exists>hc2 b. client_handleGet A nc' key hc1 c' = Some (hc2, respond 200 b) \<and>
    (if wantsJSON c'
     then \<exists>env. b = EnvelopeBody env \<and> DecodeString (ie_Value env) = Some (rq_body (cx_rest c)) \<and>
       ie_Version env = versionCounter dm + 1 \<and> ie_Origin env = self
     else b = RawBody (rq_body (cx_rest c)))"
proof -
  let ?v = "text_to_bytes (rq_body (cx_rest c))"
  let ?it = "put_item (nc_now nc) key ?v ttl"
  let ?st = "stamped dm (nc_now nc) self ?it"
  note acked = handlePut_acked [OF assms(6-8)]
  then have key: "key \<noteq> []" and set: "setImpl xxh jl (nc_now nc) (hc_backend hc) self ?it = (hc_backend hc1, None)"
    using dist_hc_Set [OF assms(1) conjunct2 [OF acked] assms(5)] by simp_all
  have k: "Key ?it = key" by (simp add: put_item_def newItem_def)
  have get: "getImpl xxh (hc_backend hc1) self key (arrival' key) = (hc_backend hc1, Some ?st)"
    using set_at_primary_readable [OF assms(2) _ _ set, of "arrival' key"] assms(3,4) k by simp
  have "\<not> Item_Expired (nc_now nc') ?st" using assms(10) by (auto simp: Item_Expired_def stamped_def put_item_def newItem_def)
  from dist_GetWithInfo [OF assms(9) get this] obtain hc2 where
    g: "GetWithInfo (nc_env nc') (nc_now nc') hc1 key = Some (hc2, Some (Item_Touch (nc_now nc') ?st))" by blast
  have val: "Val (Item_Touch (nc_now nc') ?st) = GBytes ?v" "Version (Item_Touch (nc_now nc') ?st) = versionCounter dm + 1"
      "Origin (Item_Touch (nc_now nc') ?st) = self"
    by (simp_all add: Item_Touch_def stamped_def put_item_def newItem_def)
  let ?b = "if wantsJSON c' then EnvelopeBody (buildEnvelope A nc' hc2 key (Item_Touch (nc_now nc') ?st)) else RawBody (rq_body (cx_rest c))"
  have "client_handleGet A nc' key hc1 c' = Some (hc2, respond 200 ?b)" using g key val(1) by (simp add: client_handleGet_def writeValue_def)
  then show ?thesis using val by (auto simp: buildEnvelope_fields itemValueAsBytes_def DecodeString_EncodeToString)
qed

section \<open>Access to the routes\<close>

text \<open>The scope that a request needs, by what it may do to the cache.\<close>

definition needed_scope :: "api_request \<Rightarrow> Scope" where
  "needed_scope rq =
     (if rq_method rq \<in> {''PUT'', ''DELETE''} \<or> rq_method rq = ''POST'' \<and> last (rq_path rq) \<in> {''put'', ''delete''}
      then ''write'' else ''read'')"

lemma registerClientRoutes_scope:
  assumes "registerClientRoutes A nc meth path = Some (Guarded scope h)" "rq_method rq = meth" "rq_path rq = path"
  shows "scope = needed_scope rq"
  using assms by (auto simp: registerClientRoutes_def needed_scope_def ScopeRead_def ScopeWrite_def split: if_splits)

lemma registerClientRoutes_public:
  assumes "registerClientRoutes A nc meth path = Some (Public resp)"
  shows "meth = ''GET'' \<and> path \<in> {[''healthz''], [''v1'', ''openapi.yaml'']}"
  using assms by (auto simp: registerClientRoutes_def split: if_splits)



section \<open>Witnesses\<close>

text \<open>A JSON library for one raw message, and node \<open>a\<close> of the cluster of three behind the API.\<close>

definition toy_api :: ApiEnv where
  "toy_api = \<lparr>ae_getRequest = (\<lambda>_. None), ae_putRequest = (\<lambda>_. None), ae_deleteRequest = (\<lambda>_. None),
     ae_rawMessage = (\<lambda>v. if v = GOther 7 then Some ''#aGV5'' else None), ae_unquote = (\<lambda>s. if s = [] then None else Some (tl s)),
     ae_marshal = (\<lambda>_. None), ae_openapiSpec = []\<rparr>"

definition trio_node :: "int \<Rightarrow> nodeContext" where
  "trio_node now = \<lparr>nc_env = trio_env now, nc_xxh = flat_hash, nc_self = ''a'', nc_nodeID = ''a'', nc_now = now, nc_ctx = False, nc_order = []\<rparr>"

definition api_call :: "string \<Rightarrow> string list \<Rightarrow> string \<Rightarrow> string \<Rightarrow> api_request FiberCtx" where
  "api_call meth path auth body = \<lparr>cx_Authorization = auth, cx_TLS = None, cx_identity = None,
     cx_rest = \<lparr>rq_method = meth, rq_path = path, rq_query = [], rq_Accept = [], rq_body = body\<rparr>\<rparr>"

definition reader_policy :: "api_request Policy" where
  "reader_policy = \<lparr>po_Tokens = [\<lparr>ti_ID = ''app'', ti_Token = ''s3cret'', ti_Scopes = [''read'']\<rparr>], po_BasicIdentities = [],
     po_CertIdentities = [], po_ServerVerify = None, po_AllowAnonymous = False, po_AllowBasicWithoutTLS = False\<rparr>"

lemma trio_put:
  "\<exists>hc1 resp. handlePut (trio_node 5) ''k'' (newHyperCacheBase (level_one (trio [] [] [] [''a'', ''b'', ''c''])))
     (api_call ''PUT'' [''v1'', ''cache'', ''k''] [] ''hey'') = Some (hc1, resp) \<and> as_status resp = 200"
proof -
  let ?w = "level_one (trio [] [] [] [''a'', ''b'', ''c''])" and ?it = "put_item 5 ''k'' (text_to_bytes ''hey'') 0"
  let ?hc = "newHyperCacheBase ?w"
  obtain w1 e where s: "setImpl flat_hash no_json 5 ?w ''a'' ?it = (w1, e)" by fastforce
  have "snd (setImpl flat_hash no_json 5 ?w ''a'' ?it) = None" by (simp add: dist_eval level_one_def put_item_def newItem_def)
  with s have "e = None" by simp
  with s have b: "DistMemory_Set flat_hash no_json 5 ?w ''a'' ?it = (w1, None)"
    by (simp add: DistMemory_Set_def Item_Valid_def put_item_def newItem_def blank_def)
  have "ev_inv (env_hash (trio_env 5)) (evictionAlgorithm ?hc)"
    using lru_rel_new [of 0] by (auto simp: newHyperCacheBase_def nilAlgorithm_def NewLRUAlgorithm_def)
  then obtain a where a: "ev_Set (env_hash (trio_env 5)) nilAlgorithm ''k'' (GBytes (text_to_bytes ''hey'')) = Some a"
    using ev.set_law by (fastforce simp: newHyperCacheBase_def)
  have sz: "setItemSize (trio_env 5) (newItem 5 ''k'' (GBytes (text_to_bytes ''hey'')) 0) = Inr ?it"
    by (simp add: setItemSize_def trio_env_def DistMemory_backend_def Item_SetSize_def newItem_def put_item_def)
  have "\<exists>hc1. insertItem (trio_env 5) False ?hc ''k'' ?it = Some (hc1, None)"
    using a b by (simp add: insertItem_def newHyperCacheBase_def addMemory_def trio_env_def DistMemory_backend_def Item_Valid_def
      put_item_def newItem_def blank_def Let_def)
  then obtain hc1 where "hc_Set (trio_env 5) False 5 ?hc ''k'' (GBytes (text_to_bytes ''hey'')) 0 = Some (hc1, None)"
    using sz by (auto simp: hc_Set_def)
  then show ?thesis by (simp add: handlePut_def trio_node_def api_call_def api_Query_def respond_def)
qed

theorem value_bytes_round_trip_witness:
  "writeValue toy_api (GOther 7) = respond 200 (RawBody ''hey'')"
proof -
  have "ae_rawMessage toy_api (GOther 7) = Some ''#aGV5'' \<and> ae_unquote toy_api ''#aGV5'' = Some (EncodeToString ''hey'')" by code_simp
  then show ?thesis
    using value_bytes_round_trip [of "GOther 7" "''hey''" toy_api "(an_item ''x'' 0 [])\<lparr>Val := GOther 7\<rparr>"] by auto
qed

theorem PUT_then_GET_witness:
  "\<exists>hc1 resp hc2. handlePut (trio_node 5) ''k'' (newHyperCacheBase (level_one (trio [] [] [] [''a'', ''b'', ''c''])))
       (api_call ''PUT'' [''v1'', ''cache'', ''k''] [] ''hey'') = Some (hc1, resp) \<and> as_status resp = 200 \<and>
     client_handleGet toy_api (trio_node 9) ''k'' hc1 (api_call ''GET'' [''v1'', ''cache'', ''k''] [] []) =
       Some (hc2, respond 200 (RawBody ''hey''))"
proof -
  let ?w = "level_one (trio [] [] [] [''a'', ''b'', ''c''])"
  let ?hc = "newHyperCacheBase ?w" and ?dm = "(node_with ''a'' [])\<lparr>readConsistency := ConsistencyOne\<rparr>"
  let ?c = "api_call ''PUT'' [''v1'', ''cache'', ''k''] [] ''hey''" and ?c' = "api_call ''GET'' [''v1'', ''cache'', ''k''] [] []"
  have e: "env_backend (nc_env (trio_node t)) = DistMemory_backend flat_hash no_json (nc_now (trio_node t)) ''a'' (\<lambda>_. [])" for t
    by (simp add: trio_node_def trio_env_def)
  have r: "ready flat_hash trio_ring (hc_backend ?hc) ''a'' ?dm" "\<not> shouldEvict ?hc"
    by (auto simp: ready_def newHyperCacheBase_def world_ok_def level_one_def trio_def node_with_def shards_ok_def shard_ok_def empty_shard_def NewMembership_def)
  have q: "(if api_Query ?c ''ttl'' = [] then Some 0 else ParseDuration (api_Query ?c ''ttl'')) = Some 0"
    by (simp add: api_Query_def api_call_def)
  obtain hc1 resp where p: "handlePut (trio_node 5) ''k'' ?hc ?c = Some (hc1, resp)" "as_status resp = 200" using trio_put by blast
  have "\<not> wantsJSON ?c'" "rq_body (cx_rest ?c) = ''hey''" by (simp_all add: wantsJSON_def api_call_def)
  moreover have "Ring_Lookup flat_hash trio_ring ''k'' \<noteq> []" "hd (Ring_Lookup flat_hash trio_ring ''k'') = ''a''" by simp_all
  ultimately obtain hc2 where "client_handleGet toy_api (trio_node 9) ''k'' hc1 ?c' = Some (hc2, respond 200 (RawBody ''hey''))"
    using PUT_then_GET [OF e r(1) _ _ r(2) q p e, where A = toy_api and c' = ?c'] by auto
  with p show ?thesis by blast
qed


end
