(* ===== verification/Spec2Isabelle.thy ===== *)
theory Spec2Isabelle
  imports Eviction InMemory Stats CacheResults Membership EventBus Pool Trigger DistMerkle DistGossip DistRebalance DistHTTPResults DistOptions ClientAPI
begin

text \<open>
  A verification library for hypercache, a cache library and cache server in Go. File names are relative
  to \<^verbatim>\<open>src/\<close>.

  \<^bold>\<open>The program.\<close> A cache (\<^verbatim>\<open>hypercache*.go\<close>) keeps items in a backend, tracks keys in an eviction algorithm
  (\<^verbatim>\<open>pkg/eviction\<close>), counts in a statistics collector (\<^verbatim>\<open>pkg/stats\<close>) and runs background work on a worker
  pool (\<^verbatim>\<open>pool.go\<close>). The in-memory backend (\<^verbatim>\<open>pkg/backend/inmemory.go\<close>) is a sharded map
  (\<^verbatim>\<open>pkg/cache/v2\<close>). The distributed backend (\<^verbatim>\<open>pkg/backend/dist_*.go\<close>) is one node of a cluster: a ring and
  a membership table (\<^verbatim>\<open>internal/cluster\<close>) say who owns a key, and nodes talk over an in-process or an HTTP
  transport. The server (\<^verbatim>\<open>cmd/hypercache-server\<close>) puts a REST API with authentication
  (\<^verbatim>\<open>pkg/httpauth\<close>) on a cache over that backend.

  \<^bold>\<open>Conventions.\<close> A method under a mutex is a function on the state record of its receiver. \<open>None\<close> as the
  result of an operation is a panic; errors are values of \<open>sentinel\<close> or of an error type of the component.
  A Go map is an association list with distinct keys (\<open>Prelude\<close>). Fixed-width integers that wrap are words,
  or integers with the wrap written out; times are integers in nanoseconds and the current time is an
  argument. Third-party code (xxhash, bcrypt, JSON, YAML and CBOR, token verification) is an argument
  of the definitions that use it. Go's standard library is modelled where the code uses it: \<open>GoHeap\<close>
  (\<^verbatim>\<open>container/heap\<close>), \<open>GoText\<close> and \<open>GoParse\<close> (\<^verbatim>\<open>strconv\<close>, \<^verbatim>\<open>base64\<close>, \<^verbatim>\<open>strings\<close>, \<^verbatim>\<open>time.ParseDuration\<close>) and
  \<open>PathMatch\<close> (\<^verbatim>\<open>path.Match\<close>).

  \<^bold>\<open>Eviction.\<close> \<open>EvictionSpec\<close> has the contract of \<open>IAlgorithm\<close> as locales and a recency list as their
  abstract instance. \<open>DLL\<close> and \<open>IndexedList\<close> are doubly linked lists in a store of nodes under an index.
  \<open>LRU\<close> and \<open>CAWOLFU\<close> (\<^verbatim>\<open>lru.go\<close>, \<^verbatim>\<open>cawolfu.go\<close>) are modelled with their pointers and object pools and
  refine the recency list; \<open>LFU\<close> (\<^verbatim>\<open>lfu.go\<close>) runs on the heap of \<open>GoHeap\<close> and refines a frequency
  specification; \<open>Clock\<close> is \<^verbatim>\<open>clock.go\<close>. \<open>Eviction\<close> (\<^verbatim>\<open>eviction.go\<close>, \<^verbatim>\<open>sharded.go\<close>) is the interface value, the
  registry and the sharding wrapper. Shown: no panic, refinement, capacity bounds, and that CAWOLFU is LRU.

  \<^bold>\<open>The local cache.\<close> \<open>Item\<close>, \<open>CMap\<close>, \<open>Filters\<close> and \<open>InMemory\<close> are the items, the sharded map, the list filters
  and the in-memory backend, with the locales \<open>item_store\<close> and \<open>backend_contract\<close>; \<open>Stats\<close> is the collector, with
  the lock-free updates of \<open>record\<close> as interleaved steps. \<open>HyperCache\<close> has the operations of the cache over any
  backend; \<open>HyperCacheSpec\<close> proves its lemmas inside locales over the two contracts, and \<open>CacheResults\<close>
  interprets them on the in-memory backend: the cache refines a timed map, respects its capacity under
  proactive eviction, and an expiration pass removes exactly the expired items. \<open>Trigger\<close> (the expiration
  trigger), \<open>Pool\<close> (the worker pool) and \<open>EventBus\<close> (\<^verbatim>\<open>internal/eventbus\<close>) are step relations over all
  interleavings of their goroutines, with safety invariants, progress of the shutdown of the pool, and lemmas on
  the schedules that lose a trigger or hang.

  \<^bold>\<open>The cluster.\<close> \<open>Ring\<close> and \<open>Membership\<close> model the consistent-hashing ring and the membership table: owner lists are
  distinct, complete and stable, and owners are members. \<open>DistCore\<close> is the state of one node, \<open>DistHints\<close> its
  queue of hints, and \<open>DistOps\<close> the operations between nodes over the in-process transport; their state
  \<open>World\<close> holds all nodes and the set of those within reach. \<open>DistResults\<close> shows quorum reads after quorum
  writes, the outcomes of writes and removals, read repair and the replay of hints. \<open>DistMerkle\<close> is
  anti-entropy, \<open>DistGossip\<close> gossip and failure detection, \<open>DistRebalance\<close> migration, \<open>DistKeys\<close> the key listing.
  \<open>DistHTTP\<close> models the HTTP server and transport between nodes and \<open>DistHTTPResults\<close> compares them with the
  in-process transport. \<open>DistOptions\<close> is the construction of a node from its options.

  \<^bold>\<open>The server.\<close> \<open>DistCache\<close> takes a node as the backend of the cache. \<open>HttpAuth\<close> is the authentication policy and
  its loader, \<open>ServerConfig\<close> the configuration, the OpenID hook and the options of the node, and \<open>ClientAPI\<close> the
  REST API with all its routes and handlers. Shown: who passes, that no route but the two public ones
  answers or changes anything without a credential of the right scope, that values read back as they were
  put, and what a server started from an environment does.

  \<^bold>\<open>Where the code does not do what it means to,\<close> the theorem states what it does: an algorithm that forgets a key
  leaves it in the backend for ever, anti-entropy destroys acknowledged writes, expiration empties a
  distributed node, a read over HTTP changes lifetimes, and a server with only OpenID is open.

  \<^bold>\<open>Bounds.\<close> Loops are structural or come with a termination proof. Two run on fuel: the loop of \<open>ParseDuration\<close> on the
  length of its input, which a lemma shows to be enough since every round consumes a character, and
  the search of the clock for a free slot on its capacity, which is a full turn of the hand; that it does
  not run out is part of its lemma. The page limit 1024 of the HTTP key listing is the constant of the code. Floating-point
  statistics are exact rationals. Random choices (samples, shuffles) and the order of answers are
  arguments, and the theorems hold for all of them. A transport call succeeds or fails as a whole; in the
  cluster model the calls of different nodes do not interleave.

  \<^bold>\<open>Not modelled.\<close> The Redis backends and the serializers are calls to third-party clients and encoders. The
  service middleware, the latency histograms, meters, tracing and logging observe calls and change nothing. The
  management server (\<^verbatim>\<open>management_http.go\<close>) prints state and calls modelled operations. The typed wrapper adds
  dynamic type assertions, and the value model has no Go types. The registry of backends (\<^verbatim>\<open>factory.go\<close>) only
  selects a constructor. The Go client (\<^verbatim>\<open>pkg/client\<close>) is HTTP round trips to this server. ARC
  (\<^verbatim>\<open>pkg/eviction/arc.go\<close>) is experimental and in no registry. Fault injection, examples and test helpers do
  not run in production. Of the server's start, listeners, TLS files, log level and signal handling are left
  out: they only open sockets and set up logging.
\<close>

end
